(* ===== verification/Prelude.thy ===== *)
theory Prelude
  imports Main "HOL-Library.Word" "HOL-Library.List_Lexorder"
begin

text \<open>
  What every other theory of the development shares: the machine types, the engine's error
  type (\<^verbatim>\<open>crates/embedmind-core/src/error.rs\<close>), Rust's \<^verbatim>\<open>Result\<close> as a sum with the error on the
  left, bounds-checked slices, little-endian fields, and the lemmas about them.

  Conventions. A \<^verbatim>\<open>u8\<close>, \<^verbatim>\<open>u16\<close>, \<^verbatim>\<open>u32\<close>, \<^verbatim>\<open>u64\<close> is a word of that width; a \<^verbatim>\<open>usize\<close> (a length or
  an index into a buffer) is a \<^typ>\<open>nat\<close>. A byte buffer is a list of bytes. A \<^verbatim>\<open>String\<close> is the
  list of its UTF-8 bytes. A \<^verbatim>\<open>Ulid\<close> is its 16-byte big-endian image, the form every file
  structure stores and orders it by (\<^verbatim>\<open>Key = [u8; 16]\<close> in \<^verbatim>\<open>storage/btree.rs\<close>).
\<close>

named_theorems bytes_simps \<open>reading and writing fields of byte buffers\<close>
named_theorems le_simps \<open>little-endian fields\<close>

section \<open>Machine types\<close>

type_synonym byte = "8 word"
type_synonym bytes = "8 word list"
type_synonym u16 = "16 word"
type_synonym u32 = "32 word"
type_synonym u64 = "64 word"
type_synonym ulid = "8 word list"
type_synonym rstring = "8 word list"

text \<open>The crate \<^verbatim>\<open>xxhash-rust\<close> is not part of the repository: the hash is a parameter of every
  definition that computes a checksum, its first argument the seed (\<^verbatim>\<open>xxh3_64\<close> is seed 0).\<close>

type_synonym hash64 = "64 word \<Rightarrow> 8 word list \<Rightarrow> 64 word"

section \<open>Errors and results\<close>

datatype io_kind = NotFound | AlreadyExists | UnexpectedEof | InvalidInput | Other string

datatype error =
    Io io_kind
  | CorruptPage u64
  | BadHeader
  | UnsupportedVersion u32 u32
  | Encrypted
  | WriteLocked
  | PageOutOfBounds u64 u64
  | InvalidArgument string
  | MalformedPage u64 string
  | MalformedRecord string
  | Internal string

type_synonym 'a result = "error + 'a"

text \<open>Rust's \<^verbatim>\<open>?\<close> operator, and \<^verbatim>\<open>Option::ok_or\<close>.\<close>

fun bind_result :: "'e + 'a \<Rightarrow> ('a \<Rightarrow> 'e + 'b) \<Rightarrow> 'e + 'b" where
  "bind_result (Inl e) f = Inl e"
| "bind_result (Inr x) f = f x"

fun ok_or :: "'e \<Rightarrow> 'a option \<Rightarrow> 'e + 'a" where
  "ok_or e None = Inl e"
| "ok_or e (Some x) = Inr x"

text \<open>The same for an operation that also threads a state: \<open>?\<close> keeps the state reached so far.\<close>

fun bind_st :: "('e + 'a) \<times> 's \<Rightarrow> ('a \<Rightarrow> 's \<Rightarrow> ('e + 'b) \<times> 's) \<Rightarrow> ('e + 'b) \<times> 's" where
  "bind_st (Inl e, s) f = (Inl e, s)"
| "bind_st (Inr x, s) f = f x s"

definition is_ok :: "'e + 'a \<Rightarrow> bool" where
  "is_ok r = (case r of Inl _ \<Rightarrow> False | Inr _ \<Rightarrow> True)"

lemma bind_result_Inr_iff:
  "bind_result m f = Inr y \<longleftrightarrow> (\<exists>x. m = Inr x \<and> f x = Inr y)"
  by (cases m) auto

lemma bind_result_Inl_iff:
  "bind_result m f = Inl e \<longleftrightarrow> m = Inl e \<or> (\<exists>x. m = Inr x \<and> f x = Inl e)"
  by (cases m) auto

lemma bind_st_Inr_iff:
  "bind_st m f = (Inr y, s') \<longleftrightarrow> (\<exists>x s. m = (Inr x, s) \<and> f x s = (Inr y, s'))"
  by (cases m rule: prod.exhaust, rename_tac r s, case_tac r) auto

lemma bind_st_assoc: "bind_st (bind_st m f) g = bind_st m (\<lambda>x s. bind_st (f x s) g)"
  by (cases m rule: prod.exhaust, rename_tac r s, case_tac r) auto

lemma ok_or_Inr_iff [simp]: "ok_or e m = Inr x \<longleftrightarrow> m = Some x"
  by (cases m) auto

lemma ok_or_Inl_iff [simp]: "ok_or e m = Inl e' \<longleftrightarrow> m = None \<and> e' = e"
  by (cases m) auto

lemma is_ok_simps [simp]: "is_ok (Inr x)" "\<not> is_ok (Inl e)"
  by (simp_all add: is_ok_def)

lemma is_ok_iff: "is_ok r \<longleftrightarrow> (\<exists>x. r = Inr x)"
  by (cases r) auto

section \<open>Slices\<close>

text \<open>\<^verbatim>\<open>buf.get(a..b)\<close> and the in-place \<^verbatim>\<open>write_bytes\<close> of \<^verbatim>\<open>format.rs\<close>, which leaves the buffer as
  it is when the range does not fit.\<close>

definition seg :: "nat \<Rightarrow> nat \<Rightarrow> 'a list \<Rightarrow> 'a list" where
  "seg off n buf = take n (drop off buf)"

definition get_range :: "'a list \<Rightarrow> nat \<Rightarrow> nat \<Rightarrow> 'a list option" where
  "get_range buf a b = (if a \<le> b \<and> b \<le> length buf then Some (seg a (b - a) buf) else None)"

definition get_at :: "'a list \<Rightarrow> nat \<Rightarrow> 'a option" where
  "get_at buf i = (if i < length buf then Some (buf ! i) else None)"

definition write_bytes :: "'a list \<Rightarrow> nat \<Rightarrow> 'a list \<Rightarrow> 'a list" where
  "write_bytes buf off val =
     (if off + length val \<le> length buf
      then take off buf @ val @ drop (off + length val) buf else buf)"

lemma length_seg [simp]: "length (seg off n buf) = min n (length buf - off)"
  by (simp add: seg_def min.commute)

lemma length_write_bytes [simp]: "length (write_bytes buf off val) = length buf"
  by (auto simp: write_bytes_def)

lemma seg_seg: "j + m \<le> n \<Longrightarrow> seg j m (seg i n buf) = seg (i + j) m buf"
  by (simp add: seg_def take_drop min_def add.commute)

lemma seg_0_all [simp]: "seg 0 (length xs) xs = xs"
  by (simp add: seg_def)

lemma seg_append_left: "off + n \<le> length xs \<Longrightarrow> seg off n (xs @ ys) = seg off n xs"
  by (simp add: seg_def)

lemma seg_append_right: "length xs \<le> off \<Longrightarrow> seg off n (xs @ ys) = seg (off - length xs) n ys"
  by (simp add: seg_def)

lemma seg_append_mid: "seg (length xs) (length ys) (xs @ ys @ zs) = ys"
  by (simp add: seg_def)

lemma get_range_len: "get_range buf off (off + n) = (if off + n \<le> length buf then Some (seg off n buf) else None)"
  by (simp add: get_range_def)

lemma seg_write_same:
  "length val = n \<Longrightarrow> off + n \<le> length buf \<Longrightarrow> seg off n (write_bytes buf off val) = val"
  by (auto simp: write_bytes_def seg_def min_def)

lemma seg_write_before:
  assumes "o2 + n \<le> off"
  shows "seg o2 n (write_bytes buf off val) = seg o2 n buf"
  using assms by (auto simp: write_bytes_def seg_def take_drop min_def)

lemma seg_write_after:
  assumes "off + length val \<le> o2"
  shows "seg o2 n (write_bytes buf off val) = seg o2 n buf"
  using assms by (auto simp: write_bytes_def seg_def)

lemma seg_write_in:
  assumes "off \<le> o2" "o2 + n \<le> off + length val" "off + length val \<le> length buf"
  shows "seg o2 n (write_bytes buf off val) = seg (o2 - off) n val"
  using assms by (auto simp: write_bytes_def seg_def min_def)

end
