(* ===== verification/Bytes.thy ===== *)
theory Bytes
  imports Prelude
begin

text \<open>
  Little-endian integer fields: \<^verbatim>\<open>to_le_bytes\<close>/\<^verbatim>\<open>from_le_bytes\<close> of the standard library and the
  bounds-checked helpers \<^verbatim>\<open>read_u16\<close>, \<^verbatim>\<open>read_u32\<close>, \<^verbatim>\<open>read_u64\<close>, \<^verbatim>\<open>write_u16\<close>, \<^verbatim>\<open>write_u32\<close>,
  \<^verbatim>\<open>write_u64\<close> at the end of \<^verbatim>\<open>format.rs\<close>. The field width is a parameter of the lemmas and the
  helpers are their instances; the locale \<open>le_field\<close> is the law a fixed-width field obeys.
\<close>

section \<open>Little-endian integers\<close>

fun nat_to_le :: "nat \<Rightarrow> nat \<Rightarrow> bytes" where
  "nat_to_le 0 x = []"
| "nat_to_le (Suc n) x = word_of_nat (x mod 256) # nat_to_le n (x div 256)"

fun nat_from_le :: "bytes \<Rightarrow> nat" where
  "nat_from_le [] = 0"
| "nat_from_le (b # bs) = unat b + 256 * nat_from_le bs"

lemma length_nat_to_le [simp]: "length (nat_to_le n x) = n"
  by (induction n arbitrary: x) auto

lemma nat_from_to_le: "nat_from_le (nat_to_le n x) = x mod 256 ^ n"
proof (induction n arbitrary: x)
  case 0
  then show ?case by simp
next
  case (Suc n)
  have "unat (word_of_nat (x mod 256) :: byte) = x mod 256"
    by (simp add: unat_of_nat)
  with Suc show ?case
    by (simp add: mod_mult2_eq mult.commute)
qed

lemma nat_from_le_bound: "nat_from_le bs < 256 ^ length bs"
proof (induction bs)
  case Nil
  then show ?case by simp
next
  case (Cons b bs)
  have "unat b < 256"
    using unsigned_less [of b, where ?'a = nat] by simp
  with Cons show ?case by simp
qed

lemma nat_to_from_le: "length bs = n \<Longrightarrow> nat_to_le n (nat_from_le bs) = bs"
proof (induction bs arbitrary: n)
  case Nil
  then show ?case by simp
next
  case (Cons b bs)
  have "unat b < 256"
    using unsigned_less [of b, where ?'a = nat] by simp
  with Cons show ?case by auto
qed

text \<open>One definition per width the code uses.\<close>

definition u16_to_le :: "u16 \<Rightarrow> bytes" where "u16_to_le w = nat_to_le 2 (unat w)"
definition u32_to_le :: "u32 \<Rightarrow> bytes" where "u32_to_le w = nat_to_le 4 (unat w)"
definition u64_to_le :: "u64 \<Rightarrow> bytes" where "u64_to_le w = nat_to_le 8 (unat w)"

definition u16_from_le :: "bytes \<Rightarrow> u16" where "u16_from_le bs = word_of_nat (nat_from_le bs)"
definition u32_from_le :: "bytes \<Rightarrow> u32" where "u32_from_le bs = word_of_nat (nat_from_le bs)"
definition u64_from_le :: "bytes \<Rightarrow> u64" where "u64_from_le bs = word_of_nat (nat_from_le bs)"

section \<open>The law of a fixed-width field\<close>

locale le_field =
  fixes width :: nat
    and enc :: "'a \<Rightarrow> bytes"
    and dec :: "bytes \<Rightarrow> 'a"
  assumes enc_length: "length (enc x) = width"
    and dec_enc: "dec (enc x) = x"
    and enc_dec: "length bs = width \<Longrightarrow> enc (dec bs) = bs"
begin

lemma enc_inj: "enc x = enc y \<longleftrightarrow> x = y"
  by (metis dec_enc)

text \<open>Reading a field back from a buffer it was written to, and past a write elsewhere.\<close>

lemma seg_write_enc:
  "off + width \<le> length buf \<Longrightarrow> seg off width (write_bytes buf off (enc x)) = enc x"
  by (simp add: seg_write_same enc_length)

lemma dec_seg_write:
  "off + width \<le> length buf \<Longrightarrow> dec (seg off width (write_bytes buf off (enc x))) = x"
  by (simp add: seg_write_enc dec_enc)

lemma dec_seg_append:
  "dec (seg (length xs) width (xs @ enc x @ ys)) = x"
  using seg_append_mid [of xs "enc x" ys] by (simp add: enc_length dec_enc)

lemma dec_inj: "length xs = width \<Longrightarrow> length ys = width \<Longrightarrow> dec xs = dec ys \<longleftrightarrow> xs = ys"
  by (metis enc_dec)

end

lemma word_le_inverse:
  fixes w :: "'a::len word"
  assumes "LENGTH('a) = 8 * n"
  shows "word_of_nat (nat_from_le (nat_to_le n (unat w))) = w"
proof -
  have "(256::nat) ^ n = 2 ^ LENGTH('a)"
    using assms by (simp add: power_mult)
  then show ?thesis
    by (simp add: nat_from_to_le)
qed

lemma le_word_inverse:
  assumes "LENGTH('a::len) = 8 * n" and "length bs = n"
  shows "nat_to_le n (unat (word_of_nat (nat_from_le bs) :: 'a word)) = bs"
proof -
  have "(256::nat) ^ n = 2 ^ LENGTH('a)"
    using assms by (simp add: power_mult)
  then have "unat (word_of_nat (nat_from_le bs) :: 'a word) = nat_from_le bs"
    using nat_from_le_bound [of bs] assms(2) by (simp add: unat_of_nat)
  then show ?thesis
    using assms(2) by (simp add: nat_to_from_le)
qed

interpretation le16: le_field 2 u16_to_le u16_from_le
  by unfold_locales (simp_all add: u16_to_le_def u16_from_le_def word_le_inverse le_word_inverse)

interpretation le32: le_field 4 u32_to_le u32_from_le
  by unfold_locales (simp_all add: u32_to_le_def u32_from_le_def word_le_inverse le_word_inverse)

interpretation le64: le_field 8 u64_to_le u64_from_le
  by unfold_locales (simp_all add: u64_to_le_def u64_from_le_def word_le_inverse le_word_inverse)

lemmas le_lengths [simp] = le16.enc_length le32.enc_length le64.enc_length
lemmas le_inverse [simp] = le16.dec_enc le32.dec_enc le64.dec_enc

section \<open>Bounds-checked fields of a buffer\<close>

definition read_u16 :: "bytes \<Rightarrow> nat \<Rightarrow> u16 option" where
  "read_u16 buf off = map_option u16_from_le (get_range buf off (off + 2))"

definition read_u32 :: "bytes \<Rightarrow> nat \<Rightarrow> u32 option" where
  "read_u32 buf off = map_option u32_from_le (get_range buf off (off + 4))"

definition read_u64 :: "bytes \<Rightarrow> nat \<Rightarrow> u64 option" where
  "read_u64 buf off = map_option u64_from_le (get_range buf off (off + 8))"

definition write_u16 :: "bytes \<Rightarrow> nat \<Rightarrow> u16 \<Rightarrow> bytes" where
  "write_u16 buf off val = write_bytes buf off (u16_to_le val)"

definition write_u32 :: "bytes \<Rightarrow> nat \<Rightarrow> u32 \<Rightarrow> bytes" where
  "write_u32 buf off val = write_bytes buf off (u32_to_le val)"

definition write_u64 :: "bytes \<Rightarrow> nat \<Rightarrow> u64 \<Rightarrow> bytes" where
  "write_u64 buf off val = write_bytes buf off (u64_to_le val)"

lemmas write_defs = write_u16_def write_u32_def write_u64_def

lemma length_writes [simp]:
  "length (write_u16 buf off v16) = length buf"
  "length (write_u32 buf off v32) = length buf"
  "length (write_u64 buf off v64) = length buf"
  by (simp_all add: write_defs)

text \<open>Each reader as a segment of the buffer; a read is defined exactly when its range fits.\<close>

lemma read_u16_seg: "read_u16 buf off = (if off + 2 \<le> length buf then Some (u16_from_le (seg off 2 buf)) else None)"
  by (simp add: read_u16_def get_range_def)

lemma read_u32_seg: "read_u32 buf off = (if off + 4 \<le> length buf then Some (u32_from_le (seg off 4 buf)) else None)"
  by (simp add: read_u32_def get_range_def)

lemma read_u64_seg: "read_u64 buf off = (if off + 8 \<le> length buf then Some (u64_from_le (seg off 8 buf)) else None)"
  by (simp add: read_u64_def get_range_def)

lemmas read_segs = read_u16_seg read_u32_seg read_u64_seg

lemma read_u16_Some: "read_u16 buf off = Some v \<longleftrightarrow> off + 2 \<le> length buf \<and> seg off 2 buf = u16_to_le v"
  by (auto simp: read_u16_seg le16.enc_dec)

lemma read_u32_Some: "read_u32 buf off = Some v \<longleftrightarrow> off + 4 \<le> length buf \<and> seg off 4 buf = u32_to_le v"
  by (auto simp: read_u32_seg le32.enc_dec)

lemma read_u64_Some: "read_u64 buf off = Some v \<longleftrightarrow> off + 8 \<le> length buf \<and> seg off 8 buf = u64_to_le v"
  by (auto simp: read_u64_seg le64.enc_dec)

text \<open>A field read past a write that does not touch it, for the three places the write can be.\<close>

lemma seg_write_disjoint:
  "o2 + n \<le> off \<or> off + length val \<le> o2 \<Longrightarrow> seg o2 n (write_bytes buf off val) = seg o2 n buf"
  using seg_write_before seg_write_after by metis

lemma seg_write_u16:
  "o2 + n \<le> off \<or> off + 2 \<le> o2 \<Longrightarrow> seg o2 n (write_u16 buf off v) = seg o2 n buf"
  "off + 2 \<le> length buf \<Longrightarrow> seg off 2 (write_u16 buf off v) = u16_to_le v"
  by (simp_all add: write_u16_def seg_write_disjoint le16.seg_write_enc)

lemma seg_write_u32:
  "o2 + n \<le> off \<or> off + 4 \<le> o2 \<Longrightarrow> seg o2 n (write_u32 buf off v) = seg o2 n buf"
  "off + 4 \<le> length buf \<Longrightarrow> seg off 4 (write_u32 buf off v) = u32_to_le v"
  by (simp_all add: write_u32_def seg_write_disjoint le32.seg_write_enc)

lemma seg_write_u64:
  "o2 + n \<le> off \<or> off + 8 \<le> o2 \<Longrightarrow> seg o2 n (write_u64 buf off v) = seg o2 n buf"
  "off + 8 \<le> length buf \<Longrightarrow> seg off 8 (write_u64 buf off v) = u64_to_le v"
  by (simp_all add: write_u64_def seg_write_disjoint le64.seg_write_enc)

lemmas field_simps_bytes [bytes_simps] =
  seg_write_u16 seg_write_u32 seg_write_u64 seg_write_disjoint seg_write_same
  read_u16_seg read_u32_seg read_u64_seg

text \<open>A buffer with one field overwritten twice is the buffer overwritten once.\<close>

lemma write_bytes_shadow:
  "length v = length w \<Longrightarrow> write_bytes (write_bytes buf off v) off w = write_bytes buf off w"
  by (auto simp: write_bytes_def)

lemma nth_seg: "i < n \<Longrightarrow> off + i < length buf \<Longrightarrow> seg off n buf ! i = buf ! (off + i)"
  by (simp add: seg_def)

lemma seg_eq_nth: "off < length buf \<Longrightarrow> seg off 1 buf = [buf ! off]"
  by (simp add: seg_def take_Suc hd_drop_conv_nth)

section \<open>Contents at an offset\<close>

text \<open>\<open>holds_at buf off bs\<close>: the buffer holds exactly these bytes from this offset on. Encoders are
  described by what their output holds, and decoders read it back field by field.\<close>

definition holds_at :: "'a list \<Rightarrow> nat \<Rightarrow> 'a list \<Rightarrow> bool" where
  "holds_at buf off bs \<longleftrightarrow> off + length bs \<le> length buf \<and> seg off (length bs) buf = bs"

lemma holds_at_Nil [simp]: "holds_at buf off [] \<longleftrightarrow> off \<le> length buf"
  by (auto simp: holds_at_def seg_def)

lemma holds_at_append:
  "holds_at buf off (xs @ ys) \<longleftrightarrow> holds_at buf off xs \<and> holds_at buf (off + length xs) ys"
proof -
  have "seg off (length xs + length ys) buf = seg off (length xs) buf @ seg (off + length xs) (length ys) buf"
    by (simp add: seg_def take_add add.commute)
  then show ?thesis
    by (auto simp: holds_at_def append_eq_append_conv)
qed

lemma holds_at_Cons: "holds_at buf off (x # xs) \<longleftrightarrow> holds_at buf off [x] \<and> holds_at buf (Suc off) xs"
  using holds_at_append [of buf off "[x]" xs] by simp

lemma holds_at_single: "holds_at buf off [x] \<longleftrightarrow> off < length buf \<and> buf ! off = x"
  using seg_eq_nth [of off buf] by (auto simp: holds_at_def)

lemma holds_at_get_at: "holds_at buf off [x] \<Longrightarrow> get_at buf off = Some x"
  by (simp add: holds_at_single get_at_def)

lemma holds_at_range: "holds_at buf off bs \<Longrightarrow> get_range buf off (off + length bs) = Some bs"
  by (simp add: holds_at_def get_range_def)

lemma holds_at_u16 [simp]: "holds_at buf off (u16_to_le v) \<Longrightarrow> read_u16 buf off = Some v"
  by (simp add: holds_at_def read_u16_Some)

lemma holds_at_u32 [simp]: "holds_at buf off (u32_to_le v) \<Longrightarrow> read_u32 buf off = Some v"
  by (simp add: holds_at_def read_u32_Some)

lemma holds_at_u64 [simp]: "holds_at buf off (u64_to_le v) \<Longrightarrow> read_u64 buf off = Some v"
  by (simp add: holds_at_def read_u64_Some)

lemma holds_at_length: "holds_at buf off bs \<Longrightarrow> off + length bs \<le> length buf"
  by (simp add: holds_at_def)

lemma holds_at_write: "off + length bs \<le> length buf \<Longrightarrow> holds_at (write_bytes buf off bs) off bs"
  by (simp add: holds_at_def seg_write_same)

lemma holds_at_write_other:
  "o2 + length v \<le> off \<or> off + length bs \<le> o2 \<Longrightarrow>
     holds_at (write_bytes buf o2 v) off bs \<longleftrightarrow> holds_at buf off bs"
  by (auto simp: holds_at_def seg_write_disjoint)

lemma holds_at_here: "holds_at (xs @ ys @ zs) (length xs) ys"
  by (simp add: holds_at_def seg_append_mid)

lemma holds_at_seg: "holds_at buf off bs \<Longrightarrow> j + n \<le> length bs \<Longrightarrow> seg (off + j) n buf = seg j n bs"
  by (metis holds_at_def seg_seg)

end
