(* ===== verification/Rust_Std.thy ===== *)
theory Rust_Std
  imports Bytes
begin

text \<open>
  The pieces of Rust's standard library the engine's correctness rests on: the validity test of
  \<^verbatim>\<open>String::from_utf8\<close>, \<^verbatim>\<open>slice::binary_search\<close>, \<^verbatim>\<open>slice::chunks\<close>, and \<^verbatim>\<open>BTreeMap\<close> as a strictly
  sorted association list, with the interface of a finite ordered map as a locale.
\<close>

section \<open>UTF-8\<close>

definition utf8_cont :: "byte \<Rightarrow> bool" where
  "utf8_cont b = (0x80 \<le> b \<and> b \<le> 0xBF)"

text \<open>Well-formed UTF-8 byte sequences: shortest form, no surrogates, at most U+10FFFF.\<close>

fun utf8_valid :: "bytes \<Rightarrow> bool" where
  "utf8_valid [] = True"
| "utf8_valid (b0 # bs) =
     (if b0 \<le> 0x7F then utf8_valid bs
      else if 0xC2 \<le> b0 \<and> b0 \<le> 0xDF then
        (case bs of b1 # r \<Rightarrow> utf8_cont b1 \<and> utf8_valid r | _ \<Rightarrow> False)
      else if 0xE0 \<le> b0 \<and> b0 \<le> 0xEF then
        (case bs of b1 # b2 # r \<Rightarrow>
           (if b0 = 0xE0 then 0xA0 \<le> b1 \<and> b1 \<le> 0xBF
            else if b0 = 0xED then 0x80 \<le> b1 \<and> b1 \<le> 0x9F
            else utf8_cont b1) \<and> utf8_cont b2 \<and> utf8_valid r
         | _ \<Rightarrow> False)
      else if 0xF0 \<le> b0 \<and> b0 \<le> 0xF4 then
        (case bs of b1 # b2 # b3 # r \<Rightarrow>
           (if b0 = 0xF0 then 0x90 \<le> b1 \<and> b1 \<le> 0xBF
            else if b0 = 0xF4 then 0x80 \<le> b1 \<and> b1 \<le> 0x8F
            else utf8_cont b1) \<and> utf8_cont b2 \<and> utf8_cont b3 \<and> utf8_valid r
         | _ \<Rightarrow> False)
      else False)"

lemma utf8_valid_ascii: "(\<forall>b \<in> set bs. b \<le> 0x7F) \<Longrightarrow> utf8_valid bs"
  by (induction bs) auto

text \<open>\<^verbatim>\<open>String::from_utf8\<close>: the same bytes, or an error the caller maps.\<close>

definition from_utf8 :: "bytes \<Rightarrow> rstring option" where
  "from_utf8 bs = (if utf8_valid bs then Some bs else None)"

section \<open>Binary search on a sorted slice\<close>

text \<open>\<^verbatim>\<open>binary_search\<close>: \<open>Inr i\<close> (\<^verbatim>\<open>Ok(i)\<close>) is the position of the key, \<open>Inl i\<close> (\<^verbatim>\<open>Err(i)\<close>) the position
  where it would be inserted. The standard library specifies the result on sorted slices only.\<close>

definition binary_search :: "'k::linorder list \<Rightarrow> 'k \<Rightarrow> nat + nat" where
  "binary_search ks k =
     (let i = length (takeWhile (\<lambda>x. x < k) ks)
      in if i < length ks \<and> ks ! i = k then Inr i else Inl i)"

lemma takeWhile_less_sorted:
  fixes k :: "'k::linorder"
  assumes "sorted_wrt (<) ks"
  shows "ks = filter (\<lambda>x. x < k) ks @ filter (\<lambda>x. k \<le> x) ks"
    and "takeWhile (\<lambda>x. x < k) ks = filter (\<lambda>x. x < k) ks"
  using assms
proof (induction ks)
  case (Cons a ks)
  { case 1
    show ?case
    proof (cases "a < k")
      case True
      with Cons.IH(1) 1 show ?thesis by auto
    next
      case False
      then have "\<forall>x \<in> set ks. k < x" using 1 by auto
      then have "filter (\<lambda>x. x < k) ks = []" "filter (\<lambda>x. k \<le> x) ks = ks"
        by (auto simp: filter_empty_conv filter_id_conv)
      with False show ?thesis by simp
    qed
  next
    case 2
    show ?case
    proof (cases "a < k")
      case True
      with Cons.IH(2) 2 show ?thesis by auto
    next
      case False
      then have "filter (\<lambda>x. x < k) ks = []" using 2 by (auto simp: filter_empty_conv)
      with False show ?thesis by simp
    qed }
qed simp_all

lemma binary_search_Inr:
  "binary_search ks k = Inr i \<Longrightarrow> i < length ks \<and> ks ! i = k"
  by (auto simp: binary_search_def Let_def split: if_splits)

lemma binary_search_Inl:
  assumes "binary_search ks k = Inl i" and "sorted_wrt (<) ks"
  shows "i \<le> length ks" and "k \<notin> set ks"
    and "\<forall>x \<in> set (take i ks). x < k" and "\<forall>x \<in> set (drop i ks). k < x"
proof -
  let ?t = "takeWhile (\<lambda>x. x < k) ks"
  have i: "i = length ?t" and ni: "\<not> (i < length ks \<and> ks ! i = k)"
    using assms(1) by (auto simp: binary_search_def Let_def split: if_splits)
  show "i \<le> length ks" by (simp add: i length_takeWhile_le)
  have tk: "take i ks = ?t" by (simp add: i takeWhile_eq_take [symmetric])
  show lt: "\<forall>x \<in> set (take i ks). x < k"
    by (auto simp: tk dest: set_takeWhileD)
  have dr: "drop i ks = filter (\<lambda>x. k \<le> x) ks"
    using takeWhile_less_sorted [OF assms(2), of k] tk
    by (metis append_eq_conv_conj i)
  have hd: "k \<noteq> hd (drop i ks) \<or> drop i ks = []"
    using ni by (metis drop_eq_Nil hd_drop_conv_nth not_less)
  have srt: "sorted_wrt (<) (drop i ks)"
    using assms(2) by (simp add: sorted_wrt_drop)
  show gt: "\<forall>x \<in> set (drop i ks). k < x"
  proof (cases "drop i ks")
    case (Cons y ys)
    then have "k \<le> y" using dr by (metis filter_eq_Cons_iff)
    with hd Cons have "k < y" by auto
    with srt Cons show ?thesis by auto
  qed simp
  show "k \<notin> set ks"
    using lt gt by (metis Un_iff append_take_drop_id order_less_irrefl set_append)
qed

lemma binary_search_found:
  assumes "sorted_wrt (<) ks" and "k \<in> set ks"
  shows "\<exists>i. binary_search ks k = Inr i"
  using binary_search_Inl [OF _ assms(1)] assms(2)
  by (cases "binary_search ks k") auto

lemma binary_search_Inr_iff:
  assumes "sorted_wrt (<) ks"
  shows "binary_search ks k = Inr i \<longleftrightarrow> i < length ks \<and> ks ! i = k"
proof
  assume r: "i < length ks \<and> ks ! i = k"
  then obtain j where j: "binary_search ks k = Inr j"
    using binary_search_found [OF assms, of k] by (metis nth_mem)
  have "distinct ks" using assms by (simp add: strict_sorted_iff)
  with r binary_search_Inr [OF j] have "i = j" by (metis nth_eq_iff_index_eq)
  with j show "binary_search ks k = Inr i" by simp
qed (rule binary_search_Inr)

section \<open>\<open>slice::chunks\<close>\<close>

function chunks :: "nat \<Rightarrow> 'a list \<Rightarrow> 'a list list" where
  "chunks n xs = (if n = 0 \<or> xs = [] then [] else take n xs # chunks n (drop n xs))"
  by pat_completeness auto
termination
  by (relation "measure (\<lambda>(n, xs). length xs)") auto

declare chunks.simps [simp del]

lemma chunks_Nil [simp]: "chunks n [] = []"
  by (simp add: chunks.simps)

lemma chunks_step: "0 < n \<Longrightarrow> xs \<noteq> [] \<Longrightarrow> chunks n xs = take n xs # chunks n (drop n xs)"
  by (simp add: chunks.simps)

lemma concat_chunks: "0 < n \<Longrightarrow> concat (chunks n xs) = xs"
proof (induction n xs rule: chunks.induct)
  case (1 n xs)
  then show ?case
    by (cases "xs = []") (simp_all add: chunks_step)
qed

lemma chunks_bounds: "0 < n \<Longrightarrow> c \<in> set (chunks n xs) \<Longrightarrow> 0 < length c \<and> length c \<le> n"
proof (induction n xs rule: chunks.induct)
  case (1 n xs)
  then show ?case
    by (cases "xs = []") (auto simp: chunks_step)
qed

section \<open>Ordered maps\<close>

text \<open>The part of \<^verbatim>\<open>BTreeMap\<close> the engine uses: \<^verbatim>\<open>get\<close>, \<^verbatim>\<open>insert\<close>, and iteration in key order.\<close>

lemma alist_by_keys:
  "distinct (map fst xs) \<Longrightarrow> xs = map (\<lambda>k. (k, the (map_of xs k))) (map fst xs)"
  by (rule sym, subst map_map, rule map_idI) (auto simp: map_of_eq_Some_iff)

locale ordered_map =
  fixes empty :: 'm
    and get :: "'m \<Rightarrow> 'k::linorder \<Rightarrow> 'v option"
    and insert :: "'k \<Rightarrow> 'v \<Rightarrow> 'm \<Rightarrow> 'm"
    and entries :: "'m \<Rightarrow> ('k \<times> 'v) list"
    and invar :: "'m \<Rightarrow> bool"
  assumes get_empty: "get empty k = None"
    and get_insert: "invar m \<Longrightarrow> get (insert k v m) k' = (if k' = k then Some v else get m k')"
    and invar_empty: "invar empty"
    and invar_insert: "invar m \<Longrightarrow> invar (insert k v m)"
    and entries_sorted: "invar m \<Longrightarrow> sorted_wrt (<) (map fst (entries m))"
    and entries_get: "invar m \<Longrightarrow> get m k = Some v \<longleftrightarrow> (k, v) \<in> set (entries m)"
begin

text \<open>Inserting a whole list, later entries last, as \<^verbatim>\<open>extend\<close> does.\<close>

definition insert_all :: "('k \<times> 'v) list \<Rightarrow> 'm \<Rightarrow> 'm" where
  "insert_all kvs m = fold (\<lambda>(k, v) m. insert k v m) kvs m"

lemma insert_all_Cons [simp]: "insert_all ((k, v) # kvs) m = insert_all kvs (insert k v m)"
  by (simp add: insert_all_def)

lemma insert_all_Nil [simp]: "insert_all [] m = m"
  by (simp add: insert_all_def)

lemma invar_insert_all: "invar m \<Longrightarrow> invar (insert_all kvs m)"
  by (induction kvs arbitrary: m) (auto simp: invar_insert)

lemma get_insert_all: "invar m \<Longrightarrow> get (insert_all kvs m) = get m ++ map_of (rev kvs)"
proof (induction kvs arbitrary: m)
  case (Cons kv kvs)
  obtain k v where kv: "kv = (k, v)" by (cases kv)
  have upd: "get (insert k v m) = (get m)(k \<mapsto> v)"
    using Cons.prems by (auto simp: get_insert)
  have "get (insert_all (kv # kvs) m) = (get m)(k \<mapsto> v) ++ map_of (rev kvs)"
    using Cons.IH [OF invar_insert [OF Cons.prems]] by (simp only: kv insert_all_Cons upd)
  then show ?case by (simp add: kv)
qed simp

text \<open>A strictly sorted list of entries is determined by the map it represents.\<close>

lemma entries_unique:
  assumes "invar m" "invar m'" "get m = get m'"
  shows "entries m = entries m'"
proof -
  have dist: "distinct (map fst (entries x))" if "invar x" for x
    using entries_sorted [OF that] by (simp add: strict_sorted_iff)
  have mapo: "map_of (entries x) = get x" if "invar x" for x
  proof
    fix k
    show "map_of (entries x) k = get x k"
      using map_of_eq_Some_iff [OF dist [OF that], of k] entries_get [OF that, of k]
      by (metis not_Some_eq)
  qed
  have keys: "set (map fst (entries x)) = dom (get x)" if "invar x" for x
    by (simp add: mapo [OF that, symmetric] dom_map_of_conv_image_fst)
  have "map fst (entries m) = map fst (entries m')"
    using assms entries_sorted keys by (metis strict_sorted_equal)
  moreover have "map_of (entries m) = map_of (entries m')"
    using assms mapo by simp
  ultimately show ?thesis
    using dist assms(1,2) by (metis alist_by_keys)
qed

end

fun bmap_insert :: "'k::linorder \<Rightarrow> 'v \<Rightarrow> ('k \<times> 'v) list \<Rightarrow> ('k \<times> 'v) list" where
  "bmap_insert k v [] = [(k, v)]"
| "bmap_insert k v ((k', v') # m) =
     (if k < k' then (k, v) # (k', v') # m
      else if k = k' then (k, v) # m
      else (k', v') # bmap_insert k v m)"

definition bmap_wf :: "('k::linorder \<times> 'v) list \<Rightarrow> bool" where
  "bmap_wf m = sorted_wrt (<) (map fst m)"

lemma map_of_bmap_insert [simp]: "map_of (bmap_insert k v m) = (map_of m)(k \<mapsto> v)"
  by (induction m rule: bmap_insert.induct) auto

lemma keys_bmap_insert [simp]: "fst ` set (bmap_insert k v m) = insert k (fst ` set m)"
  by (induction m rule: bmap_insert.induct) auto

lemma bmap_wf_insert: "bmap_wf m \<Longrightarrow> bmap_wf (bmap_insert k v m)"
proof (induction k v m rule: bmap_insert.induct)
  case (2 k v k' v' m)
  have "set (map fst (bmap_insert k v m)) = insert k (set (map fst m))"
    by (simp only: set_map keys_bmap_insert)
  with 2 show ?case
    by (force simp: bmap_wf_def)
qed (simp add: bmap_wf_def)

lemma bmap_wf_distinct: "bmap_wf m \<Longrightarrow> distinct (map fst m)"
  by (simp add: bmap_wf_def strict_sorted_iff)

interpretation bmap: ordered_map "[]" map_of bmap_insert "\<lambda>m. m" bmap_wf
  by unfold_locales (auto simp: bmap_wf_insert bmap_wf_distinct, simp_all add: bmap_wf_def)

lemma bmap_insert_max: "\<forall>x \<in> fst ` set m. x < k \<Longrightarrow> bmap_insert k v m = m @ [(k, v)]"
  by (induction m) (auto simp: not_less_iff_gr_or_eq)

end
