(* ===== verification/Page_Format.thy ===== *)
theory Page_Format
  imports Rust_Std
begin

text \<open>
  The page framing of \<^verbatim>\<open>format.rs\<close>: format constants, page types, the common 16-byte page header
  and the checksum trailer. The hash of the trailer is the parameter \<open>xxh\<close>.
\<close>

section \<open>Constants\<close>

definition MAGIC :: bytes where
  "MAGIC = [0x4D, 0x49, 0x4E, 0x44, 0x46, 0x4D, 0x54, 0x31]" \<comment> \<open>\<^verbatim>\<open>b"MINDFMT1"\<close>\<close>

definition WAL_MAGIC :: bytes where
  "WAL_MAGIC = [0x4D, 0x49, 0x4E, 0x44, 0x57, 0x41, 0x4C, 0x31]" \<comment> \<open>\<^verbatim>\<open>b"MINDWAL1"\<close>\<close>

definition FORMAT_VERSION :: u32 where [simp]: "FORMAT_VERSION = 8"
definition DEFAULT_PAGE_SIZE :: u32 where [simp]: "DEFAULT_PAGE_SIZE = 4096"
definition MIN_PAGE_SIZE :: u32 where [simp]: "MIN_PAGE_SIZE = 512"
definition MAX_PAGE_SIZE :: u32 where [simp]: "MAX_PAGE_SIZE = 65536"
definition PAGE_TRAILER_LEN :: nat where [simp]: "PAGE_TRAILER_LEN = 8"
definition PAGE_HEADER_LEN :: nat where [simp]: "PAGE_HEADER_LEN = 16"
definition MAX_MODEL_ID_LEN :: nat where [simp]: "MAX_MODEL_ID_LEN = 64"

lemma length_magic [simp]: "length MAGIC = 8" "length WAL_MAGIC = 8"
  by (simp_all add: MAGIC_def WAL_MAGIC_def)

section \<open>Page types\<close>

datatype page_type =
    BtreeInner | BtreeLeaf | Vector | HnswNodePage | HnswMetaPage | Freelist | Overflow
  | FtsDict | FtsPostings | GraphDict | GraphOverflow | FilterMeta | FilterSymbols

text \<open>The discriminants of \<^verbatim>\<open>#[repr(u8)] enum PageType\<close> (\<^verbatim>\<open>page_type as u8\<close>).\<close>

fun page_type_to_u8 :: "page_type \<Rightarrow> byte" where
  "page_type_to_u8 BtreeInner = 0x01"
| "page_type_to_u8 BtreeLeaf = 0x02"
| "page_type_to_u8 Vector = 0x03"
| "page_type_to_u8 HnswNodePage = 0x04"
| "page_type_to_u8 HnswMetaPage = 0x05"
| "page_type_to_u8 Freelist = 0x06"
| "page_type_to_u8 Overflow = 0x07"
| "page_type_to_u8 FtsDict = 0x08"
| "page_type_to_u8 FtsPostings = 0x09"
| "page_type_to_u8 GraphDict = 0x0A"
| "page_type_to_u8 GraphOverflow = 0x0B"
| "page_type_to_u8 FilterMeta = 0x0C"
| "page_type_to_u8 FilterSymbols = 0x0D"

definition page_type_from_u8 :: "byte \<Rightarrow> page_type option" where
  "page_type_from_u8 v =
     (if v = 0x01 then Some BtreeInner
      else if v = 0x02 then Some BtreeLeaf
      else if v = 0x03 then Some Vector
      else if v = 0x04 then Some HnswNodePage
      else if v = 0x05 then Some HnswMetaPage
      else if v = 0x06 then Some Freelist
      else if v = 0x07 then Some Overflow
      else if v = 0x08 then Some FtsDict
      else if v = 0x09 then Some FtsPostings
      else if v = 0x0A then Some GraphDict
      else if v = 0x0B then Some GraphOverflow
      else if v = 0x0C then Some FilterMeta
      else if v = 0x0D then Some FilterSymbols
      else None)"

lemma page_type_roundtrip [simp]: "page_type_from_u8 (page_type_to_u8 t) = Some t"
  by (cases t) (simp_all add: page_type_from_u8_def)

lemma page_type_from_u8_Some: "page_type_from_u8 v = Some t \<Longrightarrow> v = page_type_to_u8 t"
  by (auto simp: page_type_from_u8_def split: if_splits)

section \<open>Page sizes\<close>

definition is_power_of_two :: "u32 \<Rightarrow> bool" where
  "is_power_of_two w = list_ex (\<lambda>k. unat w = 2 ^ k) [0..<32]"

definition page_size_is_valid :: "u32 \<Rightarrow> bool" where
  "page_size_is_valid ps = (MIN_PAGE_SIZE \<le> ps \<and> ps \<le> MAX_PAGE_SIZE \<and> is_power_of_two ps)"

lemma page_size_bounds:
  assumes "page_size_is_valid ps"
  shows "512 \<le> unat ps" "unat ps \<le> 65536"
  using assms by (simp_all add: page_size_is_valid_def word_le_nat_alt)

section \<open>The common page header\<close>

record page_header =
  ph_page_type :: page_type
  ph_entry_count :: u32
  ph_next_page :: u64

definition page_header_encode_into :: "page_header \<Rightarrow> bytes \<Rightarrow> bytes" where
  "page_header_encode_into h page =
     (let page = write_bytes page 0 [page_type_to_u8 (ph_page_type h), 0, 0, 0];
          page = write_u32 page 4 (ph_entry_count h)
      in write_u64 page 8 (ph_next_page h))"

definition page_header_decode :: "bytes \<Rightarrow> page_header option" where
  "page_header_decode page =
     (if length page < PAGE_HEADER_LEN then None
      else Option.bind (get_at page 0) (\<lambda>b.
           Option.bind (page_type_from_u8 b) (\<lambda>t.
           Option.bind (read_u32 page 4) (\<lambda>n.
           Option.bind (read_u64 page 8) (\<lambda>next.
             Some \<lparr>ph_page_type = t, ph_entry_count = n, ph_next_page = next\<rparr>)))))"

lemma length_page_header_encode_into [simp]:
  "length (page_header_encode_into h page) = length page"
  by (simp add: page_header_encode_into_def Let_def)

text \<open>The 16 header bytes as one segment: what any later write above offset 16 leaves alone.\<close>

definition page_header_bytes :: "page_header \<Rightarrow> bytes" where
  "page_header_bytes h =
     [page_type_to_u8 (ph_page_type h), 0, 0, 0] @ u32_to_le (ph_entry_count h) @ u64_to_le (ph_next_page h)"

lemma length_page_header_bytes [simp]: "length (page_header_bytes h) = 16"
  by (simp add: page_header_bytes_def)

lemma seg_split: "seg off (m + n) buf = seg off m buf @ seg (off + m) n buf"
  by (simp add: seg_def take_add add.commute)

lemma page_header_encode_seg:
  assumes "16 \<le> length page"
  shows "seg 0 16 (page_header_encode_into h page) = page_header_bytes h"
proof -
  let ?p = "page_header_encode_into h page"
  have "seg 0 16 ?p = seg 0 4 ?p @ seg 4 4 ?p @ seg 8 8 ?p"
    using seg_split [of 0 4 12 ?p] seg_split [of 4 4 8 ?p] by simp
  moreover have "seg 0 4 ?p = [page_type_to_u8 (ph_page_type h), 0, 0, 0]"
    using assms by (simp add: page_header_encode_into_def Let_def bytes_simps)
  moreover have "seg 4 4 ?p = u32_to_le (ph_entry_count h)" "seg 8 8 ?p = u64_to_le (ph_next_page h)"
    using assms by (simp_all add: page_header_encode_into_def Let_def bytes_simps)
  ultimately show ?thesis by (simp add: page_header_bytes_def)
qed

lemma page_header_encode_rest:
  "16 \<le> off \<Longrightarrow> seg off n (page_header_encode_into h page) = seg off n page"
  by (simp add: page_header_encode_into_def Let_def bytes_simps)

lemma page_header_decode_seg:
  assumes "seg 0 16 page = page_header_bytes h" "16 \<le> length page"
  shows "page_header_decode page = Some h"
proof -
  have parts: "seg j m page = seg j m (page_header_bytes h)" if "j + m \<le> 16" for j m
    using that assms(1) seg_seg [of j m 16 0 page] by simp
  have "seg 0 1 page = [page_type_to_u8 (ph_page_type h)]"
    using parts [of 0 1] by (simp add: page_header_bytes_def seg_def)
  then have b0: "get_at page 0 = Some (page_type_to_u8 (ph_page_type h))"
    using assms(2) seg_eq_nth [of 0 page] by (cases page) (simp_all add: get_at_def)
  have f: "seg 4 4 page = u32_to_le (ph_entry_count h)" "seg 8 8 page = u64_to_le (ph_next_page h)"
    using parts [of 4 4] parts [of 8 8] by (simp_all add: page_header_bytes_def seg_def)
  show ?thesis
    using assms(2) b0 by (simp add: page_header_decode_def read_segs f)
qed

lemma page_header_roundtrip:
  "16 \<le> length page \<Longrightarrow> page_header_decode (page_header_encode_into h page) = Some h"
  by (rule page_header_decode_seg) (simp_all add: page_header_encode_seg)

lemma page_header_decode_Some:
  assumes "page_header_decode page = Some h"
  shows "16 \<le> length page" "page ! 0 = page_type_to_u8 (ph_page_type h)"
    "seg 4 4 page = u32_to_le (ph_entry_count h)" "seg 8 8 page = u64_to_le (ph_next_page h)"
  using assms
  by (auto simp: page_header_decode_def bind_eq_Some_conv get_at_def read_u32_Some read_u64_Some
      split: if_splits dest: page_type_from_u8_Some)

text \<open>Only the first 16 bytes matter.\<close>

lemma page_header_decode_cong:
  assumes "seg 0 16 page = seg 0 16 page'" "16 \<le> length page" "16 \<le> length page'"
  shows "page_header_decode page = page_header_decode page'"
proof -
  have "seg j m page = seg j m page'" if "j + m \<le> 16" for j m
    using that assms(1) seg_seg [of j m 16 0 page] seg_seg [of j m 16 0 page'] by simp
  from this [of 0 1] this [of 4 4] this [of 8 8] show ?thesis
    using assms(2,3)
    by (auto simp: page_header_decode_def read_segs get_at_def seg_eq_nth [of 0, simplified])
qed

section \<open>Page checksums\<close>

definition page_checksum :: "hash64 \<Rightarrow> bytes \<Rightarrow> u64" where
  "page_checksum xxh page = xxh 0 (take (length page - PAGE_TRAILER_LEN) page)"

text \<open>A page is never shorter than its trailer: \<^verbatim>\<open>copy_from_slice\<close> would panic on one that is.\<close>

definition stamp_page_checksum :: "hash64 \<Rightarrow> bytes \<Rightarrow> bytes" where
  "stamp_page_checksum xxh page =
     write_bytes page (length page - PAGE_TRAILER_LEN) (u64_to_le (page_checksum xxh page))"

definition page_checksum_is_valid :: "hash64 \<Rightarrow> bytes \<Rightarrow> bool" where
  "page_checksum_is_valid xxh page =
     (if length page < PAGE_TRAILER_LEN then False
      else read_u64 page (length page - PAGE_TRAILER_LEN) = Some (page_checksum xxh page))"

lemma length_stamp [simp]: "length (stamp_page_checksum xxh page) = length page"
  by (simp add: stamp_page_checksum_def)

lemma take_write_bytes: "take off (write_bytes buf off val) = take off buf"
  by (auto simp: write_bytes_def)

lemma stamp_keeps_checksum:
  "page_checksum xxh (stamp_page_checksum xxh page) = page_checksum xxh page"
  by (simp add: page_checksum_def stamp_page_checksum_def take_write_bytes)

lemma stamp_valid: "8 \<le> length page \<Longrightarrow> page_checksum_is_valid xxh (stamp_page_checksum xxh page)"
  by (simp add: page_checksum_is_valid_def stamp_keeps_checksum)
     (simp add: stamp_page_checksum_def read_u64_seg le64.dec_seg_write)

lemma stamp_seg: "off + n + 8 \<le> length page \<Longrightarrow> seg off n (stamp_page_checksum xxh page) = seg off n page"
  by (simp add: stamp_page_checksum_def seg_write_before)

lemma stamp_idem: "stamp_page_checksum xxh (stamp_page_checksum xxh page) = stamp_page_checksum xxh page"
  unfolding stamp_page_checksum_def [of xxh "stamp_page_checksum xxh page"] stamp_keeps_checksum
  by (simp add: stamp_page_checksum_def write_bytes_shadow)

text \<open>A page whose trailer is right is a fixed point of stamping.\<close>

lemma stamp_of_valid:
  assumes "page_checksum_is_valid xxh page"
  shows "stamp_page_checksum xxh page = page"
proof -
  have len: "8 \<le> length page" and tr: "seg (length page - 8) 8 page = u64_to_le (page_checksum xxh page)"
    using assms by (auto simp: page_checksum_is_valid_def read_u64_Some split: if_splits)
  then have "drop (length page - 8) page = u64_to_le (page_checksum xxh page)"
    by (simp add: seg_def)
  with len show ?thesis
    by (simp add: stamp_page_checksum_def write_bytes_def) (metis append_take_drop_id)
qed

end
