(* ===== verification/Header_Format.thy ===== *)
theory Header_Format
  imports Page_Format
begin

text \<open>
  Page 0 of a \<^verbatim>\<open>.mind\<close> file (\<^verbatim>\<open>Header\<close> in \<^verbatim>\<open>format.rs\<close>): its fields, \<^verbatim>\<open>Header::new\<close>,
  \<^verbatim>\<open>peek_page_size\<close>, \<^verbatim>\<open>encode\<close> and \<^verbatim>\<open>decode\<close>, the round trip between the last two, and the order in
  which \<^verbatim>\<open>decode\<close> reports damage.
\<close>

unbundle bit_operations_syntax

section \<open>Layout and state\<close>

definition FLAG_ENCRYPTED :: u32 where [simp]: "FLAG_ENCRYPTED = 1"

definition OFF_MAGIC :: nat where [simp]: "OFF_MAGIC = 0"
definition OFF_VERSION :: nat where [simp]: "OFF_VERSION = 8"
definition OFF_PAGE_SIZE :: nat where [simp]: "OFF_PAGE_SIZE = 12"
definition OFF_PAGE_COUNT :: nat where [simp]: "OFF_PAGE_COUNT = 16"
definition OFF_ROOT_BTREE :: nat where [simp]: "OFF_ROOT_BTREE = 24"
definition OFF_FREELIST :: nat where [simp]: "OFF_FREELIST = 32"
definition OFF_HNSW_META :: nat where [simp]: "OFF_HNSW_META = 40"
definition OFF_TXN_COUNTER :: nat where [simp]: "OFF_TXN_COUNTER = 48"
definition OFF_DIMS :: nat where [simp]: "OFF_DIMS = 56"
definition OFF_QUANT :: nat where [simp]: "OFF_QUANT = 58"
definition OFF_MODEL_ID :: nat where [simp]: "OFF_MODEL_ID = 60"
definition OFF_FLAGS :: nat where [simp]: "OFF_FLAGS = 128"
definition OFF_FTS_ROOT :: nat where [simp]: "OFF_FTS_ROOT = 156"
definition OFF_GRAPH_ROOT :: nat where [simp]: "OFF_GRAPH_ROOT = 164"
definition OFF_FILTER_META :: nat where [simp]: "OFF_FILTER_META = 172"
definition OFF_FILTER_SYMBOLS :: nat where [simp]: "OFF_FILTER_SYMBOLS = 180"
definition HEADER_PEEK_LEN :: nat where [simp]: "HEADER_PEEK_LEN = 16"

record header =
  format_version :: u32
  page_size :: u32
  page_count :: u64
  root_btree_page :: u64
  freelist_page :: u64
  hnsw_meta_page :: u64
  fts_root_page :: u64
  graph_root_page :: u64
  filter_meta_page :: u64
  filter_symbols_page :: u64
  txn_counter :: u64
  embedding_dims :: u16
  embedding_quant :: u16
  embedding_model_id :: rstring
  flags :: u32

section \<open>Operations\<close>

definition header_new :: "u32 \<Rightarrow> header result" where
  "header_new ps =
     (if \<not> page_size_is_valid ps then Inl (InvalidArgument ''unsupported page size'')
      else Inr \<lparr>format_version = FORMAT_VERSION, page_size = ps, page_count = 1,
                root_btree_page = 0, freelist_page = 0, hnsw_meta_page = 0, fts_root_page = 0,
                graph_root_page = 0, filter_meta_page = 0, filter_symbols_page = 0,
                txn_counter = 0, embedding_dims = 0, embedding_quant = 0,
                embedding_model_id = [], flags = 0\<rparr>)"

definition peek_page_size :: "bytes \<Rightarrow> u32 result" where
  "peek_page_size prefix =
     (if get_range prefix OFF_MAGIC (OFF_MAGIC + 8) \<noteq> Some MAGIC then Inl BadHeader
      else bind_result (ok_or BadHeader (read_u32 prefix OFF_PAGE_SIZE)) (\<lambda>ps.
        if \<not> page_size_is_valid ps then Inl BadHeader else Inr ps))"

text \<open>The writes of \<^verbatim>\<open>encode\<close>, onto a zero-filled page, before the checksum is stamped.\<close>

definition header_fields :: "header \<Rightarrow> bytes \<Rightarrow> bytes" where
  "header_fields h page =
     (let page = replicate (length page) 0;
          page = write_bytes page OFF_MAGIC MAGIC;
          page = write_u32 page OFF_VERSION (format_version h);
          page = write_u32 page OFF_PAGE_SIZE (page_size h);
          page = write_u64 page OFF_PAGE_COUNT (page_count h);
          page = write_u64 page OFF_ROOT_BTREE (root_btree_page h);
          page = write_u64 page OFF_FREELIST (freelist_page h);
          page = write_u64 page OFF_HNSW_META (hnsw_meta_page h);
          page = write_u64 page OFF_TXN_COUNTER (txn_counter h);
          page = write_u16 page OFF_DIMS (embedding_dims h);
          page = write_u16 page OFF_QUANT (embedding_quant h);
          page = write_u32 page OFF_MODEL_ID (word_of_nat (length (embedding_model_id h)));
          page = write_bytes page (OFF_MODEL_ID + 4) (embedding_model_id h);
          page = write_u32 page OFF_FLAGS (flags h);
          page = write_u64 page OFF_FTS_ROOT (fts_root_page h);
          page = write_u64 page OFF_GRAPH_ROOT (graph_root_page h);
          page = write_u64 page OFF_FILTER_META (filter_meta_page h)
      in write_u64 page OFF_FILTER_SYMBOLS (filter_symbols_page h))"

definition header_encode :: "hash64 \<Rightarrow> header \<Rightarrow> bytes \<Rightarrow> bytes result" where
  "header_encode xxh h page =
     (if length page \<noteq> unat (page_size h) \<or> \<not> page_size_is_valid (page_size h)
      then Inl (InvalidArgument ''header buffer must be one page'')
      else if MAX_MODEL_ID_LEN < length (embedding_model_id h)
      then Inl (InvalidArgument ''embedding_model_id exceeds 64 bytes'')
      else if flags h AND FLAG_ENCRYPTED \<noteq> 0
      then Inl (InvalidArgument ''encrypted flag is reserved in v1'')
      else Inr (stamp_page_checksum xxh (header_fields h page)))"

definition header_decode :: "hash64 \<Rightarrow> bytes \<Rightarrow> header result" where
  "header_decode xxh page =
     (if get_range page OFF_MAGIC (OFF_MAGIC + 8) \<noteq> Some MAGIC then Inl BadHeader
      else bind_result (ok_or BadHeader (read_u32 page OFF_VERSION)) (\<lambda>version.
      if version = 0 then Inl BadHeader
      else if FORMAT_VERSION < version then Inl (UnsupportedVersion version FORMAT_VERSION)
      else bind_result (ok_or BadHeader (read_u32 page OFF_PAGE_SIZE)) (\<lambda>ps.
      if \<not> page_size_is_valid ps \<or> length page \<noteq> unat ps then Inl BadHeader
      else if \<not> page_checksum_is_valid xxh page then Inl (CorruptPage 0)
      else bind_result (ok_or BadHeader (read_u32 page OFF_FLAGS)) (\<lambda>fl.
      if fl AND FLAG_ENCRYPTED \<noteq> 0 then Inl Encrypted
      else bind_result (ok_or BadHeader (read_u32 page OFF_MODEL_ID)) (\<lambda>idl.
      let id_len = unat idl in
      if MAX_MODEL_ID_LEN < id_len then Inl BadHeader
      else bind_result (ok_or BadHeader
             (get_range page (OFF_MODEL_ID + 4) (OFF_MODEL_ID + 4 + id_len))) (\<lambda>id_bytes.
      bind_result (ok_or BadHeader (from_utf8 id_bytes)) (\<lambda>model_id.
      bind_result (ok_or BadHeader (read_u64 page OFF_PAGE_COUNT)) (\<lambda>pc.
      if pc = 0 then Inl BadHeader
      else
      bind_result (ok_or BadHeader (read_u64 page OFF_ROOT_BTREE)) (\<lambda>root.
      bind_result (ok_or BadHeader (read_u64 page OFF_FREELIST)) (\<lambda>free.
      bind_result (ok_or BadHeader (read_u64 page OFF_HNSW_META)) (\<lambda>hnsw.
      bind_result (ok_or BadHeader (read_u64 page OFF_FTS_ROOT)) (\<lambda>fts.
      bind_result (ok_or BadHeader (read_u64 page OFF_GRAPH_ROOT)) (\<lambda>graph.
      bind_result (ok_or BadHeader (read_u64 page OFF_FILTER_META)) (\<lambda>fmeta.
      bind_result (ok_or BadHeader (read_u64 page OFF_FILTER_SYMBOLS)) (\<lambda>fsym.
      bind_result (ok_or BadHeader (read_u64 page OFF_TXN_COUNTER)) (\<lambda>txn.
      bind_result (ok_or BadHeader (read_u16 page OFF_DIMS)) (\<lambda>dims.
      bind_result (ok_or BadHeader (read_u16 page OFF_QUANT)) (\<lambda>quant.
        Inr \<lparr>format_version = version, page_size = ps, page_count = pc,
             root_btree_page = root, freelist_page = free, hnsw_meta_page = hnsw,
             fts_root_page = fts, graph_root_page = graph, filter_meta_page = fmeta,
             filter_symbols_page = fsym, txn_counter = txn, embedding_dims = dims,
             embedding_quant = quant, embedding_model_id = model_id, flags = fl\<rparr>))))))))))))))))))"

section \<open>Well-formed headers and the round trip\<close>

text \<open>What \<^verbatim>\<open>decode\<close> accepts, as a predicate on the decoded value.\<close>

definition header_wf :: "header \<Rightarrow> bool" where
  "header_wf h \<longleftrightarrow>
     format_version h \<noteq> 0 \<and> format_version h \<le> FORMAT_VERSION \<and>
     page_size_is_valid (page_size h) \<and> page_count h \<noteq> 0 \<and>
     length (embedding_model_id h) \<le> MAX_MODEL_ID_LEN \<and> utf8_valid (embedding_model_id h) \<and>
     flags h AND FLAG_ENCRYPTED = 0"

lemma length_header_fields [simp]: "length (header_fields h page) = length page"
  by (simp add: header_fields_def Let_def)

lemma header_fields_segs:
  assumes "512 \<le> length page" "length (embedding_model_id h) \<le> 64"
  defines "p \<equiv> header_fields h page"
  shows "seg 0 8 p = MAGIC"
    "seg 8 4 p = u32_to_le (format_version h)" "seg 12 4 p = u32_to_le (page_size h)"
    "seg 16 8 p = u64_to_le (page_count h)" "seg 24 8 p = u64_to_le (root_btree_page h)"
    "seg 32 8 p = u64_to_le (freelist_page h)" "seg 40 8 p = u64_to_le (hnsw_meta_page h)"
    "seg 48 8 p = u64_to_le (txn_counter h)" "seg 56 2 p = u16_to_le (embedding_dims h)"
    "seg 58 2 p = u16_to_le (embedding_quant h)"
    "seg 60 4 p = u32_to_le (word_of_nat (length (embedding_model_id h)))"
    "seg 64 (length (embedding_model_id h)) p = embedding_model_id h"
    "seg 128 4 p = u32_to_le (flags h)" "seg 156 8 p = u64_to_le (fts_root_page h)"
    "seg 164 8 p = u64_to_le (graph_root_page h)" "seg 172 8 p = u64_to_le (filter_meta_page h)"
    "seg 180 8 p = u64_to_le (filter_symbols_page h)"
  using assms(1,2) by (simp_all add: p_def header_fields_def Let_def bytes_simps)

lemma header_encode_Inr:
  assumes "header_encode xxh h page = Inr page'"
  shows "page' = stamp_page_checksum xxh (header_fields h page)"
    "length page = unat (page_size h)" "page_size_is_valid (page_size h)"
    "length (embedding_model_id h) \<le> 64" "flags h AND 1 = 0" "512 \<le> length page"
  using assms page_size_bounds [of "page_size h"]
  by (auto simp: header_encode_def split: if_splits)

lemma header_encode_segs:
  assumes "header_encode xxh h page = Inr page'" "off + n + 8 \<le> length page"
  shows "seg off n page' = seg off n (header_fields h page)"
  using header_encode_Inr(1) [OF assms(1)] assms(2) by (simp add: stamp_seg)

lemma header_roundtrip:
  assumes enc: "header_encode xxh h page = Inr page'" and wf: "header_wf h"
  shows "header_decode xxh page' = Inr h"
proof -
  note e = header_encode_Inr [OF enc]
  have len: "length page' = length page"
    using e(1) by simp
  have valid: "page_checksum_is_valid xxh page'"
    using e(1,6) by (simp add: stamp_valid)
  note f = header_fields_segs [OF e(6) e(4)]
  have g: "seg off n page' = seg off n (header_fields h page)" if "off + n \<le> 504" for off n
    using header_encode_segs [OF enc] that e(6) by simp
  have idlen: "unat (word_of_nat (length (embedding_model_id h)) :: u32) = length (embedding_model_id h)"
    using e(4) by (simp add: unat_of_nat)
  show ?thesis
    using wf e(2,4,6)
    by (simp add: header_decode_def header_wf_def get_range_def from_utf8_def read_segs len valid
        g f idlen Let_def not_less)
qed

lemma header_decode_wf: "header_decode xxh page = Inr h \<Longrightarrow> header_wf h"
  by (auto simp: header_decode_def header_wf_def bind_result_Inr_iff Let_def get_range_def
      from_utf8_def split: if_splits)

lemma header_decode_Inr:
  assumes "header_decode xxh page = Inr h"
  shows "length page = unat (page_size h)" "page_checksum_is_valid xxh page"
    "seg 0 8 page = MAGIC" "seg 12 4 page = u32_to_le (page_size h)"
  using assms
  by (auto simp: header_decode_def bind_result_Inr_iff Let_def get_range_def read_u32_Some
      split: if_splits)

lemma header_encode_ok:
  assumes "header_wf h" "length page = unat (page_size h)"
  shows "\<exists>page'. header_encode xxh h page = Inr page'"
  using assms by (simp add: header_encode_def header_wf_def)

lemma header_new_wf: "header_new ps = Inr h \<Longrightarrow> header_wf h \<and> page_size h = ps"
  by (auto simp: header_new_def header_wf_def split: if_splits)

text \<open>The first 16 bytes of an encoded header give its page size back.\<close>

lemma peek_page_size_encode:
  assumes "header_encode xxh h page = Inr page'"
  shows "peek_page_size (take 16 page') = Inr (page_size h)"
proof -
  note e = header_encode_Inr [OF assms]
  note f = header_fields_segs [OF e(6) e(4)]
  have len: "length page' = length page" using e(1) by simp
  have g: "seg off n (take 16 page') = seg off n (header_fields h page)" if "off + n \<le> 16" for off n
    using that e(6) header_encode_segs [OF assms, of off n]
    by (simp add: seg_def take_drop min_def)
  show ?thesis
    using e(3,6) len
    by (simp add: peek_page_size_def get_range_def read_segs g f)
qed

end
