(* ===== verification/Wal_Format.thy ===== *)
theory Wal_Format
  imports Header_Format
begin

text \<open>
  WAL framing (\<^verbatim>\<open>WalHeader\<close>, \<^verbatim>\<open>WalFrameHeader\<close>, \<^verbatim>\<open>frame_checksum\<close> in \<^verbatim>\<open>format.rs\<close>). A frame is a
  32-byte header followed by one page image; its checksum is seeded with the salt of the WAL
  generation and covers the first 24 header bytes and the image.
\<close>

definition WAL_HEADER_LEN :: nat where [simp]: "WAL_HEADER_LEN = 32"
definition WAL_FRAME_HEADER_LEN :: nat where [simp]: "WAL_FRAME_HEADER_LEN = 32"

section \<open>The WAL file header\<close>

record wal_header =
  wh_format_version :: u32
  wh_page_size :: u32
  wh_salt :: u64

definition wal_header_encode :: "wal_header \<Rightarrow> bytes" where
  "wal_header_encode h =
     (let buf = replicate WAL_HEADER_LEN 0;
          buf = write_bytes buf 0 WAL_MAGIC;
          buf = write_u32 buf 8 (wh_format_version h);
          buf = write_u32 buf 12 (wh_page_size h)
      in write_u64 buf 16 (wh_salt h))"

definition wal_header_decode :: "bytes \<Rightarrow> wal_header option" where
  "wal_header_decode buf =
     (if get_range buf 0 8 \<noteq> Some WAL_MAGIC then None
      else Option.bind (read_u32 buf 8) (\<lambda>version.
           Option.bind (read_u32 buf 12) (\<lambda>ps.
           if version = 0 \<or> FORMAT_VERSION < version \<or> \<not> page_size_is_valid ps then None
           else Option.bind (read_u64 buf 16) (\<lambda>salt.
             Some \<lparr>wh_format_version = version, wh_page_size = ps, wh_salt = salt\<rparr>))))"

definition wal_header_wf :: "wal_header \<Rightarrow> bool" where
  "wal_header_wf h \<longleftrightarrow> wh_format_version h \<noteq> 0 \<and> wh_format_version h \<le> FORMAT_VERSION \<and>
     page_size_is_valid (wh_page_size h)"

lemma length_wal_header_encode [simp]: "length (wal_header_encode h) = 32"
  by (simp add: wal_header_encode_def Let_def)

lemma wal_header_roundtrip: "wal_header_wf h \<Longrightarrow> wal_header_decode (wal_header_encode h) = Some h"
  by (simp add: wal_header_decode_def wal_header_encode_def wal_header_wf_def Let_def
      get_range_def not_less bytes_simps)

lemma wal_header_decode_wf: "wal_header_decode buf = Some h \<Longrightarrow> wal_header_wf h"
  by (auto simp: wal_header_decode_def wal_header_wf_def bind_eq_Some_conv not_less split: if_splits)

section \<open>Frame headers\<close>

record wal_frame_header =
  wf_page_no :: u64
  wf_txn_id :: u64
  wf_commit :: bool

definition frame_checksum :: "hash64 \<Rightarrow> bytes \<Rightarrow> bytes \<Rightarrow> u64 \<Rightarrow> u64" where
  "frame_checksum xxh frame_hdr page_image salt =
     xxh salt (case get_range frame_hdr 0 24 of Some b \<Rightarrow> b @ page_image | None \<Rightarrow> page_image)"

definition wal_frame_encode :: "hash64 \<Rightarrow> wal_frame_header \<Rightarrow> bytes \<Rightarrow> u64 \<Rightarrow> bytes" where
  "wal_frame_encode xxh h page_image salt =
     (let buf = replicate WAL_FRAME_HEADER_LEN 0;
          buf = write_u64 buf 0 (wf_page_no h);
          buf = write_u64 buf 8 (wf_txn_id h);
          buf = buf[16 := (if wf_commit h then 1 else 0)];
          sum = frame_checksum xxh buf page_image salt
      in write_u64 buf 24 sum)"

definition wal_frame_decode :: "hash64 \<Rightarrow> bytes \<Rightarrow> bytes \<Rightarrow> u64 \<Rightarrow> wal_frame_header option" where
  "wal_frame_decode xxh buf page_image salt =
     (if length buf < WAL_FRAME_HEADER_LEN then None
      else Option.bind (read_u64 buf 24) (\<lambda>stored.
           if stored \<noteq> frame_checksum xxh buf page_image salt then None
           else Option.bind (get_at buf 16) (\<lambda>commit_byte.
           if 1 < commit_byte then None
           else Option.bind (read_u64 buf 0) (\<lambda>page_no.
                Option.bind (read_u64 buf 8) (\<lambda>txn_id.
                  Some \<lparr>wf_page_no = page_no, wf_txn_id = txn_id, wf_commit = (commit_byte = 1)\<rparr>)))))"

lemma length_wal_frame_encode [simp]: "length (wal_frame_encode xxh h img salt) = 32"
  by (simp add: wal_frame_encode_def Let_def)

lemma list_update_write: "i < length buf \<Longrightarrow> buf[i := b] = write_bytes buf i [b]"
  by (simp add: write_bytes_def upd_conv_take_nth_drop)

lemma frame_checksum_write:
  "length buf = 32 \<Longrightarrow> frame_checksum xxh (write_u64 buf 24 s) img salt = frame_checksum xxh buf img salt"
  by (simp add: frame_checksum_def get_range_def bytes_simps)

lemma wal_frame_roundtrip: "wal_frame_decode xxh (wal_frame_encode xxh h img salt) img salt = Some h"
proof -
  let ?b0 = "write_u64 (write_u64 (replicate 32 0) 0 (wf_page_no h)) 8 (wf_txn_id h)"
  let ?c = "if wf_commit h then 1 else 0 :: byte"
  let ?b = "write_bytes ?b0 16 [?c]"
  let ?e = "wal_frame_encode xxh h img salt"
  have e: "?e = write_u64 ?b 24 (frame_checksum xxh ?b img salt)"
    by (simp add: wal_frame_encode_def Let_def list_update_write)
  have c: "frame_checksum xxh ?e img salt = frame_checksum xxh ?b img salt"
    unfolding e by (rule frame_checksum_write) simp
  have "seg 16 1 ?e = [?c]"
    unfolding e by (simp add: bytes_simps)
  then have b16: "?e ! 16 = ?c"
    using seg_eq_nth [of 16 ?e] by simp
  have s: "seg 0 8 ?e = u64_to_le (wf_page_no h)" "seg 8 8 ?e = u64_to_le (wf_txn_id h)"
    "seg 24 8 ?e = u64_to_le (frame_checksum xxh ?b img salt)"
    unfolding e by (simp_all add: bytes_simps)
  show ?thesis
    by (simp add: wal_frame_decode_def read_segs s c get_at_def b16)
qed

text \<open>A frame that decodes carries the checksum of exactly these header bytes, image and salt.\<close>

lemma wal_frame_decode_checksum:
  "wal_frame_decode xxh buf img salt = Some h \<Longrightarrow>
     seg 24 8 buf = u64_to_le (frame_checksum xxh buf img salt)"
  by (auto simp: wal_frame_decode_def bind_eq_Some_conv read_u64_Some split: if_splits)

text \<open>Of a 32-byte header only the bytes 17 to 23 are not determined by the decoded value.\<close>

lemma wal_frame_decode_fields:
  assumes "wal_frame_decode xxh buf img salt = Some h"
  shows "seg 0 8 buf = u64_to_le (wf_page_no h)" "seg 8 8 buf = u64_to_le (wf_txn_id h)"
    "buf ! 16 = (if wf_commit h then 1 else 0)" "32 \<le> length buf"
proof -
  have le1: "b = 0 \<or> b = 1" if "\<not> 1 < b" for b :: byte
  proof -
    have "unat b \<le> 1" using that by (simp add: word_less_nat_alt)
    then have "unat b = 0 \<or> unat b = 1" by linarith
    then show ?thesis by (metis unsigned_0 unsigned_1 unsigned_word_eqI)
  qed
  from assms le1 [of "buf ! 16"] show "seg 0 8 buf = u64_to_le (wf_page_no h)" "seg 8 8 buf = u64_to_le (wf_txn_id h)"
    "buf ! 16 = (if wf_commit h then 1 else 0)" "32 \<le> length buf"
    by (auto simp: wal_frame_decode_def bind_eq_Some_conv read_u64_Some get_at_def split: if_splits)
qed

end
