(* ===== verification/Sim_Vfs.thy ===== *)
theory Sim_Vfs
  imports Rust_Std
begin

text \<open>
  The file system under the pager. \<^verbatim>\<open>storage/vfs.rs\<close> declares the interface (\<^verbatim>\<open>Vfs\<close>, \<^verbatim>\<open>VfsFile\<close>)
  and \<^verbatim>\<open>storage/sim.rs\<close> implements it in memory with the crash model of the engine: each file has
  a synced image and a current image, the n-th mutating operation can be made to fail (before it
  acts, or after a torn write), and a power failure rebuilds every file sector by sector from the
  two images. The model is \<^verbatim>\<open>SimVfs\<close>, the state shared by its handles passed explicitly.

  A \<^verbatim>\<open>Mutex\<close> is taken for one operation at a time, so an operation is one step. \<^verbatim>\<open>power_fail\<close> visits
  the files of a \<^verbatim>\<open>HashMap\<close>: the order of the visit is an argument.
\<close>

unbundle bit_operations_syntax

section \<open>State\<close>

type_synonym path = string

datatype open_mode = MustExist | CreateNew | OpenOrCreate

datatype crash_mode = Before | Torn

definition SECTOR_SIZE :: nat where [simp]: "SECTOR_SIZE = 512"

record sim_file_data =
  synced :: bytes
  current :: bytes
  locked_by :: "u64 option"

record sim_state =
  files :: "path \<Rightarrow> sim_file_data option"
  ops :: u64
  crash_at :: "(u64 \<times> crash_mode \<times> u64) option"
  crashed :: bool
  lying_sync :: bool
  next_handle_id :: u64

record sim_file =
  sf_path :: path
  sf_handle_id :: u64

definition sim_new :: sim_state where
  "sim_new = \<lparr>files = (\<lambda>_. None), ops = 0, crash_at = None, crashed = False,
              lying_sync = False, next_handle_id = 0\<rparr>"

definition empty_file :: sim_file_data where
  "empty_file = \<lparr>synced = [], current = [], locked_by = None\<rparr>"

definition crash_error :: error where
  "crash_error = Io (Other ''simulated power failure'')"

section \<open>The random generator\<close>

definition splitmix_next :: "u64 \<Rightarrow> u64 \<times> u64" where
  "splitmix_next s =
     (let s = s + 0x9E3779B97F4A7C15;
          z = s;
          z = (z XOR drop_bit 30 z) * 0xBF58476D1CE4E5B9;
          z = (z XOR drop_bit 27 z) * 0x94D049BB133111EB
      in (z XOR drop_bit 31 z, s))"

definition splitmix_bool :: "u64 \<Rightarrow> bool \<times> u64" where
  "splitmix_bool s = (let (v, s) = splitmix_next s in (v AND 1 = 1, s))"

section \<open>Crash control\<close>

definition arm_crash :: "u64 \<Rightarrow> crash_mode \<Rightarrow> u64 \<Rightarrow> sim_state \<Rightarrow> sim_state" where
  "arm_crash at_op mode torn_seed st = st\<lparr>crash_at := Some (at_op, mode, torn_seed)\<rparr>"

definition set_lying_sync :: "bool \<Rightarrow> sim_state \<Rightarrow> sim_state" where
  "set_lying_sync lying st = st\<lparr>lying_sync := lying\<rparr>"

text \<open>The sector loop of \<^verbatim>\<open>power_fail\<close>: the rebuilt bytes from \<open>off\<close> on, and the generator after.\<close>

function mix_sectors :: "bytes \<Rightarrow> bytes \<Rightarrow> nat \<Rightarrow> nat \<Rightarrow> u64 \<Rightarrow> bytes \<times> u64" where
  "mix_sectors cur syn final_len off rng =
     (if off < final_len then
        let e = min (off + SECTOR_SIZE) final_len;
            (b, rng) = splitmix_bool rng;
            src = if b then cur else syn;
            chunk = map (\<lambda>i. if i < length src then src ! i else 0) [off..<e];
            (rest, rng) = mix_sectors cur syn final_len e rng
        in (chunk @ rest, rng)
      else ([], rng))"
  by pat_completeness auto
termination
  by (relation "measure (\<lambda>(cur, syn, final_len, off, rng). final_len - off)") auto

declare mix_sectors.simps [simp del]

definition power_fail_file :: "sim_file_data \<Rightarrow> u64 \<Rightarrow> sim_file_data \<times> u64" where
  "power_fail_file d rng =
     (let (b, rng) = splitmix_bool rng;
          final_len = (if b then length (current d) else length (synced d));
          (rebuilt, rng) = mix_sectors (current d) (synced d) final_len 0 rng
      in (\<lparr>synced = rebuilt, current = rebuilt, locked_by = None\<rparr>, rng))"

fun power_fail_files :: "path list \<Rightarrow> (path \<Rightarrow> sim_file_data option) \<Rightarrow> u64 \<Rightarrow>
    (path \<Rightarrow> sim_file_data option)" where
  "power_fail_files [] fs rng = fs"
| "power_fail_files (p # ps) fs rng =
     (case fs p of
        None \<Rightarrow> power_fail_files ps fs rng
      | Some d \<Rightarrow> let (d', rng) = power_fail_file d rng in power_fail_files ps (fs(p \<mapsto> d')) rng)"

definition power_fail :: "u64 \<Rightarrow> path list \<Rightarrow> sim_state \<Rightarrow> sim_state" where
  "power_fail seed order st =
     st\<lparr>files := power_fail_files order (files st) seed, crash_at := None, crashed := False\<rparr>"

definition enter_mut_op :: "bool \<Rightarrow> sim_state \<Rightarrow> (u64 option) result \<times> sim_state" where
  "enter_mut_op supports_torn st =
     (if crashed st then (Inl crash_error, st)
      else let op = ops st;
               st = st\<lparr>ops := op + 1\<rparr>
           in case crash_at st of
                Some (at_op, mode, torn_seed) \<Rightarrow>
                  if op = at_op
                  then (if mode = Torn \<and> supports_torn then Inr (Some torn_seed) else Inl crash_error,
                        st\<lparr>crashed := True\<rparr>)
                  else (Inr None, st)
              | None \<Rightarrow> (Inr None, st))"

section \<open>The file system\<close>

definition vfs_open :: "path \<Rightarrow> open_mode \<Rightarrow> sim_state \<Rightarrow> sim_file result \<times> sim_state" where
  "vfs_open p mode st =
     (if crashed st then (Inl crash_error, st)
      else if mode = MustExist \<and> files st p = None then (Inl (Io NotFound), st)
      else if mode = CreateNew \<and> files st p \<noteq> None then (Inl (Io AlreadyExists), st)
      else let st = (if files st p = None then st\<lparr>files := (files st)(p \<mapsto> empty_file)\<rparr> else st)
           in (Inr \<lparr>sf_path = p, sf_handle_id = next_handle_id st\<rparr>,
               st\<lparr>next_handle_id := next_handle_id st + 1\<rparr>))"

definition vfs_delete :: "path \<Rightarrow> sim_state \<Rightarrow> unit result \<times> sim_state" where
  "vfs_delete p st =
     (if crashed st then (Inl crash_error, st)
      else case files st p of
             Some _ \<Rightarrow> (Inr (), st\<lparr>files := (files st)(p := None)\<rparr>)
           | None \<Rightarrow> (Inl (Io NotFound), st))"

definition vfs_exists :: "path \<Rightarrow> sim_state \<Rightarrow> bool" where
  "vfs_exists p st = (files st p \<noteq> None)"

definition vfs_rename :: "path \<Rightarrow> path \<Rightarrow> sim_state \<Rightarrow> unit result \<times> sim_state" where
  "vfs_rename src dst st =
     (case files st src of
        None \<Rightarrow> (Inl (Io NotFound), st)
      | Some d \<Rightarrow>
          let st = st\<lparr>files := (files st)(src := None, dst := Some d)\<rparr>
          in case enter_mut_op False st of
               (Inl e, st) \<Rightarrow> (Inl e, st)
             | (Inr _, st) \<Rightarrow> (Inr (), st))"

definition file_read_at :: "sim_file \<Rightarrow> nat \<Rightarrow> nat \<Rightarrow> sim_state \<Rightarrow> bytes result" where
  "file_read_at f n offset st =
     (if crashed st then Inl crash_error
      else case files st (sf_path f) of
             None \<Rightarrow> Inl (Io NotFound)
           | Some d \<Rightarrow> ok_or (Io UnexpectedEof) (get_range (current d) offset (offset + n)))"

text \<open>The torn branch of \<^verbatim>\<open>write_at\<close>: each sector of the range is written or kept.\<close>

function torn_write :: "bytes \<Rightarrow> nat \<Rightarrow> nat \<Rightarrow> nat \<Rightarrow> bytes \<Rightarrow> u64 \<Rightarrow> bytes" where
  "torn_write buf start e pos cur rng =
     (if pos < e then
        let chunk_end = min ((pos div SECTOR_SIZE + 1) * SECTOR_SIZE) e;
            (b, rng) = splitmix_bool rng;
            cur = (if b then write_bytes cur pos (seg (pos - start) (chunk_end - pos) buf) else cur)
        in torn_write buf start e chunk_end cur rng
      else cur)"
  by pat_completeness auto
termination
proof (relation "measure (\<lambda>(buf, start, e, pos, cur, rng). e - pos)", goal_cases)
  case (2 buf start e pos cur rng chunk_end x b rng' cur')
  have "pos < (pos div 512 + 1) * 512"
    using dividend_less_div_times [of 512 pos] by simp
  with 2 show ?case by (auto simp: min_def)
qed simp

declare torn_write.simps [simp del]

definition pad_to :: "nat \<Rightarrow> bytes \<Rightarrow> bytes" where
  "pad_to n xs = xs @ replicate (n - length xs) 0"

definition file_write_at :: "sim_file \<Rightarrow> bytes \<Rightarrow> nat \<Rightarrow> sim_state \<Rightarrow> unit result \<times> sim_state" where
  "file_write_at f buf offset st =
     (case enter_mut_op True st of
        (Inl e, st) \<Rightarrow> (Inl e, st)
      | (Inr torn, st) \<Rightarrow>
          (case files st (sf_path f) of
             None \<Rightarrow> (Inl (Io NotFound), st)
           | Some d \<Rightarrow>
               let e = offset + length buf;
                   cur = pad_to e (current d)
               in case torn of
                    None \<Rightarrow> (Inr (), st\<lparr>files := (files st)(sf_path f \<mapsto>
                               d\<lparr>current := write_bytes cur offset buf\<rparr>)\<rparr>)
                  | Some seed \<Rightarrow> (Inl crash_error, st\<lparr>files := (files st)(sf_path f \<mapsto>
                               d\<lparr>current := torn_write buf offset e offset cur seed\<rparr>)\<rparr>)))"

definition file_sync :: "sim_file \<Rightarrow> sim_state \<Rightarrow> unit result \<times> sim_state" where
  "file_sync f st =
     (case enter_mut_op False st of
        (Inl e, st) \<Rightarrow> (Inl e, st)
      | (Inr _, st) \<Rightarrow>
          if lying_sync st then (Inr (), st)
          else case files st (sf_path f) of
                 None \<Rightarrow> (Inl (Io NotFound), st)
               | Some d \<Rightarrow> (Inr (), st\<lparr>files := (files st)(sf_path f \<mapsto> d\<lparr>synced := current d\<rparr>)\<rparr>))"

definition file_truncate :: "sim_file \<Rightarrow> nat \<Rightarrow> sim_state \<Rightarrow> unit result \<times> sim_state" where
  "file_truncate f len st =
     (case enter_mut_op False st of
        (Inl e, st) \<Rightarrow> (Inl e, st)
      | (Inr _, st) \<Rightarrow>
          (case files st (sf_path f) of
             None \<Rightarrow> (Inl (Io NotFound), st)
           | Some d \<Rightarrow> (Inr (), st\<lparr>files := (files st)(sf_path f \<mapsto>
                         d\<lparr>current := pad_to len (take len (current d))\<rparr>)\<rparr>)))"

definition file_len :: "sim_file \<Rightarrow> sim_state \<Rightarrow> nat result" where
  "file_len f st =
     (if crashed st then Inl crash_error
      else case files st (sf_path f) of
             None \<Rightarrow> Inl (Io NotFound)
           | Some d \<Rightarrow> Inr (length (current d)))"

definition file_try_lock_exclusive :: "sim_file \<Rightarrow> sim_state \<Rightarrow> bool result \<times> sim_state" where
  "file_try_lock_exclusive f st =
     (if crashed st then (Inl crash_error, st)
      else case files st (sf_path f) of
             None \<Rightarrow> (Inl (Io NotFound), st)
           | Some d \<Rightarrow>
               if locked_by d \<noteq> None \<and> locked_by d \<noteq> Some (sf_handle_id f) then (Inr False, st)
               else (Inr True, st\<lparr>files := (files st)(sf_path f \<mapsto>
                       d\<lparr>locked_by := Some (sf_handle_id f)\<rparr>)\<rparr>))"

definition file_drop :: "sim_file \<Rightarrow> sim_state \<Rightarrow> sim_state" where
  "file_drop f st =
     (case files st (sf_path f) of
        Some d \<Rightarrow> if locked_by d = Some (sf_handle_id f)
                   then st\<lparr>files := (files st)(sf_path f \<mapsto> d\<lparr>locked_by := None\<rparr>)\<rparr> else st
      | None \<Rightarrow> st)"

section \<open>What a power failure leaves of a file\<close>

text \<open>A byte of an image, zero past its end, as \<^verbatim>\<open>src.get(i).copied().unwrap_or(0)\<close>.\<close>

definition byte_at :: "bytes \<Rightarrow> nat \<Rightarrow> byte" where
  "byte_at xs i = (if i < length xs then xs ! i else 0)"

lemma mix_sectors_0: "\<not> off < n \<Longrightarrow> mix_sectors cur syn n off rng = ([], rng)"
  by (subst mix_sectors.simps) simp

lemma mix_sectors_step:
  assumes "off < n"
  shows "fst (mix_sectors cur syn n off rng) =
    map (byte_at (if fst (splitmix_bool rng) then cur else syn)) [off..<min (off + 512) n] @
    fst (mix_sectors cur syn n (min (off + 512) n) (snd (splitmix_bool rng)))"
  using assms by (subst mix_sectors.simps) (simp add: Let_def split_beta byte_at_def)

lemma length_mix_sectors [simp]: "length (fst (mix_sectors cur syn n off rng)) = n - off"
proof (induction cur syn n off rng rule: mix_sectors.induct)
  case (1 cur syn n off rng)
  show ?case
  proof (cases "off < n")
    case True
    from "1.IH" [OF True refl _ refl, of "fst (splitmix_bool rng)" "snd (splitmix_bool rng)"]
    have "length (fst (mix_sectors cur syn n (min (off + 512) n) (snd (splitmix_bool rng)))) =
      n - min (off + 512) n"
      by (simp add: Let_def)
    with True show ?thesis by (simp add: mix_sectors_step)
  qed (simp add: mix_sectors_0)
qed

lemma mix_sectors_nth:
  assumes "i < n - off"
  shows "fst (mix_sectors cur syn n off rng) ! i \<in> {byte_at cur (off + i), byte_at syn (off + i)}"
  using assms
proof (induction "n - off" arbitrary: off i rng rule: less_induct)
  case less
  then have off: "off < n" by simp
  let ?e = "min (off + 512) n"
  show ?case
  proof (cases "off + i < ?e")
    case True
    then have "i < ?e - off" "[off..<?e] ! i = off + i" by (linarith, rule nth_upt)
    then show ?thesis
      by (simp add: mix_sectors_step [OF off] nth_append)
  next
    case False
    have "fst (mix_sectors cur syn n ?e (snd (splitmix_bool rng))) ! (i - (?e - off)) \<in>
        {byte_at cur (?e + (i - (?e - off))), byte_at syn (?e + (i - (?e - off)))}"
      using less False off by (intro less.hyps) auto
    moreover have "?e + (i - (?e - off)) = off + i" "\<not> i < ?e - off"
      using False off by auto
    ultimately show ?thesis
      by (simp add: mix_sectors_step [OF off] nth_append add.commute)
  qed
qed

text \<open>The possible images of a file after a power failure.\<close>

definition crash_image :: "sim_file_data \<Rightarrow> bytes \<Rightarrow> bool" where
  "crash_image d bs \<longleftrightarrow> (\<exists>rng. fst (power_fail_file d rng) =
     \<lparr>synced = bs, current = bs, locked_by = None\<rparr>)"

lemma crash_image_mix:
  assumes "crash_image d bs"
  obtains rng where "bs = fst (mix_sectors (current d) (synced d) (length bs) 0 rng)"
    "length bs = length (current d) \<or> length bs = length (synced d)"
proof -
  obtain rng where "fst (power_fail_file d rng) = \<lparr>synced = bs, current = bs, locked_by = None\<rparr>"
    using assms by (auto simp: crash_image_def)
  then have bs: "bs = fst (mix_sectors (current d) (synced d)
      (if fst (splitmix_bool rng) then length (current d) else length (synced d)) 0
      (snd (splitmix_bool rng)))"
    by (simp add: power_fail_file_def Let_def split_beta)
  then have len: "length bs = (if fst (splitmix_bool rng) then length (current d) else length (synced d))"
    by (simp only: length_mix_sectors diff_zero)
  show ?thesis
    by (rule that [of "snd (splitmix_bool rng)"]) (use bs len in auto)
qed

lemma crash_image_byte:
  assumes "crash_image d bs" "i < length bs"
  shows "bs ! i \<in> {byte_at (current d) i, byte_at (synced d) i}"
  using assms crash_image_mix [OF assms(1)] mix_sectors_nth [of i "length bs" 0 "current d" "synced d"]
  by (metis add_0 diff_zero)

text \<open>What both images share at the front survives; a file whose images agree survives whole.\<close>

lemma crash_image_prefix:
  assumes "crash_image d bs" "take n (current d) = take n (synced d)"
    "n \<le> length (current d)" "n \<le> length (synced d)"
  shows "n \<le> length bs" "take n bs = take n (synced d)"
proof -
  show n: "n \<le> length bs"
    using crash_image_mix [OF assms(1)] assms(3,4) by metis
  have "bs ! i = synced d ! i" if "i < n" for i
  proof -
    have "current d ! i = synced d ! i"
      using assms(2) that by (metis nth_take)
    with that n assms(3,4) crash_image_byte [OF assms(1), of i] show ?thesis
      by (auto simp: byte_at_def)
  qed
  then show "take n bs = take n (synced d)"
    using n assms(4) by (intro nth_equalityI) auto
qed

lemma crash_image_same:
  assumes "crash_image d bs" "current d = synced d"
  shows "bs = synced d"
proof -
  have "length bs = length (synced d)"
    using crash_image_mix [OF assms(1)] assms(2) by metis
  with crash_image_prefix [OF assms(1), of "length (synced d)"] assms(2) show ?thesis by simp
qed

text \<open>The first sector comes from one of the two images as a whole.\<close>

lemma crash_image_first_sector:
  assumes "crash_image d bs" "n \<le> 512" "n \<le> length bs"
  shows "take n bs = map (byte_at (current d)) [0..<n] \<or> take n bs = map (byte_at (synced d)) [0..<n]"
proof (cases "n = 0")
  case False
  obtain rng where bs: "bs = fst (mix_sectors (current d) (synced d) (length bs) 0 rng)"
    using crash_image_mix [OF assms(1)] by metis
  have "0 < length bs" using False assms(3) by linarith
  from mix_sectors_step [OF this, of "current d" "synced d" rng]
  have "take n bs = take n (map (byte_at (if fst (splitmix_bool rng) then current d else synced d))
      [0..<min 512 (length bs)])"
    using assms(2,3) by (subst bs) simp
  then show ?thesis
    using assms(2,3) by (auto simp: take_map split: if_splits)
qed simp

lemma power_fail_files_outcome:
  assumes "distinct order" "p \<in> set order" "fs p = Some d"
  shows "\<exists>bs. crash_image d bs \<and> power_fail_files order fs rng p =
    Some \<lparr>synced = bs, current = bs, locked_by = None\<rparr>"
  using assms
proof (induction order arbitrary: fs rng)
  case (Cons q order)
  have keep: "power_fail_files ps fs' r q = fs' q" if "q \<notin> set ps" for ps fs' r
    using that by (induction ps arbitrary: fs' r) (auto split: option.splits prod.splits)
  show ?case
  proof (cases "p = q")
    case True
    obtain d' r' where d': "power_fail_file d rng = (d', r')" by fastforce
    obtain bs where bs: "d' = \<lparr>synced = bs, current = bs, locked_by = None\<rparr>"
      using d' by (auto simp: power_fail_file_def Let_def split: prod.splits)
    have "crash_image d bs"
      unfolding crash_image_def using d' bs by (metis fst_conv)
    then show ?thesis
      using True Cons.prems d' bs keep [of order] by auto
  next
    case False
    then show ?thesis
      using Cons by (auto split: option.splits prod.splits)
  qed
qed simp

lemma power_fail_files_dom: "power_fail_files order fs rng p = None \<longleftrightarrow> fs p = None"
  by (induction order arbitrary: fs rng) (auto split: option.splits prod.splits)

lemma power_fail_outcome:
  assumes "distinct order" "p \<in> set order" "files st p = Some d"
  shows "\<exists>bs. crash_image d bs \<and> files (power_fail seed order st) p =
    Some \<lparr>synced = bs, current = bs, locked_by = None\<rparr>"
  using power_fail_files_outcome [of order p "files st" d seed] assms by (simp add: power_fail_def)

lemma power_fail_alive [simp]:
  "\<not> crashed (power_fail seed order st)" "crash_at (power_fail seed order st) = None"
  "lying_sync (power_fail seed order st) = lying_sync st"
  by (simp_all add: power_fail_def)

section \<open>Outcomes of the mutating operations\<close>

lemma torn_write_step:
  "pos < e \<Longrightarrow> torn_write buf start e pos cur rng =
     torn_write buf start e (min ((pos div 512 + 1) * 512) e)
       (if fst (splitmix_bool rng)
        then write_bytes cur pos (seg (pos - start) (min ((pos div 512 + 1) * 512) e - pos) buf) else cur)
       (snd (splitmix_bool rng))"
  by (subst torn_write.simps) (simp add: Let_def split_beta)

lemma torn_write_end: "\<not> pos < e \<Longrightarrow> torn_write buf start e pos cur rng = cur"
  by (subst torn_write.simps) simp

lemma next_sector: "(pos::nat) < e \<Longrightarrow> pos < min ((pos div 512 + 1) * 512) e"
  using dividend_less_div_times [of 512 pos] by simp

text \<open>Whatever every write inside the range keeps, a torn write keeps.\<close>

lemma torn_write_rule:
  assumes "P cur" "from_pos \<le> pos"
    and "\<And>c q n. P c \<Longrightarrow> from_pos \<le> q \<Longrightarrow> q + n \<le> e \<Longrightarrow> P (write_bytes c q (seg (q - start) n buf))"
  shows "P (torn_write buf start e pos cur rng)"
  using assms(1,2)
proof (induction "e - pos" arbitrary: pos cur rng rule: less_induct)
  case less
  show ?case
  proof (cases "pos < e")
    case True
    define q where "q = min ((pos div 512 + 1) * 512) e"
    let ?v = "seg (pos - start) (q - pos) buf"
    let ?c = "if fst (splitmix_bool rng) then write_bytes cur pos ?v else cur"
    have step: "torn_write buf start e pos cur rng = torn_write buf start e q ?c (snd (splitmix_bool rng))"
      unfolding q_def by (rule torn_write_step [OF True])
    have q: "pos < q" "q \<le> e"
      using next_sector [OF True] by (simp_all add: q_def)
    have "P ?c"
      using less.prems assms(3) q by simp
    then show ?thesis
      unfolding step using q less.prems(2) by (intro less.hyps) linarith+
  qed (simp add: torn_write_end less.prems(1))
qed

lemma length_torn_write [simp]: "length (torn_write buf start e pos cur rng) = length cur"
  by (rule torn_write_rule [where P = "\<lambda>c. length c = length cur" and from_pos = pos]) auto

lemma take_torn_write: "n \<le> pos \<Longrightarrow> take n (torn_write buf start e pos cur rng) = take n cur"
  by (rule torn_write_rule [where P = "\<lambda>c. take n c = take n cur" and from_pos = pos])
     (auto simp: write_bytes_def)

lemma torn_write_outside:
  assumes "i < pos \<or> e \<le> i"
  shows "torn_write buf start e pos cur rng ! i = cur ! i"
  by (rule torn_write_rule [where P = "\<lambda>c. c ! i = cur ! i" and from_pos = pos])
     (use assms in \<open>auto simp: write_bytes_def nth_append\<close>)

text \<open>Inside the range each byte is the old one or the one to be written.\<close>

lemma torn_write_nth:
  assumes "i < start + length buf" "start \<le> i" "start + length buf \<le> length cur"
  shows "torn_write buf start (start + length buf) start cur rng ! i \<in> {cur ! i, buf ! (i - start)}"
proof (rule torn_write_rule [where from_pos = start
      and P = "\<lambda>c. length c = length cur \<and> c ! i \<in> {cur ! i, buf ! (i - start)}", THEN conjunct2])
  fix c q n assume c: "length c = length cur \<and> c ! i \<in> {cur ! i, buf ! (i - start)}"
    and q: "start \<le> q" "q + n \<le> start + length buf"
  have "write_bytes c q (seg (q - start) n buf) ! i \<in> {c ! i, buf ! (i - start)}"
    using q assms c by (auto simp: write_bytes_def nth_append nth_seg)
  with c show "length (write_bytes c q (seg (q - start) n buf)) = length cur \<and>
      write_bytes c q (seg (q - start) n buf) ! i \<in> {cur ! i, buf ! (i - start)}" by auto
qed auto

lemma torn_write_one_sector:
  assumes "start div 512 = (e - 1) div 512" "start < e" "e = start + length buf"
  shows "torn_write buf start e start cur rng \<in> {cur, write_bytes cur start buf}"
proof -
  have "e - 1 < ((e - 1) div 512 + 1) * 512"
    using dividend_less_div_times [of 512 "e - 1"] by simp
  then have "e \<le> (start div 512 + 1) * 512"
    unfolding assms(1) using assms(2) by linarith
  then have "min ((start div 512 + 1) * 512) e = e"
    by (rule min.absorb2)
  then have "torn_write buf start e start cur rng =
      (if fst (splitmix_bool rng) then write_bytes cur start (seg (start - start) (e - start) buf) else cur)"
    using torn_write_step [OF assms(2), of buf start cur rng] by (simp only: torn_write_end)
  then show ?thesis
    using assms(3) by (simp add: seg_def)
qed

text \<open>An operation that returns an error here leaves the process dead, and a dead process changes no
  file through its handles.\<close>

lemma enter_mut_op_cases:
  assumes "enter_mut_op t st = (r, st')"
  shows "files st' = files st" "lying_sync st' = lying_sync st" "crash_at st' = crash_at st"
    "next_handle_id st' = next_handle_id st"
    and "r = Inr None \<and> \<not> crashed st' \<and> \<not> crashed st \<or>
         r = Inl crash_error \<and> crashed st' \<and> (crashed st \<or> crash_at st \<noteq> None) \<or>
         (\<exists>seed. r = Inr (Some seed) \<and> t \<and> crashed st' \<and> \<not> crashed st \<and> crash_at st \<noteq> None)"
  using assms by (auto simp: enter_mut_op_def Let_def split: if_splits option.splits prod.splits)

lemma file_write_at_cases:
  assumes "file_write_at f buf off st = (r, st')" "files st (sf_path f) = Some d"
  defines "p \<equiv> sf_path f" and "cur \<equiv> pad_to (off + length buf) (current d)"
  shows "lying_sync st' = lying_sync st" "crash_at st' = crash_at st"
    and "r = Inr () \<and> \<not> crashed st' \<and> \<not> crashed st \<and>
           files st' = (files st)(p \<mapsto> d\<lparr>current := write_bytes cur off buf\<rparr>) \<or>
         r = Inl crash_error \<and> crashed st' \<and> (crashed st \<or> crash_at st \<noteq> None) \<and> files st' = files st \<or>
         (\<exists>seed. r = Inl crash_error \<and> crashed st' \<and> \<not> crashed st \<and> crash_at st \<noteq> None \<and>
           files st' = (files st)(p \<mapsto> d\<lparr>current := torn_write buf off (off + length buf) off cur seed\<rparr>))"
proof -
  obtain r1 st1 where e: "enter_mut_op True st = (r1, st1)" by fastforce
  note c = enter_mut_op_cases [OF e]
  show "lying_sync st' = lying_sync st" "crash_at st' = crash_at st"
    using assms(1,2) e c
    by (auto simp: file_write_at_def Let_def split: sum.splits option.splits)
  show "r = Inr () \<and> \<not> crashed st' \<and> \<not> crashed st \<and>
           files st' = (files st)(p \<mapsto> d\<lparr>current := write_bytes cur off buf\<rparr>) \<or>
         r = Inl crash_error \<and> crashed st' \<and> (crashed st \<or> crash_at st \<noteq> None) \<and> files st' = files st \<or>
         (\<exists>seed. r = Inl crash_error \<and> crashed st' \<and> \<not> crashed st \<and> crash_at st \<noteq> None \<and>
           files st' = (files st)(p \<mapsto> d\<lparr>current := torn_write buf off (off + length buf) off cur seed\<rparr>))"
  proof -
    consider (ok) "r1 = Inr None" "\<not> crashed st1" "\<not> crashed st"
      | (dead) "r1 = Inl crash_error" "crashed st1" "crashed st \<or> crash_at st \<noteq> None"
      | (torn) seed where "r1 = Inr (Some seed)" "crashed st1" "\<not> crashed st" "crash_at st \<noteq> None"
      using c(5) by blast
    then show ?thesis
      using assms(1,2) e c(1)
      by cases (auto simp: file_write_at_def Let_def p_def cur_def)
  qed
qed

lemma file_sync_cases:
  assumes "file_sync f st = (r, st')" "files st (sf_path f) = Some d" "\<not> lying_sync st"
  shows "lying_sync st' = lying_sync st" "crash_at st' = crash_at st"
    and "r = Inr () \<and> \<not> crashed st' \<and> \<not> crashed st \<and>
           files st' = (files st)(sf_path f \<mapsto> d\<lparr>synced := current d\<rparr>) \<or>
         r = Inl crash_error \<and> crashed st' \<and> (crashed st \<or> crash_at st \<noteq> None) \<and> files st' = files st"
proof -
  obtain r1 st1 where e: "enter_mut_op False st = (r1, st1)" by fastforce
  note c = enter_mut_op_cases [OF e]
  show "lying_sync st' = lying_sync st" "crash_at st' = crash_at st"
    "r = Inr () \<and> \<not> crashed st' \<and> \<not> crashed st \<and>
       files st' = (files st)(sf_path f \<mapsto> d\<lparr>synced := current d\<rparr>) \<or>
     r = Inl crash_error \<and> crashed st' \<and> (crashed st \<or> crash_at st \<noteq> None) \<and> files st' = files st"
    using assms e c by (auto simp: file_sync_def split: sum.splits)
qed

lemma file_truncate_cases:
  assumes "file_truncate f len st = (r, st')" "files st (sf_path f) = Some d"
  shows "lying_sync st' = lying_sync st" "crash_at st' = crash_at st"
    and "r = Inr () \<and> \<not> crashed st' \<and> \<not> crashed st \<and>
           files st' = (files st)(sf_path f \<mapsto> d\<lparr>current := pad_to len (take len (current d))\<rparr>) \<or>
         r = Inl crash_error \<and> crashed st' \<and> (crashed st \<or> crash_at st \<noteq> None) \<and> files st' = files st"
proof -
  obtain r1 st1 where e: "enter_mut_op False st = (r1, st1)" by fastforce
  note c = enter_mut_op_cases [OF e]
  show "lying_sync st' = lying_sync st" "crash_at st' = crash_at st"
    "r = Inr () \<and> \<not> crashed st' \<and> \<not> crashed st \<and>
       files st' = (files st)(sf_path f \<mapsto> d\<lparr>current := pad_to len (take len (current d))\<rparr>) \<or>
     r = Inl crash_error \<and> crashed st' \<and> (crashed st \<or> crash_at st \<noteq> None) \<and> files st' = files st"
    using assms e c by (auto simp: file_truncate_def split: sum.splits)
qed

lemma write_at_end:
  "off = length xs \<Longrightarrow> write_bytes (pad_to (off + length buf) xs) off buf = xs @ buf"
  by (simp add: pad_to_def write_bytes_def)

end
