(* ===== verification/Wal.thy ===== *)
theory Wal
  imports Wal_Format Sim_Vfs
begin

text \<open>
  The write-ahead log (\<^verbatim>\<open>storage/wal.rs\<close>): \<^verbatim>\<open>scan\<close>, and \<^verbatim>\<open>Wal\<close> with \<^verbatim>\<open>append_txn\<close>, \<^verbatim>\<open>read_image\<close>,
  \<^verbatim>\<open>reset\<close>. The abstract log is a list of transactions, each the list of its page images; the
  theorems say that a scan recovers exactly the committed transactions of the longest valid prefix.

  A file offset is a \<^typ>\<open>nat\<close>; the \<^verbatim>\<open>checked_add\<close> of the scan loop on \<^verbatim>\<open>u64\<close> is written out. The salt of
  a new generation (clock, process id and a counter, hashed) is an argument of \<^verbatim>\<open>append_txn\<close>.
\<close>

section \<open>Recovery scan\<close>

record recovered_wal =
  rw_page_size :: u32
  rw_committed :: "(u64 \<times> nat) list" \<comment> \<open>\<^verbatim>\<open>BTreeMap\<close>: page number to image offset\<close>

definition commit_pending :: "(u64 \<times> nat) list \<Rightarrow> (u64 \<times> nat) list \<Rightarrow> (u64 \<times> nat) list" where
  "commit_pending pending committed = fold (\<lambda>(k, v) m. bmap_insert k v m) pending committed"

text \<open>The loop of \<^verbatim>\<open>scan\<close>; \<open>rd n off\<close> reads \<open>n\<close> bytes of the file.\<close>

function scan_frames :: "hash64 \<Rightarrow> (nat \<Rightarrow> nat \<Rightarrow> bytes result) \<Rightarrow> nat \<Rightarrow> u64 \<Rightarrow> nat \<Rightarrow> nat \<Rightarrow>
    (u64 \<times> nat) list \<Rightarrow> u64 option \<Rightarrow> (u64 \<times> nat) list \<Rightarrow> ((u64 \<times> nat) list) result" where
  "scan_frames xxh rd flen salt ps offset pending pending_txn committed =
     (let e = offset + (WAL_FRAME_HEADER_LEN + ps) in
      if 2 ^ 64 \<le> e \<or> flen < e then Inr committed
      else bind_result (rd WAL_FRAME_HEADER_LEN offset) (\<lambda>frame_hdr.
           bind_result (rd ps (offset + WAL_FRAME_HEADER_LEN)) (\<lambda>img.
           case wal_frame_decode xxh frame_hdr img salt of
             None \<Rightarrow> Inr committed
           | Some frame \<Rightarrow>
               if pending_txn \<noteq> None \<and> pending_txn \<noteq> Some (wf_txn_id frame) then Inr committed
               else let pending = pending @ [(wf_page_no frame, offset + WAL_FRAME_HEADER_LEN)] in
                 if wf_commit frame
                 then scan_frames xxh rd flen salt ps e [] None (commit_pending pending committed)
                 else scan_frames xxh rd flen salt ps e pending (Some (wf_txn_id frame)) committed)))"
  by pat_completeness auto
termination
  by (relation "measure (\<lambda>(xxh, rd, flen, salt, ps, offset, p, t, c). flen - offset)") auto

declare scan_frames.simps [simp del]

definition scan :: "hash64 \<Rightarrow> sim_file \<Rightarrow> sim_state \<Rightarrow> (recovered_wal option) result" where
  "scan xxh f st =
     bind_result (file_len f st) (\<lambda>flen.
     if flen < WAL_HEADER_LEN then Inr None
     else bind_result (file_read_at f WAL_HEADER_LEN 0 st) (\<lambda>header_buf.
     case wal_header_decode header_buf of
       None \<Rightarrow> Inr None
     | Some hdr \<Rightarrow>
         bind_result (scan_frames xxh (\<lambda>n off. file_read_at f n off st) flen (wh_salt hdr)
           (unat (wh_page_size hdr)) WAL_HEADER_LEN [] None []) (\<lambda>committed.
           Inr (Some \<lparr>rw_page_size = wh_page_size hdr, rw_committed = committed\<rparr>))))"

section \<open>Appending\<close>

record wal =
  w_file :: sim_file
  w_page_size :: u32
  w_salt :: "u64 option"
  w_len :: nat

definition wal_new :: "sim_file \<Rightarrow> u32 \<Rightarrow> wal" where
  "wal_new f ps = \<lparr>w_file = f, w_page_size = ps, w_salt = None, w_len = 0\<rparr>"

fun append_frames :: "hash64 \<Rightarrow> u64 \<Rightarrow> u64 \<Rightarrow> (u64 \<times> bytes) list \<Rightarrow> wal \<Rightarrow> sim_state \<Rightarrow>
    ((u64 \<times> nat) list) result \<times> wal \<times> sim_state" where
  "append_frames xxh salt txn_id [] w st = (Inr [], w, st)"
| "append_frames xxh salt txn_id ((page_no, img) # rest) w st =
     (if length img \<noteq> unat (w_page_size w)
      then (Inl (InvalidArgument ''WAL image must be one page''), w, st)
      else let hd = \<lparr>wf_page_no = page_no, wf_txn_id = txn_id, wf_commit = (rest = [])\<rparr>;
               frame = wal_frame_encode xxh hd img salt @ img
           in case file_write_at (w_file w) frame (w_len w) st of
                (Inl e, st) \<Rightarrow> (Inl e, w, st)
              | (Inr _, st) \<Rightarrow>
                  let off = w_len w + WAL_FRAME_HEADER_LEN;
                      w = w\<lparr>w_len := w_len w + length frame\<rparr>
                  in case append_frames xxh salt txn_id rest w st of
                       (Inl e, w, st) \<Rightarrow> (Inl e, w, st)
                     | (Inr offsets, w, st) \<Rightarrow> (Inr ((page_no, off) # offsets), w, st))"

definition append_txn :: "hash64 \<Rightarrow> u64 \<Rightarrow> u64 \<Rightarrow> (u64 \<times> bytes) list \<Rightarrow> wal \<Rightarrow> sim_state \<Rightarrow>
    ((u64 \<times> nat) list) result \<times> wal \<times> sim_state" where
  "append_txn xxh new_salt txn_id pages w st =
     (let (r, w, st) =
        (case w_salt w of
           Some s \<Rightarrow> (Inr s, w, st)
         | None \<Rightarrow>
             let hd = \<lparr>wh_format_version = FORMAT_VERSION, wh_page_size = w_page_size w, wh_salt = new_salt\<rparr>
             in case file_write_at (w_file w) (wal_header_encode hd) 0 st of
                  (Inl e, st) \<Rightarrow> (Inl e, w, st)
                | (Inr _, st) \<Rightarrow> (Inr new_salt, w\<lparr>w_salt := Some new_salt, w_len := WAL_HEADER_LEN\<rparr>, st))
      in case r of
           Inl e \<Rightarrow> (Inl e, w, st)
         | Inr salt \<Rightarrow>
             case append_frames xxh salt txn_id pages w st of
               (Inl e, w, st) \<Rightarrow> (Inl e, w, st)
             | (Inr offsets, w, st) \<Rightarrow>
                 case file_sync (w_file w) st of
                   (Inl e, st) \<Rightarrow> (Inl e, w, st)
                 | (Inr _, st) \<Rightarrow> (Inr offsets, w, st))"

definition read_image :: "wal \<Rightarrow> nat \<Rightarrow> nat \<Rightarrow> sim_state \<Rightarrow> bytes result" where
  "read_image w offset n st = file_read_at (w_file w) n offset st"

definition wal_reset :: "wal \<Rightarrow> sim_state \<Rightarrow> unit result \<times> wal \<times> sim_state" where
  "wal_reset w st =
     (case file_truncate (w_file w) 0 st of
        (Inl e, st) \<Rightarrow> (Inl e, w, st)
      | (Inr _, st) \<Rightarrow>
          case file_sync (w_file w) st of
            (Inl e, st) \<Rightarrow> (Inl e, w, st)
          | (Inr _, st) \<Rightarrow> (Inr (), w\<lparr>w_salt := None, w_len := 0\<rparr>, st))"

section \<open>The abstract log\<close>

text \<open>A transaction of the log: its id and the images of its pages, in the order written.\<close>

type_synonym log_txn = "u64 \<times> (u64 \<times> bytes) list"

fun txn_frames :: "hash64 \<Rightarrow> u64 \<Rightarrow> u64 \<Rightarrow> (u64 \<times> bytes) list \<Rightarrow> bytes list" where
  "txn_frames xxh salt txn_id [] = []"
| "txn_frames xxh salt txn_id ((page_no, img) # rest) =
     (wal_frame_encode xxh \<lparr>wf_page_no = page_no, wf_txn_id = txn_id, wf_commit = (rest = [])\<rparr> img salt @ img)
       # txn_frames xxh salt txn_id rest"

definition txn_bytes :: "hash64 \<Rightarrow> u64 \<Rightarrow> log_txn \<Rightarrow> bytes" where
  "txn_bytes xxh salt t = concat (txn_frames xxh salt (fst t) (snd t))"

definition log_bytes :: "hash64 \<Rightarrow> u32 \<Rightarrow> u64 \<Rightarrow> log_txn list \<Rightarrow> bytes" where
  "log_bytes xxh ps salt txns =
     wal_header_encode \<lparr>wh_format_version = FORMAT_VERSION, wh_page_size = ps, wh_salt = salt\<rparr> @
     concat (map (txn_bytes xxh salt) txns)"

definition txn_wf :: "nat \<Rightarrow> log_txn \<Rightarrow> bool" where
  "txn_wf ps t \<longleftrightarrow> snd t \<noteq> [] \<and> (\<forall>(p, img) \<in> set (snd t). length img = ps)"

text \<open>Where the images of a transaction lie when its first frame starts at \<open>off\<close>.\<close>

fun frame_offsets :: "nat \<Rightarrow> nat \<Rightarrow> (u64 \<times> bytes) list \<Rightarrow> (u64 \<times> nat) list" where
  "frame_offsets ps off [] = []"
| "frame_offsets ps off ((page_no, img) # rest) =
     (page_no, off + 32) # frame_offsets ps (off + (32 + ps)) rest"

text \<open>The committed images after the transactions, oldest first, from \<open>off\<close> on.\<close>

fun log_index :: "nat \<Rightarrow> nat \<Rightarrow> log_txn list \<Rightarrow> (u64 \<times> nat) list \<Rightarrow> (u64 \<times> nat) list" where
  "log_index ps off [] committed = committed"
| "log_index ps off (t # ts) committed =
     log_index ps (off + length (snd t) * (32 + ps)) ts
       (commit_pending (frame_offsets ps off (snd t)) committed)"

lemma length_txn_bytes:
  "txn_wf ps t \<Longrightarrow> length (txn_bytes xxh salt t) = length (snd t) * (32 + ps)"
proof -
  have "(\<forall>(p, img) \<in> set pages. length img = ps) \<Longrightarrow>
      length (concat (txn_frames xxh salt i pages)) = length pages * (32 + ps)" for i pages
    by (induction pages) auto
  then show "txn_wf ps t \<Longrightarrow> ?thesis" by (simp add: txn_bytes_def txn_wf_def)
qed

section \<open>Scanning a log\<close>

text \<open>A file seen as its bytes.\<close>

definition bytes_reader :: "bytes \<Rightarrow> nat \<Rightarrow> nat \<Rightarrow> bytes result" where
  "bytes_reader bs n off = ok_or (Io UnexpectedEof) (get_range bs off (off + n))"

lemma bytes_reader_fits: "off + n \<le> length bs \<Longrightarrow> bytes_reader bs n off = Inr (seg off n bs)"
  by (simp add: bytes_reader_def get_range_len)

text \<open>One turn of the loop on a file that still has a whole frame at the offset.\<close>

lemma scan_frames_step:
  assumes "offset + (32 + ps) \<le> length bs" "length bs < 2 ^ 64"
  shows "scan_frames xxh (bytes_reader bs) (length bs) salt ps offset pending ptxn committed =
    (case wal_frame_decode xxh (seg offset 32 bs) (seg (offset + 32) ps bs) salt of
       None \<Rightarrow> Inr committed
     | Some fr \<Rightarrow>
         if ptxn \<noteq> None \<and> ptxn \<noteq> Some (wf_txn_id fr) then Inr committed
         else let pending = pending @ [(wf_page_no fr, offset + 32)] in
           if wf_commit fr
           then scan_frames xxh (bytes_reader bs) (length bs) salt ps (offset + (32 + ps)) [] None
                  (commit_pending pending committed)
           else scan_frames xxh (bytes_reader bs) (length bs) salt ps (offset + (32 + ps)) pending
                  (Some (wf_txn_id fr)) committed)"
  using assms
  by (subst scan_frames.simps) (simp add: bytes_reader_fits Let_def split: option.split)

lemma scan_frames_end:
  "length bs < offset + (32 + ps) \<Longrightarrow>
     scan_frames xxh (bytes_reader bs) (length bs) salt ps offset pending ptxn committed = Inr committed"
  by (subst scan_frames.simps) (simp add: Let_def)

text \<open>The frames of one transaction, wherever they stand in the file.\<close>

lemma scan_frames_txn:
  assumes "holds_at bs offset (concat (txn_frames xxh salt i pages))" "length bs < 2 ^ 64"
    "pages \<noteq> []" "\<forall>(p, img) \<in> set pages. length img = ps" "ptxn = None \<or> ptxn = Some i"
  shows "scan_frames xxh (bytes_reader bs) (length bs) salt ps offset pending ptxn committed =
    scan_frames xxh (bytes_reader bs) (length bs) salt ps (offset + length pages * (32 + ps)) [] None
      (commit_pending (pending @ frame_offsets ps offset pages) committed)"
  using assms
proof (induction pages arbitrary: offset pending ptxn)
  case (Cons pg rest)
  obtain p img where pg: "pg = (p, img)" by (cases pg)
  let ?hd = "\<lparr>wf_page_no = p, wf_txn_id = i, wf_commit = (rest = [])\<rparr>"
  have img: "length img = ps" using Cons.prems(4) pg by auto
  have h: "holds_at bs offset (wal_frame_encode xxh ?hd img salt)" "holds_at bs (offset + 32) img"
    "holds_at bs (offset + (32 + ps)) (concat (txn_frames xxh salt i rest))"
    using Cons.prems(1) img by (simp_all add: pg holds_at_append add.assoc)
  have fit: "offset + (32 + ps) \<le> length bs"
    using holds_at_length [OF h(2)] img by simp
  have dec: "wal_frame_decode xxh (seg offset 32 bs) (seg (offset + 32) ps bs) salt = Some ?hd"
    using h(1,2) img by (simp add: holds_at_def wal_frame_roundtrip)
  show ?case
  proof (cases "rest = []")
    case True
    then show ?thesis
      using Cons.prems(5) by (auto simp: scan_frames_step [OF fit Cons.prems(2)] dec pg)
  next
    case False
    have "scan_frames xxh (bytes_reader bs) (length bs) salt ps (offset + (32 + ps))
        (pending @ [(p, offset + 32)]) (Some i) committed =
      scan_frames xxh (bytes_reader bs) (length bs) salt ps
        (offset + (32 + ps) + length rest * (32 + ps)) [] None
        (commit_pending ((pending @ [(p, offset + 32)]) @ frame_offsets ps (offset + (32 + ps)) rest) committed)"
      using Cons.prems(2,4) False h(3) by (intro Cons.IH) auto
    then show ?thesis
      using Cons.prems(5) False
      by (auto simp: scan_frames_step [OF fit Cons.prems(2)] dec pg Let_def add.assoc)
  qed
qed simp

text \<open>A whole log, followed by anything.\<close>

lemma scan_frames_log:
  assumes "holds_at bs offset (concat (map (txn_bytes xxh salt) txns))" "length bs < 2 ^ 64"
    "\<forall>t \<in> set txns. txn_wf ps t"
  shows "scan_frames xxh (bytes_reader bs) (length bs) salt ps offset [] None committed =
    scan_frames xxh (bytes_reader bs) (length bs) salt ps
      (offset + length (concat (map (txn_bytes xxh salt) txns))) [] None
      (log_index ps offset txns committed)"
  using assms
proof (induction txns arbitrary: offset committed)
  case (Cons t txns)
  have wf: "txn_wf ps t" using Cons.prems(3) by simp
  note len = length_txn_bytes [OF wf, of xxh salt]
  have h: "holds_at bs offset (concat (txn_frames xxh salt (fst t) (snd t)))"
    "holds_at bs (offset + length (snd t) * (32 + ps)) (concat (map (txn_bytes xxh salt) txns))"
    using Cons.prems(1) len by (simp_all add: holds_at_append) (simp add: txn_bytes_def)
  have "scan_frames xxh (bytes_reader bs) (length bs) salt ps offset [] None committed =
    scan_frames xxh (bytes_reader bs) (length bs) salt ps (offset + length (snd t) * (32 + ps)) [] None
      (commit_pending (frame_offsets ps offset (snd t)) committed)"
    using scan_frames_txn [OF h(1) Cons.prems(2), of ps None "[]" committed] wf by (simp add: txn_wf_def)
  then show ?case
    using Cons.IH [OF h(2) Cons.prems(2)] Cons.prems(3) len by (simp add: add.assoc)
qed simp

section \<open>A torn tail\<close>

text \<open>The design assumption of the checksum, for one torn append: a whole frame found at a frame
  position of the tail, if it validates under the salt, is the frame that was written there.\<close>

fun torn_detected :: "hash64 \<Rightarrow> u64 \<Rightarrow> nat \<Rightarrow> bytes \<Rightarrow> nat \<Rightarrow> bytes list \<Rightarrow> bool" where
  "torn_detected xxh salt ps bs off [] = True"
| "torn_detected xxh salt ps bs off (f # fs) =
     ((off + (32 + ps) \<le> length bs \<longrightarrow>
       wal_frame_decode xxh (seg off 32 bs) (seg (off + 32) ps bs) salt \<noteq> None \<longrightarrow>
       seg off (32 + ps) bs = f) \<and>
      torn_detected xxh salt ps bs (off + (32 + ps)) fs)"

lemma scan_frames_torn:
  assumes "torn_detected xxh salt ps bs offset (txn_frames xxh salt i pages)" "length bs < 2 ^ 64"
    "\<forall>(p, img) \<in> set pages. length img = ps" "ptxn = None \<or> ptxn = Some i" "pages \<noteq> []"
    "length bs \<le> offset + length pages * (32 + ps)" "offset \<le> length bs"
  shows "scan_frames xxh (bytes_reader bs) (length bs) salt ps offset pending ptxn committed = Inr committed \<or>
    scan_frames xxh (bytes_reader bs) (length bs) salt ps offset pending ptxn committed =
      Inr (commit_pending (pending @ frame_offsets ps offset pages) committed) \<and>
    holds_at bs offset (concat (txn_frames xxh salt i pages))"
  using assms
proof (induction pages arbitrary: offset pending ptxn)
  case (Cons pg rest)
  obtain p img where pg: "pg = (p, img)" by (cases pg)
  let ?hd = "\<lparr>wf_page_no = p, wf_txn_id = i, wf_commit = (rest = [])\<rparr>"
  let ?fr = "wal_frame_encode xxh ?hd img salt @ img"
  let ?dec = "wal_frame_decode xxh (seg offset 32 bs) (seg (offset + 32) ps bs) salt"
  have img: "length img = ps" using Cons.prems(3) pg by auto
  show ?case
  proof (cases "offset + (32 + ps) \<le> length bs \<and> ?dec \<noteq> None")
    case False
    then show ?thesis
      using scan_frames_end [of bs offset ps] scan_frames_step [of offset ps bs] Cons.prems(2)
      by (cases "offset + (32 + ps) \<le> length bs") (simp_all add: not_le)
  next
    case True
    then have fit: "offset + (32 + ps) \<le> length bs" by simp
    have here: "holds_at bs offset ?fr"
      using True Cons.prems(1) fit img by (simp add: pg holds_at_def)
    then have h: "holds_at bs offset (wal_frame_encode xxh ?hd img salt)" "holds_at bs (offset + 32) img"
      by (simp_all add: holds_at_append)
    have dec: "?dec = Some ?hd"
      using h img by (simp add: holds_at_def wal_frame_roundtrip)
    note step = scan_frames_step [OF fit Cons.prems(2)]
    show ?thesis
    proof (cases "rest = []")
      case True
      then have "length bs < offset + (32 + ps) + (32 + ps)"
        using Cons.prems(6) fit by simp
      then show ?thesis
        using True Cons.prems(4) here by (auto simp: step dec pg scan_frames_end)
    next
      case False
      let ?R = "scan_frames xxh (bytes_reader bs) (length bs) salt ps (offset + (32 + ps))
        (pending @ [(p, offset + 32)]) (Some i) committed"
      have "?R = Inr committed \<or> ?R = Inr (commit_pending ((pending @ [(p, offset + 32)]) @
          frame_offsets ps (offset + (32 + ps)) rest) committed) \<and>
        holds_at bs (offset + (32 + ps)) (concat (txn_frames xxh salt i rest))"
        using Cons.prems False fit by (intro Cons.IH) (auto simp: pg)
      then show ?thesis
        using False Cons.prems(4) here img
        by (auto simp: step dec pg holds_at_append add.assoc)
    qed
  qed
qed simp

section \<open>The images a scan recovers\<close>

definition scan_bytes :: "hash64 \<Rightarrow> bytes \<Rightarrow> (recovered_wal option) result" where
  "scan_bytes xxh bs =
     (if length bs < 32 then Inr None
      else case wal_header_decode (take 32 bs) of
             None \<Rightarrow> Inr None
           | Some h \<Rightarrow> bind_result
               (scan_frames xxh (bytes_reader bs) (length bs) (wh_salt h) (unat (wh_page_size h)) 32 [] None [])
               (\<lambda>c. Inr (Some \<lparr>rw_page_size = wh_page_size h, rw_committed = c\<rparr>)))"

lemma file_reader:
  assumes "\<not> crashed st" "files st (sf_path f) = Some d"
  shows "file_read_at f n off st = bytes_reader (current d) n off"
    "file_len f st = Inr (length (current d))"
  using assms by (auto simp: file_read_at_def bytes_reader_def file_len_def)

lemma scan_scan_bytes:
  assumes "\<not> crashed st" "files st (sf_path f) = Some d"
  shows "scan xxh f st = scan_bytes xxh (current d)"
proof -
  have rd: "(\<lambda>n off. file_read_at f n off st) = bytes_reader (current d)"
    by (intro ext) (simp add: file_reader [OF assms])
  have "file_read_at f 32 0 st = Inr (take 32 (current d))" if "32 \<le> length (current d)"
    using assms that by (simp add: file_read_at_def get_range_def seg_def)
  then show ?thesis
    unfolding scan_def scan_bytes_def rd by (simp add: file_reader(2) [OF assms] cong: option.case_cong)
qed

text \<open>What recovery applies: the latest committed image of each page.\<close>

definition index_images :: "nat \<Rightarrow> bytes \<Rightarrow> (u64 \<times> nat) list \<Rightarrow> u64 \<Rightarrow> bytes option" where
  "index_images ps bs idx p = map_option (\<lambda>off. seg off ps bs) (map_of idx p)"

fun log_images :: "log_txn list \<Rightarrow> u64 \<Rightarrow> bytes option" where
  "log_images [] = Map.empty"
| "log_images (t # ts) = map_of (rev (snd t)) ++ log_images ts"

lemma log_images_snoc: "log_images (ts @ [t]) = log_images ts ++ map_of (rev (snd t))"
  by (induction ts) auto

lemma map_of_commit_pending: "map_of (commit_pending pending c) = map_of c ++ map_of (rev pending)"
proof (induction pending arbitrary: c)
  case (Cons kv pending)
  obtain k v where kv: "kv = (k, v)" by (cases kv)
  have "commit_pending (kv # pending) c = commit_pending pending (bmap_insert k v c)"
    by (simp add: commit_pending_def kv)
  then have "map_of (commit_pending (kv # pending) c) = (map_of c)(k \<mapsto> v) ++ map_of (rev pending)"
    by (simp only: Cons.IH map_of_bmap_insert)
  then show ?case by (simp add: kv)
qed (simp add: commit_pending_def)

lemma map_of_map_option: "map_option f (map_of xs p) = map_of (map (\<lambda>(k, v). (k, f v)) xs) p"
  by (induction xs) auto

lemma frame_offsets_images:
  assumes "holds_at bs off (concat (txn_frames xxh salt i pages))"
    "\<forall>(p, img) \<in> set pages. length img = ps"
  shows "map (\<lambda>(k, o'). (k, seg o' ps bs)) (frame_offsets ps off pages) = pages"
  using assms
proof (induction pages arbitrary: off)
  case (Cons pg rest)
  obtain p img where pg: "pg = (p, img)" by (cases pg)
  have img: "length img = ps" using Cons.prems(2) pg by auto
  have "holds_at bs (off + 32) img" "holds_at bs (off + (32 + ps)) (concat (txn_frames xxh salt i rest))"
    using Cons.prems(1) img by (simp_all add: pg holds_at_append add.assoc)
  then show ?case
    using Cons img by (simp add: pg holds_at_def)
qed simp

lemma index_images_commit:
  assumes "holds_at bs off (concat (txn_frames xxh salt i pages))"
    "\<forall>(p, img) \<in> set pages. length img = ps"
  shows "index_images ps bs (commit_pending (frame_offsets ps off pages) c) =
    index_images ps bs c ++ map_of (rev pages)"
proof
  fix p
  have "map_option (\<lambda>o'. seg o' ps bs) (map_of (rev (frame_offsets ps off pages)) p) = map_of (rev pages) p"
    by (simp add: map_of_map_option rev_map [symmetric] frame_offsets_images [OF assms])
  then show "index_images ps bs (commit_pending (frame_offsets ps off pages) c) p =
      (index_images ps bs c ++ map_of (rev pages)) p"
    by (auto simp: index_images_def map_of_commit_pending map_add_def split: option.splits)
qed

lemma index_images_log:
  assumes "holds_at bs off (concat (map (txn_bytes xxh salt) txns))" "\<forall>t \<in> set txns. txn_wf ps t"
  shows "index_images ps bs (log_index ps off txns c) = index_images ps bs c ++ log_images txns"
  using assms
proof (induction txns arbitrary: off c)
  case (Cons t txns)
  have wf: "txn_wf ps t" using Cons.prems(2) by simp
  have h: "holds_at bs off (txn_bytes xxh salt t)"
    "holds_at bs (off + length (snd t) * (32 + ps)) (concat (map (txn_bytes xxh salt) txns))"
    using Cons.prems(1) length_txn_bytes [OF wf, of xxh salt] by (simp_all add: holds_at_append)
  have "index_images ps bs (commit_pending (frame_offsets ps off (snd t)) c) =
      index_images ps bs c ++ map_of (rev (snd t))"
    using h(1) wf by (intro index_images_commit) (auto simp: txn_bytes_def txn_wf_def)
  then show ?case
    using Cons.IH [OF h(2)] Cons.prems(2) by simp
qed (simp add: index_images_def)

section \<open>Every scan result is a readable index\<close>

text \<open>Whatever bytes the log file holds, the scan returns, and each offset it returns can be read.\<close>

definition index_ok :: "nat \<Rightarrow> nat \<Rightarrow> (u64 \<times> nat) list \<Rightarrow> bool" where
  "index_ok ps flen idx \<longleftrightarrow> bmap_wf idx \<and> (\<forall>(k, off) \<in> set idx. off + ps \<le> flen)"

lemma set_bmap_insert: "set (bmap_insert k v m) \<subseteq> insert (k, v) (set m)"
  by (induction m rule: bmap_insert.induct) auto

lemma index_ok_commit:
  assumes "index_ok ps flen c" "\<forall>(k, off) \<in> set pending. off + ps \<le> flen"
  shows "index_ok ps flen (commit_pending pending c)"
  using assms
proof (induction pending arbitrary: c)
  case (Cons kv pending)
  obtain k v where kv: "kv = (k, v)" by (cases kv)
  have "index_ok ps flen (bmap_insert k v c)"
    using Cons.prems set_bmap_insert [of k v c] by (auto simp: kv index_ok_def bmap_wf_insert)
  then have "index_ok ps flen (commit_pending pending (bmap_insert k v c))"
    using Cons by simp
  then show ?case by (simp add: commit_pending_def kv)
qed (simp add: commit_pending_def)

lemma scan_frames_total:
  assumes "length bs < 2 ^ 64" "index_ok ps (length bs) committed"
    "\<forall>(k, off) \<in> set pending. off + ps \<le> length bs"
  shows "\<exists>idx. scan_frames xxh (bytes_reader bs) (length bs) salt ps offset pending ptxn committed = Inr idx \<and>
    index_ok ps (length bs) idx"
  using assms(2,3)
proof (induction "length bs - offset" arbitrary: offset pending ptxn committed rule: less_induct)
  case less
  show ?case
  proof (cases "offset + (32 + ps) \<le> length bs")
    case fit: True
    show ?thesis
    proof (cases "wal_frame_decode xxh (seg offset 32 bs) (seg (offset + 32) ps bs) salt")
      case None
      with less.prems show ?thesis by (simp add: scan_frames_step [OF fit assms(1)])
    next
      case (Some fr)
      let ?p = "pending @ [(wf_page_no fr, offset + 32)]"
      have p: "\<forall>(k, off) \<in> set ?p. off + ps \<le> length bs"
        using less.prems(2) fit by auto
      have d: "length bs - (offset + (32 + ps)) < length bs - offset" using fit by simp
      show ?thesis
        using less.hyps [OF d index_ok_commit [OF less.prems(1) p], of "[]" None]
          less.hyps [OF d less.prems(1) p, of "Some (wf_txn_id fr)"] less.prems(1)
        by (simp add: scan_frames_step [OF fit assms(1)] Some Let_def)
    qed
  next
    case False
    with less.prems show ?thesis by (simp add: scan_frames_end)
  qed
qed

lemma scan_bytes_total:
  assumes "length bs < 2 ^ 64"
  shows "scan_bytes xxh bs = Inr None \<or> (\<exists>rw. scan_bytes xxh bs = Inr (Some rw) \<and>
    page_size_is_valid (rw_page_size rw) \<and> index_ok (unat (rw_page_size rw)) (length bs) (rw_committed rw))"
proof (cases "length bs < 32")
  case False
  show ?thesis
  proof (cases "wal_header_decode (take 32 bs)")
    case (Some h)
    have "index_ok (unat (wh_page_size h)) (length bs) []"
      by (simp add: index_ok_def bmap_wf_def)
    from scan_frames_total [OF assms this, of "[]" xxh "wh_salt h" 32 None]
    obtain idx where "scan_frames xxh (bytes_reader bs) (length bs) (wh_salt h) (unat (wh_page_size h)) 32 [] None []
        = Inr idx" "index_ok (unat (wh_page_size h)) (length bs) idx" by auto
    then show ?thesis
      using False Some wal_header_decode_wf [OF Some] by (simp add: scan_bytes_def wal_header_wf_def)
  qed (use False in \<open>simp add: scan_bytes_def\<close>)
qed (simp add: scan_bytes_def)

section \<open>Recovering a log\<close>

definition recovered_images :: "hash64 \<Rightarrow> bytes \<Rightarrow> u64 \<Rightarrow> bytes option" where
  "recovered_images xxh bs =
     (case scan_bytes xxh bs of
        Inr (Some rw) \<Rightarrow> index_images (unat (rw_page_size rw)) bs (rw_committed rw)
      | _ \<Rightarrow> Map.empty)"

lemma length_log_bytes:
  assumes "\<forall>t \<in> set txns. txn_wf (unat ps) t"
  shows "length (log_bytes xxh ps salt txns) =
    32 + sum_list (map (\<lambda>t. length (snd t) * (32 + unat ps)) txns)"
  using assms length_txn_bytes [of "unat ps" _ xxh salt]
  by (auto simp: log_bytes_def length_concat comp_def intro!: arg_cong [where f = sum_list])

lemma log_bytes_snoc: "log_bytes xxh ps salt (txns @ [t]) = log_bytes xxh ps salt txns @ txn_bytes xxh salt t"
  by (simp add: log_bytes_def)

lemma scan_bytes_prefix:
  assumes ps: "page_size_is_valid ps" and wf: "\<forall>t \<in> set txns. txn_wf (unat ps) t"
    and len: "length (log_bytes xxh ps salt txns @ tail) < 2 ^ 64"
  shows "scan_bytes xxh (log_bytes xxh ps salt txns @ tail) =
    bind_result (scan_frames xxh (bytes_reader (log_bytes xxh ps salt txns @ tail))
      (length (log_bytes xxh ps salt txns @ tail)) salt (unat ps) (length (log_bytes xxh ps salt txns)) [] None
      (log_index (unat ps) 32 txns []))
      (\<lambda>c. Inr (Some \<lparr>rw_page_size = ps, rw_committed = c\<rparr>))"
proof -
  let ?h = "\<lparr>wh_format_version = FORMAT_VERSION, wh_page_size = ps, wh_salt = salt\<rparr>"
  let ?bs = "log_bytes xxh ps salt txns @ tail"
  have "wal_header_decode (take 32 ?bs) = Some ?h"
    using ps by (simp add: log_bytes_def wal_header_roundtrip wal_header_wf_def)
  moreover have h: "holds_at ?bs 32 (concat (map (txn_bytes xxh salt) txns))"
    by (simp add: log_bytes_def holds_at_def seg_append_mid seg_def)
  have "\<not> length ?bs < 32" by (simp add: log_bytes_def)
  ultimately show ?thesis
    using scan_frames_log [OF h len wf, of "[]"]
    by (simp add: scan_bytes_def) (simp add: log_bytes_def)
qed

lemma scan_log:
  assumes "page_size_is_valid ps" "\<forall>t \<in> set txns. txn_wf (unat ps) t"
    "length (log_bytes xxh ps salt txns) < 2 ^ 64"
  shows "scan_bytes xxh (log_bytes xxh ps salt txns) =
    Inr (Some \<lparr>rw_page_size = ps, rw_committed = log_index (unat ps) 32 txns []\<rparr>)"
  using scan_bytes_prefix [OF assms(1,2), of xxh salt "[]"] assms(3) by (simp add: scan_frames_end)

lemma log_images_at:
  assumes "\<forall>t \<in> set txns. txn_wf (unat ps) t"
  shows "index_images (unat ps) (log_bytes xxh ps salt txns @ tail) (log_index (unat ps) 32 txns []) =
    log_images txns"
proof -
  have "holds_at (log_bytes xxh ps salt txns @ tail) 32 (concat (map (txn_bytes xxh salt) txns))"
    by (simp add: log_bytes_def holds_at_def seg_def)
  from index_images_log [OF this assms, of "[]"] show ?thesis
    by (simp add: index_images_def fun_eq_iff map_add_def split: option.splits)
qed

text \<open>A log with a torn last transaction: recovery sees the transaction whole, or not at all.\<close>

lemma recover_torn:
  assumes ps: "page_size_is_valid ps" and wf: "\<forall>t \<in> set txns. txn_wf (unat ps) t" "txn_wf (unat ps) t"
    and bs: "bs = log_bytes xxh ps salt txns @ tail"
      "length tail \<le> length (txn_bytes xxh salt t)" "length bs < 2 ^ 64"
    and torn: "torn_detected xxh salt (unat ps) bs (length (log_bytes xxh ps salt txns))
      (txn_frames xxh salt (fst t) (snd t))"
  shows "\<exists>idx. scan_bytes xxh bs = Inr (Some \<lparr>rw_page_size = ps, rw_committed = idx\<rparr>) \<and>
    index_images (unat ps) bs idx \<in> {log_images txns, log_images (txns @ [t])}"
proof -
  let ?off = "length (log_bytes xxh ps salt txns)"
  let ?c = "log_index (unat ps) 32 txns []"
  let ?scan = "scan_frames xxh (bytes_reader bs) (length bs) salt (unat ps) ?off [] None ?c"
  have "?scan = Inr ?c \<or> ?scan = Inr (commit_pending ([] @ frame_offsets (unat ps) ?off (snd t)) ?c) \<and>
      holds_at bs ?off (concat (txn_frames xxh salt (fst t) (snd t)))"
    using wf(2) bs(1,2) length_txn_bytes [OF wf(2), of xxh salt]
    by (intro scan_frames_torn [OF torn bs(3)]) (auto simp: txn_wf_def)
  then show ?thesis
  proof (elim disjE conjE)
    assume "?scan = Inr ?c"
    then show ?thesis
      using scan_bytes_prefix [OF ps wf(1), of xxh salt tail] bs log_images_at [OF wf(1), of xxh salt tail] by simp
  next
    assume s: "?scan = Inr (commit_pending ([] @ frame_offsets (unat ps) ?off (snd t)) ?c)"
      and h: "holds_at bs ?off (concat (txn_frames xxh salt (fst t) (snd t)))"
    have "index_images (unat ps) bs (commit_pending (frame_offsets (unat ps) ?off (snd t)) ?c) =
        log_images (txns @ [t])"
      using index_images_commit [OF h, of "unat ps" ?c] wf(2) log_images_at [OF wf(1), of xxh salt tail]
      by (simp add: bs(1) txn_wf_def log_images_snoc)
    then show ?thesis
      using s scan_bytes_prefix [OF ps wf(1), of xxh salt tail] bs by simp
  qed
qed

end
