(* ===== verification/Wal_Append.thy ===== *)
theory Wal_Append
  imports Wal
begin

text \<open>
  What \<^verbatim>\<open>Wal::append_txn\<close> and \<^verbatim>\<open>Wal::reset\<close> leave in the log file: on success, the log with the
  transaction, synced; on an I/O error, a dead process and a log file whose synced image is the old
  log and whose current image is the old log with a torn tail. The last section adds the power
  failure: the image the next start finds is again the old log with a torn tail.
\<close>

section \<open>Effects of an append\<close>

lemma append_frames_Cons:
  assumes "length img = unat (w_page_size w)"
  shows "append_frames xxh salt i ((p, img) # rest) w st =
    (case file_write_at (w_file w)
        (wal_frame_encode xxh \<lparr>wf_page_no = p, wf_txn_id = i, wf_commit = (rest = [])\<rparr> img salt @ img)
        (w_len w) st of
       (Inl e, st) \<Rightarrow> (Inl e, w, st)
     | (Inr _, st) \<Rightarrow>
         (case append_frames xxh salt i rest (w\<lparr>w_len := w_len w + (32 + unat (w_page_size w))\<rparr>) st of
            (Inl e, w2, st) \<Rightarrow> (Inl e, w2, st)
          | (Inr offsets, w2, st) \<Rightarrow> (Inr ((p, w_len w + 32) # offsets), w2, st)))"
  using assms by (simp add: Let_def cong: sum.case_cong)

text \<open>A write past the end of the log, torn or not, keeps the log in front of it.\<close>

lemma write_past_end:
  assumes "file_write_at f buf (length W) st = (r, st')" "files st (sf_path f) = Some d" "current d = W"
    "\<not> crashed st"
  shows "\<exists>c. files st' = (files st)(sf_path f \<mapsto> d\<lparr>current := c\<rparr>) \<and> take (length W) c = W \<and>
      length W \<le> length c \<and> length c \<le> length W + length buf \<and>
      (r = Inr () \<and> \<not> crashed st' \<and> c = W @ buf \<or> r = Inl crash_error \<and> crashed st')"
    "lying_sync st' = lying_sync st"
proof -
  note c = file_write_at_cases [OF assms(1,2)]
  let ?cur = "pad_to (length W + length buf) (current d)"
  have id: "files st = (files st)(sf_path f \<mapsto> d\<lparr>current := W\<rparr>)"
    using assms(2,3) by (auto simp: fun_eq_iff)
  consider (ok) "r = Inr ()" "\<not> crashed st'"
      "files st' = (files st)(sf_path f \<mapsto> d\<lparr>current := write_bytes ?cur (length W) buf\<rparr>)"
    | (dead) "r = Inl crash_error" "crashed st'" "files st' = files st"
    | (torn) seed where "r = Inl crash_error" "crashed st'" "files st' = (files st)(sf_path f \<mapsto>
        d\<lparr>current := torn_write buf (length W) (length W + length buf) (length W) ?cur seed\<rparr>)"
    using c(3) assms(4) by blast
  then show "\<exists>c. files st' = (files st)(sf_path f \<mapsto> d\<lparr>current := c\<rparr>) \<and> take (length W) c = W \<and>
      length W \<le> length c \<and> length c \<le> length W + length buf \<and>
      (r = Inr () \<and> \<not> crashed st' \<and> c = W @ buf \<or> r = Inl crash_error \<and> crashed st')"
  proof cases
    case ok
    then show ?thesis
      using assms(3) by (intro exI [of _ "W @ buf"]) (simp add: write_at_end)
  next
    case dead
    then show ?thesis using id by (intro exI [of _ W]) simp
  next
    case (torn seed)
    then show ?thesis
      using assms(3) by (intro exI [of _ "torn_write buf (length W) (length W + length buf) (length W) ?cur seed"])
        (simp add: take_torn_write pad_to_def)
  qed
  show "lying_sync st' = lying_sync st" by (rule c(1))
qed

lemma append_frames_effect:
  assumes "append_frames xxh salt i pages w st = (r, w', st')"
    "files st (sf_path (w_file w)) = Some d" "current d = W" "w_len w = length W" "\<not> crashed st"
    "\<forall>(p, img) \<in> set pages. length img = unat (w_page_size w)"
  shows "\<exists>c. files st' = (files st)(sf_path (w_file w) \<mapsto> d\<lparr>current := c\<rparr>) \<and> take (length W) c = W \<and>
      length W \<le> length c \<and> length c \<le> length W + length (concat (txn_frames xxh salt i pages)) \<and>
      (r = Inr (frame_offsets (unat (w_page_size w)) (length W) pages) \<and> \<not> crashed st' \<and>
         c = W @ concat (txn_frames xxh salt i pages) \<and> w' = w\<lparr>w_len := length c\<rparr> \<or>
       r = Inl crash_error \<and> crashed st' \<and> w_file w' = w_file w) \<and> lying_sync st' = lying_sync st"
  using assms
proof (induction pages arbitrary: w st d W r w' st')
  case Nil
  have id: "files st = (files st)(sf_path (w_file w) \<mapsto> d\<lparr>current := W\<rparr>)"
    using Nil.prems(2,3) by (auto simp: fun_eq_iff)
  with Nil show ?case by (intro exI [of _ W]) auto
next
  case (Cons pg rest)
  obtain p img where pg: "pg = (p, img)" by (cases pg)
  let ?ps = "unat (w_page_size w)"
  let ?f = "w_file w"
  let ?frame = "wal_frame_encode xxh \<lparr>wf_page_no = p, wf_txn_id = i, wf_commit = (rest = [])\<rparr> img salt @ img"
  have img: "length img = ?ps" using Cons.prems(6) pg by auto
  obtain r1 st1 where w1: "file_write_at ?f ?frame (length W) st = (r1, st1)" by fastforce
  from write_past_end [OF w1 Cons.prems(2,3,5)] obtain c1 where
    c1: "files st1 = (files st)(sf_path ?f \<mapsto> d\<lparr>current := c1\<rparr>)" "take (length W) c1 = W"
      "length W \<le> length c1" "length c1 \<le> length W + length ?frame" and
    r1: "r1 = Inr () \<and> \<not> crashed st1 \<and> c1 = W @ ?frame \<or> r1 = Inl crash_error \<and> crashed st1" and
    ly1: "lying_sync st1 = lying_sync st" by blast
  note step = append_frames_Cons [OF img, of xxh salt i p rest st]
  from r1 show ?case
  proof (elim disjE conjE)
    assume "r1 = Inl crash_error" "crashed st1"
    then show ?thesis
      using Cons.prems(1,4) w1 c1 ly1 step img by (intro exI [of _ c1]) (auto simp: pg)
  next
    assume ok: "r1 = Inr ()" "\<not> crashed st1" "c1 = W @ ?frame"
    let ?w1 = "w\<lparr>w_len := length W + (32 + ?ps)\<rparr>"
    obtain r2 w2 st2 where a2: "append_frames xxh salt i rest ?w1 st1 = (r2, w2, st2)" by (metis prod_cases3)
    have "\<exists>c. files st2 = (files st1)(sf_path (w_file ?w1) \<mapsto> d\<lparr>current := c1\<rparr>\<lparr>current := c\<rparr>) \<and>
        take (length c1) c = c1 \<and> length c1 \<le> length c \<and>
        length c \<le> length c1 + length (concat (txn_frames xxh salt i rest)) \<and>
        (r2 = Inr (frame_offsets (unat (w_page_size ?w1)) (length c1) rest) \<and> \<not> crashed st2 \<and>
           c = c1 @ concat (txn_frames xxh salt i rest) \<and> w2 = ?w1\<lparr>w_len := length c\<rparr> \<or>
         r2 = Inl crash_error \<and> crashed st2 \<and> w_file w2 = w_file ?w1) \<and> lying_sync st2 = lying_sync st1"
      using Cons.prems(6) ok c1(1) img by (intro Cons.IH [OF a2]) auto
    then obtain c where c: "files st2 = (files st)(sf_path ?f \<mapsto> d\<lparr>current := c\<rparr>)"
        "take (length c1) c = c1" "length c1 \<le> length c"
        "length c \<le> length c1 + length (concat (txn_frames xxh salt i rest))" "lying_sync st2 = lying_sync st" and
      r2: "r2 = Inr (frame_offsets ?ps (length c1) rest) \<and> \<not> crashed st2 \<and>
           c = c1 @ concat (txn_frames xxh salt i rest) \<and> w2 = ?w1\<lparr>w_len := length c\<rparr> \<or>
         r2 = Inl crash_error \<and> crashed st2 \<and> w_file w2 = ?f"
      using c1(1) ly1 by auto
    have "take (length W) c = W"
      using c(2) c1(2,3) by (metis min.absorb1 take_take)
    then show ?thesis
      using Cons.prems(1,4) w1 a2 ok step c r2 c1(3,4) img
      by (intro exI [of _ c]) (auto simp: pg)
  qed
qed

text \<open>The header write of a new generation lies in one sector: all of it or nothing.\<close>

lemma header_write_effect:
  assumes "file_write_at f (wal_header_encode h) 0 st = (r, st')" "files st (sf_path f) = Some d"
    "current d = []" "\<not> crashed st"
  shows "\<exists>c. files st' = (files st)(sf_path f \<mapsto> d\<lparr>current := c\<rparr>) \<and>
      (r = Inr () \<and> \<not> crashed st' \<and> c = wal_header_encode h \<or>
       r = Inl crash_error \<and> crashed st' \<and> c \<in> {[], replicate 32 0, wal_header_encode h})"
    "lying_sync st' = lying_sync st"
proof -
  note c = file_write_at_cases [OF assms(1,2)]
  have pad: "pad_to 32 (current d) = replicate 32 0"
    using assms(3) by (simp add: pad_to_def)
  have wr: "write_bytes (replicate 32 0) 0 (wal_header_encode h) = wal_header_encode h"
    by (simp add: write_bytes_def)
  have torn: "torn_write (wal_header_encode h) 0 32 0 (replicate 32 0) seed \<in>
      {replicate 32 0, wal_header_encode h}" for seed
    by (rule torn_write_one_sector [of 0 32 "wal_header_encode h" "replicate 32 0" seed, unfolded wr]) simp_all
  consider (ok) "r = Inr ()" "\<not> crashed st'"
      "files st' = (files st)(sf_path f \<mapsto> d\<lparr>current := wal_header_encode h\<rparr>)"
    | (dead) "r = Inl crash_error" "crashed st'" "files st' = files st"
    | (torn) seed where "r = Inl crash_error" "crashed st'" "files st' = (files st)(sf_path f \<mapsto>
        d\<lparr>current := torn_write (wal_header_encode h) 0 32 0 (replicate 32 0) seed\<rparr>)"
    using c(3) assms(4) by (auto simp: pad wr)
  then show "\<exists>c. files st' = (files st)(sf_path f \<mapsto> d\<lparr>current := c\<rparr>) \<and>
      (r = Inr () \<and> \<not> crashed st' \<and> c = wal_header_encode h \<or>
       r = Inl crash_error \<and> crashed st' \<and> c \<in> {[], replicate 32 0, wal_header_encode h})"
  proof cases
    case dead
    then show ?thesis
      using assms(2,3) by (intro exI [of _ "[]"]) (auto simp: fun_eq_iff)
  qed (use torn in blast)+
  show "lying_sync st' = lying_sync st" by (rule c(1))
qed

text \<open>The log file of a \<^verbatim>\<open>Wal\<close> between two operations, and the transaction list it stands for.\<close>

definition wal_inv :: "hash64 \<Rightarrow> log_txn list \<Rightarrow> wal \<Rightarrow> sim_state \<Rightarrow> bool" where
  "wal_inv xxh txns w st \<longleftrightarrow>
     page_size_is_valid (w_page_size w) \<and> (\<forall>t \<in> set txns. txn_wf (unat (w_page_size w)) t) \<and>
     (\<exists>d. files st (sf_path (w_file w)) = Some d \<and> synced d = current d \<and> w_len w = length (current d) \<and>
       w_len w < 2 ^ 64 \<and>
       (case w_salt w of None \<Rightarrow> txns = [] \<and> current d = []
        | Some salt \<Rightarrow> current d = log_bytes xxh (w_page_size w) salt txns))"

text \<open>A log file during or after a failed append of \<open>t\<close>: the old log was the last thing synced.\<close>

definition wal_torn :: "hash64 \<Rightarrow> u32 \<Rightarrow> u64 option \<Rightarrow> u64 \<Rightarrow> log_txn list \<Rightarrow> log_txn \<Rightarrow> sim_file_data \<Rightarrow> bool" where
  "wal_torn xxh ps salt new_salt txns t d \<longleftrightarrow>
     (case salt of
        Some s \<Rightarrow> synced d = log_bytes xxh ps s txns \<and>
          (\<exists>tail. current d = log_bytes xxh ps s txns @ tail \<and> length tail \<le> length (txn_bytes xxh s t))
      | None \<Rightarrow> txns = [] \<and> synced d = [] \<and>
          (current d \<in> {[], replicate 32 0} \<or>
           (\<exists>tail. current d = log_bytes xxh ps new_salt [] @ tail \<and>
              length tail \<le> length (txn_bytes xxh new_salt t))))"

lemma log_index_snoc:
  assumes "\<forall>t \<in> set txns. txn_wf (unat ps) t"
  shows "log_index (unat ps) 32 (txns @ [t]) [] =
    commit_pending (frame_offsets (unat ps) (length (log_bytes xxh ps salt txns)) (snd t))
      (log_index (unat ps) 32 txns [])"
proof -
  have "log_index n off (ts @ [t]) c =
    commit_pending (frame_offsets n (off + sum_list (map (\<lambda>t. length (snd t) * (32 + n)) ts)) (snd t))
      (log_index n off ts c)" for n off ts c
    by (induction ts arbitrary: off c) (simp_all add: add.assoc)
  then show ?thesis by (simp add: length_log_bytes [OF assms])
qed

text \<open>The frames and the final sync, on a log that already has its header.\<close>

lemma append_synced_effect:
  assumes app: "append_frames xxh salt i pages w st = (r1, w1, st1)"
    and fin: "(r, w', st') = (case r1 of Inl e \<Rightarrow> (Inl e, w1, st1)
      | Inr offsets \<Rightarrow> (case file_sync (w_file w1) st1 of
          (Inl e, st) \<Rightarrow> (Inl e, w1, st) | (Inr _, st) \<Rightarrow> (Inr offsets, w1, st)))"
    and d: "files st (sf_path (w_file w)) = Some d" "current d = W" "w_len w = length W"
    and ok: "\<not> crashed st" "\<not> lying_sync st" "\<forall>(p, img) \<in> set pages. length img = unat (w_page_size w)"
  defines "fr \<equiv> concat (txn_frames xxh salt i pages)" and "path \<equiv> sf_path (w_file w)"
  shows "\<exists>d'. files st' = (files st)(path \<mapsto> d') \<and>
      (r = Inr (frame_offsets (unat (w_page_size w)) (length W) pages) \<and> \<not> crashed st' \<and>
         current d' = W @ fr \<and> synced d' = W @ fr \<and> w' = w\<lparr>w_len := length (W @ fr)\<rparr> \<or>
       r = Inl crash_error \<and> crashed st' \<and> synced d' = synced d \<and> w_file w' = w_file w \<and>
         (\<exists>tail. current d' = W @ tail \<and> length tail \<le> length fr))"
    "lying_sync st' = lying_sync st"
proof -
  obtain c where c: "files st1 = (files st)(path \<mapsto> d\<lparr>current := c\<rparr>)" "take (length W) c = W"
      "length c \<le> length W + length fr" and ly: "lying_sync st1 = lying_sync st" and
    r1: "r1 = Inr (frame_offsets (unat (w_page_size w)) (length W) pages) \<and> \<not> crashed st1 \<and>
           c = W @ fr \<and> w1 = w\<lparr>w_len := length c\<rparr> \<or>
         r1 = Inl crash_error \<and> crashed st1 \<and> w_file w1 = w_file w"
    using append_frames_effect [OF app d ok(1,3)] unfolding fr_def path_def by blast
  have tail: "\<exists>tail. c = W @ tail \<and> length tail \<le> length fr"
    using c(2,3) by (metis add_le_cancel_left append_take_drop_id length_append)
  obtain r2 st2 where s2: "file_sync (w_file w1) st1 = (r2, st2)" by fastforce
  have "w_file w1 = w_file w" using r1 by auto
  then have f1: "files st1 (sf_path (w_file w1)) = Some (d\<lparr>current := c\<rparr>)"
    using c(1) by (simp add: path_def)
  have "\<not> lying_sync st1" using ok(2) ly by simp
  note sy = file_sync_cases [OF s2 f1 this]
  from r1 show "\<exists>d'. files st' = (files st)(path \<mapsto> d') \<and>
      (r = Inr (frame_offsets (unat (w_page_size w)) (length W) pages) \<and> \<not> crashed st' \<and>
         current d' = W @ fr \<and> synced d' = W @ fr \<and> w' = w\<lparr>w_len := length (W @ fr)\<rparr> \<or>
       r = Inl crash_error \<and> crashed st' \<and> synced d' = synced d \<and> w_file w' = w_file w \<and>
         (\<exists>tail. current d' = W @ tail \<and> length tail \<le> length fr))"
  proof (elim disjE conjE)
    assume "r1 = Inl crash_error" "crashed st1" "w_file w1 = w_file w"
    then show ?thesis
      using fin c(1) tail by (intro exI [of _ "d\<lparr>current := c\<rparr>"]) simp
  next
    assume r: "r1 = Inr (frame_offsets (unat (w_page_size w)) (length W) pages)" "\<not> crashed st1"
      "c = W @ fr" "w1 = w\<lparr>w_len := length c\<rparr>"
    from sy(3) show ?thesis
    proof (elim disjE [of "r2 = Inr () \<and> _"] conjE, goal_cases)
      case 1
      then show ?thesis
        using fin r s2 c(1) by (intro exI [of _ "d\<lparr>current := c, synced := c\<rparr>"]) (simp add: path_def)
    next
      case 2
      then show ?thesis
        using fin r s2 c(1) tail by (intro exI [of _ "d\<lparr>current := c\<rparr>"]) simp
    qed
  qed
  show "lying_sync st' = lying_sync st"
    using fin ly s2 sy(1) ok(2) by (auto split: sum.splits)
qed

lemma append_txn_Some:
  "w_salt w = Some salt \<Longrightarrow> append_txn xxh ns i pages w st =
     (case append_frames xxh salt i pages w st of (r1, w1, st1) \<Rightarrow>
        (case r1 of Inl e \<Rightarrow> (Inl e, w1, st1)
         | Inr offsets \<Rightarrow> (case file_sync (w_file w1) st1 of
             (Inl e, st) \<Rightarrow> (Inl e, w1, st) | (Inr _, st) \<Rightarrow> (Inr offsets, w1, st))))"
  by (simp add: append_txn_def split: prod.splits sum.splits)

lemma append_txn_None:
  "w_salt w = None \<Longrightarrow> append_txn xxh ns i pages w st =
     (case file_write_at (w_file w) (wal_header_encode
         \<lparr>wh_format_version = FORMAT_VERSION, wh_page_size = w_page_size w, wh_salt = ns\<rparr>) 0 st of
        (Inl e, st1) \<Rightarrow> (Inl e, w, st1)
      | (Inr _, st1) \<Rightarrow> append_txn xxh ns i pages (w\<lparr>w_salt := Some ns, w_len := 32\<rparr>) st1)"
  by (simp add: append_txn_def split: prod.splits sum.splits)

text \<open>What an append promises of its log file, \<open>salt\<close> being the salt of the generation.\<close>

definition append_outcome :: "hash64 \<Rightarrow> u64 \<Rightarrow> u64 \<Rightarrow> log_txn list \<Rightarrow> log_txn \<Rightarrow> wal \<Rightarrow> sim_state \<Rightarrow>
    ((u64 \<times> nat) list) result \<times> wal \<times> sim_state \<Rightarrow> bool" where
  "append_outcome xxh ns salt txns t w st out \<longleftrightarrow>
     (case out of (r, w', st') \<Rightarrow>
       w_file w' = w_file w \<and> lying_sync st' = lying_sync st \<and>
       (\<exists>d'. files st' = (files st)(sf_path (w_file w) \<mapsto> d') \<and>
         (r = Inr (frame_offsets (unat (w_page_size w)) (length (log_bytes xxh (w_page_size w) salt txns)) (snd t)) \<and>
            \<not> crashed st' \<and> wal_inv xxh (txns @ [t]) w' st' \<and> w_salt w' = Some salt \<and> w_page_size w' = w_page_size w \<or>
          r = Inl crash_error \<and> crashed st' \<and> wal_torn xxh (w_page_size w) (w_salt w) ns txns t d')))"

lemma append_txn_raw:
  assumes salt: "w_salt w = Some salt" and t: "txn_wf (unat (w_page_size w)) t"
    and d: "files st (sf_path (w_file w)) = Some d" "current d = W" "w_len w = length W"
    and ok: "\<not> crashed st" "\<not> lying_sync st"
    and out: "append_txn xxh ns (fst t) (snd t) w st = (r, w', st')"
  shows "\<exists>d'. files st' = (files st)(sf_path (w_file w) \<mapsto> d') \<and>
      (r = Inr (frame_offsets (unat (w_page_size w)) (length W) (snd t)) \<and> \<not> crashed st' \<and>
         current d' = W @ txn_bytes xxh salt t \<and> synced d' = W @ txn_bytes xxh salt t \<and>
         w' = w\<lparr>w_len := length (W @ txn_bytes xxh salt t)\<rparr> \<or>
       r = Inl crash_error \<and> crashed st' \<and> synced d' = synced d \<and> w_file w' = w_file w \<and>
         (\<exists>tail. current d' = W @ tail \<and> length tail \<le> length (txn_bytes xxh salt t)))"
    "lying_sync st' = lying_sync st"
proof -
  obtain r1 w1 st1 where app: "append_frames xxh salt (fst t) (snd t) w st = (r1, w1, st1)" by (metis prod_cases3)
  have fin: "(r, w', st') = (case r1 of Inl e \<Rightarrow> (Inl e, w1, st1)
      | Inr offsets \<Rightarrow> (case file_sync (w_file w1) st1 of
          (Inl e, st) \<Rightarrow> (Inl e, w1, st) | (Inr _, st) \<Rightarrow> (Inr offsets, w1, st)))"
    using out by (simp add: append_txn_Some [OF salt] app)
  have imgs: "\<forall>(p, img) \<in> set (snd t). length img = unat (w_page_size w)" using t by (simp add: txn_wf_def)
  note eff = append_synced_effect [OF app fin d ok imgs, folded txn_bytes_def]
  show "\<exists>d'. files st' = (files st)(sf_path (w_file w) \<mapsto> d') \<and>
      (r = Inr (frame_offsets (unat (w_page_size w)) (length W) (snd t)) \<and> \<not> crashed st' \<and>
         current d' = W @ txn_bytes xxh salt t \<and> synced d' = W @ txn_bytes xxh salt t \<and>
         w' = w\<lparr>w_len := length (W @ txn_bytes xxh salt t)\<rparr> \<or>
       r = Inl crash_error \<and> crashed st' \<and> synced d' = synced d \<and> w_file w' = w_file w \<and>
         (\<exists>tail. current d' = W @ tail \<and> length tail \<le> length (txn_bytes xxh salt t)))"
    by (rule eff(1))
  show "lying_sync st' = lying_sync st" by (rule eff(2))
qed

text \<open>From the raw effect to the outcome; the synced image and the salt before the append are free, so
  that the rule serves both the append to an existing log and the first append of a generation.\<close>

lemma append_outcomeI:
  assumes w: "page_size_is_valid (w_page_size w)" "\<forall>t \<in> set txns. txn_wf (unat (w_page_size w)) t"
      "w_salt w = Some salt" and t: "txn_wf (unat (w_page_size w)) t"
    and d: "files st (sf_path (w_file w)) = Some d" "current d = log_bytes xxh (w_page_size w) salt txns"
      "w_len w = length (current d)"
    and ok: "\<not> crashed st" "\<not> lying_sync st"
    and room: "w_len w + length (snd t) * (32 + unat (w_page_size w)) < 2 ^ 64"
    and w0: "w_file w0 = w_file w" "w_page_size w0 = w_page_size w"
      "w_salt w0 = Some salt \<and> synced d = current d \<or> w_salt w0 = None \<and> salt = ns \<and> txns = [] \<and> synced d = []"
    and st0: "lying_sync st0 = lying_sync st" "files st = (files st0)(sf_path (w_file w) \<mapsto> d)"
  shows "append_outcome xxh ns salt txns t w0 st0 (append_txn xxh ns (fst t) (snd t) w st)"
proof -
  let ?W = "log_bytes xxh (w_page_size w) salt txns"
  obtain r w' st' where out: "append_txn xxh ns (fst t) (snd t) w st = (r, w', st')" by (metis prod_cases3)
  have wl: "w_len w = length ?W" using d by simp
  note raw = append_txn_raw [OF w(3) t d(1,2) wl ok out]
  have len: "length (txn_bytes xxh salt t) = length (snd t) * (32 + unat (w_page_size w))"
    by (rule length_txn_bytes [OF t])
  obtain d' where d': "files st' = (files st)(sf_path (w_file w) \<mapsto> d')" and
    c: "r = Inr (frame_offsets (unat (w_page_size w)) (length ?W) (snd t)) \<and> \<not> crashed st' \<and>
         current d' = ?W @ txn_bytes xxh salt t \<and> synced d' = ?W @ txn_bytes xxh salt t \<and>
         w' = w\<lparr>w_len := length (?W @ txn_bytes xxh salt t)\<rparr> \<or>
       r = Inl crash_error \<and> crashed st' \<and> synced d' = synced d \<and> w_file w' = w_file w \<and>
         (\<exists>tail. current d' = ?W @ tail \<and> length tail \<le> length (txn_bytes xxh salt t))"
    using raw(1) by blast
  have f0: "files st' = (files st0)(sf_path (w_file w) \<mapsto> d')" using d' st0(2) by simp
  from c show ?thesis
  proof (elim disjE [of "r = Inr _ \<and> _"] conjE)
    assume k: "r = Inr (frame_offsets (unat (w_page_size w)) (length ?W) (snd t))" "\<not> crashed st'"
      "current d' = ?W @ txn_bytes xxh salt t" "synced d' = ?W @ txn_bytes xxh salt t"
      "w' = w\<lparr>w_len := length (?W @ txn_bytes xxh salt t)\<rparr>"
    have "wal_inv xxh (txns @ [t]) w' st'"
      using w t d' room wl len by (auto simp: wal_inv_def k log_bytes_snoc)
    then show ?thesis
      using k raw(2) f0 w(3) w0(1,2) st0(1) by (auto simp: append_outcome_def out)
  next
    assume k: "r = Inl crash_error" "crashed st'" "synced d' = synced d" "w_file w' = w_file w"
      "\<exists>tail. current d' = ?W @ tail \<and> length tail \<le> length (txn_bytes xxh salt t)"
    have "wal_torn xxh (w_page_size w0) (w_salt w0) ns txns t d'"
      using k w0 d(2) by (auto simp: wal_torn_def)
    then show ?thesis
      using k raw(2) f0 w0(1) st0(1) by (auto simp: append_outcome_def out)
  qed
qed

lemma append_txn_effect:
  assumes inv: "wal_inv xxh txns w st" and t: "txn_wf (unat (w_page_size w)) t"
    and ok: "\<not> crashed st" "\<not> lying_sync st"
    and room: "w_len w + 32 + length (snd t) * (32 + unat (w_page_size w)) < 2 ^ 64"
  shows "append_outcome xxh ns (case w_salt w of Some s \<Rightarrow> s | None \<Rightarrow> ns) txns t w st
    (append_txn xxh ns (fst t) (snd t) w st)"
proof (cases "w_salt w")
  case (Some salt)
  obtain d where d: "files st (sf_path (w_file w)) = Some d" "current d = log_bytes xxh (w_page_size w) salt txns"
      "synced d = current d" "w_len w = length (current d)"
    using inv Some by (auto simp: wal_inv_def)
  then have f: "files st = (files st)(sf_path (w_file w) \<mapsto> d)" by auto
  from d show ?thesis
    using inv Some t ok room f
    by simp (rule append_outcomeI, auto simp: wal_inv_def)
next
  case None
  let ?f = "w_file w"
  let ?h = "\<lparr>wh_format_version = FORMAT_VERSION, wh_page_size = w_page_size w, wh_salt = ns\<rparr>"
  have hb: "log_bytes xxh (w_page_size w) ns [] = wal_header_encode ?h" by (simp add: log_bytes_def)
  obtain d where d: "files st (sf_path ?f) = Some d" "current d = []" "synced d = []" and
    w: "txns = []" "w_len w = 0" "page_size_is_valid (w_page_size w)"
    using inv None by (auto simp: wal_inv_def)
  obtain r1 st1 where wr: "file_write_at ?f (wal_header_encode ?h) 0 st = (r1, st1)" by fastforce
  note eff = header_write_effect [OF wr d(1,2) ok(1)]
  obtain c where c: "files st1 = (files st)(sf_path ?f \<mapsto> d\<lparr>current := c\<rparr>)" and
    cc: "r1 = Inr () \<and> \<not> crashed st1 \<and> c = wal_header_encode ?h \<or>
      r1 = Inl crash_error \<and> crashed st1 \<and> c \<in> {[], replicate 32 0, wal_header_encode ?h}"
    using eff(1) by blast
  note step = append_txn_None [OF None, of xxh ns "fst t" "snd t" st, unfolded wr]
  from cc show ?thesis
  proof (elim disjE [of "r1 = Inr () \<and> _"] conjE)
    assume k: "r1 = Inl crash_error" "crashed st1" "c \<in> {[], replicate 32 0, wal_header_encode ?h}"
    have "wal_torn xxh (w_page_size w) (w_salt w) ns txns t (d\<lparr>current := c\<rparr>)"
      using k(3) w(1) d(3) None hb by (auto simp: wal_torn_def simp del: FORMAT_VERSION_def)
    then show ?thesis
      using k(1,2) c eff(2) None by (auto simp: append_outcome_def step)
  next
    assume k: "r1 = Inr ()" "\<not> crashed st1" "c = wal_header_encode ?h"
    let ?w = "w\<lparr>w_salt := Some ns, w_len := 32\<rparr>"
    have "append_outcome xxh ns ns txns t w st (append_txn xxh ns (fst t) (snd t) ?w st1)"
      by (rule append_outcomeI [where d = "d\<lparr>current := c\<rparr>"])
        (use w d(3) t ok room k c eff(2) None hb in \<open>simp_all del: FORMAT_VERSION_def\<close>)
    then show ?thesis
      using k(1) None by (simp add: step)
  qed
qed

section \<open>Effects of a reset\<close>

lemma wal_reset_effect:
  assumes out: "wal_reset w st = (r, w', st')" and d: "files st (sf_path (w_file w)) = Some d"
    and ok: "\<not> crashed st" "\<not> lying_sync st"
  shows "lying_sync st' = lying_sync st" "w_file w' = w_file w"
    and "r = Inr () \<and> \<not> crashed st' \<and> w' = w\<lparr>w_salt := None, w_len := 0\<rparr> \<and>
           files st' = (files st)(sf_path (w_file w) \<mapsto> d\<lparr>current := [], synced := []\<rparr>) \<or>
         r = Inl crash_error \<and> crashed st' \<and>
           (files st' = files st \<or> files st' = (files st)(sf_path (w_file w) \<mapsto> d\<lparr>current := []\<rparr>))"
proof -
  let ?p = "sf_path (w_file w)"
  obtain r1 st1 where t: "file_truncate (w_file w) 0 st = (r1, st1)" by fastforce
  obtain r2 st2 where s: "file_sync (w_file w) st1 = (r2, st2)" by fastforce
  note tc = file_truncate_cases [OF t d]
  have ly1: "\<not> lying_sync st1" using tc(1) ok(2) by simp
  have pad: "pad_to 0 (take 0 (current d)) = []" by (simp add: pad_to_def)
  consider (trunc) "r1 = Inr ()" "\<not> crashed st1" "files st1 = (files st)(?p \<mapsto> d\<lparr>current := []\<rparr>)"
    | (dead) "r1 = Inl crash_error" "crashed st1" "files st1 = files st"
    using tc(3) ok(1) pad by auto
  then have "(lying_sync st' = lying_sync st \<and> w_file w' = w_file w) \<and>
     (r = Inr () \<and> \<not> crashed st' \<and> w' = w\<lparr>w_salt := None, w_len := 0\<rparr> \<and>
           files st' = (files st)(?p \<mapsto> d\<lparr>current := [], synced := []\<rparr>) \<or>
         r = Inl crash_error \<and> crashed st' \<and>
           (files st' = files st \<or> files st' = (files st)(?p \<mapsto> d\<lparr>current := []\<rparr>)))"
  proof cases
    case trunc
    then have f1: "files st1 ?p = Some (d\<lparr>current := []\<rparr>)" by simp
    from file_sync_cases [OF s f1 ly1] trunc show ?thesis
      using out tc(1) by (auto simp: wal_reset_def t s)
  next
    case dead
    then show ?thesis using out tc(1) by (simp add: wal_reset_def t)
  qed
  then show "lying_sync st' = lying_sync st" "w_file w' = w_file w"
    "r = Inr () \<and> \<not> crashed st' \<and> w' = w\<lparr>w_salt := None, w_len := 0\<rparr> \<and>
           files st' = (files st)(?p \<mapsto> d\<lparr>current := [], synced := []\<rparr>) \<or>
         r = Inl crash_error \<and> crashed st' \<and>
           (files st' = files st \<or> files st' = (files st)(?p \<mapsto> d\<lparr>current := []\<rparr>))"
    by blast+
qed

section \<open>The log after a power failure\<close>

lemma wal_header_decode_zero: "wal_header_decode (replicate 32 0) = None"
proof -
  have "hd (replicate 8 (0 :: byte)) \<noteq> hd WAL_MAGIC" by (simp add: WAL_MAGIC_def)
  then have "replicate 8 0 \<noteq> WAL_MAGIC" by metis
  then have "get_range (replicate 32 (0 :: byte)) 0 8 \<noteq> Some WAL_MAGIC"
    by (auto simp: get_range_def seg_def)
  then show ?thesis by (simp add: wal_header_decode_def)
qed

lemma scan_bytes_zero: "take 32 bs = replicate 32 0 \<Longrightarrow> scan_bytes xxh bs = Inr None"
  by (simp add: scan_bytes_def wal_header_decode_zero)

lemma crash_image_fresh:
  assumes "crash_image d bs" "synced d = []" "current d = hdr @ tail" "length hdr = 32"
  shows "bs = [] \<or> length bs = length (current d) \<and> (take 32 bs = replicate 32 0 \<or> take 32 bs = hdr)"
proof (cases "bs = []")
  case False
  then have len: "length bs = length (current d)"
    using crash_image_mix [OF assms(1)] assms(2) by (metis length_0_conv)
  have "map (byte_at (current d)) [0..<32] = hdr"
    using assms(3,4) by (intro nth_equalityI) (auto simp: byte_at_def nth_append)
  moreover have "map (byte_at (synced d)) [0..<32] = replicate 32 0"
    using assms(2) by (intro nth_equalityI) (auto simp: byte_at_def)
  ultimately show ?thesis
    using crash_image_first_sector [OF assms(1), of 32] len assms(3,4) by auto
qed simp

text \<open>What the next start finds of a log whose last append failed.\<close>

lemma wal_torn_crash:
  assumes torn: "wal_torn xxh ps salt ns txns t d" and img: "crash_image d bs"
  shows "txns = [] \<and> scan_bytes xxh bs = Inr None \<or>
    (\<exists>tail. bs = log_bytes xxh ps (case salt of Some s \<Rightarrow> s | None \<Rightarrow> ns) txns @ tail \<and>
       length tail \<le> length (txn_bytes xxh (case salt of Some s \<Rightarrow> s | None \<Rightarrow> ns) t))"
proof (cases salt)
  case (Some s)
  let ?W = "log_bytes xxh ps s txns"
  obtain tail where d: "synced d = ?W" "current d = ?W @ tail" "length tail \<le> length (txn_bytes xxh s t)"
    using torn Some by (auto simp: wal_torn_def)
  have bs: "length ?W \<le> length bs" "take (length ?W) bs = ?W"
    using crash_image_prefix [OF img, of "length ?W"] d by simp_all
  have "length bs = length ?W + length tail \<or> length bs = length ?W"
    using crash_image_mix [OF img] d by (metis length_append)
  then have "length (drop (length ?W) bs) \<le> length (txn_bytes xxh s t)"
    using d(3) by auto
  moreover have "bs = ?W @ drop (length ?W) bs"
    using bs by (metis append_take_drop_id)
  ultimately show ?thesis using Some by auto
next
  case None
  have short: "scan_bytes xxh [] = Inr None" by (simp add: scan_bytes_def)
  let ?h = "log_bytes xxh ps ns []"
  have hl: "length ?h = 32" by (simp add: log_bytes_def)
  have k: "txns = []" "synced d = []"
    and "current d = [] \<or> current d = replicate 32 0 @ [] \<or>
      (\<exists>tail. current d = ?h @ tail \<and> length tail \<le> length (txn_bytes xxh ns t))"
    using torn None by (auto simp: wal_torn_def)
  then show ?thesis
  proof (elim disjE exE conjE)
    assume "current d = []"
    then have "bs = []" using crash_image_same [OF img] k by simp
    then show ?thesis using k short by simp
  next
    assume "current d = replicate 32 0 @ []"
    from crash_image_fresh [OF img k(2) this] show ?thesis
      using k(1) short scan_bytes_zero [of bs xxh] by auto
  next
    fix tail assume c: "current d = ?h @ tail" "length tail \<le> length (txn_bytes xxh ns t)"
    from crash_image_fresh [OF img k(2) c(1) hl] show ?thesis
    proof (elim disjE conjE)
      assume "length bs = length (current d)" "take 32 bs = ?h"
      then have "bs = ?h @ drop 32 bs" "length (drop 32 bs) \<le> length (txn_bytes xxh ns t)"
        using c hl by (metis append_take_drop_id, simp)
      then show ?thesis using None k(1) by auto
    qed (use k(1) short scan_bytes_zero [of bs xxh] in auto)
  qed
qed

text \<open>What recovery takes from a log file: the images \<open>m\<close>, by page.\<close>

definition recovers :: "hash64 \<Rightarrow> u32 \<Rightarrow> bytes \<Rightarrow> (u64 \<Rightarrow> bytes option) \<Rightarrow> bool" where
  "recovers xxh ps bs m \<longleftrightarrow>
     scan_bytes xxh bs = Inr None \<and> m = Map.empty \<or>
     (\<exists>idx. scan_bytes xxh bs = Inr (Some \<lparr>rw_page_size = ps, rw_committed = idx\<rparr>) \<and>
        index_images (unat ps) bs idx = m)"

lemma recovers_log:
  assumes "page_size_is_valid ps" "\<forall>t \<in> set txns. txn_wf (unat ps) t"
    "length (log_bytes xxh ps salt txns) < 2 ^ 64"
  shows "recovers xxh ps (log_bytes xxh ps salt txns) (log_images txns)"
  using scan_log [OF assms] log_images_at [OF assms(2), of xxh salt "[]"] by (simp add: recovers_def)

lemma recovers_torn:
  assumes torn: "wal_torn xxh ps salt ns txns t d" and img: "crash_image d bs" and ps: "page_size_is_valid ps"
    and wf: "\<forall>t \<in> set txns. txn_wf (unat ps) t" "txn_wf (unat ps) t"
    and len: "length (current d) < 2 ^ 64"
  defines "s \<equiv> (case salt of Some s \<Rightarrow> s | None \<Rightarrow> ns)"
  assumes det: "torn_detected xxh s (unat ps) bs (length (log_bytes xxh ps s txns))
      (txn_frames xxh s (fst t) (snd t))"
  shows "recovers xxh ps bs (log_images txns) \<or> recovers xxh ps bs (log_images (txns @ [t]))"
  using wal_torn_crash [OF torn img]
proof (elim disjE conjE exE)
  fix tail assume b: "bs = log_bytes xxh ps (case salt of Some s \<Rightarrow> s | None \<Rightarrow> ns) txns @ tail"
    "length tail \<le> length (txn_bytes xxh (case salt of Some s \<Rightarrow> s | None \<Rightarrow> ns) t)"
  have "length (synced d) \<le> length (current d)"
    using torn by (auto simp: wal_torn_def split: option.splits)
  then have "length bs < 2 ^ 64"
    using crash_image_mix [OF img] len by (metis le_less_trans)
  from recover_torn [OF ps wf b [folded s_def] this det] show ?thesis
    by (auto simp: recovers_def)
qed (simp add: recovers_def)

end
