(* ===== verification/Pager.thy ===== *)
theory Pager
  imports Wal_Append Header_Format
begin

text \<open>
  The pager (\<^verbatim>\<open>storage/pager.rs\<close>): creation, open with recovery, page reads, transactions, commit,
  checkpoint, close, over the simulated file system. The open file handles and the sidecar path are
  fields of the pager as in the code; the file system is the state passed along (the \<^verbatim>\<open>Arc<dyn Vfs>\<close>).

  \<^verbatim>\<open>wal_index\<close> is a \<^verbatim>\<open>HashMap\<close>: it is kept as its entries sorted by key, and the order in which the
  checkpoint visits it is the argument \<open>ord\<close>, which permutes the entries. A transaction borrows the
  pager exclusively; its operations take the pager as an argument.
\<close>

section \<open>State\<close>

record pager_options =
  opt_page_size :: u32
  opt_checkpoint_threshold :: u64
  opt_format_version :: u32

definition DEFAULT_CHECKPOINT_THRESHOLD :: u64 where
  "DEFAULT_CHECKPOINT_THRESHOLD = 4 * 1024 * 1024"

definition default_options :: pager_options where
  "default_options = \<lparr>opt_page_size = DEFAULT_PAGE_SIZE,
     opt_checkpoint_threshold = DEFAULT_CHECKPOINT_THRESHOLD, opt_format_version = FORMAT_VERSION\<rparr>"

record pager =
  pg_main :: sim_file
  pg_wal :: wal
  pg_wal_path :: path
  pg_header :: header
  pg_wal_index :: "(u64 \<times> nat) list"
  pg_checkpoint_threshold :: u64
  pg_broken :: bool

record pending_header =
  pd_root_btree :: "u64 option"
  pd_hnsw_meta :: "u64 option"
  pd_fts_root :: "u64 option"
  pd_graph_root :: "u64 option"
  pd_filter_meta :: "u64 option"
  pd_filter_symbols :: "u64 option"
  pd_embedding :: "(rstring \<times> u16) option"

definition pending_default :: pending_header where
  "pending_default = \<lparr>pd_root_btree = None, pd_hnsw_meta = None, pd_fts_root = None,
     pd_graph_root = None, pd_filter_meta = None, pd_filter_symbols = None, pd_embedding = None\<rparr>"

definition pending_is_empty :: "pending_header \<Rightarrow> bool" where
  "pending_is_empty p \<longleftrightarrow> pd_root_btree p = None \<and> pd_hnsw_meta p = None \<and> pd_fts_root p = None \<and>
     pd_graph_root p = None \<and> pd_filter_meta p = None \<and> pd_filter_symbols p = None \<and>
     pd_embedding p = None"

record txn =
  tx_dirty :: "(u64 \<times> bytes) list" \<comment> \<open>\<^verbatim>\<open>BTreeMap\<close>\<close>
  tx_page_count :: u64
  tx_pending :: pending_header

section \<open>Create, open, close\<close>

definition wal_path_for :: "path \<Rightarrow> path" where
  "wal_path_for p = p @ ''-wal''"

text \<open>An error return after \<^verbatim>\<open>main\<close> is open drops the handle, which releases its lock. (The log's
  handle never holds a lock, so dropping it changes nothing.)\<close>

definition drop_on_err :: "sim_file \<Rightarrow> 'a result \<times> sim_state \<Rightarrow> 'a result \<times> sim_state" where
  "drop_on_err f m = (case m of (Inl e, st) \<Rightarrow> (Inl e, file_drop f st) | (Inr x, st) \<Rightarrow> (Inr x, st))"

definition pager_create :: "hash64 \<Rightarrow> path \<Rightarrow> pager_options \<Rightarrow> sim_state \<Rightarrow> pager result \<times> sim_state" where
  "pager_create xxh path opts st =
     (if opt_format_version opts = 0 \<or> FORMAT_VERSION < opt_format_version opts
      then (Inl (InvalidArgument ''format_version must be between 1 and FORMAT_VERSION''), st)
      else bind_st (header_new (opt_page_size opts), st) (\<lambda>h st.
      let h = h\<lparr>format_version := opt_format_version opts\<rparr> in
      bind_st (vfs_open path CreateNew st) (\<lambda>main st.
      drop_on_err main (
      bind_st (file_try_lock_exclusive main st) (\<lambda>locked st.
      if \<not> locked then (Inl WriteLocked, st)
      else let wal_path = wal_path_for path in
      bind_st (if vfs_exists wal_path st then vfs_delete wal_path st else (Inr (), st)) (\<lambda>_ st.
      bind_st (header_encode xxh h (replicate (unat (opt_page_size opts)) 0), st) (\<lambda>page0 st.
      bind_st (file_write_at main page0 0 st) (\<lambda>_ st.
      bind_st (file_sync main st) (\<lambda>_ st.
      bind_st (vfs_open wal_path OpenOrCreate st) (\<lambda>wal_file st.
        (Inr \<lparr>pg_main = main, pg_wal = wal_new wal_file (opt_page_size opts), pg_wal_path = wal_path,
              pg_header = h, pg_wal_index = [],
              pg_checkpoint_threshold = opt_checkpoint_threshold opts, pg_broken = False\<rparr>, st)))))))))))"

text \<open>The loop that copies committed images into the main file; \<^verbatim>\<open>open\<close> and \<^verbatim>\<open>checkpoint_inner\<close>
  contain the same lines.\<close>

fun apply_images :: "sim_file \<Rightarrow> sim_file \<Rightarrow> nat \<Rightarrow> (u64 \<times> nat) list \<Rightarrow> sim_state \<Rightarrow> unit result \<times> sim_state" where
  "apply_images wal_file main ps [] st = (Inr (), st)"
| "apply_images wal_file main ps ((page_no, off) # rest) st =
     bind_st (file_read_at wal_file ps off st, st) (\<lambda>img st.
     if 2 ^ 64 \<le> unat page_no * ps then (Inl (InvalidArgument ''page offset overflow''), st)
     else bind_st (file_write_at main img (unat page_no * ps) st) (\<lambda>_ st.
       apply_images wal_file main ps rest st))"

definition peek_main_page_size :: "sim_file \<Rightarrow> sim_state \<Rightarrow> (u32 option) result" where
  "peek_main_page_size main st =
     bind_result (file_len main st) (\<lambda>n.
     if n < HEADER_PEEK_LEN then Inr None
     else bind_result (file_read_at main HEADER_PEEK_LEN 0 st) (\<lambda>prefix.
       Inr (case peek_page_size prefix of Inl _ \<Rightarrow> None | Inr ps \<Rightarrow> Some ps)))"

definition read_header :: "hash64 \<Rightarrow> sim_file \<Rightarrow> sim_state \<Rightarrow> header result" where
  "read_header xxh main st =
     bind_result (file_len main st) (\<lambda>n.
     if n < HEADER_PEEK_LEN then Inl BadHeader
     else bind_result (file_read_at main HEADER_PEEK_LEN 0 st) (\<lambda>prefix.
     bind_result (peek_page_size prefix) (\<lambda>ps.
     bind_result (file_len main st) (\<lambda>n.
     if n < unat ps then Inl BadHeader
     else bind_result (file_read_at main (unat ps) 0 st) (\<lambda>page0. header_decode xxh page0)))))"

definition recover :: "hash64 \<Rightarrow> sim_file \<Rightarrow> sim_file \<Rightarrow> sim_state \<Rightarrow> unit result \<times> sim_state" where
  "recover xxh main wal_file st =
     bind_st (scan xxh wal_file st, st) (\<lambda>scanned st.
     bind_st
       (case scanned of
          None \<Rightarrow> (Inr (), st)
        | Some recovered \<Rightarrow>
            bind_st (peek_main_page_size main st, st) (\<lambda>expected st.
            if (case expected of None \<Rightarrow> True | Some ps \<Rightarrow> ps = rw_page_size recovered) \<and>
               rw_committed recovered \<noteq> []
            then bind_st (apply_images wal_file main (unat (rw_page_size recovered)) (rw_committed recovered) st)
                   (\<lambda>_ st. file_sync main st)
            else (Inr (), st)))
       (\<lambda>_ st.
     bind_st (file_len wal_file st, st) (\<lambda>n st.
     if 0 < n then bind_st (file_truncate wal_file 0 st) (\<lambda>_ st. file_sync wal_file st)
     else (Inr (), st))))"

definition pager_open :: "hash64 \<Rightarrow> path \<Rightarrow> pager_options \<Rightarrow> sim_state \<Rightarrow> pager result \<times> sim_state" where
  "pager_open xxh path opts st =
     bind_st (vfs_open path MustExist st) (\<lambda>main st.
     drop_on_err main (
     bind_st (file_try_lock_exclusive main st) (\<lambda>locked st.
     if \<not> locked then (Inl WriteLocked, st)
     else let wal_path = wal_path_for path in
     bind_st (vfs_open wal_path OpenOrCreate st) (\<lambda>wal_file st.
     bind_st (recover xxh main wal_file st) (\<lambda>_ st.
     bind_st (read_header xxh main st, st) (\<lambda>h st.
       (Inr \<lparr>pg_main = main, pg_wal = wal_new wal_file (page_size h), pg_wal_path = wal_path,
             pg_header = h, pg_wal_index = [],
             pg_checkpoint_threshold = opt_checkpoint_threshold opts, pg_broken = False\<rparr>, st)))))))"

section \<open>Reads\<close>

definition failed_state :: error where
  "failed_state = Io (Other ''store is in a failed state after an I/O error; reopen the file'')"

definition ensure_usable :: "pager \<Rightarrow> unit result" where
  "ensure_usable pg = (if pg_broken pg then Inl failed_state else Inr ())"

definition pager_page_count :: "pager \<Rightarrow> u64" where
  "pager_page_count pg = page_count (pg_header pg)"

definition pager_read_page :: "hash64 \<Rightarrow> pager \<Rightarrow> u64 \<Rightarrow> sim_state \<Rightarrow> bytes result" where
  "pager_read_page xxh pg page_no st =
     bind_result (ensure_usable pg) (\<lambda>_.
     if page_count (pg_header pg) \<le> page_no then Inl (PageOutOfBounds page_no (page_count (pg_header pg)))
     else let ps = unat (page_size (pg_header pg)) in
     bind_result
       (case map_of (pg_wal_index pg) page_no of
          Some off \<Rightarrow> read_image (pg_wal pg) off ps st
        | None \<Rightarrow> if 2 ^ 64 \<le> unat page_no * ps then Inl (InvalidArgument ''page offset overflow'')
                  else file_read_at (pg_main pg) ps (unat page_no * ps) st) (\<lambda>page.
     if \<not> page_checksum_is_valid xxh page then Inl (CorruptPage page_no) else Inr page))"

section \<open>Checkpoint and close\<close>

text \<open>\<open>ord\<close> is the iteration order of the \<^verbatim>\<open>HashMap\<close>.\<close>

definition checkpoint_inner :: "((u64 \<times> nat) list \<Rightarrow> (u64 \<times> nat) list) \<Rightarrow> pager \<Rightarrow> sim_state \<Rightarrow>
    unit result \<times> pager \<times> sim_state" where
  "checkpoint_inner ord pg st =
     (case bind_st (apply_images (w_file (pg_wal pg)) (pg_main pg) (unat (page_size (pg_header pg)))
             (ord (pg_wal_index pg)) st) (\<lambda>_ st. file_sync (pg_main pg) st) of
        (Inl e, st) \<Rightarrow> (Inl e, pg, st)
      | (Inr _, st) \<Rightarrow>
          case wal_reset (pg_wal pg) st of
            (Inl e, w, st) \<Rightarrow> (Inl e, pg\<lparr>pg_wal := w\<rparr>, st)
          | (Inr _, w, st) \<Rightarrow> (Inr (), pg\<lparr>pg_wal := w, pg_wal_index := []\<rparr>, st))"

definition pager_checkpoint :: "((u64 \<times> nat) list \<Rightarrow> (u64 \<times> nat) list) \<Rightarrow> pager \<Rightarrow> sim_state \<Rightarrow>
    unit result \<times> pager \<times> sim_state" where
  "pager_checkpoint ord pg st =
     (case ensure_usable pg of
        Inl e \<Rightarrow> (Inl e, pg, st)
      | Inr _ \<Rightarrow>
          if pg_wal_index pg = [] \<and> w_len (pg_wal pg) = 0 then (Inr (), pg, st)
          else case checkpoint_inner ord pg st of
                 (Inl e, pg, st) \<Rightarrow> (Inl e, pg\<lparr>pg_broken := True\<rparr>, st)
               | (Inr _, pg, st) \<Rightarrow> (Inr (), pg, st))"

text \<open>\<^verbatim>\<open>close\<close> consumes the pager: whatever it returns, the main handle is dropped.\<close>

definition pager_close :: "((u64 \<times> nat) list \<Rightarrow> (u64 \<times> nat) list) \<Rightarrow> pager \<Rightarrow> sim_state \<Rightarrow>
    unit result \<times> sim_state" where
  "pager_close ord pg st =
     (case pager_checkpoint ord pg st of
        (Inl e, pg, st) \<Rightarrow> (Inl e, file_drop (pg_main pg) st)
      | (Inr _, pg, st) \<Rightarrow>
          let st = file_drop (w_file (pg_wal pg)) st;
              (r, st) = (if vfs_exists (pg_wal_path pg) st then vfs_delete (pg_wal_path pg) st else (Inr (), st))
          in (r, file_drop (pg_main pg) st))"

section \<open>Transactions\<close>

definition pager_begin :: "pager \<Rightarrow> txn result" where
  "pager_begin pg =
     bind_result (ensure_usable pg) (\<lambda>_.
     Inr \<lparr>tx_dirty = [], tx_page_count = page_count (pg_header pg), tx_pending = pending_default\<rparr>)"

definition allocate_page :: "hash64 \<Rightarrow> pager \<Rightarrow> txn \<Rightarrow> u64 result \<times> txn" where
  "allocate_page xxh pg tx =
     (let page_no = tx_page_count tx in
      if unat (tx_page_count tx) + 1 = 2 ^ 64 then (Inl (InvalidArgument ''page count overflow''), tx)
      else let page = stamp_page_checksum xxh (replicate (unat (page_size (pg_header pg))) 0)
           in (Inr page_no, tx\<lparr>tx_page_count := tx_page_count tx + 1,
                               tx_dirty := bmap_insert page_no page (tx_dirty tx)\<rparr>))"

definition write_page :: "hash64 \<Rightarrow> pager \<Rightarrow> u64 \<Rightarrow> bytes \<Rightarrow> txn \<Rightarrow> unit result \<times> txn" where
  "write_page xxh pg page_no data tx =
     (if length data \<noteq> unat (page_size (pg_header pg))
      then (Inl (InvalidArgument ''page write must be exactly one page''), tx)
      else if page_no = 0 then (Inl (InvalidArgument ''page 0 (header) is managed by the pager''), tx)
      else if tx_page_count tx \<le> page_no then (Inl (PageOutOfBounds page_no (tx_page_count tx)), tx)
      else (Inr (), tx\<lparr>tx_dirty := bmap_insert page_no (stamp_page_checksum xxh data) (tx_dirty tx)\<rparr>))"

definition txn_read_page :: "hash64 \<Rightarrow> pager \<Rightarrow> u64 \<Rightarrow> txn \<Rightarrow> sim_state \<Rightarrow> bytes result" where
  "txn_read_page xxh pg page_no tx st =
     (case map_of (tx_dirty tx) page_no of
        Some page \<Rightarrow> Inr page
      | None \<Rightarrow> if tx_page_count tx \<le> page_no then Inl (PageOutOfBounds page_no (tx_page_count tx))
                else pager_read_page xxh pg page_no st)"

definition txn_root_btree_page :: "pager \<Rightarrow> txn \<Rightarrow> u64" where
  "txn_root_btree_page pg tx = (case pd_root_btree (tx_pending tx) of Some p \<Rightarrow> p | None \<Rightarrow> root_btree_page (pg_header pg))"
definition set_root_btree_page :: "u64 \<Rightarrow> txn \<Rightarrow> txn" where
  "set_root_btree_page p tx = tx\<lparr>tx_pending := (tx_pending tx)\<lparr>pd_root_btree := Some p\<rparr>\<rparr>"
definition txn_hnsw_meta_page :: "pager \<Rightarrow> txn \<Rightarrow> u64" where
  "txn_hnsw_meta_page pg tx = (case pd_hnsw_meta (tx_pending tx) of Some p \<Rightarrow> p | None \<Rightarrow> hnsw_meta_page (pg_header pg))"
definition set_hnsw_meta_page :: "u64 \<Rightarrow> txn \<Rightarrow> txn" where
  "set_hnsw_meta_page p tx = tx\<lparr>tx_pending := (tx_pending tx)\<lparr>pd_hnsw_meta := Some p\<rparr>\<rparr>"
definition txn_fts_root_page :: "pager \<Rightarrow> txn \<Rightarrow> u64" where
  "txn_fts_root_page pg tx = (case pd_fts_root (tx_pending tx) of Some p \<Rightarrow> p | None \<Rightarrow> fts_root_page (pg_header pg))"
definition set_fts_root_page :: "u64 \<Rightarrow> txn \<Rightarrow> txn" where
  "set_fts_root_page p tx = tx\<lparr>tx_pending := (tx_pending tx)\<lparr>pd_fts_root := Some p\<rparr>\<rparr>"
definition txn_graph_root_page :: "pager \<Rightarrow> txn \<Rightarrow> u64" where
  "txn_graph_root_page pg tx = (case pd_graph_root (tx_pending tx) of Some p \<Rightarrow> p | None \<Rightarrow> graph_root_page (pg_header pg))"
definition set_graph_root_page :: "u64 \<Rightarrow> txn \<Rightarrow> txn" where
  "set_graph_root_page p tx = tx\<lparr>tx_pending := (tx_pending tx)\<lparr>pd_graph_root := Some p\<rparr>\<rparr>"
definition txn_filter_meta_page :: "pager \<Rightarrow> txn \<Rightarrow> u64" where
  "txn_filter_meta_page pg tx = (case pd_filter_meta (tx_pending tx) of Some p \<Rightarrow> p | None \<Rightarrow> filter_meta_page (pg_header pg))"
definition set_filter_meta_page :: "u64 \<Rightarrow> txn \<Rightarrow> txn" where
  "set_filter_meta_page p tx = tx\<lparr>tx_pending := (tx_pending tx)\<lparr>pd_filter_meta := Some p\<rparr>\<rparr>"
definition txn_filter_symbols_page :: "pager \<Rightarrow> txn \<Rightarrow> u64" where
  "txn_filter_symbols_page pg tx = (case pd_filter_symbols (tx_pending tx) of Some p \<Rightarrow> p | None \<Rightarrow> filter_symbols_page (pg_header pg))"
definition set_filter_symbols_page :: "u64 \<Rightarrow> txn \<Rightarrow> txn" where
  "set_filter_symbols_page p tx = tx\<lparr>tx_pending := (tx_pending tx)\<lparr>pd_filter_symbols := Some p\<rparr>\<rparr>"

definition set_embedding_model :: "rstring \<Rightarrow> u16 \<Rightarrow> txn \<Rightarrow> unit result \<times> txn" where
  "set_embedding_model model_id dims tx =
     (if MAX_MODEL_ID_LEN < length model_id then (Inl (InvalidArgument ''embedding_model_id exceeds 64 bytes''), tx)
      else (Inr (), tx\<lparr>tx_pending := (tx_pending tx)\<lparr>pd_embedding := Some (model_id, dims)\<rparr>\<rparr>))"

section \<open>Commit\<close>

text \<open>The new header of a commit.\<close>

definition pending_apply :: "header \<Rightarrow> u64 \<Rightarrow> pending_header \<Rightarrow> header" where
  "pending_apply h new_page_count p =
     (let h = h\<lparr>page_count := new_page_count\<rparr>;
          h = (case pd_root_btree p of Some r \<Rightarrow> h\<lparr>root_btree_page := r\<rparr> | None \<Rightarrow> h);
          h = (case pd_hnsw_meta p of Some r \<Rightarrow> h\<lparr>hnsw_meta_page := r\<rparr> | None \<Rightarrow> h);
          h = (case pd_fts_root p of Some r \<Rightarrow> h\<lparr>fts_root_page := r\<rparr> | None \<Rightarrow> h);
          h = (case pd_graph_root p of Some r \<Rightarrow> h\<lparr>graph_root_page := r\<rparr> | None \<Rightarrow> h);
          h = (case pd_filter_meta p of Some r \<Rightarrow> h\<lparr>filter_meta_page := r\<rparr> | None \<Rightarrow> h);
          h = (case pd_filter_symbols p of Some r \<Rightarrow> h\<lparr>filter_symbols_page := r\<rparr> | None \<Rightarrow> h);
          h = (case pd_embedding p of
                 Some (model_id, dims) \<Rightarrow> h\<lparr>embedding_model_id := model_id, embedding_dims := dims\<rparr>
               | None \<Rightarrow> h)
      in h\<lparr>txn_counter := txn_counter h + 1\<rparr>)"

definition commit_txn :: "hash64 \<Rightarrow> ((u64 \<times> nat) list \<Rightarrow> (u64 \<times> nat) list) \<Rightarrow> u64 \<Rightarrow>
    (u64 \<times> bytes) list \<Rightarrow> u64 \<Rightarrow> pending_header \<Rightarrow> pager \<Rightarrow> sim_state \<Rightarrow> u64 result \<times> pager \<times> sim_state" where
  "commit_txn xxh ord new_salt dirty new_page_count pending pg st =
     (case ensure_usable pg of
        Inl e \<Rightarrow> (Inl e, pg, st)
      | Inr _ \<Rightarrow>
      if dirty = [] \<and> new_page_count = page_count (pg_header pg) \<and> pending_is_empty pending
      then (Inr (txn_counter (pg_header pg)), pg, st)
      else let new_header = pending_apply (pg_header pg) new_page_count pending;
               txn_id = txn_counter new_header
           in case header_encode xxh new_header (replicate (unat (page_size (pg_header pg))) 0) of
                Inl e \<Rightarrow> (Inl e, pg, st)
              | Inr page0 \<Rightarrow>
                  (case append_txn xxh new_salt txn_id (dirty @ [(0, page0)]) (pg_wal pg) st of
                     (Inl e, w, st) \<Rightarrow> (Inl e, pg\<lparr>pg_wal := w, pg_broken := True\<rparr>, st)
                   | (Inr offsets, w, st) \<Rightarrow>
                       let pg = pg\<lparr>pg_wal := w, pg_header := new_header,
                                   pg_wal_index := commit_pending offsets (pg_wal_index pg)\<rparr>
                       in if unat (pg_checkpoint_threshold pg) \<le> w_len (pg_wal pg)
                          then case pager_checkpoint ord pg st of
                                 (Inl e, pg, st) \<Rightarrow> (Inl e, pg, st)
                               | (Inr _, pg, st) \<Rightarrow> (Inr txn_id, pg, st)
                          else (Inr txn_id, pg, st)))"

definition txn_commit :: "hash64 \<Rightarrow> ((u64 \<times> nat) list \<Rightarrow> (u64 \<times> nat) list) \<Rightarrow> u64 \<Rightarrow> txn \<Rightarrow> pager \<Rightarrow>
    sim_state \<Rightarrow> u64 result \<times> pager \<times> sim_state" where
  "txn_commit xxh ord new_salt tx pg st =
     commit_txn xxh ord new_salt (tx_dirty tx) (tx_page_count tx) (tx_pending tx) pg st"

end
