(* ===== verification/Main_File.thy ===== *)
theory Main_File
  imports Pager
begin

text \<open>
  The main file as an array of pages. \<open>page_at\<close> reads page \<open>p\<close> of a byte image, \<open>put_page\<close> is the
  whole-page write, and \<open>touched K B c\<close> says that each byte of \<open>c\<close> within the length of \<open>B\<close> is the byte
  of \<open>B\<close> or the byte of an image of \<open>K\<close> at its place. Copying committed images into the main file, torn or not, and a power
  failure afterwards, touch only the pages copied.
\<close>

definition page_at :: "nat \<Rightarrow> bytes \<Rightarrow> u64 \<Rightarrow> bytes option" where
  "page_at ps M p = (if unat p * ps + ps \<le> length M then Some (seg (unat p * ps) ps M) else None)"

definition put_page :: "nat \<Rightarrow> bytes \<Rightarrow> u64 \<Rightarrow> bytes \<Rightarrow> bytes" where
  "put_page ps M p img = write_bytes (pad_to (unat p * ps + length img) M) (unat p * ps) img"

definition touched :: "nat \<Rightarrow> (u64 \<times> bytes) set \<Rightarrow> bytes \<Rightarrow> bytes \<Rightarrow> bool" where
  "touched ps K B c \<longleftrightarrow> length B \<le> length c \<and>
     (\<forall>i < length B. c ! i = B ! i \<or> (\<exists>(p, img) \<in> K. i div ps = unat p \<and> c ! i = img ! (i mod ps)))"

lemma length_pad_to [simp]: "length (pad_to n xs) = max n (length xs)"
  by (simp add: pad_to_def)

lemma nth_pad_to: "i < length xs \<Longrightarrow> pad_to n xs ! i = xs ! i"
  by (simp add: pad_to_def nth_append)

lemma page_end: "(a::nat) < b \<Longrightarrow> a * n + n \<le> b * n"
  using mult_le_mono1 [of "a + 1" b n] by simp

lemma page_at_put_same: "length img = ps \<Longrightarrow> page_at ps (put_page ps M p img) p = Some img"
  by (simp add: page_at_def put_page_def seg_write_same)

lemma touched_refl [simp]: "touched ps K B B"
  by (simp add: touched_def)

lemma touched_trans: "touched ps K A B \<Longrightarrow> touched ps K B C \<Longrightarrow> touched ps K A C"
proof -
  assume t: "touched ps K A B" "touched ps K B C"
  have "C ! i = A ! i \<or> (\<exists>(p, img) \<in> K. i div ps = unat p \<and> C ! i = img ! (i mod ps))" if "i < length A" for i
  proof -
    have "i < length B" using t(1) that by (simp add: touched_def)
    with t that show ?thesis unfolding touched_def by metis
  qed
  then show ?thesis using t by (simp add: touched_def)
qed

lemma touched_mono: "touched ps K B c \<Longrightarrow> K \<subseteq> L \<Longrightarrow> touched ps L B c"
  unfolding touched_def by (metis (no_types, lifting) subsetD)

lemma in_page:
  assumes "unat p * ps \<le> i" "i < unat p * ps + ps"
  shows "i div ps = unat p \<and> i mod ps = i - unat p * ps"
proof -
  have i: "i = (i - unat p * ps) + unat p * ps" "i - unat p * ps < ps" using assms by auto
  then have "0 < ps" by linarith
  with i(2) show ?thesis
    by (subst (1 2) i(1)) simp
qed

lemma touched_put:
  assumes "length img = ps"
    and out: "\<And>i. i < unat p * ps \<or> unat p * ps + ps \<le> i \<Longrightarrow> c ! i = pad_to (unat p * ps + ps) M ! i"
    and ins: "\<And>i. unat p * ps \<le> i \<Longrightarrow> i < unat p * ps + ps \<Longrightarrow>
      c ! i \<in> {pad_to (unat p * ps + ps) M ! i, img ! (i - unat p * ps)}"
    and len: "length c = max (unat p * ps + ps) (length M)"
  shows "touched ps {(p, img)} M c"
proof -
  have "c ! i = M ! i \<or> i div ps = unat p \<and> c ! i = img ! (i mod ps)" if i: "i < length M" for i
  proof (cases "unat p * ps \<le> i \<and> i < unat p * ps + ps")
    case True
    then show ?thesis using ins [of i] in_page [of p ps i] i by (auto simp: nth_pad_to)
  next
    case False
    then show ?thesis using out [of i] i by (auto simp: nth_pad_to)
  qed
  then show ?thesis using len by (simp add: touched_def)
qed

lemma touched_put_page:
  assumes "length img = ps"
  shows "touched ps {(p, img)} M (put_page ps M p img)"
  by (rule touched_put [OF assms])
     (auto simp: put_page_def write_bytes_def nth_append assms)

lemma touched_torn:
  assumes "length img = ps"
  shows "touched ps {(p, img)} M (torn_write img (unat p * ps) (unat p * ps + ps) (unat p * ps)
    (pad_to (unat p * ps + ps) M) seed)"
  by (rule touched_put [OF assms])
     (use torn_write_nth [of _ "unat p * ps" img, unfolded assms] in \<open>auto simp: torn_write_outside\<close>)

lemma touched_page:
  assumes "touched ps K B c" "p \<notin> fst ` K" "page_at ps B p = Some x"
  shows "page_at ps c p = Some x"
proof -
  have fit: "unat p * ps + ps \<le> length B" and x: "x = seg (unat p * ps) ps B"
    using assms(3) by (auto simp: page_at_def split: if_splits)
  have fit': "unat p * ps + ps \<le> length c" using fit assms(1) by (simp add: touched_def)
  have "seg (unat p * ps) ps c = seg (unat p * ps) ps B"
  proof (rule nth_equalityI)
    fix i assume "i < length (seg (unat p * ps) ps c)"
    then have i: "i < ps" by simp
    then have "(unat p * ps + i) div ps = unat p" by simp
    moreover have "unat p \<noteq> unat q" if "(q, img) \<in> K" for q img
      using assms(2) that by (metis fst_conv image_iff unsigned_word_eqI)
    moreover have "unat p * ps + i < length B" using i fit by simp
    ultimately have "c ! (unat p * ps + i) = B ! (unat p * ps + i)"
      using assms(1) unfolding touched_def by fastforce
    then show "seg (unat p * ps) ps c ! i = seg (unat p * ps) ps B ! i"
      using i fit fit' by (simp add: nth_seg)
  qed (use fit fit' in simp)
  then show ?thesis using fit' x by (simp add: page_at_def)
qed

lemma touched_crash:
  assumes "touched ps K (synced d) (current d)" "crash_image d bs"
  shows "touched ps K (synced d) bs"
proof -
  have len: "length (synced d) \<le> length bs"
    using crash_image_mix [OF assms(2)] assms(1) by (metis touched_def order_refl)
  have "bs ! i = synced d ! i \<or> bs ! i = current d ! i" if "i < length (synced d)" for i
    using crash_image_byte [OF assms(2), of i] that len assms(1) by (auto simp: byte_at_def touched_def)
  with len assms(1) show ?thesis unfolding touched_def by metis
qed

section \<open>Copying a list of images\<close>

definition put_pages :: "nat \<Rightarrow> (u64 \<times> bytes) list \<Rightarrow> bytes \<Rightarrow> bytes" where
  "put_pages ps kvs M = fold (\<lambda>(p, img) M. put_page ps M p img) kvs M"

lemma put_pages_Cons [simp]: "put_pages ps ((p, img) # kvs) M = put_pages ps kvs (put_page ps M p img)"
  by (simp add: put_pages_def)

lemma put_pages_Nil [simp]: "put_pages ps [] M = M"
  by (simp add: put_pages_def)

lemma touched_put_pages:
  assumes "\<forall>(p, img) \<in> set kvs. length img = ps"
  shows "touched ps (set kvs) M (put_pages ps kvs M)"
  using assms
proof (induction kvs arbitrary: M)
  case (Cons kv kvs)
  obtain p img where kv: "kv = (p, img)" by (cases kv)
  have "touched ps (set (kv # kvs)) M (put_page ps M p img)"
    using touched_put_page [of img ps p M] Cons.prems kv by (auto intro: touched_mono)
  moreover have "touched ps (set (kv # kvs)) (put_page ps M p img) (put_pages ps kvs (put_page ps M p img))"
    using Cons.IH [of "put_page ps M p img"] Cons.prems by (auto intro: touched_mono)
  ultimately show ?case by (simp add: kv touched_trans)
qed simp

text \<open>After the copy every copied page reads back its image.\<close>

lemma put_pages_page:
  assumes "\<forall>(p, img) \<in> set kvs. length img = ps" "distinct (map fst kvs)" "(p, img) \<in> set kvs"
  shows "page_at ps (put_pages ps kvs M) p = Some img"
  using assms
proof (induction kvs arbitrary: M)
  case (Cons kv kvs)
  obtain q v where kv: "kv = (q, v)" by (cases kv)
  show ?case
  proof (cases "(p, img) \<in> set kvs")
    case True
    then show ?thesis using Cons by (simp add: kv)
  next
    case False
    then have pq: "q = p" "v = img" using Cons.prems(3) kv by auto
    have "touched ps (set kvs) (put_page ps M p img) (put_pages ps kvs (put_page ps M p img))"
      using touched_put_pages Cons.prems(1) by auto
    moreover have "page_at ps (put_page ps M p img) p = Some img" "p \<notin> fst ` set kvs"
      using page_at_put_same Cons.prems(1,2) kv pq by auto
    ultimately show ?thesis
      using touched_page by (simp add: kv pq)
  qed
qed simp

section \<open>The copy loop on the file system\<close>

text \<open>The images at the offsets of an index.\<close>

definition index_entries :: "nat \<Rightarrow> bytes \<Rightarrow> (u64 \<times> nat) list \<Rightarrow> (u64 \<times> bytes) list" where
  "index_entries ps W idx = map (\<lambda>(p, off). (p, seg off ps W)) idx"

lemma apply_images_effect:
  assumes "apply_images wfile main ps idx st = (r, st')"
    "files st (sf_path wfile) = Some dw" "current dw = W" "files st (sf_path main) = Some dm"
    "sf_path main \<noteq> sf_path wfile" "\<not> crashed st"
    "\<forall>(p, off) \<in> set idx. off + ps \<le> length W \<and> unat p * ps < 2 ^ 64"
  shows "\<exists>c. files st' = (files st)(sf_path main \<mapsto> dm\<lparr>current := c\<rparr>) \<and>
      touched ps (set (index_entries ps W idx)) (current dm) c \<and> lying_sync st' = lying_sync st \<and> crash_at st' = crash_at st \<and>
      (r = Inr () \<and> \<not> crashed st' \<and> c = put_pages ps (index_entries ps W idx) (current dm) \<or>
       r = Inl crash_error \<and> crashed st' \<and> crash_at st \<noteq> None)"
  using assms
proof (induction idx arbitrary: st dm r st')
  case Nil
  then show ?case by (intro exI [of _ "current dm"]) (auto simp: index_entries_def fun_eq_iff)
next
  case (Cons kv idx)
  obtain p off where kv: "kv = (p, off)" by (cases kv)
  let ?img = "seg off ps W" and ?pos = "unat p * ps"
  have b: "off + ps \<le> length W" "?pos < 2 ^ 64" using Cons.prems(7) kv by auto
  have img: "length ?img = ps" using b by simp
  have rd: "file_read_at wfile ps off st = Inr ?img"
    using Cons.prems(2,3,6) b by (simp add: file_read_at_def get_range_len)
  obtain r1 st1 where wr: "file_write_at main ?img ?pos st = (r1, st1)" by fastforce
  have step: "apply_images wfile main ps (kv # idx) st =
      bind_st (r1, st1) (\<lambda>_ st. apply_images wfile main ps idx st)"
    using b(2) by (simp add: kv rd wr not_le)
  note c = file_write_at_cases [OF wr Cons.prems(4), unfolded img]
  have put: "write_bytes (pad_to (?pos + ps) (current dm)) ?pos ?img = put_page ps (current dm) p ?img"
    unfolding put_page_def img ..
  let ?K = "set (index_entries ps W (kv # idx))"
  have tp: "touched ps ?K M (put_page ps M p ?img)" for M
    using touched_put_page [OF img] by (rule touched_mono) (simp add: kv index_entries_def)
  have tt: "touched ps ?K (current dm) (torn_write ?img ?pos (?pos + ps) ?pos (pad_to (?pos + ps) (current dm)) seed)" for seed
    using touched_torn [OF img] by (rule touched_mono) (simp add: kv index_entries_def)
  consider (ok) "r1 = Inr ()" "\<not> crashed st1"
      "files st1 = (files st)(sf_path main \<mapsto> dm\<lparr>current := put_page ps (current dm) p ?img\<rparr>)"
    | (dead) "r1 = Inl crash_error" "crashed st1" "files st1 = files st" "crash_at st \<noteq> None"
    | (torn) seed where "r1 = Inl crash_error" "crashed st1" "crash_at st \<noteq> None" "files st1 = (files st)(sf_path main \<mapsto>
        dm\<lparr>current := torn_write ?img ?pos (?pos + ps) ?pos (pad_to (?pos + ps) (current dm)) seed\<rparr>)"
    using c(3) [unfolded put] Cons.prems(6) by blast
  then show ?case
  proof cases
    case ok
    let ?dm = "dm\<lparr>current := put_page ps (current dm) p ?img\<rparr>"
    have a: "apply_images wfile main ps idx st1 = (r, st')" using Cons.prems(1) step ok(1) by simp
    have "\<exists>c. files st' = (files st1)(sf_path main \<mapsto> ?dm\<lparr>current := c\<rparr>) \<and>
      touched ps (set (index_entries ps W idx)) (current ?dm) c \<and> lying_sync st' = lying_sync st1 \<and> crash_at st' = crash_at st1 \<and>
      (r = Inr () \<and> \<not> crashed st' \<and> c = put_pages ps (index_entries ps W idx) (current ?dm) \<or>
       r = Inl crash_error \<and> crashed st' \<and> crash_at st1 \<noteq> None)"
      using Cons.prems ok by (intro Cons.IH [OF a]) auto
    then obtain e where e: "files st' = (files st)(sf_path main \<mapsto> dm\<lparr>current := e\<rparr>)"
      "touched ps (set (index_entries ps W idx)) (put_page ps (current dm) p ?img) e" "lying_sync st' = lying_sync st1"
      "crash_at st' = crash_at st1"
      "r = Inr () \<and> \<not> crashed st' \<and> e = put_pages ps (index_entries ps W idx) (put_page ps (current dm) p ?img) \<or>
       r = Inl crash_error \<and> crashed st' \<and> crash_at st1 \<noteq> None"
      using ok(3) by auto
    have "touched ps ?K (current dm) e"
      using tp touched_mono [OF e(2), of ?K] by (auto intro: touched_trans simp: index_entries_def)
    then show ?thesis
      using e c(1,2) by (intro exI [of _ e]) (simp add: index_entries_def kv)
  next
    case dead
    then show ?thesis
      using Cons.prems(1,4) step c(1,2) by (intro exI [of _ "current dm"]) (auto simp: fun_eq_iff)
  next
    case (torn seed)
    then show ?thesis
      using Cons.prems(1) step c(1,2) tt [of seed]
      by (intro exI [of _ "torn_write ?img ?pos (?pos + ps) ?pos (pad_to (?pos + ps) (current dm)) seed"]) simp
  qed
qed

end
