(* ===== verification/Pager_Store.thy ===== *)
theory Pager_Store
  imports Main_File "HOL-Library.Multiset"
begin

text \<open>
  What the pager stores: a header and a page per number below its page count. \<open>disk_ok\<close> relates
  that abstract store to the bytes on disk (the main file and the images recovered from the log),
  \<open>represents\<close> to an open pager. Recovery, checkpoint and commit keep the first or move to the next
  store, and a power failure at any of their file operations is repaired by the next open.
\<close>

section \<open>The header page\<close>

definition header_page :: "hash64 \<Rightarrow> header \<Rightarrow> bytes" where
  "header_page xxh h = stamp_page_checksum xxh (header_fields h (replicate (unat (page_size h)) 0))"

definition header_prefix :: "header \<Rightarrow> bytes" where
  "header_prefix h = MAGIC @ u32_to_le (format_version h) @ u32_to_le (page_size h)"

lemma header_page_encode:
  assumes "header_wf h"
  shows "header_encode xxh h (replicate (unat (page_size h)) 0) = Inr (header_page xxh h)"
  using assms by (simp add: header_encode_def header_wf_def header_page_def)

lemma header_wf_size: "header_wf h \<Longrightarrow> 512 \<le> unat (page_size h) \<and> unat (page_size h) \<le> 65536"
  using page_size_bounds by (simp add: header_wf_def)

lemma header_page_facts:
  assumes "header_wf h"
  shows "length (header_page xxh h) = unat (page_size h)" "page_checksum_is_valid xxh (header_page xxh h)"
    "header_decode xxh (header_page xxh h) = Inr h"
    "peek_page_size (take 16 (header_page xxh h)) = Inr (page_size h)"
  using header_wf_size [OF assms] header_roundtrip [OF header_page_encode [OF assms] assms]
    peek_page_size_encode [OF header_page_encode [OF assms]]
  by (simp_all add: header_page_def stamp_valid)

lemma header_page_prefix:
  assumes "header_wf h"
  shows "take 16 (header_page xxh h) = header_prefix h"
proof -
  have big: "512 \<le> unat (page_size h)" and id: "length (embedding_model_id h) \<le> 64"
    using header_wf_size [OF assms] assms by (simp_all add: header_wf_def)
  have "take 16 (header_page xxh h) = seg 0 (8 + (4 + 4)) (header_page xxh h)"
    by (simp add: seg_def)
  also have "\<dots> = seg 0 8 (header_page xxh h) @ seg 8 4 (header_page xxh h) @ seg 12 4 (header_page xxh h)"
    by (simp only: seg_split) simp
  also have "\<dots> = header_prefix h"
    using header_fields_segs(1-3) [of "replicate (unat (page_size h)) 0" h] big id
    by (simp add: header_page_def stamp_seg header_prefix_def)
  finally show ?thesis .
qed

section \<open>The abstract store on disk\<close>

definition store_ok :: "hash64 \<Rightarrow> header \<Rightarrow> (u64 \<Rightarrow> bytes option) \<Rightarrow> bool" where
  "store_ok xxh h V \<longleftrightarrow> header_wf h \<and> unat (page_count h) * unat (page_size h) < 2 ^ 64 \<and>
     dom V = {p. p < page_count h} \<and> V 0 = Some (header_page xxh h) \<and>
     (\<forall>p page. V p = Some page \<longrightarrow> length page = unat (page_size h) \<and> page_checksum_is_valid xxh page)"

definition page_view :: "nat \<Rightarrow> (u64 \<Rightarrow> bytes option) \<Rightarrow> bytes \<Rightarrow> u64 \<Rightarrow> bytes option" where
  "page_view ps m M p = (case m p of Some img \<Rightarrow> Some img | None \<Rightarrow> page_at ps M p)"

text \<open>The main file \<open>M\<close>, overlaid with the images \<open>m\<close>, holds the store.\<close>

definition disk_ok :: "hash64 \<Rightarrow> header \<Rightarrow> (u64 \<Rightarrow> bytes option) \<Rightarrow> (u64 \<Rightarrow> bytes option) \<Rightarrow> bytes \<Rightarrow> bool" where
  "disk_ok xxh h V m M \<longleftrightarrow> store_ok xxh h V \<and> dom m \<subseteq> dom V \<and>
     (\<forall>p \<in> dom V. page_view (unat (page_size h)) m M p = V p) \<and>
     16 \<le> length M \<and> take 16 M = header_prefix h"

lemma disk_ok_image:
  assumes "disk_ok xxh h V m M" "m p = Some img"
  shows "V p = Some img" "length img = unat (page_size h)" "unat p * unat (page_size h) < 2 ^ 64"
proof -
  have p: "p \<in> dom V" using assms by (auto simp: disk_ok_def)
  then have "page_view (unat (page_size h)) m M p = V p" using assms(1) by (simp add: disk_ok_def)
  then show v: "V p = Some img" using assms(2) by (simp add: page_view_def)
  have s: "store_ok xxh h V" using assms(1) by (simp add: disk_ok_def)
  then show "length img = unat (page_size h)" using v by (auto simp: store_ok_def)
  have "p < page_count h" using s p by (auto simp: store_ok_def)
  then have "unat p * unat (page_size h) \<le> unat (page_count h) * unat (page_size h)"
    by (intro mult_le_mono1) (simp add: word_less_nat_alt)
  moreover have "unat (page_count h) * unat (page_size h) < 2 ^ 64" using s by (simp add: store_ok_def)
  ultimately show "unat p * unat (page_size h) < 2 ^ 64" by linarith
qed

lemma disk_ok_main:
  assumes "disk_ok xxh h V m M" "m p = None" "p \<in> dom V"
  shows "page_at (unat (page_size h)) M p = V p"
proof -
  have "page_view (unat (page_size h)) m M p = V p" using assms(1,3) by (simp add: disk_ok_def)
  with assms(2) show ?thesis by (simp add: page_view_def)
qed

lemma take_16_bytes:
  assumes "16 \<le> length c" "16 \<le> length (M :: bytes)" "\<And>i. i < 16 \<Longrightarrow> c ! i = M ! i"
  shows "take 16 c = take 16 M"
  using assms by (intro nth_equalityI) auto

text \<open>The bytes of the header prefix are the same in every version of page 0.\<close>

lemma disk_ok_touched_prefix:
  assumes "disk_ok xxh h V m M" "touched (unat (page_size h)) {(p, img). m p = Some img} M c"
  shows "16 \<le> length c" "take 16 c = header_prefix h"
proof -
  have wf: "header_wf h" and V0: "V 0 = Some (header_page xxh h)" and M: "16 \<le> length M" "take 16 M = header_prefix h"
    using assms(1) by (simp_all add: disk_ok_def store_ok_def)
  have big: "512 \<le> unat (page_size h)" using header_wf_size [OF wf] by simp
  show c16: "16 \<le> length c" using assms(2) M by (simp add: touched_def)
  have "c ! i = M ! i" if i: "i < 16" for i
  proof -
    have "c ! i = M ! i \<or> (\<exists>(p, img) \<in> {(p, img). m p = Some img}.
        i div unat (page_size h) = unat p \<and> c ! i = img ! (i mod unat (page_size h)))"
      using assms(2) i M(1) by (auto simp: touched_def)
    then show ?thesis
    proof (elim disjE bexE, goal_cases)
      case (2 x)
      obtain p img where x: "x = (p, img)" "m p = Some img" using 2 by auto
      have "i div unat (page_size h) = 0" "i mod unat (page_size h) = i" using i big by simp_all
      with 2 x have "unat p = 0" "c ! i = img ! i" by auto
      then have "V 0 = Some img" "c ! i = img ! i"
        using disk_ok_image(1) [OF assms(1) x(2)] by (simp_all add: unat_eq_zero)
      then have "c ! i = take 16 (header_page xxh h) ! i" using V0 i by simp
      then show ?thesis using header_page_prefix [OF wf] M(2) i by (metis nth_take)
    qed simp
  qed
  then show "take 16 c = header_prefix h"
    using take_16_bytes [OF c16 M(1)] M(2) by simp
qed

lemma disk_ok_touched:
  assumes "disk_ok xxh h V m M" "touched (unat (page_size h)) {(p, img). m p = Some img} M c"
  shows "disk_ok xxh h V m c"
proof -
  have "page_view (unat (page_size h)) m c p = V p" if p: "p \<in> dom V" for p
  proof (cases "m p")
    case None
    then have "p \<notin> fst ` {(p, img). m p = Some img}" "page_at (unat (page_size h)) M p = V p"
      using disk_ok_main [OF assms(1) None p] by auto
    with touched_page [OF assms(2)] p None show ?thesis by (auto simp: page_view_def)
  next
    case (Some img)
    with disk_ok_image(1) [OF assms(1)] show ?thesis by (simp add: page_view_def)
  qed
  then show ?thesis
    using assms(1) disk_ok_touched_prefix [OF assms] by (simp add: disk_ok_def)
qed

text \<open>Once every image is in the main file, the main file alone holds the store.\<close>

lemma disk_ok_applied:
  assumes "disk_ok xxh h V m M" "set kvs = {(p, img). m p = Some img}" "distinct (map fst kvs)"
  defines "c \<equiv> put_pages (unat (page_size h)) kvs M"
  shows "disk_ok xxh h V Map.empty c" "disk_ok xxh h V m c"
proof -
  let ?ps = "unat (page_size h)"
  have len: "\<forall>(p, img) \<in> set kvs. length img = ?ps"
    using assms(2) disk_ok_image(2) [OF assms(1)] by auto
  have t: "touched ?ps {(p, img). m p = Some img} M c"
    using touched_put_pages [OF len] assms(2) by (simp add: c_def)
  show m: "disk_ok xxh h V m c" by (rule disk_ok_touched [OF assms(1) t])
  have "page_at ?ps c p = V p" if p: "p \<in> dom V" for p
  proof (cases "m p")
    case None
    then show ?thesis using disk_ok_main [OF m _ p] by simp
  next
    case (Some img)
    then have "page_at ?ps c p = Some img"
      unfolding c_def using assms(2,3) by (intro put_pages_page [OF len]) auto
    then show ?thesis using disk_ok_image(1) [OF assms(1) Some] by simp
  qed
  then show "disk_ok xxh h V Map.empty c"
    using m by (simp add: disk_ok_def page_view_def)
qed

section \<open>Copying the log into the main file\<close>

lemma index_entries_images:
  assumes "index_ok ps n idx" "index_images ps W idx = m"
  shows "set (index_entries ps W idx) = {(p, img). m p = Some img}"
    "distinct (map fst (index_entries ps W idx))" "map fst (index_entries ps W idx) = map fst idx"
proof -
  have d: "distinct (map fst idx)" using assms(1) by (simp add: index_ok_def bmap_wf_distinct)
  show f: "map fst (index_entries ps W idx) = map fst idx"
    by (auto simp: index_entries_def)
  show "distinct (map fst (index_entries ps W idx))" using d f by simp
  have "m p = Some img \<longleftrightarrow> (\<exists>off. (p, off) \<in> set idx \<and> img = seg off ps W)" for p img
    using assms(2) by (auto simp: index_images_def d)
  then show "set (index_entries ps W idx) = {(p, img). m p = Some img}"
    by (auto simp: index_entries_def image_iff)
qed

text \<open>An index whose images are those of a store on disk can be copied in any order.\<close>

definition copyable :: "hash64 \<Rightarrow> header \<Rightarrow> (u64 \<Rightarrow> bytes option) \<Rightarrow> bytes \<Rightarrow> (u64 \<times> nat) list \<Rightarrow> bool" where
  "copyable xxh h m W idx \<longleftrightarrow>
     set (index_entries (unat (page_size h)) W idx) = {(p, img). m p = Some img} \<and>
     distinct (map fst (index_entries (unat (page_size h)) W idx)) \<and>
     (\<forall>(p, off) \<in> set idx. off + unat (page_size h) \<le> length W)"

lemma copyableI:
  assumes "index_ok (unat (page_size h)) (length W) idx" "index_images (unat (page_size h)) W idx = m"
    "mset idx' = mset idx"
  shows "copyable xxh h m W idx'"
proof -
  note e = index_entries_images [OF assms(1,2)]
  have s: "set idx' = set idx" using assms(3) by (metis set_mset_mset)
  have "mset (map fst idx') = mset (map fst idx)" using assms(3) by simp
  then have "distinct (map fst idx')" using e(2,3) by (metis mset_eq_imp_distinct_iff)
  then have "distinct (map fst (index_entries (unat (page_size h)) W idx'))"
    by (simp add: index_entries_def comp_def split_beta)
  moreover have "set (index_entries (unat (page_size h)) W idx') = {(p, img). m p = Some img}"
    using e(1) s by (simp add: index_entries_def)
  ultimately show ?thesis
    using assms(1) s by (simp add: copyable_def index_ok_def)
qed

text \<open>The two outcomes of a copy: everything in the main file and synced, or a crash on the way.\<close>

definition copy_outcome :: "hash64 \<Rightarrow> header \<Rightarrow> (u64 \<Rightarrow> bytes option) \<Rightarrow> (u64 \<Rightarrow> bytes option) \<Rightarrow> sim_file \<Rightarrow>
    sim_file_data \<Rightarrow> sim_state \<Rightarrow> unit result \<Rightarrow> sim_state \<Rightarrow> bool" where
  "copy_outcome xxh h V m main dm st r st' \<longleftrightarrow>
     lying_sync st' = lying_sync st \<and> crash_at st' = crash_at st \<and>
     (r = Inr () \<and> \<not> crashed st' \<and>
        (\<exists>c. files st' = (files st)(sf_path main \<mapsto> dm\<lparr>current := c, synced := c\<rparr>) \<and>
           disk_ok xxh h V Map.empty c \<and> disk_ok xxh h V m c) \<or>
      r = Inl crash_error \<and> crashed st' \<and> crash_at st \<noteq> None \<and>
        (\<exists>c. files st' = (files st)(sf_path main \<mapsto> dm\<lparr>current := c\<rparr>) \<and>
           touched (unat (page_size h)) {(p, img). m p = Some img} (current dm) c))"

lemma copy_effect:
  assumes out: "bind_st (apply_images wfile main (unat (page_size h)) idx st) (\<lambda>_ st. file_sync main st) = (r, st')"
    and d: "files st (sf_path wfile) = Some dw" "files st (sf_path main) = Some dm"
      "sf_path main \<noteq> sf_path wfile"
    and ok: "\<not> crashed st" "\<not> lying_sync st"
    and disk: "disk_ok xxh h V m (current dm)" and idx: "copyable xxh h m (current dw) idx"
  shows "copy_outcome xxh h V m main dm st r st'"
proof -
  let ?ps = "unat (page_size h)" and ?K = "{(p, img). m p = Some img}"
  note ent = idx [unfolded copyable_def]
  obtain r1 st1 where a: "apply_images wfile main ?ps idx st = (r1, st1)" by fastforce
  have bnd: "\<forall>(p, off) \<in> set idx. off + ?ps \<le> length (current dw) \<and> unat p * ?ps < 2 ^ 64"
  proof safe
    fix p off assume i: "(p, off) \<in> set idx"
    then show "off + ?ps \<le> length (current dw)" using ent by auto
    from i have "(p, seg off ?ps (current dw)) \<in> set (index_entries ?ps (current dw) idx)"
      by (force simp: index_entries_def)
    then have "m p = Some (seg off ?ps (current dw))" using ent by auto
    from disk_ok_image(3) [OF disk this] show "unat p * ?ps < 2 ^ 64" .
  qed
  obtain c where c: "files st1 = (files st)(sf_path main \<mapsto> dm\<lparr>current := c\<rparr>)" "touched ?ps ?K (current dm) c"
      "lying_sync st1 = lying_sync st" "crash_at st1 = crash_at st" and
    r1: "r1 = Inr () \<and> \<not> crashed st1 \<and> c = put_pages ?ps (index_entries ?ps (current dw) idx) (current dm) \<or>
       r1 = Inl crash_error \<and> crashed st1 \<and> crash_at st \<noteq> None"
    using apply_images_effect [OF a d(1) refl d(2,3) ok(1) bnd] ent by auto
  obtain r2 st2 where s: "file_sync main st1 = (r2, st2)" by fastforce
  have f1: "files st1 (sf_path main) = Some (dm\<lparr>current := c\<rparr>)" "\<not> lying_sync st1"
    using c ok(2) by simp_all
  note sy = file_sync_cases [OF s f1]
  have k: "lying_sync st' = lying_sync st" "crash_at st' = crash_at st"
    using out a s c(3,4) sy(1,2) by (cases r1, auto)+
  have "r = Inr () \<and> \<not> crashed st' \<and> (\<exists>c. files st' = (files st)(sf_path main \<mapsto> dm\<lparr>current := c, synced := c\<rparr>) \<and>
           disk_ok xxh h V Map.empty c \<and> disk_ok xxh h V m c) \<or>
         r = Inl crash_error \<and> crashed st' \<and> crash_at st \<noteq> None \<and>
           (\<exists>c. files st' = (files st)(sf_path main \<mapsto> dm\<lparr>current := c\<rparr>) \<and>
             touched (?ps) ?K (current dm) c)"
  proof (cases r1)
    case (Inl e)
    then show ?thesis using out a c r1 by auto
  next
    case (Inr u)
    then have k: "\<not> crashed st1" "c = put_pages ?ps (index_entries ?ps (current dw) idx) (current dm)" using r1 by auto
    have "disk_ok xxh h V Map.empty c" "disk_ok xxh h V m c"
      using disk_ok_applied [OF disk] ent k(2) by auto
    note dk = this
    have rs: "r = r2" "st' = st2" using out a s Inr by auto
    have f: "(files st1)(sf_path main \<mapsto> dm\<lparr>current := c\<rparr>\<lparr>synced := current (dm\<lparr>current := c\<rparr>)\<rparr>) =
        (files st)(sf_path main \<mapsto> dm\<lparr>current := c, synced := c\<rparr>)"
      using c(1) by simp
    from sy(3) k(1) c(4) show ?thesis
      unfolding rs f using dk c(1,2) by metis
  qed
  with k show ?thesis by (simp add: copy_outcome_def)
qed

section \<open>Recovery\<close>

text \<open>What a crash of the copy, or of the log reset after it, leaves: a main file whose every possible
  image holds the store together with the log, or, once the log is truncated, on its own.\<close>

definition crash_ok :: "hash64 \<Rightarrow> header \<Rightarrow> (u64 \<Rightarrow> bytes option) \<Rightarrow> (u64 \<Rightarrow> bytes option) \<Rightarrow> bytes \<Rightarrow>
    sim_file_data \<Rightarrow> sim_file_data \<Rightarrow> bool" where
  "crash_ok xxh h V m W dm dw \<longleftrightarrow> synced dw = W \<and>
     (current dw = W \<and> (\<forall>M. crash_image dm M \<longrightarrow> disk_ok xxh h V m M) \<or>
      current dw = [] \<and> (\<forall>M. crash_image dm M \<longrightarrow> disk_ok xxh h V m M \<and> disk_ok xxh h V Map.empty M))"

text \<open>What a start finds on disk: two files that hold the store.\<close>

definition image_ok :: "hash64 \<Rightarrow> header \<Rightarrow> (u64 \<Rightarrow> bytes option) \<Rightarrow> bytes \<Rightarrow> bytes \<Rightarrow> bool" where
  "image_ok xxh h V M W \<longleftrightarrow> length W < 2 ^ 64 \<and>
     (\<exists>m. recovers xxh (page_size h) W m \<and> disk_ok xxh h V m M)"

lemma recovers_Nil: "recovers xxh ps [] Map.empty"
  by (simp add: recovers_def scan_bytes_def)

text \<open>The hypothesis on a truncation that was not synced: it reached the disk as a whole or not at all.\<close>

definition settled :: "sim_file_data \<Rightarrow> bytes \<Rightarrow> bool" where
  "settled d bs \<longleftrightarrow> (current d = [] \<longrightarrow> bs = [] \<or> bs = synced d)"

lemma crash_ok_image:
  assumes "crash_ok xxh h V m W dm dw" "crash_image dm M" "crash_image dw W'" "settled dw W'"
    "recovers xxh (page_size h) W m" "length W < 2 ^ 64"
  shows "image_ok xxh h V M W'"
proof -
  have s: "synced dw = W" using assms(1) by (simp add: crash_ok_def)
  then have "W' = W \<and> disk_ok xxh h V m M \<or> W' = [] \<and> disk_ok xxh h V Map.empty M"
    using assms(1,2,4) crash_image_same [OF assms(3)] by (auto simp: crash_ok_def settled_def)
  then show ?thesis
    using assms(5,6) recovers_Nil [of xxh "page_size h"] by (auto simp: image_ok_def)
qed

lemma crash_ok_copy:
  assumes "disk_ok xxh h V m (synced dm)" "synced dw = W" "current dw = W"
    "touched (unat (page_size h)) {(p, img). m p = Some img} (synced dm) (current dm)"
  shows "crash_ok xxh h V m W dm dw"
  using disk_ok_touched [OF assms(1) touched_crash [OF assms(4)]] assms(2,3) by (auto simp: crash_ok_def)

lemma truncate_sync:
  "w_file w = f \<Longrightarrow> bind_st (file_truncate f 0 st) (\<lambda>_ st. file_sync f st) =
     (case wal_reset w st of (r, w', st') \<Rightarrow> (r, st'))"
  by (auto simp: wal_reset_def split: prod.splits sum.splits)

text \<open>The reset of the log, once the main file holds everything.\<close>

lemma reset_effect:
  assumes out: "wal_reset w st = (r, w', st')"
    and d: "files st (sf_path (w_file w)) = Some dw" "synced dw = W" "current dw = W"
      "files st mp = Some dm" "current dm = c" "synced dm = c" "mp \<noteq> sf_path (w_file w)"
    and ok: "\<not> crashed st" "\<not> lying_sync st"
    and disk: "disk_ok xxh h V Map.empty c" "disk_ok xxh h V m c"
  shows "r = Inr () \<and> \<not> crashed st' \<and> w' = w\<lparr>w_salt := None, w_len := 0\<rparr> \<and>
           files st' = (files st)(sf_path (w_file w) \<mapsto> dw\<lparr>current := [], synced := []\<rparr>) \<or>
         r = Inl crash_error \<and> crashed st' \<and> w_file w' = w_file w \<and>
           (\<exists>dw'. files st' = (files st)(sf_path (w_file w) \<mapsto> dw') \<and> crash_ok xxh h V m W dm dw')"
proof -
  note e = wal_reset_effect [OF out d(1) ok]
  have M: "M = c" if "crash_image dm M" for M
    using crash_image_same [OF that] d(5,6) by simp
  have same: "files st = (files st)(sf_path (w_file w) \<mapsto> dw)" using d(1) by auto
  have a: "crash_ok xxh h V m W dm dw"
    using M d(2,3) disk by (auto simp: crash_ok_def)
  have b: "crash_ok xxh h V m W dm (dw\<lparr>current := []\<rparr>)"
    using M d(2) disk by (auto simp: crash_ok_def)
  show ?thesis
    using e(2,3) same a b by metis
qed

lemma wal_reset_crash_at: "wal_reset w st = (r, w', st') \<Longrightarrow> files st (sf_path (w_file w)) = Some d \<Longrightarrow>
    \<not> lying_sync st \<Longrightarrow> \<not> crashed st \<Longrightarrow>
    crash_at st' = crash_at st \<and> (crash_at st = None \<longrightarrow> r = Inr ())"
proof -
  assume out: "wal_reset w st = (r, w', st')" and d: "files st (sf_path (w_file w)) = Some d" and
    ly: "\<not> lying_sync st" and cr: "\<not> crashed st"
  obtain r1 st1 where t: "file_truncate (w_file w) 0 st = (r1, st1)" by fastforce
  obtain r2 st2 where s: "file_sync (w_file w) st1 = (r2, st2)" by fastforce
  note tc = file_truncate_cases [OF t d]
  obtain d1 where d1: "files st1 (sf_path (w_file w)) = Some d1" using tc(3) d by auto
  have "\<not> lying_sync st1" using tc(1) ly by simp
  note sc = file_sync_cases [OF s d1 this]
  show ?thesis
    using out t s tc(2,3) sc(2,3) cr by (auto simp: wal_reset_def)
qed

lemma peek_main_ok:
  assumes "disk_ok xxh h V m (current dm)" "files st (sf_path main) = Some dm" "\<not> crashed st"
  shows "peek_main_page_size main st = Inr (Some (page_size h))"
proof -
  have wf: "header_wf h" and M: "16 \<le> length (current dm)" "take 16 (current dm) = header_prefix h"
    using assms(1) by (simp_all add: disk_ok_def store_ok_def)
  have "peek_page_size (take 16 (current dm)) = Inr (page_size h)"
    using header_page_facts(4) [OF wf] header_page_prefix [OF wf] M(2) by metis
  then show ?thesis
    using assms(2,3) M(1) by (simp add: peek_main_page_size_def file_len_def file_read_at_def get_range_def seg_def)
qed

text \<open>The first half of recovery, as \<^verbatim>\<open>open\<close> runs it: scan, then copy when there is something to copy.\<close>

lemma recover_copy_effect:
  assumes out: "bind_st (scan xxh wfile st, st) (\<lambda>scanned st. case scanned of
          None \<Rightarrow> (Inr (), st)
        | Some recovered \<Rightarrow>
            bind_st (peek_main_page_size main st, st) (\<lambda>expected st.
            if (case expected of None \<Rightarrow> True | Some ps \<Rightarrow> ps = rw_page_size recovered) \<and>
               rw_committed recovered \<noteq> []
            then bind_st (apply_images wfile main (unat (rw_page_size recovered)) (rw_committed recovered) st)
                   (\<lambda>_ st. file_sync main st)
            else (Inr (), st))) = (r, st')"
    and d: "files st (sf_path wfile) = Some dw" "files st (sf_path main) = Some dm"
      "sf_path main \<noteq> sf_path wfile" "synced dm = current dm"
    and ok: "\<not> crashed st" "\<not> lying_sync st" "length (current dw) < 2 ^ 64"
    and rec: "recovers xxh (page_size h) (current dw) m" and disk: "disk_ok xxh h V m (current dm)"
  shows "copy_outcome xxh h V m main dm st r st'"
proof -
  let ?idle = "r = Inr () \<and> st' = st \<and> m = Map.empty"
  have scan: "scan xxh wfile st = scan_bytes xxh (current dw)"
    by (rule scan_scan_bytes [OF ok(1) d(1)])
  note peek = peek_main_ok [OF disk d(2) ok(1)]
  have "?idle \<or> (\<exists>idx. copyable xxh h m (current dw) idx \<and>
      bind_st (apply_images wfile main (unat (page_size h)) idx st) (\<lambda>_ st. file_sync main st) = (r, st'))"
    using rec unfolding recovers_def
  proof (elim disjE exE conjE)
    fix idx assume k: "scan_bytes xxh (current dw) = Inr (Some \<lparr>rw_page_size = page_size h, rw_committed = idx\<rparr>)"
      "index_images (unat (page_size h)) (current dw) idx = m"
    have "index_ok (unat (page_size h)) (length (current dw)) idx"
      using scan_bytes_total [OF ok(3), of xxh] k(1) by auto
    from copyableI [OF this k(2) refl] show ?thesis
      using out scan k peek by (cases "idx = []") (auto simp: index_images_def fun_eq_iff)
  qed (use out scan in auto)
  then show ?thesis
  proof
    assume i: ?idle
    have "files st = (files st)(sf_path main \<mapsto> dm\<lparr>current := current dm, synced := current dm\<rparr>)"
      using d(2,4) by (auto simp: fun_eq_iff)
    then show ?thesis using i ok(1) disk unfolding copy_outcome_def by blast
  next
    assume "\<exists>idx. copyable xxh h m (current dw) idx \<and>
      bind_st (apply_images wfile main (unat (page_size h)) idx st) (\<lambda>_ st. file_sync main st) = (r, st')"
    then show ?thesis using copy_effect [OF _ d(1-3) ok(1,2) disk] by blast
  qed
qed

lemma recover_effect:
  assumes out: "recover xxh main wfile st = (r, st')"
    and d: "files st (sf_path wfile) = Some dw" "files st (sf_path main) = Some dm"
      "sf_path main \<noteq> sf_path wfile" "synced dm = current dm" "synced dw = current dw"
    and ok: "\<not> crashed st" "\<not> lying_sync st" "length (current dw) < 2 ^ 64"
    and rec: "recovers xxh (page_size h) (current dw) m" and disk: "disk_ok xxh h V m (current dm)"
  shows "lying_sync st' = lying_sync st"
    and "r = Inr () \<and> \<not> crashed st' \<and>
         (\<exists>c. files st' = (files st)(sf_path main \<mapsto> dm\<lparr>current := c, synced := c\<rparr>,
            sf_path wfile \<mapsto> dw\<lparr>current := [], synced := []\<rparr>) \<and> disk_ok xxh h V Map.empty c) \<or>
       r = Inl crash_error \<and> crashed st' \<and> crash_at st \<noteq> None \<and>
         (\<exists>dm' dw'. files st' = (files st)(sf_path main \<mapsto> dm', sf_path wfile \<mapsto> dw') \<and>
            crash_ok xxh h V m (current dw) dm' dw')"
proof -
  let ?W = "current dw" and ?mp = "sf_path main" and ?wp = "sf_path wfile"
  let ?copy = "bind_st (scan xxh wfile st, st) (\<lambda>scanned st. case scanned of
          None \<Rightarrow> (Inr (), st)
        | Some recovered \<Rightarrow>
            bind_st (peek_main_page_size main st, st) (\<lambda>expected st.
            if (case expected of None \<Rightarrow> True | Some ps \<Rightarrow> ps = rw_page_size recovered) \<and>
               rw_committed recovered \<noteq> []
            then bind_st (apply_images wfile main (unat (rw_page_size recovered)) (rw_committed recovered) st)
                   (\<lambda>_ st. file_sync main st)
            else (Inr (), st)))"
  let ?rest = "\<lambda>_ st. bind_st (file_len wfile st, st) (\<lambda>n st.
     if 0 < n then bind_st (file_truncate wfile 0 st) (\<lambda>_ st. file_sync wfile st) else (Inr (), st))"
  obtain r1 st1 where copy: "?copy = (r1, st1)" by fastforce
  have fin: "bind_st (r1, st1) ?rest = (r, st')"
    using out unfolding recover_def copy [symmetric] bind_st_assoc by simp
  note co = recover_copy_effect [OF copy d(1-4) ok rec disk, unfolded copy_outcome_def]
  have wsame: "(files st)(?mp \<mapsto> x) = (files st)(?mp \<mapsto> x, ?wp \<mapsto> dw)" for x
    using d(1,3) by (auto simp: fun_eq_iff)
  consider (crash) c where "r1 = Inl crash_error" "crashed st1" "crash_at st \<noteq> None"
      "files st1 = (files st)(?mp \<mapsto> dm\<lparr>current := c\<rparr>)"
      "touched (unat (page_size h)) {(p, img). m p = Some img} (current dm) c"
    | (ok) c where "r1 = Inr ()" "\<not> crashed st1" "disk_ok xxh h V Map.empty c" "disk_ok xxh h V m c"
      "files st1 = (files st)(?mp \<mapsto> dm\<lparr>current := c, synced := c\<rparr>)"
    using co by blast
  then have "lying_sync st' = lying_sync st \<and> (r = Inr () \<and> \<not> crashed st' \<and>
         (\<exists>c. files st' = (files st)(?mp \<mapsto> dm\<lparr>current := c, synced := c\<rparr>,
            ?wp \<mapsto> dw\<lparr>current := [], synced := []\<rparr>) \<and> disk_ok xxh h V Map.empty c) \<or>
       r = Inl crash_error \<and> crashed st' \<and> crash_at st \<noteq> None \<and>
         (\<exists>dm' dw'. files st' = (files st)(?mp \<mapsto> dm', ?wp \<mapsto> dw') \<and> crash_ok xxh h V m ?W dm' dw'))"
  proof cases
    case crash
    then have "crash_ok xxh h V m ?W (dm\<lparr>current := c\<rparr>) dw"
      using disk d(4,5) by (intro crash_ok_copy) auto
    then show ?thesis using crash fin wsame co by auto
  next
    case ok
    have f1: "files st1 ?wp = Some dw" "files st1 ?mp = Some (dm\<lparr>current := c, synced := c\<rparr>)" "\<not> lying_sync st1"
      using ok(5) d(1,3) co \<open>\<not> lying_sync st\<close> by auto
    have len: "file_len wfile st1 = Inr (length ?W)" using f1 ok(2) by (simp add: file_len_def)
    show ?thesis
    proof (cases "?W = []")
      case True
      then have "dw = dw\<lparr>current := [], synced := []\<rparr>" using d(5) by simp
      then show ?thesis
        using fin ok True len wsame co by auto
    next
      case False
      let ?w = "wal_new wfile (page_size h)"
      obtain r2 w2 st2 where rs: "wal_reset ?w st1 = (r2, w2, st2)" by (metis prod_cases3)
      have wf: "w_file ?w = wfile" by (simp add: wal_new_def)
      have rr: "r = r2" "st' = st2"
        using fin ok(1) len False rs truncate_sync [OF wf, of st1] by auto
      have "r2 = Inr () \<and> \<not> crashed st2 \<and> w2 = ?w\<lparr>w_salt := None, w_len := 0\<rparr> \<and>
           files st2 = (files st1)(?wp \<mapsto> dw\<lparr>current := [], synced := []\<rparr>) \<or>
         r2 = Inl crash_error \<and> crashed st2 \<and> w_file w2 = w_file ?w \<and>
           (\<exists>dw'. files st2 = (files st1)(?wp \<mapsto> dw') \<and>
              crash_ok xxh h V m ?W (dm\<lparr>current := c, synced := c\<rparr>) dw')"
        using reset_effect [OF rs, unfolded wf, OF f1(1) d(5) refl f1(2) _ _ d(3) ok(2) f1(3) ok(3,4)] wf by simp
      moreover have "lying_sync st2 = lying_sync st" "r2 = Inl crash_error \<Longrightarrow> crash_at st \<noteq> None"
        using wal_reset_effect(1) [OF rs] wal_reset_crash_at [OF rs] wf f1 ok(2) co by auto
      ultimately show ?thesis
        unfolding rr ok(5) using ok(3) by blast
    qed
  qed
  then show "lying_sync st' = lying_sync st" "r = Inr () \<and> \<not> crashed st' \<and>
         (\<exists>c. files st' = (files st)(?mp \<mapsto> dm\<lparr>current := c, synced := c\<rparr>,
            ?wp \<mapsto> dw\<lparr>current := [], synced := []\<rparr>) \<and> disk_ok xxh h V Map.empty c) \<or>
       r = Inl crash_error \<and> crashed st' \<and> crash_at st \<noteq> None \<and>
         (\<exists>dm' dw'. files st' = (files st)(?mp \<mapsto> dm', ?wp \<mapsto> dw') \<and> crash_ok xxh h V m ?W dm' dw')"
    by blast+
qed

end
