(* ===== verification/Pager_Correct.thy ===== *)
theory Pager_Correct
  imports Pager_Store
begin

text \<open>
  The pager against its abstract store: a header and its pages. \<open>represents\<close> is the invariant of an
  open pager; open establishes it, reads answer from it, commit moves it to the next store,
  checkpoint keeps it. The crash theorems say what any of these operations, interrupted, leaves for
  the next open.
\<close>

definition represents :: "hash64 \<Rightarrow> (u64 \<Rightarrow> bytes option) \<Rightarrow> pager \<Rightarrow> sim_state \<Rightarrow> bool" where
  "represents xxh V pg st \<longleftrightarrow>
     \<not> pg_broken pg \<and> \<not> crashed st \<and> \<not> lying_sync st \<and>
     sf_path (pg_main pg) \<noteq> sf_path (w_file (pg_wal pg)) \<and>
     pg_wal_path pg = sf_path (w_file (pg_wal pg)) \<and>
     w_page_size (pg_wal pg) = page_size (pg_header pg) \<and>
     (\<exists>txns dm. files st (sf_path (pg_main pg)) = Some dm \<and> synced dm = current dm \<and>
        locked_by dm = Some (sf_handle_id (pg_main pg)) \<and> wal_inv xxh txns (pg_wal pg) st \<and>
        pg_wal_index pg = log_index (unat (page_size (pg_header pg))) 32 txns [] \<and>
        disk_ok xxh (pg_header pg) V (log_images txns) (current dm))"

text \<open>The two files of a closed store, nothing pending in either.\<close>

definition disk_state :: "path \<Rightarrow> sim_state \<Rightarrow> bytes \<Rightarrow> bytes \<Rightarrow> bool" where
  "disk_state path st M W \<longleftrightarrow>
     (\<exists>dm. files st path = Some dm \<and> locked_by dm = None \<and> synced dm = M \<and> current dm = M) \<and>
     (case files st (wal_path_for path) of None \<Rightarrow> W = [] | Some dw \<Rightarrow> synced dw = W \<and> current dw = W)"

lemma wal_path_differs [simp]: "wal_path_for p \<noteq> p" "p \<noteq> wal_path_for p"
  by (simp_all add: wal_path_for_def)

lemma power_fail_file_locked: "power_fail_file (d\<lparr>locked_by := l\<rparr>) = power_fail_file d"
  by (rule ext) (simp add: power_fail_file_def Let_def split_beta)

lemma crash_image_locked [simp]: "crash_image (d\<lparr>locked_by := l\<rparr>) = crash_image d"
  by (simp add: fun_eq_iff crash_image_def power_fail_file_locked)

section \<open>Open\<close>

lemma read_header_ok:
  assumes "disk_ok xxh h V Map.empty (current dm)" "files st (sf_path main) = Some dm" "\<not> crashed st"
  shows "read_header xxh main st = Inr h"
proof -
  let ?M = "current dm"
  have wf: "header_wf h" and V0: "V 0 = Some (header_page xxh h)"
    and M: "16 \<le> length ?M" "take 16 ?M = header_prefix h"
    using assms(1) by (simp_all add: disk_ok_def store_ok_def)
  have "page_at (unat (page_size h)) ?M 0 = V 0"
    using V0 by (intro disk_ok_main [OF assms(1)]) auto
  then have p0: "unat (page_size h) \<le> length ?M" "take (unat (page_size h)) ?M = header_page xxh h"
    using V0 by (auto simp: page_at_def seg_def split: if_splits)
  have "peek_page_size (take 16 ?M) = Inr (page_size h)"
    using header_page_facts(4) [OF wf] header_page_prefix [OF wf] M(2) by metis
  then show ?thesis
    using assms(2,3) M(1) p0 header_page_facts(3) [OF wf]
    by (simp add: read_header_def file_len_def file_read_at_def get_range_def seg_def)
qed

text \<open>The state in which recovery runs: both files open, the main file locked.\<close>

lemma pager_open_recover:
  assumes "disk_state path st M W" "\<not> crashed st"
  obtains main wfile dm dw st1 where
    "pager_open xxh path opts st = drop_on_err main (bind_st (recover xxh main wfile st1) (\<lambda>_ st.
       bind_st (read_header xxh main st, st) (\<lambda>h st.
       (Inr \<lparr>pg_main = main, pg_wal = wal_new wfile (page_size h), pg_wal_path = wal_path_for path,
             pg_header = h, pg_wal_index = [],
             pg_checkpoint_threshold = opt_checkpoint_threshold opts, pg_broken = False\<rparr>, st))))"
    "sf_path main = path" "sf_path wfile = wal_path_for path"
    "files st1 = (files st)(path \<mapsto> dm, wal_path_for path \<mapsto> dw)" "files st1 path = Some dm"
    "files st1 (wal_path_for path) = Some dw" "current dm = M" "synced dm = M" "current dw = W" "synced dw = W"
    "locked_by dm = Some (sf_handle_id main)" "crashed st1 = crashed st" "lying_sync st1 = lying_sync st" "crash_at st1 = crash_at st"
    "ops st1 = ops st"
proof -
  obtain d where d: "files st path = Some d" "locked_by d = None" "synced d = M" "current d = M"
    using assms(1) by (auto simp: disk_state_def)
  let ?main = "\<lparr>sf_path = path, sf_handle_id = next_handle_id st\<rparr>"
  let ?wfile = "\<lparr>sf_path = wal_path_for path, sf_handle_id = next_handle_id st + 1\<rparr>"
  let ?dm = "d\<lparr>locked_by := Some (next_handle_id st)\<rparr>"
  define dw where "dw = (case files st (wal_path_for path) of None \<Rightarrow> empty_file | Some x \<Rightarrow> x)"
  have W: "current dw = W" "synced dw = W"
    using assms(1) by (auto simp: dw_def disk_state_def empty_file_def split: option.splits)
  let ?st1 = "st\<lparr>files := (files st)(path \<mapsto> ?dm, wal_path_for path \<mapsto> dw), next_handle_id := next_handle_id st + 1 + 1\<rparr>"
  have o1: "vfs_open path MustExist st = (Inr ?main, st\<lparr>next_handle_id := next_handle_id st + 1\<rparr>)"
    using d assms(2) by (simp add: vfs_open_def)
  have lk: "file_try_lock_exclusive ?main (st\<lparr>next_handle_id := next_handle_id st + 1\<rparr>) =
      (Inr True, st\<lparr>next_handle_id := next_handle_id st + 1, files := (files st)(path \<mapsto> ?dm)\<rparr>)"
    using d assms(2) by (simp add: file_try_lock_exclusive_def)
  have o2: "vfs_open (wal_path_for path) OpenOrCreate (st\<lparr>next_handle_id := next_handle_id st + 1,
      files := (files st)(path \<mapsto> ?dm)\<rparr>) = (Inr ?wfile, ?st1)"
    using assms(2) by (auto simp: vfs_open_def dw_def Let_def fun_eq_iff split: option.splits)
  show ?thesis
  proof (rule that [of ?main ?wfile ?st1 ?dm dw])
    show "pager_open xxh path opts st = drop_on_err ?main (bind_st (recover xxh ?main ?wfile ?st1) (\<lambda>_ st.
       bind_st (read_header xxh ?main st, st) (\<lambda>h st.
       (Inr \<lparr>pg_main = ?main, pg_wal = wal_new ?wfile (page_size h), pg_wal_path = wal_path_for path,
             pg_header = h, pg_wal_index = [],
             pg_checkpoint_threshold = opt_checkpoint_threshold opts, pg_broken = False\<rparr>, st))))"
      by (simp only: pager_open_def o1 lk o2 bind_st.simps Let_def not_True_eq_False if_False)
  qed (use d W assms(2) in simp_all)
qed

lemma represents_fresh:
  assumes "disk_ok xxh h V Map.empty c" "\<not> crashed st" "\<not> lying_sync st"
    "files st (sf_path main) = Some dm" "current dm = c" "synced dm = c" "locked_by dm = Some (sf_handle_id main)"
    "files st (sf_path wfile) = Some dw" "current dw = []" "synced dw = []" "sf_path main \<noteq> sf_path wfile"
  shows "represents xxh V \<lparr>pg_main = main, pg_wal = wal_new wfile (page_size h), pg_wal_path = sf_path wfile,
     pg_header = h, pg_wal_index = [], pg_checkpoint_threshold = t, pg_broken = False\<rparr> st"
proof -
  have "page_size_is_valid (page_size h)"
    using assms(1) by (simp add: disk_ok_def store_ok_def header_wf_def)
  then have "wal_inv xxh [] (wal_new wfile (page_size h)) st"
    using assms by (simp add: wal_inv_def wal_new_def)
  then show ?thesis
    using assms by (auto simp: represents_def wal_new_def intro!: exI [of _ "[]"])
qed

lemma pager_open_effect:
  assumes disk: "disk_state path st M W" and img: "image_ok xxh h V M W"
    and ok: "\<not> crashed st" "\<not> lying_sync st"
    and out: "pager_open xxh path opts st = (r, st')"
  shows "(\<exists>pg. r = Inr pg \<and> represents xxh V pg st' \<and> pg_header pg = h \<and>
      sf_path (pg_main pg) = path \<and> pg_wal_path pg = wal_path_for path) \<or>
    r = Inl crash_error \<and> crashed st' \<and> crash_at st \<noteq> None \<and> lying_sync st' = lying_sync st \<and>
      (\<exists>m dm dw. files st' path = Some dm \<and> files st' (wal_path_for path) = Some dw \<and>
         recovers xxh (page_size h) W m \<and> crash_ok xxh h V m W dm dw)"
proof -
  obtain m where m: "recovers xxh (page_size h) W m" "disk_ok xxh h V m M" "length W < 2 ^ 64"
    using img by (auto simp: image_ok_def)
  obtain main wfile dm dw st1 where
    o: "pager_open xxh path opts st = drop_on_err main (bind_st (recover xxh main wfile st1) (\<lambda>_ st.
       bind_st (read_header xxh main st, st) (\<lambda>h st.
       (Inr \<lparr>pg_main = main, pg_wal = wal_new wfile (page_size h), pg_wal_path = wal_path_for path,
             pg_header = h, pg_wal_index = [],
             pg_checkpoint_threshold = opt_checkpoint_threshold opts, pg_broken = False\<rparr>, st))))"
    and p: "sf_path main = path" "sf_path wfile = wal_path_for path"
    and f: "files st1 path = Some dm" "files st1 (wal_path_for path) = Some dw"
      "current dm = M" "synced dm = M" "current dw = W" "synced dw = W"
      "crashed st1 = crashed st" "lying_sync st1 = lying_sync st" "crash_at st1 = crash_at st"
      and lk: "locked_by dm = Some (sf_handle_id main)"
    by (rule pager_open_recover [OF disk ok(1), of xxh opts])
  obtain r1 st2 where rec: "recover xxh main wfile st1 = (r1, st2)" by fastforce
  note e = recover_effect [OF rec, unfolded p, OF f(2,1), unfolded f(3-9), OF _ refl refl ok m(3,1,2)]
  consider (ok) c where "r1 = Inr ()" "\<not> crashed st2" "disk_ok xxh h V Map.empty c"
      "files st2 = (files st1)(path \<mapsto> dm\<lparr>current := c, synced := c\<rparr>,
            wal_path_for path \<mapsto> dw\<lparr>current := [], synced := []\<rparr>)"
    | (crash) dm' dw' where "r1 = Inl crash_error" "crashed st2" "crash_at st \<noteq> None"
      "files st2 = (files st1)(path \<mapsto> dm', wal_path_for path \<mapsto> dw')" "crash_ok xxh h V m W dm' dw'"
    using e(2) by (auto simp: f(9))
  then show ?thesis
  proof cases
    case ok
    have "files st2 (sf_path main) = Some (dm\<lparr>current := c, synced := c\<rparr>)" using ok(4) p by simp
    then have "read_header xxh main st2 = Inr h"
      using ok(2,3) by (intro read_header_ok [where dm = "dm\<lparr>current := c, synced := c\<rparr>"]) simp_all
    then show ?thesis
      using out [unfolded o rec] ok p e(1) f(8) assms(4) lk
        represents_fresh [OF ok(3,2), of main "dm\<lparr>current := c, synced := c\<rparr>" wfile
          "dw\<lparr>current := [], synced := []\<rparr>" "opt_checkpoint_threshold opts"]
      by (auto simp: drop_on_err_def)
  next
    case crash
    then have "st' = file_drop main st2" "r = Inl crash_error"
      using out [unfolded o rec] by (simp_all add: drop_on_err_def)
    moreover have "crash_ok xxh h V m W (dm'\<lparr>locked_by := l\<rparr>) dw'" for l
      using crash(5) by (simp add: crash_ok_def)
    ultimately show ?thesis
      using crash p m(1) e(1) f(8) by (auto simp: file_drop_def)
  qed
qed

section \<open>Reads\<close>

lemma wal_inv_index:
  assumes "wal_inv xxh txns w st"
  obtains dw where "files st (sf_path (w_file w)) = Some dw" "synced dw = current dw" "length (current dw) < 2 ^ 64"
    "recovers xxh (w_page_size w) (current dw) (log_images txns)"
    "index_ok (unat (w_page_size w)) (length (current dw)) (log_index (unat (w_page_size w)) 32 txns [])"
    "index_images (unat (w_page_size w)) (current dw) (log_index (unat (w_page_size w)) 32 txns []) = log_images txns"
proof -
  let ?ps = "w_page_size w"
  obtain dw where d: "files st (sf_path (w_file w)) = Some dw" "synced dw = current dw" "length (current dw) < 2 ^ 64"
    and c: "case w_salt w of None \<Rightarrow> txns = [] \<and> current dw = [] | Some salt \<Rightarrow> current dw = log_bytes xxh ?ps salt txns"
    and ps: "page_size_is_valid ?ps" and wf: "\<forall>t \<in> set txns. txn_wf (unat ?ps) t"
    using assms by (auto simp: wal_inv_def)
  show ?thesis
  proof (cases "w_salt w")
    case None
    then show ?thesis
      using c d recovers_Nil by (intro that [of dw]) (simp_all add: index_ok_def bmap_wf_def index_images_def fun_eq_iff)
  next
    case (Some salt)
    then have W: "current dw = log_bytes xxh ?ps salt txns" using c by simp
    have scan: "scan_bytes xxh (current dw) =
        Inr (Some \<lparr>rw_page_size = ?ps, rw_committed = log_index (unat ?ps) 32 txns []\<rparr>)"
      using scan_log [OF ps wf] d(3) W by simp
    have im: "index_images (unat ?ps) (current dw) (log_index (unat ?ps) 32 txns []) = log_images txns"
      using log_images_at [OF wf, of xxh salt "[]"] W by simp
    show ?thesis
      using d scan im scan_bytes_total [OF d(3), of xxh]
      by (intro that [of dw]) (auto simp: recovers_def)
  qed
qed

text \<open>The parts of an open pager the proofs below use.\<close>

lemma representsE:
  assumes "represents xxh V pg st"
  obtains txns dm dw where
    "files st (sf_path (pg_main pg)) = Some dm" "synced dm = current dm"
    "files st (sf_path (w_file (pg_wal pg))) = Some dw" "synced dw = current dw" "length (current dw) < 2 ^ 64"
    "wal_inv xxh txns (pg_wal pg) st"
    "recovers xxh (page_size (pg_header pg)) (current dw) (log_images txns)"
    "index_ok (unat (page_size (pg_header pg))) (length (current dw)) (pg_wal_index pg)"
    "index_images (unat (page_size (pg_header pg))) (current dw) (pg_wal_index pg) = log_images txns"
    "pg_wal_index pg = log_index (unat (page_size (pg_header pg))) 32 txns []"
    "disk_ok xxh (pg_header pg) V (log_images txns) (current dm)"
    "locked_by dm = Some (sf_handle_id (pg_main pg))"
proof -
  obtain txns dm where k: "files st (sf_path (pg_main pg)) = Some dm" "synced dm = current dm"
      "locked_by dm = Some (sf_handle_id (pg_main pg))"
      "wal_inv xxh txns (pg_wal pg) st" "pg_wal_index pg = log_index (unat (page_size (pg_header pg))) 32 txns []"
      "disk_ok xxh (pg_header pg) V (log_images txns) (current dm)"
    and ps: "w_page_size (pg_wal pg) = page_size (pg_header pg)"
    using assms by (auto simp: represents_def)
  from k(4) show ?thesis
    by (rule wal_inv_index) (rule that, use k ps in simp_all)
qed

lemma represents_store:
  assumes "represents xxh V pg st"
  shows "store_ok xxh (pg_header pg) V" "\<not> pg_broken pg" "\<not> crashed st" "\<not> lying_sync st"
  using assms by (auto simp: represents_def disk_ok_def)

lemma store_dom: "store_ok xxh h V \<Longrightarrow> V p = None \<longleftrightarrow> page_count h \<le> p"
proof -
  assume "store_ok xxh h V"
  then have "dom V = {p. p < page_count h}" by (simp add: store_ok_def)
  then have "p \<in> dom V \<longleftrightarrow> p < page_count h" by simp
  then show ?thesis by (auto simp: domIff not_less [symmetric])
qed

lemma read_page_represents:
  assumes "represents xxh V pg st"
  shows "pager_read_page xxh pg p st =
    (case V p of Some page \<Rightarrow> Inr page
     | None \<Rightarrow> Inl (PageOutOfBounds p (page_count (pg_header pg))))"
proof -
  let ?h = "pg_header pg"
  let ?ps = "unat (page_size ?h)"
  obtain txns dm dw where d: "files st (sf_path (pg_main pg)) = Some dm"
      "files st (sf_path (w_file (pg_wal pg))) = Some dw"
      "index_ok ?ps (length (current dw)) (pg_wal_index pg)"
      "index_images ?ps (current dw) (pg_wal_index pg) = log_images txns"
      "disk_ok xxh ?h V (log_images txns) (current dm)"
    by (rule representsE [OF assms])
  note s = represents_store [OF assms]
  have dom: "V p = None \<longleftrightarrow> page_count ?h \<le> p"
    by (rule store_dom [OF s(1)])
  show ?thesis
  proof (cases "V p")
    case None
    then show ?thesis using dom s(2) by (simp add: pager_read_page_def ensure_usable_def)
  next
    case (Some page)
    have chk: "page_checksum_is_valid xxh page" "length page = ?ps" using s(1) Some by (auto simp: store_ok_def)
    have pc: "\<not> page_count ?h \<le> p" using dom Some by simp
    show ?thesis
    proof (cases "map_of (pg_wal_index pg) p")
      case (Some off)
      have "(p, off) \<in> set (pg_wal_index pg)" by (rule map_of_SomeD [OF Some])
      then have fit: "off + ?ps \<le> length (current dw)" using d(3) by (auto simp: index_ok_def)
      have "log_images txns p = Some (seg off ?ps (current dw))"
        using fun_cong [OF d(4), of p] Some by (simp add: index_images_def)
      then have "page = seg off ?ps (current dw)"
        using disk_ok_image(1) [OF d(5)] \<open>V p = Some page\<close> by simp
      then show ?thesis
        using pc chk fit d(2) s(2,3) Some \<open>V p = Some page\<close>
        by (simp add: pager_read_page_def ensure_usable_def read_image_def file_read_at_def get_range_len Let_def)
    next
      case None
      then have "log_images txns p = None" using fun_cong [OF d(4), of p] None by (simp add: index_images_def)
      then have "page_at ?ps (current dm) p = Some page"
        using disk_ok_main [OF d(5), of p] Some by (simp add: domI)
      then have at: "unat p * ?ps + ?ps \<le> length (current dm)" "page = seg (unat p * ?ps) ?ps (current dm)"
        by (auto simp: page_at_def split: if_splits)
      have "unat p * ?ps \<le> unat (page_count ?h) * ?ps"
        using pc by (intro mult_le_mono1) (simp add: word_le_nat_alt)
      moreover have "unat (page_count ?h) * ?ps < 2 ^ 64" using s(1) by (simp add: store_ok_def)
      ultimately have "\<not> 2 ^ 64 \<le> unat p * ?ps" by linarith
      then show ?thesis
        using pc chk at d(1) s(2,3) Some None
        by (simp add: pager_read_page_def ensure_usable_def file_read_at_def get_range_len Let_def)
    qed
  qed
qed

section \<open>Checkpoint\<close>

definition iter_order :: "((u64 \<times> nat) list \<Rightarrow> (u64 \<times> nat) list) \<Rightarrow> bool" where
  "iter_order ord \<longleftrightarrow> (\<forall>m. mset (ord m) = mset m)"

text \<open>What an interrupted operation leaves on disk, for the store \<open>V\<close> with header \<open>h\<close>.\<close>

definition interrupted :: "hash64 \<Rightarrow> header \<Rightarrow> (u64 \<Rightarrow> bytes option) \<Rightarrow> path \<Rightarrow> path \<Rightarrow> sim_state \<Rightarrow> bool" where
  "interrupted xxh h V mp wp st \<longleftrightarrow>
     (\<exists>m W dm dw. files st mp = Some dm \<and> files st wp = Some dw \<and> length W < 2 ^ 64 \<and>
        recovers xxh (page_size h) W m \<and> crash_ok xxh h V m W dm dw)"

lemma checkpoint_effect:
  assumes rep: "represents xxh V pg st" and ord: "iter_order ord"
    and out: "pager_checkpoint ord pg st = (r, pg', st')"
  shows "r = Inr () \<and> represents xxh V pg' st' \<and> pg_header pg' = pg_header pg \<and> pg_main pg' = pg_main pg \<and>
      pg_wal_index pg' = [] \<and> w_len (pg_wal pg') = 0 \<or>
    r = Inl crash_error \<and> crashed st' \<and> pg_broken pg' \<and> pg_main pg' = pg_main pg \<and> lying_sync st' = lying_sync st \<and>
      interrupted xxh (pg_header pg) V (sf_path (pg_main pg)) (sf_path (w_file (pg_wal pg))) st'"
proof (cases "pg_wal_index pg = [] \<and> w_len (pg_wal pg) = 0")
  case True
  then show ?thesis
    using out rep represents_store(2) [OF rep] by (simp add: pager_checkpoint_def ensure_usable_def)
next
  case False
  let ?h = "pg_header pg" and ?mp = "sf_path (pg_main pg)" and ?wp = "sf_path (w_file (pg_wal pg))"
  obtain txns dm dw where d: "files st ?mp = Some dm" "synced dm = current dm"
    "files st ?wp = Some dw" "synced dw = current dw" "length (current dw) < 2 ^ 64"
    "wal_inv xxh txns (pg_wal pg) st"
    "recovers xxh (page_size ?h) (current dw) (log_images txns)"
    "index_ok (unat (page_size ?h)) (length (current dw)) (pg_wal_index pg)"
    "index_images (unat (page_size ?h)) (current dw) (pg_wal_index pg) = log_images txns"
    "disk_ok xxh ?h V (log_images txns) (current dm)"
    and lk: "locked_by dm = Some (sf_handle_id (pg_main pg))"
    by (rule representsE [OF rep])
  note s = represents_store [OF rep]
  have neq: "?mp \<noteq> ?wp" and wpath: "pg_wal_path pg = ?wp" "w_page_size (pg_wal pg) = page_size ?h"
    using rep by (auto simp: represents_def)
  obtain r1 st1 where copy: "bind_st (apply_images (w_file (pg_wal pg)) (pg_main pg) (unat (page_size ?h))
      (ord (pg_wal_index pg)) st) (\<lambda>_ st. file_sync (pg_main pg) st) = (r1, st1)" by fastforce
  have cp: "copyable xxh ?h (log_images txns) (current dw) (ord (pg_wal_index pg))"
    using d(8,9) ord by (intro copyableI) (simp_all add: iter_order_def)
  note co = copy_effect [OF copy d(3,1) neq s(3,4) d(10) cp, unfolded copy_outcome_def]
  have wsame: "((files st)(?mp \<mapsto> x)) ?wp = Some dw" for x using d(3) neq by simp
  have pc: "(r, pg', st') = (case checkpoint_inner ord pg st of
      (Inl e, pg, st) \<Rightarrow> (Inl e, pg\<lparr>pg_broken := True\<rparr>, st) | (Inr _, pg, st) \<Rightarrow> (Inr (), pg, st))"
    using out False s(2) by (simp add: pager_checkpoint_def ensure_usable_def)
  consider (crash) c where "r1 = Inl crash_error" "crashed st1"
      "files st1 = (files st)(?mp \<mapsto> dm\<lparr>current := c\<rparr>)"
      "touched (unat (page_size ?h)) {(p, img). log_images txns p = Some img} (current dm) c"
    | (ok) c where "r1 = Inr ()" "\<not> crashed st1" "disk_ok xxh ?h V Map.empty c" "disk_ok xxh ?h V (log_images txns) c"
      "files st1 = (files st)(?mp \<mapsto> dm\<lparr>current := c, synced := c\<rparr>)"
    using co by blast
  then show ?thesis
  proof cases
    case crash
    have "crash_ok xxh ?h V (log_images txns) (current dw) (dm\<lparr>current := c\<rparr>) dw"
      using d(2,4,10) crash(4) by (intro crash_ok_copy) auto
    then have "interrupted xxh ?h V ?mp ?wp st1"
      unfolding interrupted_def using crash(3) wsame d(5,7) by (metis fun_upd_same)
    then show ?thesis
      using pc crash co by (simp add: checkpoint_inner_def copy)
  next
    case ok
    obtain r2 w2 st2 where rs: "wal_reset (pg_wal pg) st1 = (r2, w2, st2)" by (metis prod_cases3)
    let ?dm = "dm\<lparr>current := c, synced := c\<rparr>"
    have f1: "files st1 ?wp = Some dw" "files st1 ?mp = Some ?dm" "\<not> lying_sync st1"
      using ok(5) wsame co s(4) by auto
    note re = reset_effect [OF rs f1(1) d(4) refl f1(2) _ _ neq ok(2) f1(3) ok(3,4), simplified]
    note ly = wal_reset_effect(1) [OF rs f1(1) ok(2) f1(3)]
    from re show ?thesis
    proof (elim disjE conjE exE)
      assume k: "r2 = Inr ()" "\<not> crashed st2" "w2 = (pg_wal pg)\<lparr>w_salt := None, w_len := 0\<rparr>"
        "files st2 = (files st1)(?wp \<mapsto> dw\<lparr>current := [], synced := []\<rparr>)"
      have o: "r = Inr ()" "pg' = pg\<lparr>pg_wal := w2, pg_wal_index := []\<rparr>" "st' = st2"
        using pc by (simp_all add: checkpoint_inner_def copy ok(1) rs k(1))
      have "wal_inv xxh [] w2 st2"
        using d(6) k(4) by (simp add: wal_inv_def k(3))
      then have "represents xxh V pg' st2"
        using k f1 neq wpath ok(3) s(2) ly lk unfolding represents_def o
        by (intro conjI exI [of _ "[]"] exI [of _ ?dm]) simp_all
      then show ?thesis using o k by simp
    next
      fix dw' assume k: "r2 = Inl crash_error" "crashed st2" "w_file w2 = w_file (pg_wal pg)"
        "files st2 = (files st1)(?wp \<mapsto> dw')" "crash_ok xxh ?h V (log_images txns) (current dw) ?dm dw'"
      have "interrupted xxh ?h V ?mp ?wp st2"
        unfolding interrupted_def using k(4,5) f1(2) neq d(5,7) by (metis fun_upd_other fun_upd_same)
      then show ?thesis
        using pc k ly co by (simp add: checkpoint_inner_def copy ok(1) rs)
    qed
  qed
qed

end
