(* ===== verification/Pager_Commit.thy ===== *)
theory Pager_Commit
  imports Pager_Correct
begin

text \<open>
  Transactions and their commit. \<open>txn_ok\<close> is the invariant of a transaction under construction; every
  operation of \<^verbatim>\<open>Txn\<close> keeps it. A commit that returns moves the pager to the next store; one that
  fails leaves a log from which recovery finds the old store or the new one.
\<close>

section \<open>The invariant of a transaction\<close>

definition pending_ok :: "pending_header \<Rightarrow> bool" where
  "pending_ok p \<longleftrightarrow> (case pd_embedding p of None \<Rightarrow> True | Some (model_id, _) \<Rightarrow>
     length model_id \<le> MAX_MODEL_ID_LEN \<and> utf8_valid model_id)"

definition dirty_ok :: "hash64 \<Rightarrow> header \<Rightarrow> u64 \<Rightarrow> (u64 \<times> bytes) list \<Rightarrow> bool" where
  "dirty_ok xxh h n dirty \<longleftrightarrow> bmap_wf dirty \<and> page_count h \<le> n \<and>
     (\<forall>(p, img) \<in> set dirty. p \<noteq> 0 \<and> p < n \<and> length img = unat (page_size h) \<and> page_checksum_is_valid xxh img) \<and>
     (\<forall>p. page_count h \<le> p \<and> p < n \<longrightarrow> p \<in> fst ` set dirty)"

definition txn_ok :: "hash64 \<Rightarrow> pager \<Rightarrow> txn \<Rightarrow> bool" where
  "txn_ok xxh pg tx \<longleftrightarrow> dirty_ok xxh (pg_header pg) (tx_page_count tx) (tx_dirty tx) \<and> pending_ok (tx_pending tx)"

lemma bmap_insert_set:
  assumes "bmap_wf m"
  shows "set (bmap_insert k v m) = insert (k, v) {e \<in> set m. fst e \<noteq> k}"
  using assms by (induction k v m rule: bmap_insert.induct) (auto simp: bmap_wf_def)

lemma dirty_ok_insert:
  assumes "dirty_ok xxh h n dirty" "p \<noteq> 0" "p < n'" "n \<le> n'" "length img = unat (page_size h)"
    "page_checksum_is_valid xxh img" "\<forall>q. n \<le> q \<and> q < n' \<longrightarrow> q = p"
  shows "dirty_ok xxh h n' (bmap_insert p img dirty)"
proof -
  have wf: "bmap_wf dirty" using assms(1) by (simp add: dirty_ok_def)
  have "q \<in> fst ` set (bmap_insert p img dirty)" if "page_count h \<le> q" "q < n'" for q
    using that assms(1,7) by (cases "q < n") (auto simp: dirty_ok_def not_less)
  moreover have "page_count h \<le> n'" using assms(1,4) by (auto simp: dirty_ok_def)
  moreover have "q \<noteq> 0 \<and> q < n' \<and> length i = unat (page_size h) \<and> page_checksum_is_valid xxh i"
    if "(q, i) \<in> set (bmap_insert p img dirty)" for q i
    using that assms by (auto simp: bmap_insert_set [OF wf] dirty_ok_def)
  ultimately show ?thesis
    using bmap_wf_insert [OF wf] by (auto simp: dirty_ok_def)
qed

lemma pager_begin_ok:
  "pager_begin pg = Inr tx \<Longrightarrow> txn_ok xxh pg tx"
  by (auto simp: pager_begin_def bind_result_Inr_iff txn_ok_def dirty_ok_def pending_ok_def
      pending_default_def bmap_wf_def)

lemma u64_succ:
  fixes n :: u64
  assumes "unat n + 1 \<noteq> 2 ^ 64"
  shows "unat (n + 1) = unat n + 1" "n < n + 1" "n \<le> n + 1" "\<forall>q. n \<le> q \<and> q < n + 1 \<longrightarrow> q = n"
proof -
  have "unat n < 2 ^ 64" using unsigned_less [of n] by simp
  then have "unat n + 1 < 2 ^ 64" using assms by linarith
  then show u: "unat (n + 1) = unat n + 1" by (simp add: unat_word_ariths)
  show "n < n + 1" "n \<le> n + 1" by (simp_all add: word_less_nat_alt word_le_nat_alt u)
  show "\<forall>q. n \<le> q \<and> q < n + 1 \<longrightarrow> q = n"
    using u by (auto simp: word_less_nat_alt word_le_nat_alt word_unat_eq_iff)
qed

lemma allocate_page_cases:
  assumes "allocate_page xxh pg tx = (r, tx')"
  shows "r = Inr (tx_page_count tx) \<and> unat (tx_page_count tx) + 1 \<noteq> 2 ^ 64 \<and>
        tx' = tx\<lparr>tx_page_count := tx_page_count tx + 1, tx_dirty := bmap_insert (tx_page_count tx)
          (stamp_page_checksum xxh (replicate (unat (page_size (pg_header pg))) 0)) (tx_dirty tx)\<rparr> \<or>
      r = Inl (InvalidArgument ''page count overflow'') \<and> tx' = tx \<and> unat (tx_page_count tx) + 1 = 2 ^ 64"
  using assms by (auto simp: allocate_page_def Let_def split: if_splits)

lemma allocate_page_ok:
  assumes "txn_ok xxh pg tx" "header_wf (pg_header pg)" "allocate_page xxh pg tx = (r, tx')"
  shows "txn_ok xxh pg tx'"
  using allocate_page_cases [OF assms(3)]
proof (elim disjE conjE)
  let ?n = "tx_page_count tx" and ?h = "pg_header pg"
  let ?img = "stamp_page_checksum xxh (replicate (unat (page_size ?h)) 0)"
  assume ov: "unat ?n + 1 \<noteq> 2 ^ 64" and tx': "tx' = tx\<lparr>tx_page_count := ?n + 1,
    tx_dirty := bmap_insert ?n ?img (tx_dirty tx)\<rparr>"
  have "page_count ?h \<noteq> 0" "page_count ?h \<le> ?n"
    using assms(1,2) by (simp_all add: header_wf_def txn_ok_def dirty_ok_def)
  then have "?n \<noteq> 0" by auto
  moreover have "page_checksum_is_valid xxh ?img"
    using header_wf_size [OF assms(2)] by (intro stamp_valid) simp
  ultimately have "dirty_ok xxh ?h (?n + 1) (bmap_insert ?n ?img (tx_dirty tx))"
    using assms(1) u64_succ [OF ov] by (intro dirty_ok_insert [where n = ?n]) (auto simp: txn_ok_def)
  then show ?thesis using assms(1) by (simp add: tx' txn_ok_def)
qed (use assms(1) in simp)

lemma write_page_ok:
  assumes "txn_ok xxh pg tx" "header_wf (pg_header pg)" "write_page xxh pg p data tx = (r, tx')"
  shows "txn_ok xxh pg tx'"
proof -
  have "page_checksum_is_valid xxh (stamp_page_checksum xxh data)" if "length data = unat (page_size (pg_header pg))"
    using header_wf_size [OF assms(2)] that by (intro stamp_valid) simp
  then show ?thesis
    using assms(1,3) by (auto simp: write_page_def txn_ok_def not_le split: if_splits
        intro!: dirty_ok_insert [where n = "tx_page_count tx"])
qed

lemma set_roots_ok:
  assumes "txn_ok xxh pg tx"
  shows "txn_ok xxh pg (set_root_btree_page p tx)" "txn_ok xxh pg (set_hnsw_meta_page p tx)"
    "txn_ok xxh pg (set_fts_root_page p tx)" "txn_ok xxh pg (set_graph_root_page p tx)"
    "txn_ok xxh pg (set_filter_meta_page p tx)" "txn_ok xxh pg (set_filter_symbols_page p tx)"
  using assms by (simp_all add: txn_ok_def pending_ok_def set_root_btree_page_def set_hnsw_meta_page_def
      set_fts_root_page_def set_graph_root_page_def set_filter_meta_page_def set_filter_symbols_page_def)

text \<open>A \<^verbatim>\<open>&str\<close> is valid UTF-8.\<close>

lemma set_embedding_model_ok:
  assumes "txn_ok xxh pg tx" "utf8_valid model_id" "set_embedding_model model_id dims tx = (r, tx')"
  shows "txn_ok xxh pg tx'"
  using assms by (auto simp: set_embedding_model_def txn_ok_def pending_ok_def split: if_splits)

section \<open>Reads inside a transaction\<close>

text \<open>The pages as the transaction sees them.\<close>

definition txn_view :: "(u64 \<Rightarrow> bytes option) \<Rightarrow> txn \<Rightarrow> u64 \<Rightarrow> bytes option" where
  "txn_view V tx = V ++ map_of (tx_dirty tx)"

lemma dirty_dom:
  assumes "dirty_ok xxh h n dirty"
  shows "dom (map_of dirty) \<subseteq> {p. p \<noteq> 0 \<and> p < n}" "{p. page_count h \<le> p \<and> p < n} \<subseteq> dom (map_of dirty)"
  using assms by (auto simp: dirty_ok_def dom_map_of_conv_image_fst)

lemma txn_read_page_view:
  assumes "represents xxh V pg st" "txn_ok xxh pg tx"
  shows "txn_read_page xxh pg p tx st =
    (case txn_view V tx p of Some page \<Rightarrow> Inr page | None \<Rightarrow> Inl (PageOutOfBounds p (tx_page_count tx)))"
proof (cases "map_of (tx_dirty tx) p")
  case None
  have s: "store_ok xxh (pg_header pg) V" by (rule represents_store(1) [OF assms(1)])
  have d: "dirty_ok xxh (pg_header pg) (tx_page_count tx) (tx_dirty tx)" using assms(2) by (simp add: txn_ok_def)
  then have le: "page_count (pg_header pg) \<le> tx_page_count tx" by (simp add: dirty_ok_def)
  have "\<not> (page_count (pg_header pg) \<le> p \<and> p < tx_page_count tx)"
    using dirty_dom(2) [OF d] None by (auto simp: subset_iff domIff)
  then have "V p = None \<longleftrightarrow> tx_page_count tx \<le> p"
    using store_dom [OF s, of p] le by (auto simp: not_less)
  then show ?thesis
    using None read_page_represents [OF assms(1), of p]
    by (auto simp: txn_read_page_def txn_view_def map_add_def split: option.splits)
qed (simp add: txn_read_page_def txn_view_def)

section \<open>The next store\<close>

definition next_store :: "hash64 \<Rightarrow> header \<Rightarrow> (u64 \<times> bytes) list \<Rightarrow> (u64 \<Rightarrow> bytes option) \<Rightarrow> u64 \<Rightarrow> bytes option" where
  "next_store xxh h' dirty V = (V ++ map_of dirty)(0 \<mapsto> header_page xxh h')"

lemma pending_apply_fields [simp]:
  "page_count (pending_apply h n p) = n" "page_size (pending_apply h n p) = page_size h"
  "format_version (pending_apply h n p) = format_version h" "flags (pending_apply h n p) = flags h"
  "txn_counter (pending_apply h n p) = txn_counter h + 1" "freelist_page (pending_apply h n p) = freelist_page h"
  "root_btree_page (pending_apply h n p) = (case pd_root_btree p of Some r \<Rightarrow> r | None \<Rightarrow> root_btree_page h)"
  "hnsw_meta_page (pending_apply h n p) = (case pd_hnsw_meta p of Some r \<Rightarrow> r | None \<Rightarrow> hnsw_meta_page h)"
  "fts_root_page (pending_apply h n p) = (case pd_fts_root p of Some r \<Rightarrow> r | None \<Rightarrow> fts_root_page h)"
  "graph_root_page (pending_apply h n p) = (case pd_graph_root p of Some r \<Rightarrow> r | None \<Rightarrow> graph_root_page h)"
  "filter_meta_page (pending_apply h n p) = (case pd_filter_meta p of Some r \<Rightarrow> r | None \<Rightarrow> filter_meta_page h)"
  "filter_symbols_page (pending_apply h n p) =
     (case pd_filter_symbols p of Some r \<Rightarrow> r | None \<Rightarrow> filter_symbols_page h)"
  "embedding_model_id (pending_apply h n p) =
     (case pd_embedding p of Some (model_id, _) \<Rightarrow> model_id | None \<Rightarrow> embedding_model_id h)"
  by (simp_all add: pending_apply_def Let_def split: option.splits)

lemma pending_apply_wf: "header_wf h \<Longrightarrow> pending_ok p \<Longrightarrow> n \<noteq> 0 \<Longrightarrow> header_wf (pending_apply h n p)"
  by (auto simp: header_wf_def pending_ok_def split: option.splits)

lemma header_prefix_pending [simp]: "header_prefix (pending_apply h n p) = header_prefix h"
  by (simp add: header_prefix_def)

lemma next_store_ok:
  assumes s: "store_ok xxh h V" and d: "dirty_ok xxh h n dirty" and p: "pending_ok pending"
    and room: "unat n * unat (page_size h) < 2 ^ 64"
  defines "h' \<equiv> pending_apply h n pending"
  shows "store_ok xxh h' (next_store xxh h' dirty V)" "header_wf h'"
proof -
  have h: "header_wf h" "page_count h \<noteq> 0" using s by (simp_all add: store_ok_def header_wf_def)
  have le: "page_count h \<le> n" using d by (simp add: dirty_ok_def)
  then have "n \<noteq> 0" using h(2) by auto
  then show wf: "header_wf h'" unfolding h'_def by (rule pending_apply_wf [OF h(1) p])
  have "dom (next_store xxh h' dirty V) = {p. p < n}"
  proof -
    have "dom V = {p. p < page_count h}" using s by (simp add: store_ok_def)
    moreover have "0 < n" using \<open>n \<noteq> 0\<close> by (simp add: word_gt_0)
    ultimately show ?thesis
      using dirty_dom [OF d] le by (auto simp: next_store_def subset_iff not_less [symmetric])
  qed
  moreover have "length page = unat (page_size h) \<and> page_checksum_is_valid xxh page"
    if "next_store xxh h' dirty V q = Some page" for q page
  proof (cases "q = 0")
    case True
    then show ?thesis using that header_page_facts(1,2) [OF wf] by (auto simp: next_store_def h'_def)
  next
    case False
    with that have "map_of dirty q = Some page \<or> V q = Some page"
      by (auto simp: next_store_def map_add_Some_iff)
    then show ?thesis
      using s d by (auto simp: store_ok_def dirty_ok_def dest!: map_of_SomeD)
  qed
  ultimately show "store_ok xxh h' (next_store xxh h' dirty V)"
    using wf room by (auto simp: store_ok_def h'_def) (simp add: next_store_def)
qed

lemma map_of_rev: "distinct (map fst xs) \<Longrightarrow> map_of (rev xs) = map_of xs"
  by (rule map_of_inject_set [THEN iffD2]) (auto simp: rev_map [symmetric])

lemma next_disk_ok:
  assumes disk: "disk_ok xxh h V m M" and d: "dirty_ok xxh h n dirty" and p: "pending_ok pending"
    and room: "unat n * unat (page_size h) < 2 ^ 64"
  defines "h' \<equiv> pending_apply h n pending"
  shows "disk_ok xxh h' (next_store xxh h' dirty V) (m ++ map_of (rev (dirty @ [(0, header_page xxh h')]))) M"
proof -
  let ?m = "m ++ map_of (rev (dirty @ [(0, header_page xxh h')]))" and ?V = "next_store xxh h' dirty V"
  have s: "store_ok xxh h V" using disk by (simp add: disk_ok_def)
  note n = next_store_ok [OF s d p room, folded h'_def]
  have "map_of (rev dirty) = map_of dirty"
    using d by (intro map_of_rev) (simp add: dirty_ok_def bmap_wf_distinct)
  then have m: "?m = (m ++ map_of dirty)(0 \<mapsto> header_page xxh h')" by simp
  have dom: "dom m \<subseteq> dom V" using disk by (simp add: disk_ok_def)
  have "page_view (unat (page_size h)) ?m M q = ?V q" if q: "q \<in> dom ?V" for q
  proof (cases "q = 0 \<or> map_of dirty q \<noteq> None")
    case True
    then show ?thesis unfolding m by (auto simp: page_view_def next_store_def)
  next
    case False
    then have "?V q = V q" "?m q = m q" "q \<in> dom V"
      using q unfolding m by (auto simp: next_store_def map_add_def split: option.splits)
    moreover have "page_view (unat (page_size h)) m M q = V q"
      using disk \<open>q \<in> dom V\<close> by (simp add: disk_ok_def)
    ultimately show ?thesis by (simp only: page_view_def)
  qed
  moreover have "dom ?m \<subseteq> dom ?V" using dom unfolding m by (auto simp: next_store_def)
  ultimately show ?thesis
    using n disk by (simp add: disk_ok_def h'_def)
qed

section \<open>Commit\<close>

text \<open>The assumption on the checksum, for the commit of one transaction: in the image \<open>W\<close> of the log file,
  a frame that validates at the position of one of its frames is that frame.\<close>

definition commit_salt :: "u64 \<Rightarrow> pager \<Rightarrow> u64" where
  "commit_salt new_salt pg = (case w_salt (pg_wal pg) of Some s \<Rightarrow> s | None \<Rightarrow> new_salt)"

definition commit_offset :: "pager \<Rightarrow> nat" where
  "commit_offset pg = (case w_salt (pg_wal pg) of Some _ \<Rightarrow> w_len (pg_wal pg) | None \<Rightarrow> WAL_HEADER_LEN)"

definition commit_frames :: "hash64 \<Rightarrow> header \<Rightarrow> (u64 \<times> bytes) list \<Rightarrow> log_txn" where
  "commit_frames xxh h' dirty = (txn_counter h', dirty @ [(0, header_page xxh h')])"

definition commit_detected :: "hash64 \<Rightarrow> u64 \<Rightarrow> pager \<Rightarrow> header \<Rightarrow> (u64 \<times> bytes) list \<Rightarrow> bytes \<Rightarrow> bool" where
  "commit_detected xxh new_salt pg h' dirty W \<longleftrightarrow>
     torn_detected xxh (commit_salt new_salt pg) (unat (page_size (pg_header pg))) W (commit_offset pg)
       (txn_frames xxh (commit_salt new_salt pg) (fst (commit_frames xxh h' dirty)) (snd (commit_frames xxh h' dirty)))"

text \<open>What a commit that failed in the log leaves.\<close>

definition commit_torn :: "hash64 \<Rightarrow> u64 \<Rightarrow> pager \<Rightarrow> (u64 \<Rightarrow> bytes option) \<Rightarrow> header \<Rightarrow> (u64 \<times> bytes) list \<Rightarrow>
    sim_state \<Rightarrow> bool" where
  "commit_torn xxh new_salt pg V h' dirty st \<longleftrightarrow>
     (\<exists>dm dw. files st (sf_path (pg_main pg)) = Some dm \<and> files st (sf_path (w_file (pg_wal pg))) = Some dw \<and>
        (\<forall>M W. crash_image dm M \<and> crash_image dw W \<and> commit_detected xxh new_salt pg h' dirty W \<longrightarrow>
           image_ok xxh (pg_header pg) V M W \<or> image_ok xxh h' (next_store xxh h' dirty V) M W))"

lemma wal_inv_offset:
  assumes "wal_inv xxh txns (pg_wal pg) st"
  shows "length (log_bytes xxh (w_page_size (pg_wal pg)) (commit_salt ns pg) txns) = commit_offset pg"
  using assms
  by (auto simp: wal_inv_def commit_salt_def commit_offset_def log_bytes_def split: option.splits)

lemma commit_tornI:
  assumes rep: "represents xxh V pg st" and d: "dirty_ok xxh (pg_header pg) n dirty" and p: "pending_ok pending"
    and room: "unat n * unat (page_size (pg_header pg)) < 2 ^ 64"
      "w_len (pg_wal pg) + 32 + (length dirty + 1) * (32 + unat (page_size (pg_header pg))) < 2 ^ 64"
    and h': "h' = pending_apply (pg_header pg) n pending"
    and wal: "wal_inv xxh txns (pg_wal pg) st"
    and st': "files st (sf_path (pg_main pg)) = Some dm" "files st' = (files st)(sf_path (w_file (pg_wal pg)) \<mapsto> dw)"
      "synced dm = current dm" "disk_ok xxh (pg_header pg) V (log_images txns) (current dm)"
    and torn: "wal_torn xxh (page_size (pg_header pg)) (w_salt (pg_wal pg)) ns txns (commit_frames xxh h' dirty) dw"
    and t: "txn_wf (unat (page_size (pg_header pg))) (commit_frames xxh h' dirty)"
  shows "commit_torn xxh ns pg V h' dirty st'"
proof -
  let ?h = "pg_header pg"
  let ?ps = "page_size ?h" and ?t = "commit_frames xxh h' dirty" and ?s = "commit_salt ns pg"
  have wps: "w_page_size (pg_wal pg) = ?ps" and neq: "sf_path (pg_main pg) \<noteq> sf_path (w_file (pg_wal pg))"
    using rep by (auto simp: represents_def)
  have psv: "page_size_is_valid ?ps" and wf: "\<forall>t \<in> set txns. txn_wf (unat ?ps) t"
    using wal wps by (auto simp: wal_inv_def)
  note off = wal_inv_offset [OF wal, of ns, unfolded wps]
  have tl: "length (txn_bytes xxh s ?t) = (length dirty + 1) * (32 + unat ?ps)" for s
    using length_txn_bytes [OF t, of xxh s] by (simp add: commit_frames_def)
  have "commit_offset pg \<le> w_len (pg_wal pg) + 32" by (simp add: commit_offset_def split: option.split)
  then have len: "length (current dw) < 2 ^ 64"
    using torn off tl [of ?s] room(2)
    by (auto simp: wal_torn_def commit_salt_def split: option.splits)
  have "image_ok xxh ?h V M W \<or> image_ok xxh h' (next_store xxh h' dirty V) M W"
    if im: "crash_image dm M" "crash_image dw W" and det: "commit_detected xxh ns pg h' dirty W" for M W
  proof -
    have M: "M = current dm" using crash_image_same [OF im(1)] st'(3) by simp
    have lenW: "length W < 2 ^ 64"
    proof -
      have "length (synced dw) \<le> length (current dw)"
        using torn by (auto simp: wal_torn_def split: option.splits)
      then show ?thesis using crash_image_mix [OF im(2)] len by (metis le_less_trans)
    qed
    have "recovers xxh ?ps W (log_images txns) \<or> recovers xxh ?ps W (log_images (txns @ [?t]))"
      using det off unfolding commit_detected_def commit_salt_def
      by (intro recovers_torn [OF torn im(2) psv wf t len]) simp
    then show ?thesis
    proof
      assume "recovers xxh ?ps W (log_images txns)"
      then show ?thesis using lenW st'(4) M by (auto simp: image_ok_def)
    next
      assume r: "recovers xxh ?ps W (log_images (txns @ [?t]))"
      have "log_images (txns @ [?t]) = log_images txns ++ map_of (rev (dirty @ [(0, header_page xxh h')]))"
        by (simp add: log_images_snoc commit_frames_def)
      with next_disk_ok [OF st'(4) d p room(1)] have
        "disk_ok xxh h' (next_store xxh h' dirty V) (log_images (txns @ [?t])) M"
        by (simp add: h' M)
      then show ?thesis using r lenW by (auto simp: image_ok_def h')
    qed
  qed
  then show ?thesis
    using st'(1,2) neq by (auto simp: commit_torn_def)
qed

lemma commit_frames_wf:
  assumes "dirty_ok xxh h n dirty" "header_wf h'" "page_size h' = page_size h"
  shows "txn_wf (unat (page_size h)) (commit_frames xxh h' dirty)"
  using assms header_page_facts(1) [OF assms(2), of xxh]
  by (auto simp: txn_wf_def commit_frames_def dirty_ok_def)

text \<open>The append of a commit, before the checkpoint it may trigger.\<close>

lemma commit_append:
  assumes rep: "represents xxh V pg st" and d: "dirty_ok xxh (pg_header pg) n dirty" and p: "pending_ok pending"
    and room: "unat n * unat (page_size (pg_header pg)) < 2 ^ 64"
      "w_len (pg_wal pg) + 32 + (length dirty + 1) * (32 + unat (page_size (pg_header pg))) < 2 ^ 64"
    and app: "append_txn xxh ns (txn_counter (pending_apply (pg_header pg) n pending))
      (dirty @ [(0, header_page xxh (pending_apply (pg_header pg) n pending))]) (pg_wal pg) st = (r, w, st')"
  defines "h' \<equiv> pending_apply (pg_header pg) n pending"
  shows "(\<exists>offsets. r = Inr offsets \<and> represents xxh (next_store xxh h' dirty V)
      (pg\<lparr>pg_wal := w, pg_header := h', pg_wal_index := commit_pending offsets (pg_wal_index pg)\<rparr>) st' \<and>
      w_file w = w_file (pg_wal pg)) \<or>
    r = Inl crash_error \<and> crashed st' \<and> lying_sync st' = lying_sync st \<and> commit_torn xxh ns pg V h' dirty st'"
proof -
  let ?h = "pg_header pg"
  let ?ps = "page_size ?h" and ?t = "commit_frames xxh h' dirty" and ?s = "commit_salt ns pg"
  obtain txns dm dw where k: "files st (sf_path (pg_main pg)) = Some dm" "synced dm = current dm"
      "wal_inv xxh txns (pg_wal pg) st" "pg_wal_index pg = log_index (unat ?ps) 32 txns []"
      "disk_ok xxh ?h V (log_images txns) (current dm)" "locked_by dm = Some (sf_handle_id (pg_main pg))"
    by (rule representsE [OF rep])
  note s = represents_store [OF rep]
  have wps: "w_page_size (pg_wal pg) = ?ps" and neq: "sf_path (pg_main pg) \<noteq> sf_path (w_file (pg_wal pg))"
    using rep by (auto simp: represents_def)
  note off = wal_inv_offset [OF k(3), of ns, unfolded wps]
  have hwf: "header_wf h'" unfolding h'_def by (rule next_store_ok(2) [OF s(1) d p room(1)])
  have t: "txn_wf (unat ?ps) ?t" by (rule commit_frames_wf [OF d hwf]) (simp add: h'_def)
  have room': "w_len (pg_wal pg) + 32 + length (snd ?t) * (32 + unat ?ps) < 2 ^ 64"
    using room(2) by (simp add: commit_frames_def)
  have "append_outcome xxh ns ?s txns ?t (pg_wal pg) st (r, w, st')"
    using append_txn_effect [OF k(3), unfolded wps, OF t s(3,4) room', of ns] app
    by (simp add: commit_salt_def commit_frames_def h'_def)
  then obtain dw' where o: "w_file w = w_file (pg_wal pg)" "lying_sync st' = lying_sync st"
      "files st' = (files st)(sf_path (w_file (pg_wal pg)) \<mapsto> dw')" and
    c: "r = Inr (frame_offsets (unat ?ps) (commit_offset pg) (snd ?t)) \<and> \<not> crashed st' \<and>
          wal_inv xxh (txns @ [?t]) w st' \<and> w_page_size w = ?ps \<or>
        r = Inl crash_error \<and> crashed st' \<and> wal_torn xxh ?ps (w_salt (pg_wal pg)) ns txns ?t dw'"
    unfolding append_outcome_def prod.case wps off by blast
  from c show ?thesis
  proof (elim disjE conjE)
    assume r: "r = Inr (frame_offsets (unat ?ps) (commit_offset pg) (snd ?t))" "\<not> crashed st'"
      "wal_inv xxh (txns @ [?t]) w st'" "w_page_size w = ?ps"
    have wf: "\<forall>t \<in> set txns. txn_wf (unat ?ps) t" using k(3) wps by (simp add: wal_inv_def)
    have idx: "commit_pending (frame_offsets (unat ?ps) (commit_offset pg) (snd ?t)) (pg_wal_index pg) =
        log_index (unat ?ps) 32 (txns @ [?t]) []"
      using log_index_snoc [OF wf, of ?t xxh ?s] off k(4) by simp
    have "log_images (txns @ [?t]) = log_images txns ++ map_of (rev (dirty @ [(0, header_page xxh h')]))"
      by (simp add: log_images_snoc commit_frames_def)
    with next_disk_ok [OF k(5) d p room(1), folded h'_def]
    have disk: "disk_ok xxh h' (next_store xxh h' dirty V) (log_images (txns @ [?t])) (current dm)" by simp
    have "files st' (sf_path (pg_main pg)) = Some dm" using o(3) neq k(1) by simp
    then have "represents xxh (next_store xxh h' dirty V) (pg\<lparr>pg_wal := w, pg_header := h',
        pg_wal_index := log_index (unat ?ps) 32 (txns @ [?t]) []\<rparr>) st'"
      using rep r o(1,2) k(2,6) disk unfolding represents_def
      by (intro conjI exI [of _ "txns @ [?t]"] exI [of _ dm]) (simp_all add: h'_def)
    then show ?thesis using r(1) o(1) by (simp add: idx)
  next
    assume r: "r = Inl crash_error" "crashed st'" "wal_torn xxh ?ps (w_salt (pg_wal pg)) ns txns ?t dw'"
    have "commit_torn xxh ns pg V h' dirty st'"
      by (rule commit_tornI [OF rep d p room _ k(3,1) o(3) k(2,5) r(3) t]) (simp add: h'_def)
    then show ?thesis using r o(2) by simp
  qed
qed

lemma commit_effect:
  assumes rep: "represents xxh V pg st" and d: "dirty_ok xxh (pg_header pg) n dirty" and p: "pending_ok pending"
    and room: "unat n * unat (page_size (pg_header pg)) < 2 ^ 64"
      "w_len (pg_wal pg) + 32 + (length dirty + 1) * (32 + unat (page_size (pg_header pg))) < 2 ^ 64"
    and ord: "iter_order ord"
    and some: "\<not> (dirty = [] \<and> n = page_count (pg_header pg) \<and> pending_is_empty pending)"
    and out: "commit_txn xxh ord ns dirty n pending pg st = (r, pg', st')"
  defines "h' \<equiv> pending_apply (pg_header pg) n pending"
  shows "r = Inr (txn_counter h') \<and> represents xxh (next_store xxh h' dirty V) pg' st' \<and> pg_header pg' = h' \<and>
      pg_main pg' = pg_main pg \<or>
    r = Inl crash_error \<and> crashed st' \<and> lying_sync st' = lying_sync st \<and> pg_broken pg' \<and>
      (commit_torn xxh ns pg V h' dirty st' \<or>
       interrupted xxh h' (next_store xxh h' dirty V) (sf_path (pg_main pg)) (sf_path (w_file (pg_wal pg))) st')"
proof -
  let ?V = "next_store xxh h' dirty V"
  have hwf: "header_wf h'" unfolding h'_def by (rule next_store_ok(2) [OF represents_store(1) [OF rep] d p room(1)])
  have enc: "header_encode xxh h' (replicate (unat (page_size (pg_header pg))) 0) = Inr (header_page xxh h')"
    using header_page_encode [OF hwf, of xxh] by (simp add: h'_def)
  obtain r1 w st1 where app: "append_txn xxh ns (txn_counter h') (dirty @ [(0, header_page xxh h')]) (pg_wal pg) st =
      (r1, w, st1)" by (metis prod_cases3)
  have step: "(r, pg', st') = (case r1 of
      Inl e \<Rightarrow> (Inl e, pg\<lparr>pg_wal := w, pg_broken := True\<rparr>, st1)
    | Inr offsets \<Rightarrow>
        let pg1 = pg\<lparr>pg_wal := w, pg_header := h', pg_wal_index := commit_pending offsets (pg_wal_index pg)\<rparr>
        in if unat (pg_checkpoint_threshold pg1) \<le> w_len (pg_wal pg1)
           then case pager_checkpoint ord pg1 st1 of
                  (Inl e, pg, st) \<Rightarrow> (Inl e, pg, st) | (Inr _, pg, st) \<Rightarrow> (Inr (txn_counter h'), pg, st)
           else (Inr (txn_counter h'), pg1, st1))"
    unfolding out [symmetric] commit_txn_def ensure_usable_def
    using represents_store(2) [OF rep] some enc app
    by (simp only: Let_def h'_def [symmetric] if_False sum.case prod.case split: sum.split)
  from commit_append [OF rep d p room app [unfolded h'_def], folded h'_def] show ?thesis
  proof (elim disjE exE conjE)
    fix offsets assume o: "r1 = Inr offsets" "w_file w = w_file (pg_wal pg)" and
      rep1: "represents xxh ?V (pg\<lparr>pg_wal := w, pg_header := h',
        pg_wal_index := commit_pending offsets (pg_wal_index pg)\<rparr>) st1"
    let ?pg1 = "pg\<lparr>pg_wal := w, pg_header := h', pg_wal_index := commit_pending offsets (pg_wal_index pg)\<rparr>"
    show ?thesis
    proof (cases "unat (pg_checkpoint_threshold pg) \<le> w_len w")
      case False
      then show ?thesis using step o(1) rep1 by simp
    next
      case True
      obtain r2 pg2 st2 where cp: "pager_checkpoint ord ?pg1 st1 = (r2, pg2, st2)" by (metis prod_cases3)
      have ly: "\<not> lying_sync st1" "\<not> lying_sync st" using represents_store(4) rep1 rep by blast+
      from checkpoint_effect [OF rep1 ord cp] show ?thesis
        using step o True cp ly by auto
    qed
  next
    assume "r1 = Inl crash_error" "crashed st1" "lying_sync st1 = lying_sync st" "commit_torn xxh ns pg V h' dirty st1"
    then show ?thesis using step by simp
  qed
qed

end
