(* ===== verification/Pager_Lifecycle.thy ===== *)
theory Pager_Lifecycle
  imports Pager_Commit
begin

text \<open>
  The life of a store: creation, close, the writer lock, and what a power failure during a commit, a
  checkpoint or a recovery leaves for the next open.
\<close>

section \<open>The store after a power failure\<close>

lemma power_fail_disk_state:
  assumes "distinct order" "path \<in> set order" "wal_path_for path \<in> set order"
    and "files st path = Some dm" "files st (wal_path_for path) = Some dw"
  obtains M W where "disk_state path (power_fail seed order st) M W" "crash_image dm M" "crash_image dw W"
    "files (power_fail seed order st) (wal_path_for path) = Some \<lparr>synced = W, current = W, locked_by = None\<rparr>"
proof -
  obtain M where M: "crash_image dm M"
    "files (power_fail seed order st) path = Some \<lparr>synced = M, current = M, locked_by = None\<rparr>"
    using power_fail_outcome [OF assms(1,2,4)] by blast
  obtain W where W: "crash_image dw W"
    "files (power_fail seed order st) (wal_path_for path) = Some \<lparr>synced = W, current = W, locked_by = None\<rparr>"
    using power_fail_outcome [OF assms(1,3,5)] by blast
  show ?thesis
    by (rule that [OF _ M(1) W]) (simp add: disk_state_def M(2) W(2))
qed

text \<open>The image of a file found after the failure.\<close>

definition image_of :: "path \<Rightarrow> sim_state \<Rightarrow> bytes" where
  "image_of p st = (case files st p of Some d \<Rightarrow> current d | None \<Rightarrow> [])"

definition settled_at :: "path \<Rightarrow> sim_state \<Rightarrow> sim_state \<Rightarrow> bool" where
  "settled_at p st st' \<longleftrightarrow> (case files st p of Some d \<Rightarrow> settled d (image_of p st') | None \<Rightarrow> True)"

lemma open_after_image:
  assumes "disk_state path st M W" "image_ok xxh h V M W" "\<not> crashed st" "\<not> lying_sync st" "crash_at st = None"
  shows "\<exists>pg st'. pager_open xxh path opts st = (Inr pg, st') \<and> represents xxh V pg st' \<and> pg_header pg = h"
proof -
  obtain r st' where o: "pager_open xxh path opts st = (r, st')" by fastforce
  from pager_open_effect [OF assms(1-4) o] assms(5) show ?thesis using o by auto
qed

lemma reopen_interrupted:
  assumes int: "interrupted xxh h V path (wal_path_for path) st" and ly: "\<not> lying_sync st"
    and ord: "distinct order" "path \<in> set order" "wal_path_for path \<in> set order"
    and set: "settled_at (wal_path_for path) st (power_fail seed order st)"
  shows "\<exists>pg st'. pager_open xxh path opts (power_fail seed order st) = (Inr pg, st') \<and>
    represents xxh V pg st' \<and> pg_header pg = h"
proof -
  obtain m W0 dm dw where d: "files st path = Some dm" "files st (wal_path_for path) = Some dw"
      "length W0 < 2 ^ 64" "recovers xxh (page_size h) W0 m" "crash_ok xxh h V m W0 dm dw"
    using int by (auto simp: interrupted_def)
  obtain M W where i: "disk_state path (power_fail seed order st) M W" "crash_image dm M" "crash_image dw W"
    "files (power_fail seed order st) (wal_path_for path) = Some \<lparr>synced = W, current = W, locked_by = None\<rparr>"
    by (rule power_fail_disk_state [OF ord d(1,2), of seed])
  have "settled dw W" using set d(2) i(4) by (simp add: settled_at_def image_of_def)
  from crash_ok_image [OF d(5) i(2,3) this d(4,3)] show ?thesis
    using ly by (intro open_after_image [OF i(1)]) simp_all
qed

lemma reopen_commit_torn:
  assumes torn: "commit_torn xxh ns pg V h' dirty st" and ly: "\<not> lying_sync st"
    and path: "sf_path (pg_main pg) = path" "sf_path (w_file (pg_wal pg)) = wal_path_for path"
    and ord: "distinct order" "path \<in> set order" "wal_path_for path \<in> set order"
    and det: "commit_detected xxh ns pg h' dirty (image_of (wal_path_for path) (power_fail seed order st))"
  shows "\<exists>pg2 st'. pager_open xxh path opts (power_fail seed order st) = (Inr pg2, st') \<and>
    (represents xxh V pg2 st' \<and> pg_header pg2 = pg_header pg \<or>
     represents xxh (next_store xxh h' dirty V) pg2 st' \<and> pg_header pg2 = h')"
proof -
  obtain dm dw where d: "files st path = Some dm" "files st (wal_path_for path) = Some dw" and
    im: "\<And>M W. crash_image dm M \<Longrightarrow> crash_image dw W \<Longrightarrow> commit_detected xxh ns pg h' dirty W \<Longrightarrow>
      image_ok xxh (pg_header pg) V M W \<or> image_ok xxh h' (next_store xxh h' dirty V) M W"
    using torn unfolding commit_torn_def path by blast
  obtain M W where i: "disk_state path (power_fail seed order st) M W" "crash_image dm M" "crash_image dw W"
    "files (power_fail seed order st) (wal_path_for path) = Some \<lparr>synced = W, current = W, locked_by = None\<rparr>"
    by (rule power_fail_disk_state [OF ord d(1,2), of seed])
  have "commit_detected xxh ns pg h' dirty W" using det i(4) by (simp add: image_of_def)
  from im [OF i(2,3) this] show ?thesis
    using open_after_image [OF i(1)] ly by (metis power_fail_alive)
qed

section \<open>Create\<close>

lemma next_handle_keeps:
  "next_handle_id (snd (file_write_at f buf off st)) = next_handle_id st"
  "next_handle_id (snd (file_sync f st)) = next_handle_id st"
  by (auto simp: file_write_at_def file_sync_def enter_mut_op_def Let_def split: option.splits sum.splits prod.splits if_splits)

lemma write_sync_fresh:
  assumes "files st (sf_path f) = Some d" "current d = []" "\<not> crashed st" "\<not> lying_sync st" "crash_at st = None"
  obtains st' where "bind_st (file_write_at f buf 0 st) (\<lambda>_ st. file_sync f st) = (Inr (), st')"
    "files st' = (files st)(sf_path f \<mapsto> d\<lparr>current := buf, synced := buf\<rparr>)" "\<not> crashed st'" "\<not> lying_sync st'" "crash_at st' = None"
    "next_handle_id st' = next_handle_id st"
proof -
  obtain r1 st1 where w: "file_write_at f buf 0 st = (r1, st1)" by fastforce
  note wc = file_write_at_cases [OF w assms(1)]
  have buf: "write_bytes (pad_to (0 + length buf) (current d)) 0 buf = buf"
    using write_at_end [of 0 "[]" buf] assms(2) by simp
  have r1: "r1 = Inr ()" "\<not> crashed st1" "files st1 = (files st)(sf_path f \<mapsto> d\<lparr>current := buf\<rparr>)"
    using wc(3) assms(3,5) buf by auto
  obtain r2 st2 where s: "file_sync f st1 = (r2, st2)" by fastforce
  have f1: "files st1 (sf_path f) = Some (d\<lparr>current := buf\<rparr>)" "\<not> lying_sync st1"
    using r1(3) wc(1) assms(4) by simp_all
  note sc = file_sync_cases [OF s f1]
  have "r2 = Inr ()" "\<not> crashed st2" "files st2 = (files st)(sf_path f \<mapsto> d\<lparr>current := buf, synced := buf\<rparr>)"
    using sc(3) r1 wc(2) assms(5) by auto
  then show ?thesis
    using w s r1(1) sc(1,2) wc(2) assms(5) f1(2) next_handle_keeps(1) [of f buf 0 st] next_handle_keeps(2) [of f st1]
    by (intro that [of st2]) simp_all
qed

lemma store_new_ok:
  assumes "header_wf h" "page_count h = 1"
  shows "store_ok xxh h [0 \<mapsto> header_page xxh h]" "disk_ok xxh h [0 \<mapsto> header_page xxh h] Map.empty (header_page xxh h)"
proof -
  note f = header_page_facts [OF assms(1), of xxh]
  have big: "512 \<le> unat (page_size h)" "unat (page_size h) \<le> 65536" using header_wf_size [OF assms(1)] by auto
  have one: "p < (1 :: u64) \<longleftrightarrow> p = 0" for p
    by (simp add: word_less_nat_alt unat_eq_zero)
  show s: "store_ok xxh h [0 \<mapsto> header_page xxh h]"
    using assms f(1,2) big by (auto simp: store_ok_def one)
  have "page_at (unat (page_size h)) (header_page xxh h) 0 = Some (header_page xxh h)"
    using f(1) by (simp add: page_at_def seg_def)
  then show "disk_ok xxh h [0 \<mapsto> header_page xxh h] Map.empty (header_page xxh h)"
    using s f(1) big header_page_prefix [OF assms(1), of xxh] by (simp add: disk_ok_def page_view_def)
qed

definition create_header :: "pager_options \<Rightarrow> header" where
  "create_header opts = \<lparr>format_version = opt_format_version opts, page_size = opt_page_size opts, page_count = 1,
     root_btree_page = 0, freelist_page = 0, hnsw_meta_page = 0, fts_root_page = 0,
     graph_root_page = 0, filter_meta_page = 0, filter_symbols_page = 0,
     txn_counter = 0, embedding_dims = 0, embedding_quant = 0, embedding_model_id = [], flags = 0\<rparr>"

definition options_ok :: "pager_options \<Rightarrow> bool" where
  "options_ok opts \<longleftrightarrow> opt_format_version opts \<noteq> 0 \<and> opt_format_version opts \<le> FORMAT_VERSION \<and>
     page_size_is_valid (opt_page_size opts)"

lemma create_header_wf: "options_ok opts \<Longrightarrow> header_wf (create_header opts)"
  by (simp add: options_ok_def create_header_def header_wf_def)

lemma pager_create_effect:
  assumes opts: "options_ok opts" and new: "files st path = None"
    and ok: "\<not> crashed st" "\<not> lying_sync st" "crash_at st = None"
  shows "\<exists>pg st'. pager_create xxh path opts st = (Inr pg, st') \<and> pg_header pg = create_header opts \<and>
    sf_path (pg_main pg) = path \<and> pg_wal_path pg = wal_path_for path \<and>
    represents xxh [0 \<mapsto> header_page xxh (create_header opts)] pg st' \<and> w_len (pg_wal pg) = 0 \<and> crash_at st' = None \<and>
    sf_handle_id (pg_main pg) = next_handle_id st \<and> next_handle_id st' = next_handle_id st + 2 \<and>
    pg_checkpoint_threshold pg = opt_checkpoint_threshold opts"
proof -
  let ?h = "create_header opts" and ?wp = "wal_path_for path" and ?id = "next_handle_id st"
  let ?main = "\<lparr>sf_path = path, sf_handle_id = ?id\<rparr>"
  let ?d = "empty_file\<lparr>locked_by := Some ?id\<rparr>"
  have hwf: "header_wf ?h" and ps: "page_size ?h = opt_page_size opts" and pc: "page_count ?h = 1"
    using create_header_wf [OF opts] by (simp_all add: create_header_def)
  have guard: "\<not> (opt_format_version opts = 0 \<or> FORMAT_VERSION < opt_format_version opts)"
    using opts by (simp add: options_ok_def not_less)
  have hn: "header_new (opt_page_size opts) = Inr (?h\<lparr>format_version := FORMAT_VERSION\<rparr>)"
    using opts by (simp add: header_new_def options_ok_def create_header_def)
  have hv: "?h\<lparr>format_version := FORMAT_VERSION\<rparr>\<lparr>format_version := opt_format_version opts\<rparr> = ?h"
    by (simp add: create_header_def)
  have enc: "header_encode xxh ?h (replicate (unat (opt_page_size opts)) 0) = Inr (header_page xxh ?h)"
    using header_page_encode [OF hwf, of xxh] ps by simp
  let ?st1 = "st\<lparr>files := (files st)(path \<mapsto> empty_file), next_handle_id := ?id + 1\<rparr>"
  have o1: "vfs_open path CreateNew st = (Inr ?main, ?st1)"
    using new ok(1) by (simp add: vfs_open_def)
  let ?st2 = "?st1\<lparr>files := (files st)(path \<mapsto> ?d)\<rparr>"
  have lk: "file_try_lock_exclusive ?main ?st1 = (Inr True, ?st2)"
    using ok(1) by (simp add: file_try_lock_exclusive_def empty_file_def)
  let ?st3 = "?st2\<lparr>files := (files st)(path \<mapsto> ?d, ?wp := None)\<rparr>"
  have del: "(if vfs_exists ?wp ?st2 then vfs_delete ?wp ?st2 else (Inr (), ?st2)) = (Inr (), ?st3)"
    using ok(1) by (auto simp: vfs_exists_def vfs_delete_def fun_eq_iff)
  have f3: "files ?st3 (sf_path ?main) = Some ?d" "current ?d = []" by (simp_all add: empty_file_def)
  obtain st4 where w: "bind_st (file_write_at ?main (header_page xxh ?h) 0 ?st3) (\<lambda>_ st. file_sync ?main st) = (Inr (), st4)"
    "files st4 = (files ?st3)(path \<mapsto> ?d\<lparr>current := header_page xxh ?h, synced := header_page xxh ?h\<rparr>)"
    "\<not> crashed st4" "\<not> lying_sync st4" "crash_at st4 = None" "next_handle_id st4 = next_handle_id ?st3"
    using write_sync_fresh [OF f3, of "header_page xxh ?h"] ok by auto
  let ?wfile = "\<lparr>sf_path = ?wp, sf_handle_id = next_handle_id st4\<rparr>"
  let ?st5 = "st4\<lparr>files := (files st4)(?wp \<mapsto> empty_file), next_handle_id := next_handle_id st4 + 1\<rparr>"
  have o2: "vfs_open ?wp OpenOrCreate st4 = (Inr ?wfile, ?st5)"
    using w(2,3) by (simp add: vfs_open_def)
  let ?pg = "\<lparr>pg_main = ?main, pg_wal = wal_new ?wfile (page_size ?h), pg_wal_path = ?wp, pg_header = ?h,
    pg_wal_index = [], pg_checkpoint_threshold = opt_checkpoint_threshold opts, pg_broken = False\<rparr>"
  have "pager_create xxh path opts st = drop_on_err ?main (bind_st (bind_st (file_write_at ?main (header_page xxh ?h) 0 ?st3)
      (\<lambda>_ st. file_sync ?main st)) (\<lambda>_ st. bind_st (vfs_open ?wp OpenOrCreate st) (\<lambda>wal_file st.
        (Inr \<lparr>pg_main = ?main, pg_wal = wal_new wal_file (opt_page_size opts), pg_wal_path = ?wp, pg_header = ?h,
    pg_wal_index = [], pg_checkpoint_threshold = opt_checkpoint_threshold opts, pg_broken = False\<rparr>, st))))"
    unfolding pager_create_def
    by (simp only: if_not_P [OF guard] hn hv o1 lk del enc bind_st.simps Let_def bind_st_assoc not_True_eq_False if_False)
  then have cr: "pager_create xxh path opts st = (Inr ?pg, ?st5)"
    by (simp only: w(1) o2 bind_st.simps drop_on_err_def prod.case sum.case ps)
  have "represents xxh [0 \<mapsto> header_page xxh ?h] (\<lparr>pg_main = ?main, pg_wal = wal_new ?wfile (page_size ?h),
      pg_wal_path = sf_path ?wfile, pg_header = ?h, pg_wal_index = [],
      pg_checkpoint_threshold = opt_checkpoint_threshold opts, pg_broken = False\<rparr>) ?st5"
    by (rule represents_fresh [OF store_new_ok(2) [OF hwf pc],
          where dm = "?d\<lparr>current := header_page xxh ?h, synced := header_page xxh ?h\<rparr>" and dw = empty_file])
      (use w in \<open>simp_all add: empty_file_def\<close>)
  then show ?thesis using cr w(5,6) by (simp add: wal_new_def)
qed

section \<open>Without a crash armed, nothing fails\<close>

definition alive :: "sim_state \<Rightarrow> bool" where
  "alive st \<longleftrightarrow> \<not> crashed st \<and> crash_at st = None"

named_theorems alive_rules \<open>operations that keep the process alive\<close>

lemma alive_enter: "alive st \<Longrightarrow> enter_mut_op t st = (Inr None, st\<lparr>ops := ops st + 1\<rparr>)"
  by (simp add: alive_def enter_mut_op_def Let_def)

lemma alive_write [alive_rules]: "alive st \<Longrightarrow> alive (snd (file_write_at f buf off st))"
  by (auto simp: file_write_at_def alive_enter Let_def alive_def split: option.splits)

lemma alive_sync [alive_rules]: "alive st \<Longrightarrow> alive (snd (file_sync f st))"
  by (auto simp: file_sync_def alive_enter alive_def split: option.splits if_splits)

lemma alive_truncate [alive_rules]: "alive st \<Longrightarrow> alive (snd (file_truncate f n st))"
  by (auto simp: file_truncate_def alive_enter alive_def split: option.splits)

lemma alive_bind: "alive (snd m) \<Longrightarrow> (\<And>x s. alive s \<Longrightarrow> alive (snd (f x s))) \<Longrightarrow> alive (snd (bind_st m f))"
  by (cases m rule: prod.exhaust, rename_tac r s, case_tac r) auto

text \<open>The continuation shapes of the code: a result and a state, or a result, a component and a state.\<close>

lemma alive_case2:
  assumes "alive (snd m)" "\<And>e s. alive s \<Longrightarrow> alive (snd (snd (f e s)))" "\<And>x s. alive s \<Longrightarrow> alive (snd (snd (g x s)))"
  shows "alive (snd (snd (case m of (Inl e, s) \<Rightarrow> f e s | (Inr x, s) \<Rightarrow> g x s)))"
  using assms by (auto split: prod.split sum.split)

lemma alive_case3:
  assumes "alive (snd (snd m))" "\<And>e w s. alive s \<Longrightarrow> alive (snd (snd (f e w s)))"
    "\<And>x w s. alive s \<Longrightarrow> alive (snd (snd (g x w s)))"
  shows "alive (snd (snd (case m of (Inl e, w, s) \<Rightarrow> f e w s | (Inr x, w, s) \<Rightarrow> g x w s)))"
  using assms by (auto split: prod.split sum.split)

lemma alive_append_frames [alive_rules]:
  "alive st \<Longrightarrow> alive (snd (snd (append_frames xxh salt i pages w st)))"
proof (induction pages arbitrary: w st)
  case (Cons pg rest)
  obtain p img where pg: "pg = (p, img)" by (cases pg)
  show ?case
    using Cons unfolding pg by (auto simp: Let_def intro!: alive_case2 alive_case3 alive_write)
qed simp

lemma alive_append_txn [alive_rules]:
  assumes "alive st"
  shows "alive (snd (snd (append_txn xxh ns i pages w st)))"
proof -
  have old: "alive (snd (snd (append_txn xxh ns i pages w st)))" if "alive st" "w_salt w = Some s" for w s st
    using that by (simp add: append_txn_def) (intro alive_case3 alive_case2 alive_rules; simp)
  show ?thesis
  proof (cases "w_salt w")
    case None
    show ?thesis
      unfolding append_txn_None [OF None] using assms
      by (intro alive_case2 alive_write) (simp_all add: old)
  qed (use assms old in simp)
qed

lemma alive_wal_reset [alive_rules]: "alive st \<Longrightarrow> alive (snd (snd (wal_reset w st)))"
  unfolding wal_reset_def by (intro alive_case2 alive_rules; simp)

lemma alive_apply_images [alive_rules]: "alive st \<Longrightarrow> alive (snd (apply_images wfile main ps idx st))"
proof (induction idx arbitrary: st)
  case (Cons e idx)
  obtain p off where e: "e = (p, off)" by (cases e)
  have "alive (snd (bind_st (file_write_at main img pos st) (\<lambda>_. apply_images wfile main ps idx)))" for img pos
    using Cons by (intro alive_bind alive_write) simp_all
  then show ?case
    using Cons.prems by (cases "file_read_at wfile ps off st") (simp_all add: e)
qed simp

lemma alive_checkpoint [alive_rules]: "alive st \<Longrightarrow> alive (snd (snd (pager_checkpoint ord pg st)))"
proof -
  assume "alive st"
  then have "alive (snd (snd (checkpoint_inner ord pg st)))"
    unfolding checkpoint_inner_def by (intro alive_case2 alive_case3 alive_bind alive_rules; simp)
  with \<open>alive st\<close> show ?thesis
    by (auto simp: pager_checkpoint_def split: sum.split intro!: alive_case3)
qed

lemma alive_commit [alive_rules]: "alive st \<Longrightarrow> alive (snd (snd (commit_txn xxh ord ns dirty n pending pg st)))"
  unfolding commit_txn_def Let_def
  by (auto split: sum.split intro!: alive_case3 alive_rules)

section \<open>Close, and the writer lock\<close>

lemma wal_inv_empty: "wal_inv xxh txns w st \<Longrightarrow> w_len w = 0 \<Longrightarrow> txns = []"
proof -
  assume a: "wal_inv xxh txns w st" "w_len w = 0"
  have ne: "length (log_bytes xxh ps salt txns) \<noteq> 0" for ps salt by (simp add: log_bytes_def)
  show "txns = []"
  proof (cases "w_salt w")
    case (Some s)
    then have "length (log_bytes xxh (w_page_size w) s txns) = 0" using a by (auto simp: wal_inv_def)
    with ne show ?thesis by blast
  qed (use a(1) in \<open>auto simp: wal_inv_def\<close>)
qed

lemma checkpoint_keeps:
  "pager_checkpoint ord pg st = (r, pg', st') \<Longrightarrow> pg_wal_path pg' = pg_wal_path pg"
  by (auto simp: pager_checkpoint_def checkpoint_inner_def split: sum.splits if_splits prod.splits)

lemma commit_keeps:
  "commit_txn xxh ord ns dirty n pending pg st = (r, pg', st') \<Longrightarrow> pg_wal_path pg' = pg_wal_path pg"
  by (auto simp: commit_txn_def Let_def split: sum.splits if_splits prod.splits dest!: checkpoint_keeps)

lemma file_drop_files:
  "files st p = Some d \<Longrightarrow> sf_path f = p \<Longrightarrow>
     files (file_drop f st) = (files st)(p \<mapsto> if locked_by d = Some (sf_handle_id f) then d\<lparr>locked_by := None\<rparr> else d)"
  by (auto simp: file_drop_def fun_eq_iff)

lemma file_drop_alive [simp]: "crashed (file_drop f st) = crashed st" "crash_at (file_drop f st) = crash_at st"
  "lying_sync (file_drop f st) = lying_sync st"
  by (simp_all add: file_drop_def split: option.split)

lemma pager_close_effect:
  assumes rep: "represents xxh V pg st" and ord: "iter_order ord" and al: "alive st"
    and path: "sf_path (pg_main pg) = path" "pg_wal_path pg = wal_path_for path"
  shows "\<exists>M st'. pager_close ord pg st = (Inr (), st') \<and> disk_state path st' M [] \<and>
    files st' (wal_path_for path) = None \<and> disk_ok xxh (pg_header pg) V Map.empty M \<and>
    alive st' \<and> \<not> lying_sync st'"
proof -
  obtain r pg1 st1 where cp: "pager_checkpoint ord pg st = (r, pg1, st1)" by (metis prod_cases3)
  have al1: "alive st1" using alive_checkpoint [OF al, of ord pg] cp by simp
  then have k: "r = Inr ()" "represents xxh V pg1 st1" "pg_header pg1 = pg_header pg" "pg_main pg1 = pg_main pg"
      "w_len (pg_wal pg1) = 0"
    using checkpoint_effect [OF rep ord cp] by (auto simp: alive_def)
  obtain txns dm dw where d: "files st1 (sf_path (pg_main pg1)) = Some dm" "synced dm = current dm"
    "files st1 (sf_path (w_file (pg_wal pg1))) = Some dw" "wal_inv xxh txns (pg_wal pg1) st1"
    "disk_ok xxh (pg_header pg1) V (log_images txns) (current dm)" "locked_by dm = Some (sf_handle_id (pg_main pg1))"
    by (rule representsE [OF k(2)])
  have disk: "disk_ok xxh (pg_header pg) V Map.empty (current dm)"
    using d(5) wal_inv_empty [OF d(4) k(5)] k(3) by simp
  have wp1: "pg_wal_path pg1 = sf_path (w_file (pg_wal pg1))" "sf_path (pg_main pg1) \<noteq> sf_path (w_file (pg_wal pg1))"
    using k(2) by (auto simp: represents_def)
  have wp: "pg_wal_path pg1 = wal_path_for path"
    using checkpoint_keeps [OF cp] path(2) by simp
  let ?st2 = "file_drop (w_file (pg_wal pg1)) st1"
  let ?st3 = "?st2\<lparr>files := (files ?st2)(wal_path_for path := None)\<rparr>"
  have cr: "\<not> crashed ?st2" using al1 by (simp add: alive_def)
  have f2: "files ?st2 path = Some dm" "\<exists>x. files ?st2 (wal_path_for path) = Some x"
    using file_drop_files [OF d(3) refl] d(1) wp wp1 path(1) k(4) by auto
  have del: "(if vfs_exists (wal_path_for path) ?st2 then vfs_delete (wal_path_for path) ?st2 else (Inr (), ?st2)) =
      (Inr (), ?st3)"
    using f2(2) cr by (auto simp: vfs_exists_def vfs_delete_def)
  have "pager_close ord pg st = (Inr (), file_drop (pg_main pg1) ?st3)"
    by (simp only: pager_close_def cp k(1) prod.case sum.case Let_def wp del)
  moreover have "files (file_drop (pg_main pg1) ?st3) = (files ?st3)(path \<mapsto> dm\<lparr>locked_by := None\<rparr>)"
    using file_drop_files [of ?st3 path dm "pg_main pg1"] f2(1) path(1) k(4) d(6) by simp
  moreover have "\<not> lying_sync st1" by (rule represents_store(4) [OF k(2)])
  ultimately show ?thesis
    using d(2) disk al1 by (auto simp: disk_state_def alive_def)
qed

lemma open_locked:
  assumes "represents xxh V pg st" "next_handle_id st \<noteq> sf_handle_id (pg_main pg)"
  shows "pager_open xxh (sf_path (pg_main pg)) opts st =
    (Inl WriteLocked, st\<lparr>next_handle_id := next_handle_id st + 1\<rparr>)"
proof -
  obtain dm where d: "files st (sf_path (pg_main pg)) = Some dm" "locked_by dm = Some (sf_handle_id (pg_main pg))"
    by (rule representsE [OF assms(1)])
  note s = represents_store [OF assms(1)]
  show ?thesis
    using d assms(2) s(3)
    by (simp add: pager_open_def vfs_open_def file_try_lock_exclusive_def drop_on_err_def file_drop_def)
qed

section \<open>A run of the store\<close>

definition commit_fits :: "pager \<Rightarrow> txn \<Rightarrow> bool" where
  "commit_fits pg tx \<longleftrightarrow> unat (tx_page_count tx) * unat (page_size (pg_header pg)) < 2 ^ 64 \<and>
     w_len (pg_wal pg) + 32 + (length (tx_dirty tx) + 1) * (32 + unat (page_size (pg_header pg))) < 2 ^ 64"

definition txn_noop :: "pager \<Rightarrow> txn \<Rightarrow> bool" where
  "txn_noop pg tx \<longleftrightarrow> tx_dirty tx = [] \<and> tx_page_count tx = page_count (pg_header pg) \<and> pending_is_empty (tx_pending tx)"

definition txn_header :: "pager \<Rightarrow> txn \<Rightarrow> header" where
  "txn_header pg tx = pending_apply (pg_header pg) (tx_page_count tx) (tx_pending tx)"

text \<open>The stores a run has committed, oldest first, and the pager that is open at its end. Each crash
  step arms a crash at any mutating file operation, lets the operation die, fails the power and opens again.\<close>

inductive pager_run :: "hash64 \<Rightarrow> ((u64 \<times> nat) list \<Rightarrow> (u64 \<times> nat) list) \<Rightarrow> path \<Rightarrow>
    (header \<times> (u64 \<Rightarrow> bytes option)) list \<Rightarrow> pager \<Rightarrow> sim_state \<Rightarrow> bool"
  for xxh :: hash64 and ord and path where
  run_create: "options_ok opts \<Longrightarrow> files st path = None \<Longrightarrow> alive st \<Longrightarrow> \<not> lying_sync st \<Longrightarrow>
    pager_create xxh path opts st = (Inr pg, st') \<Longrightarrow>
    pager_run xxh ord path [(pg_header pg, [0 \<mapsto> header_page xxh (pg_header pg)])] pg st'"
| run_commit: "pager_run xxh ord path H pg st \<Longrightarrow> txn_ok xxh pg tx \<Longrightarrow> commit_fits pg tx \<Longrightarrow> \<not> txn_noop pg tx \<Longrightarrow>
    txn_commit xxh ord new_salt tx pg st = (Inr txn_id, pg', st') \<Longrightarrow>
    pager_run xxh ord path
      (H @ [(txn_header pg tx, next_store xxh (txn_header pg tx) (tx_dirty tx) (snd (last H)))]) pg' st'"
| run_checkpoint: "pager_run xxh ord path H pg st \<Longrightarrow> pager_checkpoint ord pg st = (Inr u, pg', st') \<Longrightarrow>
    pager_run xxh ord path H pg' st'"
| run_reopen: "pager_run xxh ord path H pg st \<Longrightarrow> alive st \<Longrightarrow> pager_close ord pg st = (Inr u, st1) \<Longrightarrow>
    pager_open xxh path opts st1 = (Inr pg', st') \<Longrightarrow> pager_run xxh ord path H pg' st'"
| run_crash_commit: "pager_run xxh ord path H pg st \<Longrightarrow> txn_ok xxh pg tx \<Longrightarrow> commit_fits pg tx \<Longrightarrow> \<not> txn_noop pg tx \<Longrightarrow>
    txn_commit xxh ord new_salt tx pg (arm_crash at_op mode torn_seed st) = (Inl e, pg1, st1) \<Longrightarrow>
    distinct order \<Longrightarrow> path \<in> set order \<Longrightarrow> wal_path_for path \<in> set order \<Longrightarrow> st2 = power_fail seed order st1 \<Longrightarrow>
    commit_detected xxh new_salt pg (txn_header pg tx) (tx_dirty tx) (image_of (wal_path_for path) st2) \<Longrightarrow>
    settled_at (wal_path_for path) st1 st2 \<Longrightarrow>
    pager_open xxh path opts st2 = (Inr pg', st') \<Longrightarrow>
    pager_run xxh ord path
      (if txn_counter (pg_header pg') = txn_counter (pg_header pg) then H
       else H @ [(txn_header pg tx, next_store xxh (txn_header pg tx) (tx_dirty tx) (snd (last H)))]) pg' st'"
| run_crash_checkpoint: "pager_run xxh ord path H pg st \<Longrightarrow>
    pager_checkpoint ord pg (arm_crash at_op mode torn_seed st) = (Inl e, pg1, st1) \<Longrightarrow>
    distinct order \<Longrightarrow> path \<in> set order \<Longrightarrow> wal_path_for path \<in> set order \<Longrightarrow> st2 = power_fail seed order st1 \<Longrightarrow>
    settled_at (wal_path_for path) st1 st2 \<Longrightarrow>
    pager_open xxh path opts st2 = (Inr pg', st') \<Longrightarrow> pager_run xxh ord path H pg' st'"

definition run_inv :: "hash64 \<Rightarrow> path \<Rightarrow> (header \<times> (u64 \<Rightarrow> bytes option)) list \<Rightarrow> pager \<Rightarrow> sim_state \<Rightarrow> bool" where
  "run_inv xxh path H pg st \<longleftrightarrow> H \<noteq> [] \<and> represents xxh (snd (last H)) pg st \<and> pg_header pg = fst (last H) \<and>
     sf_path (pg_main pg) = path \<and> pg_wal_path pg = wal_path_for path \<and>
     map (txn_counter \<circ> fst) H = map word_of_nat [0..<length H]"

lemma represents_arm [simp]: "represents xxh V pg (arm_crash a m s st) = represents xxh V pg st"
  by (simp add: represents_def wal_inv_def arm_crash_def)

lemma txn_commit_effect:
  assumes rep: "represents xxh V pg st" and tx: "txn_ok xxh pg tx" "commit_fits pg tx" "\<not> txn_noop pg tx"
    and ord: "iter_order ord" and out: "txn_commit xxh ord ns tx pg st = (r, pg', st')"
  shows "r = Inr (txn_counter (txn_header pg tx)) \<and>
      represents xxh (next_store xxh (txn_header pg tx) (tx_dirty tx) V) pg' st' \<and>
      pg_header pg' = txn_header pg tx \<and> pg_main pg' = pg_main pg \<or>
    r = Inl crash_error \<and> crashed st' \<and> \<not> lying_sync st' \<and> pg_broken pg' \<and>
      (commit_torn xxh ns pg V (txn_header pg tx) (tx_dirty tx) st' \<or>
       interrupted xxh (txn_header pg tx) (next_store xxh (txn_header pg tx) (tx_dirty tx) V)
         (sf_path (pg_main pg)) (sf_path (w_file (pg_wal pg))) st')"
proof -
  have d: "dirty_ok xxh (pg_header pg) (tx_page_count tx) (tx_dirty tx)" "pending_ok (tx_pending tx)"
    using tx(1) by (simp_all add: txn_ok_def)
  have f: "unat (tx_page_count tx) * unat (page_size (pg_header pg)) < 2 ^ 64"
    "w_len (pg_wal pg) + 32 + (length (tx_dirty tx) + 1) * (32 + unat (page_size (pg_header pg))) < 2 ^ 64"
    using tx(2) by (simp_all only: commit_fits_def)
  show ?thesis
    using commit_effect [OF rep d f ord tx(3) [unfolded txn_noop_def] out [unfolded txn_commit_def]]
      represents_store(4) [OF rep] by (simp add: txn_header_def)
qed

lemma drop_on_err_Inr: "drop_on_err f m = (Inr x, s) \<longleftrightarrow> m = (Inr x, s)"
  by (auto simp: drop_on_err_def split: prod.splits sum.splits)

lemma open_paths:
  "pager_open xxh path opts st = (Inr pg, st') \<Longrightarrow> sf_path (pg_main pg) = path \<and> pg_wal_path pg = wal_path_for path"
  by (auto simp: pager_open_def drop_on_err_Inr bind_st_Inr_iff vfs_open_def Let_def split: if_splits)

lemma run_inv_next:
  assumes "run_inv xxh path H pg st" "represents xxh V' pg' st'" "pg_header pg' = txn_header pg tx"
    "sf_path (pg_main pg') = path" "pg_wal_path pg' = wal_path_for path"
  shows "run_inv xxh path (H @ [(txn_header pg tx, V')]) pg' st'"
proof -
  have H: "H \<noteq> []" and m: "map (txn_counter \<circ> fst) H = map word_of_nat [0..<length H]"
    using assms(1) by (simp_all add: run_inv_def)
  have "last (map (txn_counter \<circ> fst) H) = last (map word_of_nat [0..<length H])" by (simp only: m)
  then have "txn_counter (fst (last H)) = word_of_nat (length H - 1)"
    using H by (simp add: last_map)
  with H have "txn_counter (txn_header pg tx) = word_of_nat (length H)"
    using assms(1) by (cases "length H") (simp_all add: run_inv_def txn_header_def add.commute)
  then show ?thesis using assms by (simp add: run_inv_def)
qed

lemma run_inv_wal: "run_inv xxh path H pg st \<Longrightarrow> sf_path (w_file (pg_wal pg)) = wal_path_for path"
  by (auto simp: run_inv_def represents_def)

lemma txn_header_counter: "txn_counter (txn_header pg tx) \<noteq> txn_counter (pg_header pg)"
  by (simp add: txn_header_def)

lemma run_inv_commit:
  assumes inv: "run_inv xxh path H pg st" and ord: "iter_order ord"
    and tx: "txn_ok xxh pg tx" "commit_fits pg tx" "\<not> txn_noop pg tx"
    and out: "txn_commit xxh ord ns tx pg st = (Inr txn_id, pg', st')"
  shows "run_inv xxh path
    (H @ [(txn_header pg tx, next_store xxh (txn_header pg tx) (tx_dirty tx) (snd (last H)))]) pg' st'"
proof -
  have rep: "represents xxh (snd (last H)) pg st" using inv by (simp add: run_inv_def)
  have "represents xxh (next_store xxh (txn_header pg tx) (tx_dirty tx) (snd (last H))) pg' st'"
    "pg_header pg' = txn_header pg tx" "pg_main pg' = pg_main pg"
    using txn_commit_effect [OF rep tx ord out] by auto
  moreover have "pg_wal_path pg' = pg_wal_path pg"
    using out by (auto simp: txn_commit_def dest: commit_keeps)
  ultimately show ?thesis
    using inv by (intro run_inv_next [OF inv]) (auto simp: run_inv_def)
qed

lemma run_inv_same:
  assumes "run_inv xxh path H pg st" "represents xxh (snd (last H)) pg' st'" "pg_header pg' = pg_header pg"
    "sf_path (pg_main pg') = path" "pg_wal_path pg' = wal_path_for path"
  shows "run_inv xxh path H pg' st'"
  using assms by (simp add: run_inv_def)

lemma run_inv_crash_commit:
  assumes inv: "run_inv xxh path H pg st" and ord: "iter_order ord"
    and tx: "txn_ok xxh pg tx" "commit_fits pg tx" "\<not> txn_noop pg tx"
    and out: "txn_commit xxh ord ns tx pg (arm_crash a m s st) = (Inl e, pg1, st1)"
    and order: "distinct order" "path \<in> set order" "wal_path_for path \<in> set order"
    and det: "commit_detected xxh ns pg (txn_header pg tx) (tx_dirty tx)
      (image_of (wal_path_for path) (power_fail seed order st1))"
    and settled: "settled_at (wal_path_for path) st1 (power_fail seed order st1)"
    and opn: "pager_open xxh path opts (power_fail seed order st1) = (Inr pg', st')"
  shows "run_inv xxh path
    (if txn_counter (pg_header pg') = txn_counter (pg_header pg) then H
     else H @ [(txn_header pg tx, next_store xxh (txn_header pg tx) (tx_dirty tx) (snd (last H)))]) pg' st'"
proof -
  let ?V = "snd (last H)" and ?h = "txn_header pg tx"
  let ?V' = "next_store xxh ?h (tx_dirty tx) ?V"
  have rep: "represents xxh ?V pg (arm_crash a m s st)" and path: "sf_path (pg_main pg) = path"
    using inv by (simp_all add: run_inv_def)
  note wp = run_inv_wal [OF inv]
  have c: "\<not> lying_sync st1" "commit_torn xxh ns pg ?V ?h (tx_dirty tx) st1 \<or>
      interrupted xxh ?h ?V' path (wal_path_for path) st1"
    using txn_commit_effect [OF rep tx ord out] path wp by auto
  have "represents xxh ?V pg' st' \<and> pg_header pg' = pg_header pg \<or> represents xxh ?V' pg' st' \<and> pg_header pg' = ?h"
    using c(2) reopen_commit_torn [OF _ c(1) path wp order det, of ?V opts]
      reopen_interrupted [OF _ c(1) order settled, of xxh ?h ?V' opts] opn by auto
  then show ?thesis
  proof
    assume "represents xxh ?V pg' st' \<and> pg_header pg' = pg_header pg"
    then show ?thesis using run_inv_same [OF inv] open_paths [OF opn] by simp
  next
    assume k: "represents xxh ?V' pg' st' \<and> pg_header pg' = ?h"
    then show ?thesis
      using run_inv_next [OF inv, of ?V' pg' st' tx] open_paths [OF opn] txn_header_counter [of pg tx] by auto
  qed
qed

theorem pager_run_inv:
  assumes "pager_run xxh ord path H pg st" "iter_order ord"
  shows "run_inv xxh path H pg st"
  using assms
proof (induction rule: pager_run.induct)
  case (run_create opts st pg st')
  have "\<not> crashed st" "crash_at st = None" using run_create by (simp_all add: alive_def)
  from pager_create_effect [OF run_create(1,2) this(1) run_create(4) this(2), of xxh]
  have "pg_header pg = create_header opts" "sf_path (pg_main pg) = path" "pg_wal_path pg = wal_path_for path"
      "represents xxh [0 \<mapsto> header_page xxh (create_header opts)] pg st'"
    using run_create(5) by auto
  then show ?case by (simp add: run_inv_def create_header_def)
next
  case (run_commit H pg st tx new_salt txn_id pg' st')
  then show ?case using run_inv_commit by blast
next
  case (run_checkpoint H pg st u pg' st')
  then have inv: "run_inv xxh path H pg st" by simp
  then have "represents xxh (snd (last H)) pg st" by (simp add: run_inv_def)
  from checkpoint_effect [OF this assms(2) run_checkpoint(2)] checkpoint_keeps [OF run_checkpoint(2)]
  show ?case using run_inv_same [OF inv] inv by (auto simp: run_inv_def)
next
  case (run_reopen H pg st u st1 opts pg' st')
  then have inv: "run_inv xxh path H pg st" by simp
  then have k: "represents xxh (snd (last H)) pg st" "sf_path (pg_main pg) = path" "pg_wal_path pg = wal_path_for path"
    by (simp_all add: run_inv_def)
  obtain M where M: "disk_state path st1 M []" "disk_ok xxh (pg_header pg) (snd (last H)) Map.empty M"
      "alive st1" "\<not> lying_sync st1"
    using pager_close_effect [OF k(1) assms(2) run_reopen(2) k(2,3)] run_reopen(3) by auto
  have "image_ok xxh (pg_header pg) (snd (last H)) M []"
    using M(2) recovers_Nil [of xxh "page_size (pg_header pg)"] by (auto simp: image_ok_def)
  from open_after_image [OF M(1) this _ M(4), of opts] M(3) have
    "represents xxh (snd (last H)) pg' st'" "pg_header pg' = pg_header pg"
    using run_reopen(4) by (auto simp: alive_def)
  then show ?case using run_inv_same [OF inv] open_paths [OF run_reopen(4)] by simp
next
  case (run_crash_commit H pg st tx new_salt at_op mode torn_seed e pg1 st1 order st2 seed opts pg' st')
  then show ?case using run_inv_crash_commit by blast
next
  case (run_crash_checkpoint H pg st at_op mode torn_seed e pg1 st1 order st2 seed opts pg' st')
  then have inv: "run_inv xxh path H pg st" by simp
  then have k: "represents xxh (snd (last H)) pg (arm_crash at_op mode torn_seed st)" "sf_path (pg_main pg) = path"
    by (simp_all add: run_inv_def)
  have i: "interrupted xxh (pg_header pg) (snd (last H)) path (wal_path_for path) st1" "\<not> lying_sync st1"
    using checkpoint_effect [OF k(1) assms(2) run_crash_checkpoint(2)] k(2) run_inv_wal [OF inv]
      represents_store(4) [OF k(1)] by auto
  from reopen_interrupted [OF i run_crash_checkpoint(3-5), of seed opts] run_crash_checkpoint(6-8) have
    "represents xxh (snd (last H)) pg' st'" "pg_header pg' = pg_header pg" by auto
  then show ?case using run_inv_same [OF inv] open_paths [OF run_crash_checkpoint(8)] by simp
qed

end
