(* ===== verification/Memory_Record.thy ===== *)
theory Memory_Record
  imports Header_Format
begin

text \<open>
  The memory record (\<^verbatim>\<open>record.rs\<close>): its types, \<^verbatim>\<open>MemoryRecord::encode\<close>, the bounds-checked
  \<^verbatim>\<open>Reader\<close> and \<^verbatim>\<open>MemoryRecord::decode\<close>, and the round trip. An \<^verbatim>\<open>i64\<close> and an \<^verbatim>\<open>f64\<close> are their
  64-bit patterns here: the codec only moves their bytes.
\<close>

section \<open>Types\<close>

definition MAX_RECORD_LEN :: nat where [simp]: "MAX_RECORD_LEN = 32 * 1024 * 1024"
definition MAX_METADATA_ENTRIES :: nat where [simp]: "MAX_METADATA_ENTRIES = 65535"

record vec_ref =
  vr_page_no :: u64
  vr_slot :: u16

datatype scalar = SNull | SBool bool | SI64 u64 | SF64 u64 | SStr rstring

record provenance =
  pv_agent :: rstring
  pv_session_id :: "rstring option"
  pv_created_at_micros :: u64

record memory_record =
  mr_id :: ulid
  mr_tombstone :: bool
  mr_superseded :: bool
  mr_content :: rstring
  mr_vec_ref :: "vec_ref option"
  mr_project :: "rstring option"
  mr_provenance :: provenance
  mr_metadata :: "(rstring \<times> scalar) list" \<comment> \<open>\<^verbatim>\<open>BTreeMap\<close>: sorted by key\<close>

definition FLAG_TOMBSTONE :: byte where [simp]: "FLAG_TOMBSTONE = 1"
definition FLAG_SUPERSEDED :: byte where [simp]: "FLAG_SUPERSEDED = 2"

definition TAG_NULL :: byte where [simp]: "TAG_NULL = 0"
definition TAG_BOOL :: byte where [simp]: "TAG_BOOL = 1"
definition TAG_I64 :: byte where [simp]: "TAG_I64 = 2"
definition TAG_F64 :: byte where [simp]: "TAG_F64 = 3"
definition TAG_STR :: byte where [simp]: "TAG_STR = 4"

section \<open>Encoding\<close>

definition put_str :: "rstring \<Rightarrow> bytes result" where
  "put_str s =
     (if length s < 2 ^ 32 then Inr (u32_to_le (word_of_nat (length s)) @ s)
      else Inl (InvalidArgument ''string too long''))"

fun put_scalar :: "scalar \<Rightarrow> bytes result" where
  "put_scalar SNull = Inr [TAG_NULL]"
| "put_scalar (SBool b) = Inr [TAG_BOOL, (if b then 1 else 0)]"
| "put_scalar (SI64 v) = Inr (TAG_I64 # u64_to_le v)"
| "put_scalar (SF64 v) = Inr (TAG_F64 # u64_to_le v)"
| "put_scalar (SStr s) = bind_result (put_str s) (\<lambda>bs. Inr (TAG_STR # bs))"

fun put_metadata :: "(rstring \<times> scalar) list \<Rightarrow> bytes result" where
  "put_metadata [] = Inr []"
| "put_metadata ((k, v) # m) =
     bind_result (put_str k) (\<lambda>kb.
     bind_result (put_scalar v) (\<lambda>vb.
     bind_result (put_metadata m) (\<lambda>rest. Inr (kb @ vb @ rest))))"

definition record_flags :: "memory_record \<Rightarrow> byte" where
  "record_flags r = (if mr_tombstone r then FLAG_TOMBSTONE else 0)
     OR (if mr_superseded r then FLAG_SUPERSEDED else 0)"

definition record_encode :: "memory_record \<Rightarrow> bytes result" where
  "record_encode r =
     (if MAX_METADATA_ENTRIES < length (mr_metadata r)
      then Inl (InvalidArgument ''too many metadata entries'')
      else
      bind_result (put_str (mr_content r)) (\<lambda>content.
      let (page_no, slot) = (case mr_vec_ref r of Some v \<Rightarrow> (vr_page_no v, vr_slot v) | None \<Rightarrow> (0, 0)) in
      bind_result (put_str (case mr_project r of Some p \<Rightarrow> p | None \<Rightarrow> [])) (\<lambda>project.
      bind_result (put_str (pv_agent (mr_provenance r))) (\<lambda>agent.
      bind_result (put_str (case pv_session_id (mr_provenance r) of Some s \<Rightarrow> s | None \<Rightarrow> [])) (\<lambda>session.
      bind_result (put_metadata (mr_metadata r)) (\<lambda>meta.
      let out = mr_id r @ [record_flags r] @ content @ u64_to_le page_no @ u16_to_le slot @
                project @ agent @ session @ u64_to_le (pv_created_at_micros (mr_provenance r)) @
                u16_to_le (word_of_nat (length (mr_metadata r))) @ meta
      in if MAX_RECORD_LEN < length out
         then Inl (InvalidArgument ''record exceeds MAX_RECORD_LEN'') else Inr out))))))"

section \<open>The reader\<close>

text \<open>\<^verbatim>\<open>Reader\<close> is a buffer and a position; each accessor returns the value and the new position.\<close>

definition rd_bytes :: "bytes \<Rightarrow> nat \<Rightarrow> nat \<Rightarrow> (bytes \<times> nat) result" where
  "rd_bytes buf n pos =
     (if pos + n \<le> length buf then Inr (seg pos n buf, pos + n)
      else Inl (MalformedRecord ''truncated''))"

definition rd_u8 :: "bytes \<Rightarrow> nat \<Rightarrow> (byte \<times> nat) result" where
  "rd_u8 buf pos = bind_result (rd_bytes buf 1 pos) (\<lambda>(b, pos). Inr (b ! 0, pos))"

definition rd_u16 :: "bytes \<Rightarrow> nat \<Rightarrow> (u16 \<times> nat) result" where
  "rd_u16 buf pos = bind_result (rd_bytes buf 2 pos) (\<lambda>(b, pos). Inr (u16_from_le b, pos))"

definition rd_u32 :: "bytes \<Rightarrow> nat \<Rightarrow> (u32 \<times> nat) result" where
  "rd_u32 buf pos = bind_result (rd_bytes buf 4 pos) (\<lambda>(b, pos). Inr (u32_from_le b, pos))"

definition rd_u64 :: "bytes \<Rightarrow> nat \<Rightarrow> (u64 \<times> nat) result" where
  "rd_u64 buf pos = bind_result (rd_bytes buf 8 pos) (\<lambda>(b, pos). Inr (u64_from_le b, pos))"

definition rd_string :: "bytes \<Rightarrow> string \<Rightarrow> nat \<Rightarrow> (rstring \<times> nat) result" where
  "rd_string buf what pos =
     bind_result (rd_u32 buf pos) (\<lambda>(l, pos).
     let len = unat l in
     if length buf - pos < len then Inl (MalformedRecord what)
     else bind_result (rd_bytes buf len pos) (\<lambda>(b, pos).
          bind_result (ok_or (MalformedRecord what) (from_utf8 b)) (\<lambda>s. Inr (s, pos))))"

section \<open>Decoding\<close>

definition non_empty :: "rstring \<Rightarrow> rstring option" where
  "non_empty s = (if s = [] then None else Some s)"

definition rd_scalar :: "bytes \<Rightarrow> nat \<Rightarrow> (scalar \<times> nat) result" where
  "rd_scalar buf pos =
     bind_result (rd_u8 buf pos) (\<lambda>(tag, pos).
     if tag = TAG_NULL then Inr (SNull, pos)
     else if tag = TAG_BOOL then
       bind_result (rd_u8 buf pos) (\<lambda>(b, pos).
         if b = 0 then Inr (SBool False, pos)
         else if b = 1 then Inr (SBool True, pos)
         else Inl (MalformedRecord ''bool payload''))
     else if tag = TAG_I64 then bind_result (rd_u64 buf pos) (\<lambda>(v, pos). Inr (SI64 v, pos))
     else if tag = TAG_F64 then bind_result (rd_u64 buf pos) (\<lambda>(v, pos). Inr (SF64 v, pos))
     else if tag = TAG_STR then
       bind_result (rd_string buf ''string payload'' pos) (\<lambda>(s, pos). Inr (SStr s, pos))
     else Inl (MalformedRecord ''unknown scalar tag''))"

fun rd_metadata :: "bytes \<Rightarrow> nat \<Rightarrow> (rstring \<times> scalar) list \<Rightarrow> nat \<Rightarrow>
    ((rstring \<times> scalar) list \<times> nat) result" where
  "rd_metadata buf 0 m pos = Inr (m, pos)"
| "rd_metadata buf (Suc count) m pos =
     bind_result (rd_string buf ''metadata key'' pos) (\<lambda>(key, pos).
     bind_result (rd_scalar buf pos) (\<lambda>(value, pos).
     if map_of m key \<noteq> None then Inl (MalformedRecord ''duplicate metadata key'')
     else rd_metadata buf count (bmap_insert key value m) pos))"

definition record_decode :: "bytes \<Rightarrow> memory_record result" where
  "record_decode buf =
     (if MAX_RECORD_LEN < length buf then Inl (MalformedRecord ''record exceeds MAX_RECORD_LEN'')
      else
      bind_result (rd_bytes buf 16 0) (\<lambda>(rid, pos).
      bind_result (rd_u8 buf pos) (\<lambda>(fl, pos).
      bind_result (rd_string buf ''content'' pos) (\<lambda>(content, pos).
      bind_result (rd_u64 buf pos) (\<lambda>(page_no, pos).
      bind_result (rd_u16 buf pos) (\<lambda>(slot, pos).
      bind_result (rd_string buf ''project'' pos) (\<lambda>(project, pos).
      bind_result (rd_string buf ''provenance.agent'' pos) (\<lambda>(agent, pos).
      bind_result (rd_string buf ''provenance.session_id'' pos) (\<lambda>(session, pos).
      bind_result (rd_u64 buf pos) (\<lambda>(created, pos).
      bind_result (rd_u16 buf pos) (\<lambda>(count, pos).
      bind_result (rd_metadata buf (unat count) [] pos) (\<lambda>(metadata, pos).
      if pos \<noteq> length buf then Inl (MalformedRecord ''trailing bytes'')
      else Inr \<lparr>mr_id = rid, mr_tombstone = (fl AND FLAG_TOMBSTONE \<noteq> 0),
                mr_superseded = (fl AND FLAG_SUPERSEDED \<noteq> 0), mr_content = content,
                mr_vec_ref = (if page_no = 0 \<and> slot = 0 then None
                              else Some \<lparr>vr_page_no = page_no, vr_slot = slot\<rparr>),
                mr_project = non_empty project,
                mr_provenance = \<lparr>pv_agent = agent, pv_session_id = non_empty session,
                                 pv_created_at_micros = created\<rparr>,
                mr_metadata = metadata\<rparr>))))))))))))"

section \<open>The round trip\<close>

fun scalar_wf :: "scalar \<Rightarrow> bool" where
  "scalar_wf (SStr s) = utf8_valid s"
| "scalar_wf _ = True"

text \<open>What Rust's types already guarantee of a record: a 16-byte id, UTF-8 strings, a map sorted by
  key.\<close>

definition record_wf :: "memory_record \<Rightarrow> bool" where
  "record_wf r \<longleftrightarrow>
     length (mr_id r) = 16 \<and> utf8_valid (mr_content r) \<and> pred_option utf8_valid (mr_project r) \<and>
     utf8_valid (pv_agent (mr_provenance r)) \<and>
     pred_option utf8_valid (pv_session_id (mr_provenance r)) \<and> bmap_wf (mr_metadata r) \<and>
     list_all (\<lambda>(k, v). utf8_valid k \<and> scalar_wf v) (mr_metadata r)"

text \<open>What the format cannot tell apart: an empty project or session from none, and the reference
  to slot 0 of page 0, which no embedding has, from none.\<close>

definition norm_str :: "rstring option \<Rightarrow> rstring option" where
  "norm_str s = (if s = Some [] then None else s)"

definition record_norm :: "memory_record \<Rightarrow> memory_record" where
  "record_norm r = r\<lparr>
     mr_vec_ref := (if mr_vec_ref r = Some \<lparr>vr_page_no = 0, vr_slot = 0\<rparr> then None else mr_vec_ref r),
     mr_project := norm_str (mr_project r),
     mr_provenance := (mr_provenance r)\<lparr>pv_session_id := norm_str (pv_session_id (mr_provenance r))\<rparr>\<rparr>"

lemma rd_bytes_holds: "holds_at buf pos bs \<Longrightarrow> rd_bytes buf (length bs) pos = Inr (bs, pos + length bs)"
  by (simp add: rd_bytes_def holds_at_def)

lemma rd_u8_holds: "holds_at buf pos [b] \<Longrightarrow> rd_u8 buf pos = Inr (b, Suc pos)"
  using rd_bytes_holds [of buf pos "[b]"] by (simp add: rd_u8_def)

lemma rd_u16_holds: "holds_at buf pos (u16_to_le v) \<Longrightarrow> rd_u16 buf pos = Inr (v, pos + 2)"
  using rd_bytes_holds [of buf pos "u16_to_le v"] by (simp add: rd_u16_def)

lemma rd_u32_holds: "holds_at buf pos (u32_to_le v) \<Longrightarrow> rd_u32 buf pos = Inr (v, pos + 4)"
  using rd_bytes_holds [of buf pos "u32_to_le v"] by (simp add: rd_u32_def)

lemma rd_u64_holds: "holds_at buf pos (u64_to_le v) \<Longrightarrow> rd_u64 buf pos = Inr (v, pos + 8)"
  using rd_bytes_holds [of buf pos "u64_to_le v"] by (simp add: rd_u64_def)

lemma rd_string_holds:
  assumes "put_str s = Inr b" "holds_at buf pos b" "utf8_valid s"
  shows "rd_string buf what pos = Inr (s, pos + length b)"
proof -
  have small: "length s < 2 ^ 32" and b: "b = u32_to_le (word_of_nat (length s)) @ s"
    using assms(1) by (auto simp: put_str_def split: if_splits)
  have len: "unat (word_of_nat (length s) :: u32) = length s"
    using small by (simp add: unat_of_nat)
  have h: "holds_at buf pos (u32_to_le (word_of_nat (length s)))" "holds_at buf (pos + 4) s"
    using assms(2) by (simp_all add: b holds_at_append)
  then show ?thesis
    using rd_bytes_holds [OF h(2)] holds_at_length [OF h(2)] assms(3) b
    by (simp add: rd_string_def rd_u32_holds len from_utf8_def Let_def not_less)
qed

lemma rd_scalar_holds:
  assumes "put_scalar v = Inr b" "holds_at buf pos b" "scalar_wf v"
  shows "rd_scalar buf pos = Inr (v, pos + length b)"
proof (cases v)
  case (SBool x)
  then have "holds_at buf pos [TAG_BOOL]" "holds_at buf (Suc pos) [if x then 1 else 0]"
    using assms holds_at_Cons [of buf pos TAG_BOOL "[if x then 1 else 0]"] by auto
  with SBool assms(1) show ?thesis
    by (auto simp: rd_scalar_def rd_u8_holds)
next
  case (SStr s)
  then obtain sb where sb: "put_str s = Inr sb" "b = TAG_STR # sb"
    using assms(1) by (auto simp: bind_result_Inr_iff)
  then have "holds_at buf pos [TAG_STR]" "holds_at buf (Suc pos) sb"
    using assms(2) holds_at_Cons [of buf pos TAG_STR sb] by auto
  with sb SStr assms(3) show ?thesis
    by (auto simp: rd_scalar_def rd_u8_holds rd_string_holds)
qed (use assms holds_at_Cons [of buf pos _ "u64_to_le _"] in
      \<open>auto simp: rd_scalar_def rd_u8_holds rd_u64_holds\<close>)

lemma rd_metadata_holds:
  assumes "put_metadata kvs = Inr b" "holds_at buf pos b"
    "list_all (\<lambda>(k, v). utf8_valid k \<and> scalar_wf v) kvs" "bmap_wf (m @ kvs)"
  shows "rd_metadata buf (length kvs) m pos = Inr (m @ kvs, pos + length b)"
  using assms
proof (induction kvs arbitrary: m b pos)
  case (Cons kv kvs)
  obtain k v where kv: "kv = (k, v)" by (cases kv)
  obtain kb vb rest where p: "put_str k = Inr kb" "put_scalar v = Inr vb" "put_metadata kvs = Inr rest"
    and b: "b = kb @ vb @ rest"
    using Cons.prems(1) by (auto simp: kv bind_result_Inr_iff)
  have h: "holds_at buf pos kb" "holds_at buf (pos + length kb) vb"
    "holds_at buf (pos + length kb + length vb) rest"
    using Cons.prems(2) by (simp_all add: b holds_at_append)
  have wf: "utf8_valid k" "scalar_wf v" "list_all (\<lambda>(k, v). utf8_valid k \<and> scalar_wf v) kvs"
    using Cons.prems(3) by (simp_all add: kv)
  have lt: "\<forall>x \<in> fst ` set m. x < k"
    using Cons.prems(4) by (auto simp: bmap_wf_def kv sorted_wrt_append)
  then have new: "map_of m k = None" and ins: "bmap_insert k v m = m @ [(k, v)]"
    by (auto simp: map_of_eq_None_iff bmap_insert_max)
  have "bmap_wf ((m @ [(k, v)]) @ kvs)"
    using Cons.prems(4) by (simp add: kv)
  from Cons.IH [OF p(3) h(3) wf(3) this] show ?case
    using p h wf new ins by (simp add: kv rd_string_holds rd_scalar_holds b add.assoc)
qed simp

lemma record_flags_bits:
  "record_flags r AND 1 \<noteq> 0 \<longleftrightarrow> mr_tombstone r" "record_flags r AND 2 \<noteq> 0 \<longleftrightarrow> mr_superseded r"
  by (simp_all add: record_flags_def)

lemma record_encode_Inr:
  assumes "record_encode r = Inr out"
  shows "length (mr_metadata r) \<le> 65535" "length out \<le> MAX_RECORD_LEN"
    and "\<exists>content project agent session meta.
      put_str (mr_content r) = Inr content \<and>
      put_str (case mr_project r of Some p \<Rightarrow> p | None \<Rightarrow> []) = Inr project \<and>
      put_str (pv_agent (mr_provenance r)) = Inr agent \<and>
      put_str (case pv_session_id (mr_provenance r) of Some s \<Rightarrow> s | None \<Rightarrow> []) = Inr session \<and>
      put_metadata (mr_metadata r) = Inr meta \<and>
      out = mr_id r @ [record_flags r] @ content @
        u64_to_le (case mr_vec_ref r of Some v \<Rightarrow> vr_page_no v | None \<Rightarrow> 0) @
        u16_to_le (case mr_vec_ref r of Some v \<Rightarrow> vr_slot v | None \<Rightarrow> 0) @
        project @ agent @ session @ u64_to_le (pv_created_at_micros (mr_provenance r)) @
        u16_to_le (word_of_nat (length (mr_metadata r))) @ meta"
  using assms
  by (auto simp: record_encode_def bind_result_Inr_iff Let_def split: if_splits option.splits)

lemma record_roundtrip:
  assumes enc: "record_encode r = Inr out" and wf: "record_wf r"
  shows "record_decode out = Inr (record_norm r)"
proof -
  let ?page = "case mr_vec_ref r of Some v \<Rightarrow> vr_page_no v | None \<Rightarrow> 0"
  let ?slot = "case mr_vec_ref r of Some v \<Rightarrow> vr_slot v | None \<Rightarrow> 0"
  let ?proj = "case mr_project r of Some p \<Rightarrow> p | None \<Rightarrow> []"
  let ?sess = "case pv_session_id (mr_provenance r) of Some s \<Rightarrow> s | None \<Rightarrow> []"
  let ?n = "length (mr_metadata r)"
  obtain content project agent session meta where
    p: "put_str (mr_content r) = Inr content" "put_str ?proj = Inr project"
      "put_str (pv_agent (mr_provenance r)) = Inr agent" "put_str ?sess = Inr session"
      "put_metadata (mr_metadata r) = Inr meta"
    and out: "out = mr_id r @ [record_flags r] @ content @ u64_to_le ?page @ u16_to_le ?slot @
      project @ agent @ session @ u64_to_le (pv_created_at_micros (mr_provenance r)) @
      u16_to_le (word_of_nat ?n) @ meta"
    using record_encode_Inr(3) [OF enc] by blast
  have lens: "length (mr_id r) = 16" "?n \<le> 65535" "length out \<le> MAX_RECORD_LEN"
    using wf record_encode_Inr(1,2) [OF enc] by (simp_all add: record_wf_def)
  have cnt: "unat (word_of_nat ?n :: u16) = ?n"
    using lens(2) by (simp add: unat_of_nat)
  have v: "utf8_valid (mr_content r)" "utf8_valid ?proj" "utf8_valid (pv_agent (mr_provenance r))"
    "utf8_valid ?sess" and m: "bmap_wf ([] @ mr_metadata r)"
      "list_all (\<lambda>(k, v). utf8_valid k \<and> scalar_wf v) (mr_metadata r)"
    using wf by (auto simp: record_wf_def split: option.splits)
  define q1 where "q1 = 17 + length content"
  define q2 where "q2 = q1 + 10 + length project"
  define q3 where "q3 = q2 + length agent"
  define q4 where "q4 = q3 + length session"
  note qs = q1_def q2_def q3_def q4_def
  have "holds_at out 0 out"
    by (simp add: holds_at_def)
  then have "holds_at out 0 (mr_id r @ [record_flags r] @ content @ u64_to_le ?page @ u16_to_le ?slot @
      project @ agent @ session @ u64_to_le (pv_created_at_micros (mr_provenance r)) @
      u16_to_le (word_of_nat ?n) @ meta)"
    by (subst (asm) (2) out)
  then have h: "holds_at out 0 (mr_id r)" "holds_at out 16 [record_flags r]" "holds_at out 17 content"
    "holds_at out q1 (u64_to_le ?page)" "holds_at out (q1 + 8) (u16_to_le ?slot)"
    "holds_at out (q1 + 10) project" "holds_at out q2 agent" "holds_at out q3 session"
    "holds_at out q4 (u64_to_le (pv_created_at_micros (mr_provenance r)))"
    "holds_at out (q4 + 8) (u16_to_le (word_of_nat ?n))" "holds_at out (q4 + 10) meta"
    using lens(1) by (simp_all del: append_Cons add: holds_at_append qs add.assoc)
  have total: "q4 + 10 + length meta = length out"
    using lens(1) by (subst out) (simp add: qs)
  note rd = rd_bytes_holds [OF h(1)] rd_u8_holds [OF h(2)] rd_string_holds [OF p(1) h(3) v(1)]
    rd_u64_holds [OF h(4)] rd_u16_holds [OF h(5)] rd_string_holds [OF p(2) h(6) v(2)]
    rd_string_holds [OF p(3) h(7) v(3)] rd_string_holds [OF p(4) h(8) v(4)]
    rd_u64_holds [OF h(9)] rd_u16_holds [OF h(10)] rd_metadata_holds [OF p(5) h(11) m(2,1)]
  have "record_decode out = Inr \<lparr>mr_id = mr_id r, mr_tombstone = mr_tombstone r,
      mr_superseded = mr_superseded r, mr_content = mr_content r,
      mr_vec_ref = (if ?page = 0 \<and> ?slot = 0 then None else Some \<lparr>vr_page_no = ?page, vr_slot = ?slot\<rparr>),
      mr_project = non_empty ?proj,
      mr_provenance = \<lparr>pv_agent = pv_agent (mr_provenance r), pv_session_id = non_empty ?sess,
        pv_created_at_micros = pv_created_at_micros (mr_provenance r)\<rparr>,
      mr_metadata = mr_metadata r\<rparr>"
    using rd lens(1,3) total cnt
    by (simp add: record_decode_def record_flags_bits qs add.assoc)
  also have "\<dots> = Inr (record_norm r)"
    by (auto simp: record_norm_def norm_str_def non_empty_def split: option.splits)
  finally show ?thesis .
qed

end
