(* ===== verification/Btree_Node.thy ===== *)
theory Btree_Node
  imports Page_Format Memory_Record
begin

text \<open>
  Nodes of the record B-tree (\<^verbatim>\<open>storage/btree.rs\<close>): the slotted leaf page, the inner page, their
  decoders and encoders, and the round trip between them. A \<^verbatim>\<open>Key\<close> is its 16 bytes, ordered
  lexicographically as \<^verbatim>\<open>[u8; 16]\<close> is.
\<close>

type_synonym key = "8 word list"

section \<open>Layout constants\<close>

definition MAX_DEPTH :: nat where "MAX_DEPTH = 64"
definition SLOT_LEN :: nat where [simp]: "SLOT_LEN = 20"
definition INNER_ENTRY_LEN :: nat where [simp]: "INNER_ENTRY_LEN = 24"
definition CELL_INLINE :: byte where [simp]: "CELL_INLINE = 0"
definition CELL_OVERFLOW :: byte where [simp]: "CELL_OVERFLOW = 1"
definition OVERFLOW_CELL_LEN :: nat where [simp]: "OVERFLOW_CELL_LEN = 13"

definition usable :: "u32 \<Rightarrow> nat" where
  "usable ps = unat ps - PAGE_HEADER_LEN - PAGE_TRAILER_LEN"

definition max_entry_footprint :: "u32 \<Rightarrow> nat" where
  "max_entry_footprint ps = usable ps div 4"

definition max_inline_value :: "u32 \<Rightarrow> nat" where
  "max_inline_value ps = max_entry_footprint ps - SLOT_LEN - 1"

definition overflow_capacity :: "u32 \<Rightarrow> nat" where
  "overflow_capacity ps = usable ps"

section \<open>Nodes\<close>

datatype cell = Inline bytes | Overflow u32 u64

fun encoded_len :: "cell \<Rightarrow> nat" where
  "encoded_len (Inline v) = 1 + length v"
| "encoded_len (Overflow total_len first_page) = OVERFLOW_CELL_LEN"

record leaf_entry =
  le_key :: key
  le_cell :: cell

definition footprint :: "leaf_entry \<Rightarrow> nat" where
  "footprint e = SLOT_LEN + encoded_len (le_cell e)"

record inner_node =
  in_entries :: "(key \<times> u64) list"
  in_rightmost :: u64

datatype node = Leaf "leaf_entry list" | Inner inner_node

definition malformed :: "u64 \<Rightarrow> string \<Rightarrow> error" where
  "malformed page_no what = MalformedPage page_no what"

definition node_u16 :: "bytes \<Rightarrow> nat \<Rightarrow> u64 \<Rightarrow> u16 result" where
  "node_u16 buf off page_no = ok_or (malformed page_no ''short read'') (read_u16 buf off)"

definition node_u32 :: "bytes \<Rightarrow> nat \<Rightarrow> u64 \<Rightarrow> u32 result" where
  "node_u32 buf off page_no = ok_or (malformed page_no ''short read'') (read_u32 buf off)"

definition node_u64 :: "bytes \<Rightarrow> nat \<Rightarrow> u64 \<Rightarrow> u64 result" where
  "node_u64 buf off page_no = ok_or (malformed page_no ''short read'') (read_u64 buf off)"

section \<open>Decoding\<close>

definition decode_cell :: "bytes \<Rightarrow> u64 \<Rightarrow> cell result" where
  "decode_cell bs page_no =
     (case bs of
        [] \<Rightarrow> Inl (malformed page_no ''cell tag'')
      | tag # rest \<Rightarrow>
          if tag = CELL_INLINE then Inr (Inline rest)
          else if tag = CELL_OVERFLOW \<and> length bs = OVERFLOW_CELL_LEN then
            bind_result (node_u32 bs 1 page_no) (\<lambda>total_len.
            bind_result (node_u64 bs 5 page_no) (\<lambda>first_page.
            if first_page = 0 \<or> MAX_RECORD_LEN < unat total_len then Inl (malformed page_no ''overflow cell'')
            else Inr (Overflow total_len first_page)))
          else Inl (malformed page_no ''cell tag''))"

text \<open>The slot loop of \<^verbatim>\<open>decode_node\<close>: slots \<open>i\<close>, \<open>i + 1\<close>, \<dots>, as many as the last argument.\<close>

fun decode_slots :: "bytes \<Rightarrow> u64 \<Rightarrow> nat \<Rightarrow> nat \<Rightarrow> key option \<Rightarrow> nat \<Rightarrow> nat \<Rightarrow> (leaf_entry list) result" where
  "decode_slots page page_no slots_end content_end prev i 0 = Inr []"
| "decode_slots page page_no slots_end content_end prev i (Suc n) =
     (let slot = PAGE_HEADER_LEN + i * SLOT_LEN in
      bind_result (ok_or (malformed page_no ''slot key'') (get_range page slot (slot + 16))) (\<lambda>k.
      if (case prev of Some p \<Rightarrow> k \<le> p | None \<Rightarrow> False) then Inl (malformed page_no ''unsorted leaf keys'')
      else bind_result (node_u16 page (slot + 16) page_no) (\<lambda>off.
           bind_result (node_u16 page (slot + 18) page_no) (\<lambda>len.
           let off = unat off; len = unat len in
           if off < slots_end \<or> len = 0 \<or> content_end < off + len then Inl (malformed page_no ''cell bounds'')
           else bind_result (ok_or (malformed page_no ''cell bounds'') (get_range page off (off + len))) (\<lambda>cell_bytes.
                bind_result (decode_cell cell_bytes page_no) (\<lambda>c.
                bind_result (decode_slots page page_no slots_end content_end (Some k) (i + 1) n) (\<lambda>rest.
                  Inr (\<lparr>le_key = k, le_cell = c\<rparr> # rest))))))))"

fun decode_inner_entries :: "bytes \<Rightarrow> u64 \<Rightarrow> key option \<Rightarrow> nat \<Rightarrow> nat \<Rightarrow> ((key \<times> u64) list) result" where
  "decode_inner_entries page page_no prev i 0 = Inr []"
| "decode_inner_entries page page_no prev i (Suc n) =
     (let base = PAGE_HEADER_LEN + 8 + i * INNER_ENTRY_LEN in
      bind_result (ok_or (malformed page_no ''inner key'') (get_range page base (base + 16))) (\<lambda>k.
      if (case prev of Some p \<Rightarrow> k \<le> p | None \<Rightarrow> False) then Inl (malformed page_no ''unsorted inner keys'')
      else bind_result (node_u64 page (base + 16) page_no) (\<lambda>child.
           if child = 0 then Inl (malformed page_no ''null child'')
           else bind_result (decode_inner_entries page page_no (Some k) (i + 1) n) (\<lambda>rest.
             Inr ((k, child) # rest)))))"

definition decode_node :: "bytes \<Rightarrow> u64 \<Rightarrow> node result" where
  "decode_node page page_no =
     bind_result (ok_or (malformed page_no ''page header'') (page_header_decode page)) (\<lambda>hd.
     let content_end = length page - PAGE_TRAILER_LEN;
         n = unat (ph_entry_count hd)
     in if ph_page_type hd = BtreeLeaf then
          let slots_end = PAGE_HEADER_LEN + n * SLOT_LEN in
          if content_end < slots_end then Inl (malformed page_no ''slot directory'')
          else bind_result (decode_slots page page_no slots_end content_end None 0 n) (\<lambda>es. Inr (Leaf es))
        else if ph_page_type hd = BtreeInner then
          if n = 0 then Inl (malformed page_no ''empty inner node'')
          else if content_end < PAGE_HEADER_LEN + 8 + n * INNER_ENTRY_LEN
          then Inl (malformed page_no ''inner entries'')
          else bind_result (node_u64 page PAGE_HEADER_LEN page_no) (\<lambda>rightmost.
               if rightmost = 0 then Inl (malformed page_no ''null rightmost child'')
               else bind_result (decode_inner_entries page page_no None 0 n) (\<lambda>es.
                 Inr (Inner \<lparr>in_entries = es, in_rightmost = rightmost\<rparr>)))
        else Inl (malformed page_no ''unexpected page type in b-tree''))"

section \<open>Encoding\<close>

definition put_cell :: "bytes \<Rightarrow> nat \<Rightarrow> cell \<Rightarrow> bytes" where
  "put_cell page cursor c =
     (case c of
        Inline v \<Rightarrow> write_bytes (write_bytes page cursor [CELL_INLINE]) (cursor + 1) v
      | Overflow total_len first_page \<Rightarrow>
          write_bytes (write_bytes (write_bytes page cursor [CELL_OVERFLOW])
            (cursor + 1) (u32_to_le total_len)) (cursor + 5) (u64_to_le first_page))"

fun put_entries :: "bytes \<Rightarrow> nat \<Rightarrow> nat \<Rightarrow> leaf_entry list \<Rightarrow> bytes" where
  "put_entries page cursor i [] = page"
| "put_entries page cursor i (e # es) =
     (let cell_len = encoded_len (le_cell e);
          cursor = cursor - cell_len;
          page = put_cell page cursor (le_cell e);
          slot = PAGE_HEADER_LEN + i * SLOT_LEN;
          page = write_bytes page slot (le_key e);
          page = write_bytes page (slot + 16) (u16_to_le (word_of_nat cursor));
          page = write_bytes page (slot + 18) (u16_to_le (word_of_nat cell_len))
      in put_entries page cursor (i + 1) es)"

definition encode_leaf :: "leaf_entry list \<Rightarrow> u32 \<Rightarrow> bytes option" where
  "encode_leaf entries ps =
     (let slots_end = PAGE_HEADER_LEN + length entries * SLOT_LEN;
          cells_len = sum_list (map (\<lambda>e. encoded_len (le_cell e)) entries);
          content_end = unat ps - PAGE_TRAILER_LEN
      in if content_end < slots_end + cells_len then None
         else let page = replicate (unat ps) 0;
                  page = page_header_encode_into
                    \<lparr>ph_page_type = BtreeLeaf, ph_entry_count = word_of_nat (length entries), ph_next_page = 0\<rparr> page
              in Some (put_entries page content_end 0 entries))"

fun put_inner_entries :: "bytes \<Rightarrow> nat \<Rightarrow> (key \<times> u64) list \<Rightarrow> bytes" where
  "put_inner_entries page i [] = page"
| "put_inner_entries page i ((k, child) # es) =
     (let base = PAGE_HEADER_LEN + 8 + i * INNER_ENTRY_LEN;
          page = write_bytes page base k;
          page = write_bytes page (base + 16) (u64_to_le child)
      in put_inner_entries page (i + 1) es)"

definition encode_inner :: "inner_node \<Rightarrow> u32 \<Rightarrow> bytes option" where
  "encode_inner node ps =
     (let e = PAGE_HEADER_LEN + 8 + length (in_entries node) * INNER_ENTRY_LEN in
      if in_entries node = [] \<or> unat ps - PAGE_TRAILER_LEN < e then None
      else let page = replicate (unat ps) 0;
               page = page_header_encode_into
                 \<lparr>ph_page_type = BtreeInner, ph_entry_count = word_of_nat (length (in_entries node)), ph_next_page = 0\<rparr> page;
               page = write_bytes page PAGE_HEADER_LEN (u64_to_le (in_rightmost node))
           in Some (put_inner_entries page 0 (in_entries node)))"

section \<open>The leaf round trip\<close>

lemma write_bytes_append:
  assumes "off + length a + length b \<le> length buf"
  shows "write_bytes (write_bytes buf off a) (off + length a) b = write_bytes buf off (a @ b)"
proof -
  have "min (length buf) off = off" "min (length buf) (off + length a) = off + length a" using assms by simp_all
  then show ?thesis using assms by (simp add: write_bytes_def ac_simps)
qed

fun cell_bytes :: "cell \<Rightarrow> bytes" where
  "cell_bytes (Inline v) = CELL_INLINE # v"
| "cell_bytes (Overflow total_len first_page) = CELL_OVERFLOW # u32_to_le total_len @ u64_to_le first_page"

definition slot_bytes :: "key \<Rightarrow> nat \<Rightarrow> nat \<Rightarrow> bytes" where
  "slot_bytes k cursor cell_len = k @ u16_to_le (word_of_nat cursor) @ u16_to_le (word_of_nat cell_len)"

fun cell_wf :: "cell \<Rightarrow> bool" where
  "cell_wf (Inline v) = True"
| "cell_wf (Overflow total_len first_page) = (first_page \<noteq> 0 \<and> unat total_len \<le> MAX_RECORD_LEN)"

lemma length_cell_bytes [simp]: "length (cell_bytes c) = encoded_len c"
  by (cases c) simp_all

lemma encoded_len_pos [simp]: "0 < encoded_len c"
  by (cases c) simp_all

lemma length_put_cell [simp]: "length (put_cell page cursor c) = length page"
  by (simp add: put_cell_def split: cell.split)

lemma put_cell_bytes:
  assumes "cursor + encoded_len c \<le> length page"
  shows "put_cell page cursor c = write_bytes page cursor (cell_bytes c)"
proof (cases c)
  case (Inline v)
  with assms write_bytes_append [of cursor "[CELL_INLINE]" v page] show ?thesis
    by (simp add: put_cell_def)
next
  case (Overflow t f)
  with assms write_bytes_append [of cursor "[CELL_OVERFLOW]" "u32_to_le t" page]
    write_bytes_append [of cursor "CELL_OVERFLOW # u32_to_le t" "u64_to_le f" page]
  show ?thesis by (simp add: put_cell_def add.assoc)
qed

lemma put_slot_bytes:
  assumes "slot + 20 \<le> length page" "length k = 16"
  shows "write_bytes (write_bytes (write_bytes page slot k) (slot + 16) (u16_to_le a)) (slot + 18) (u16_to_le b) =
    write_bytes page slot (k @ u16_to_le a @ u16_to_le b)"
  using assms write_bytes_append [of slot k "u16_to_le a" page]
    write_bytes_append [of slot "k @ u16_to_le a" "u16_to_le b" page]
  by simp

lemma decode_cell_bytes: "cell_wf c \<Longrightarrow> decode_cell (cell_bytes c) page_no = Inr c"
proof (cases c)
  case (Overflow t f)
  have "holds_at (cell_bytes c) 1 (u32_to_le t)" "holds_at (cell_bytes c) 5 (u64_to_le f)"
    by (simp_all add: Overflow holds_at_def seg_def)
  then show "cell_wf c \<Longrightarrow> ?thesis"
    by (simp add: decode_cell_def Overflow node_u32_def node_u64_def)
qed (simp add: decode_cell_def)

text \<open>What a leaf page holds from slot \<open>i\<close> on, the first cell ending at \<open>cursor\<close>.\<close>

fun slots_at :: "bytes \<Rightarrow> nat \<Rightarrow> nat \<Rightarrow> leaf_entry list \<Rightarrow> bool" where
  "slots_at page cursor i [] = True"
| "slots_at page cursor i (e # es) =
     (let n = encoded_len (le_cell e) in
      holds_at page (16 + i * 20) (slot_bytes (le_key e) (cursor - n) n) \<and>
      holds_at page (cursor - n) (cell_bytes (le_cell e)) \<and>
      slots_at page (cursor - n) (i + 1) es)"

abbreviation cells_len :: "leaf_entry list \<Rightarrow> nat" where
  "cells_len es \<equiv> sum_list (map (\<lambda>e. encoded_len (le_cell e)) es)"

lemma length_slot_bytes [simp]: "length (slot_bytes k a b) = length k + 4"
  by (simp add: slot_bytes_def)

lemma length_put_entries [simp]: "length (put_entries page cursor i es) = length page"
  by (induction es arbitrary: page cursor i) (simp_all add: Let_def)

lemma put_entries_holds:
  assumes "16 + (i + length es) * 20 + cells_len es \<le> cursor" "cursor \<le> length page"
    "\<forall>e \<in> set es. length (le_key e) = 16"
  shows "slots_at (put_entries page cursor i es) cursor i es"
    and "\<And>off bs. holds_at page off bs \<Longrightarrow> off + length bs \<le> 16 + i * 20 \<or> cursor \<le> off \<Longrightarrow>
      holds_at (put_entries page cursor i es) off bs"
proof -
  have "slots_at (put_entries page cursor i es) cursor i es \<and>
    (\<forall>off bs. holds_at page off bs \<longrightarrow> off + length bs \<le> 16 + i * 20 \<or> cursor \<le> off \<longrightarrow>
      holds_at (put_entries page cursor i es) off bs)"
    using assms
  proof (induction es arbitrary: page cursor i)
    case (Cons e es)
    define n where "n = encoded_len (le_cell e)"
    define slot where "slot = 16 + i * 20"
    define p1 where "p1 = write_bytes page (cursor - n) (cell_bytes (le_cell e))"
    define p2 where "p2 = write_bytes p1 slot (slot_bytes (le_key e) (cursor - n) n)"
    have k16: "length (le_key e) = 16" using Cons.prems(3) by simp
    have room: "slot + 20 + length es * 20 + cells_len es + n \<le> cursor"
      using Cons.prems(1) by (simp add: n_def slot_def algebra_simps)
    have step: "put_entries page cursor i (e # es) = put_entries p2 (cursor - n) (i + 1) es"
      using room Cons.prems(2) put_cell_bytes [of "cursor - n" "le_cell e" page]
        put_slot_bytes [of slot p1 "le_key e"] k16
      by (simp add: Let_def p1_def p2_def n_def [symmetric] slot_def slot_bytes_def)
    have len: "length p2 = length page" by (simp add: p1_def p2_def)
    have fit: "16 + (i + 1 + length es) * 20 + cells_len es \<le> cursor - n" "cursor - n \<le> length p2"
      using room Cons.prems(2) len by (simp_all add: slot_def)
    have lens: "length (cell_bytes (le_cell e)) = n" "length (slot_bytes (le_key e) (cursor - n) n) = 20"
      using k16 by (simp_all add: n_def)
    have "\<forall>e \<in> set es. length (le_key e) = 16" using Cons.prems(3) by simp
    note IH = Cons.IH [OF fit this]
    have h1: "holds_at p2 slot (slot_bytes (le_key e) (cursor - n) n)"
      unfolding p2_def using room Cons.prems(2) lens by (intro holds_at_write) (simp add: p1_def)
    have "holds_at p1 (cursor - n) (cell_bytes (le_cell e))"
      unfolding p1_def using room Cons.prems(2) lens by (intro holds_at_write) simp
    then have h2: "holds_at p2 (cursor - n) (cell_bytes (le_cell e))"
      unfolding p2_def using room lens by (subst holds_at_write_other) auto
    have keep: "holds_at p2 off bs"
      if "holds_at page off bs" "off + length bs \<le> slot \<or> cursor \<le> off" for off bs
    proof -
      have "holds_at p1 off bs"
        unfolding p1_def using that room lens by (subst holds_at_write_other) auto
      then show ?thesis
        unfolding p2_def using that room lens by (subst holds_at_write_other) auto
    qed
    show ?case
      unfolding step using IH h1 h2 keep lens room
      by (auto simp: Let_def n_def [symmetric] slot_def [symmetric])
        (simp_all add: slot_def)
  qed simp
  then show "slots_at (put_entries page cursor i es) cursor i es"
    and "\<And>off bs. holds_at page off bs \<Longrightarrow> off + length bs \<le> 16 + i * 20 \<or> cursor \<le> off \<Longrightarrow>
      holds_at (put_entries page cursor i es) off bs"
    by blast+
qed

lemma u16_of_nat: "n < 65536 \<Longrightarrow> unat (word_of_nat n :: u16) = n"
  by (simp add: unat_of_nat)

lemma decode_slots_at:
  assumes "slots_at page cursor i es" "\<forall>e \<in> set es. length (le_key e) = 16 \<and> cell_wf (le_cell e)"
    "sorted_wrt (<) (map le_key es)" "case prev of Some p \<Rightarrow> \<forall>e \<in> set es. p < le_key e | None \<Rightarrow> True"
    "slots_end + cells_len es \<le> cursor" "cursor \<le> content_end" "content_end < 65536"
  shows "decode_slots page page_no slots_end content_end prev i (length es) = Inr es"
  using assms
proof (induction es arbitrary: cursor i prev)
  case (Cons e es)
  let ?k = "le_key e" and ?n = "encoded_len (le_cell e)" and ?slot = "16 + i * 20"
  have k16: "length ?k = 16" "cell_wf (le_cell e)" using Cons.prems(2) by simp_all
  have h: "holds_at page ?slot (slot_bytes ?k (cursor - ?n) ?n)"
    "holds_at page (cursor - ?n) (cell_bytes (le_cell e))" "slots_at page (cursor - ?n) (i + 1) es"
    using Cons.prems(1) by (simp_all add: Let_def)
  then have f: "holds_at page ?slot ?k" "holds_at page (?slot + 16) (u16_to_le (word_of_nat (cursor - ?n)))"
    "holds_at page (?slot + 18) (u16_to_le (word_of_nat ?n))"
    using k16 by (simp_all add: slot_bytes_def holds_at_append)
  have room: "slots_end + ?n + cells_len es \<le> cursor" using Cons.prems(5) by simp
  have u: "unat (word_of_nat (cursor - ?n) :: u16) = cursor - ?n" "unat (word_of_nat ?n :: u16) = ?n"
    using u16_of_nat [of "cursor - ?n"] u16_of_nat [of ?n] room Cons.prems(6,7) by linarith+
  have prev: "\<not> (case prev of Some p \<Rightarrow> ?k \<le> p | None \<Rightarrow> False)"
    using Cons.prems(4) by (auto simp: not_le split: option.splits)
  have cell: "get_range page (cursor - ?n) (cursor - ?n + ?n) = Some (cell_bytes (le_cell e))"
    using holds_at_range [OF h(2)] by simp
  have rest: "decode_slots page page_no slots_end content_end (Some ?k) (i + 1) (length es) = Inr es"
    using Cons.prems room by (intro Cons.IH [OF h(3)]) auto
  have bounds: "\<not> (cursor - ?n < slots_end \<or> ?n = 0 \<or> content_end < cursor - ?n + ?n)"
    using room Cons.prems(6) encoded_len_pos [of "le_cell e"] by linarith
  show ?case
    using holds_at_range [OF f(1)] f(2,3) k16 prev u cell rest bounds decode_cell_bytes [OF k16(2), of page_no]
    by (simp add: Let_def node_u16_def)
qed simp

definition leaf_ok :: "leaf_entry list \<Rightarrow> bool" where
  "leaf_ok es \<longleftrightarrow> sorted_wrt (<) (map le_key es) \<and> (\<forall>e \<in> set es. length (le_key e) = 16 \<and> cell_wf (le_cell e))"

lemma slots_at_mono:
  assumes "slots_at page cursor i es" "\<And>off bs. holds_at page off bs \<Longrightarrow> off + length bs \<le> n \<Longrightarrow> holds_at page' off bs"
    "16 + (i + length es) * 20 \<le> n" "cursor \<le> n" "cells_len es \<le> cursor" "\<forall>e \<in> set es. length (le_key e) = 16"
  shows "slots_at page' cursor i es"
  using assms(1,3-6)
proof (induction es arbitrary: cursor i)
  case (Cons e es)
  have "slots_at page' (cursor - encoded_len (le_cell e)) (i + 1) es"
    using Cons.prems by (intro Cons.IH) (auto simp: Let_def)
  then show ?case
    using Cons.prems assms(2) by (auto simp: Let_def)
qed simp

lemma stamp_holds: "holds_at page off bs \<Longrightarrow> off + length bs + 8 \<le> length page \<Longrightarrow>
    holds_at (stamp_page_checksum xxh page) off bs"
  by (simp add: holds_at_def stamp_seg)

lemma encode_leaf_Some:
  assumes "encode_leaf es ps = Some page"
  shows "16 + length es * 20 + cells_len es + 8 \<le> unat ps" "length page = unat ps"
  using assms by (auto simp: encode_leaf_def Let_def split: if_splits)

lemma encode_leaf_fits:
  "encode_leaf es ps = None \<longleftrightarrow> unat ps - 8 < 16 + length es * 20 + cells_len es"
  by (auto simp: encode_leaf_def Let_def)

lemma leaf_roundtrip:
  assumes enc: "encode_leaf es ps = Some page" and ok: "leaf_ok es" and ps: "page_size_is_valid ps"
  shows "decode_node (stamp_page_checksum xxh page) page_no = Inr (Leaf es)"
proof -
  let ?h = "\<lparr>ph_page_type = BtreeLeaf, ph_entry_count = word_of_nat (length es), ph_next_page = 0\<rparr>"
  let ?p0 = "page_header_encode_into ?h (replicate (unat ps) 0)" and ?ce = "unat ps - 8"
  have fit: "16 + length es * 20 + cells_len es \<le> ?ce" and page: "page = put_entries ?p0 ?ce 0 es"
    using enc by (auto simp: encode_leaf_def Let_def not_less split: if_splits)
  have big: "512 \<le> unat ps" "unat ps \<le> 65536" using page_size_bounds [OF ps] by auto
  have k16: "\<forall>e \<in> set es. length (le_key e) = 16" using ok by (simp add: leaf_ok_def)
  note put = put_entries_holds [of 0 es ?ce ?p0]
  have len: "length page = unat ps" by (simp add: page)
  have hd: "holds_at page 0 (page_header_bytes ?h)"
    unfolding page using fit k16 big page_header_encode_seg [of "replicate (unat ps) 0" ?h]
    by (intro put(2)) (simp_all add: holds_at_def)
  have slots: "slots_at page ?ce 0 es"
    unfolding page using fit k16 by (intro put(1)) simp_all
  let ?s = "stamp_page_checksum xxh page"
  have "slots_at ?s ?ce 0 es"
    by (rule slots_at_mono [OF slots, where n = ?ce]) (use fit k16 len big in \<open>auto intro: stamp_holds\<close>)
  moreover have "length es < 2 ^ 32" using fit big by simp
  then have n: "unat (word_of_nat (length es) :: u32) = length es" by (simp add: unat_of_nat)
  moreover have "page_header_decode ?s = Some ?h"
    using stamp_holds [OF hd, of xxh] len big by (intro page_header_decode_seg) (simp_all add: holds_at_def)
  moreover have "?ce < 65536" using big by simp
  ultimately show ?thesis
    using fit len ok decode_slots_at [of ?s ?ce 0 es None "16 + length es * 20" ?ce page_no]
    by (simp add: decode_node_def Let_def leaf_ok_def not_less)
qed

section \<open>The inner round trip\<close>

definition entry_bytes :: "key \<times> u64 \<Rightarrow> bytes" where
  "entry_bytes e = fst e @ u64_to_le (snd e)"

lemma length_entries: "\<forall>e \<in> set es. length (fst e) = 16 \<Longrightarrow> length (concat (map entry_bytes es)) = length es * 24"
  by (induction es) (auto simp: entry_bytes_def)

lemma length_put_inner_entries [simp]: "length (put_inner_entries page i es) = length page"
  by (induction es arbitrary: page i) (auto simp: Let_def)

lemma put_inner_entries_holds:
  assumes "24 + (i + length es) * 24 \<le> length page" "\<forall>e \<in> set es. length (fst e) = 16"
  shows "holds_at (put_inner_entries page i es) (24 + i * 24) (concat (map entry_bytes es))"
    and "\<And>off bs. holds_at page off bs \<Longrightarrow> off + length bs \<le> 24 + i * 24 \<Longrightarrow>
      holds_at (put_inner_entries page i es) off bs"
proof -
  have "holds_at (put_inner_entries page i es) (24 + i * 24) (concat (map entry_bytes es)) \<and>
    (\<forall>off bs. holds_at page off bs \<longrightarrow> off + length bs \<le> 24 + i * 24 \<longrightarrow>
      holds_at (put_inner_entries page i es) off bs)"
    using assms
  proof (induction es arbitrary: page i)
    case (Cons e es)
    obtain k c where e: "e = (k, c)" by (cases e)
    have k16: "length k = 16" using Cons.prems(2) e by simp
    define p where "p = write_bytes page (24 + i * 24) (entry_bytes e)"
    have step: "put_inner_entries page i (e # es) = put_inner_entries p (i + 1) es"
      using Cons.prems(1) k16 write_bytes_append [of "24 + i * 24" k "u64_to_le c" page]
      by (simp add: e Let_def p_def entry_bytes_def)
    have le: "length (entry_bytes e) = 24" using k16 by (simp add: e entry_bytes_def)
    have "24 + (i + 1 + length es) * 24 \<le> length p" "\<forall>e \<in> set es. length (fst e) = 16"
      using Cons.prems by (simp_all add: p_def)
    note IH = Cons.IH [OF this]
    have h: "holds_at p (24 + i * 24) (entry_bytes e)"
      unfolding p_def using Cons.prems(1) le by (intro holds_at_write) simp
    have "holds_at p off bs" if "holds_at page off bs" "off + length bs \<le> 24 + i * 24" for off bs
      unfolding p_def using that le by (subst holds_at_write_other) auto
    then show ?case
      unfolding step using IH h le by (auto simp: holds_at_append add.commute)
  qed simp
  then show "holds_at (put_inner_entries page i es) (24 + i * 24) (concat (map entry_bytes es))"
    and "\<And>off bs. holds_at page off bs \<Longrightarrow> off + length bs \<le> 24 + i * 24 \<Longrightarrow>
      holds_at (put_inner_entries page i es) off bs"
    by blast+
qed

lemma decode_inner_entries_at:
  assumes "holds_at page (24 + i * 24) (concat (map entry_bytes es))"
    "\<forall>e \<in> set es. length (fst e) = 16 \<and> snd e \<noteq> 0" "sorted_wrt (<) (map fst es)"
    "case prev of Some p \<Rightarrow> \<forall>e \<in> set es. p < fst e | None \<Rightarrow> True"
  shows "decode_inner_entries page page_no prev i (length es) = Inr es"
  using assms
proof (induction es arbitrary: i prev)
  case (Cons e es)
  obtain k c where e: "e = (k, c)" by (cases e)
  have k16: "length k = 16" "c \<noteq> 0" using Cons.prems(2) e by simp_all
  have h: "holds_at page (24 + i * 24) k" "holds_at page (24 + i * 24 + 16) (u64_to_le c)"
    "holds_at page (24 + (i + 1) * 24) (concat (map entry_bytes es))"
    using Cons.prems(1) k16 by (simp_all add: e entry_bytes_def [of "(k, c)"] holds_at_append add.commute)
  have prev: "\<not> (case prev of Some p \<Rightarrow> k \<le> p | None \<Rightarrow> False)"
    using Cons.prems(4) by (auto simp: e not_le split: option.splits)
  have "decode_inner_entries page page_no (Some k) (i + 1) (length es) = Inr es"
    using Cons.prems by (intro Cons.IH [OF h(3)]) (auto simp: e)
  then show ?case
    using holds_at_range [OF h(1)] h(2) k16 prev by (simp add: e Let_def node_u64_def)
qed simp

definition inner_ok :: "inner_node \<Rightarrow> bool" where
  "inner_ok node \<longleftrightarrow> sorted_wrt (<) (map fst (in_entries node)) \<and> in_rightmost node \<noteq> 0 \<and>
     (\<forall>e \<in> set (in_entries node). length (fst e) = 16 \<and> snd e \<noteq> 0)"

lemma encode_inner_Some:
  assumes "encode_inner node ps = Some page"
  shows "24 + length (in_entries node) * 24 + 8 \<le> unat ps" "length page = unat ps" "in_entries node \<noteq> []"
  using assms by (auto simp: encode_inner_def Let_def split: if_splits)

lemma encode_inner_fits:
  "encode_inner node ps = None \<longleftrightarrow> in_entries node = [] \<or> unat ps - 8 < 24 + length (in_entries node) * 24"
  by (auto simp: encode_inner_def Let_def)

lemma inner_roundtrip:
  assumes enc: "encode_inner node ps = Some page" and ok: "inner_ok node" and ps: "page_size_is_valid ps"
  shows "decode_node (stamp_page_checksum xxh page) page_no = Inr (Inner node)"
proof -
  let ?es = "in_entries node"
  let ?h = "\<lparr>ph_page_type = BtreeInner, ph_entry_count = word_of_nat (length ?es), ph_next_page = 0\<rparr>"
  let ?p0 = "page_header_encode_into ?h (replicate (unat ps) 0)"
  let ?p1 = "write_bytes ?p0 16 (u64_to_le (in_rightmost node))"
  note s = encode_inner_Some [OF enc]
  have page: "page = put_inner_entries ?p1 0 ?es"
    using enc by (auto simp: encode_inner_def Let_def split: if_splits)
  have big: "512 \<le> unat ps" "unat ps \<le> 65536" using page_size_bounds [OF ps] by auto
  have len1: "length ?p1 = unat ps" by simp
  have k16: "\<forall>e \<in> set ?es. length (fst e) = 16" using ok by (simp add: inner_ok_def)
  have fit: "24 + (0 + length ?es) * 24 \<le> length ?p1" using s(1) len1 by simp
  note put = put_inner_entries_holds [OF fit k16]
  have hd: "holds_at page 0 (page_header_bytes ?h)"
    unfolding page using big page_header_encode_seg [of "replicate (unat ps) 0" ?h]
    by (intro put(2)) (simp_all add: holds_at_def seg_write_before)
  have rm: "holds_at page 16 (u64_to_le (in_rightmost node))"
    unfolding page using big by (intro put(2) holds_at_write) simp_all
  let ?s = "stamp_page_checksum xxh page"
  have lce: "length (concat (map entry_bytes ?es)) = length ?es * 24"
    using k16 by (rule length_entries)
  have es: "holds_at ?s 24 (concat (map entry_bytes ?es))"
    using put(1) s(1,2) lce by (intro stamp_holds) (simp_all add: page)
  have "page_header_decode ?s = Some ?h"
    using stamp_holds [OF hd, of xxh] s(2) big by (intro page_header_decode_seg) (simp_all add: holds_at_def)
  moreover have "holds_at ?s 16 (u64_to_le (in_rightmost node))"
    using stamp_holds [OF rm, of xxh] s(2) big by simp
  moreover have "length ?es < 2 ^ 32" using s(1) big by simp
  then have "unat (word_of_nat (length ?es) :: u32) = length ?es" by (simp add: unat_of_nat)
  ultimately show ?thesis
    using s ok decode_inner_entries_at [of ?s 0 ?es None page_no] es
    by (simp add: decode_node_def Let_def inner_ok_def not_less node_u64_def)
qed

end
