(* ===== verification/Btree.thy ===== *)
theory Btree
  imports Btree_Node Pager
begin

text \<open>
  The record B-tree (\<^verbatim>\<open>storage/btree.rs\<close>): overflow chains, lookup, insert, scan. Reads go through a
  \<^verbatim>\<open>PageSource\<close>, here a record of its methods; writes go through the methods of \<^verbatim>\<open>Txn\<close>, likewise a
  record, which \<open>txn_ops\<close> builds for a pager (borrowed by the transaction) and its file system.
\<close>

section \<open>Page sources and transactions\<close>

record page_source =
  src_page :: "u64 \<Rightarrow> bytes result"
  src_page_size :: u32
  src_format_version :: u32

text \<open>The methods of \<^verbatim>\<open>Txn\<close> the tree uses, on a transaction state \<open>'s\<close>.\<close>

record 's page_ops =
  po_read :: "u64 \<Rightarrow> 's \<Rightarrow> bytes result"
  po_alloc :: "'s \<Rightarrow> u64 result \<times> 's"
  po_write :: "u64 \<Rightarrow> bytes \<Rightarrow> 's \<Rightarrow> unit result \<times> 's"
  po_page_size :: u32

definition pager_source :: "hash64 \<Rightarrow> pager \<Rightarrow> sim_state \<Rightarrow> page_source" where
  "pager_source xxh pg st = \<lparr>src_page = (\<lambda>p. pager_read_page xxh pg p st),
     src_page_size = page_size (pg_header pg), src_format_version = format_version (pg_header pg)\<rparr>"

definition txn_source :: "hash64 \<Rightarrow> pager \<Rightarrow> sim_state \<Rightarrow> txn \<Rightarrow> page_source" where
  "txn_source xxh pg st tx = \<lparr>src_page = (\<lambda>p. txn_read_page xxh pg p tx st),
     src_page_size = page_size (pg_header pg), src_format_version = format_version (pg_header pg)\<rparr>"

definition txn_ops :: "hash64 \<Rightarrow> pager \<Rightarrow> sim_state \<Rightarrow> txn page_ops" where
  "txn_ops xxh pg st = \<lparr>po_read = (\<lambda>p tx. txn_read_page xxh pg p tx st),
     po_alloc = allocate_page xxh pg, po_write = write_page xxh pg, po_page_size = page_size (pg_header pg)\<rparr>"

section \<open>Overflow chains\<close>

definition overflow_page :: "u32 \<Rightarrow> u64 \<Rightarrow> bytes \<Rightarrow> bytes" where
  "overflow_page ps next_page chunk =
     write_bytes (page_header_encode_into \<lparr>ph_page_type = page_type.Overflow,
       ph_entry_count = word_of_nat (length chunk), ph_next_page = next_page\<rparr> (replicate (unat ps) 0))
       PAGE_HEADER_LEN chunk"

text \<open>The first loop of \<^verbatim>\<open>write_overflow\<close>: a page per chunk, from \<open>reuse\<close> while it lasts.\<close>

fun pick_pages :: "'s page_ops \<Rightarrow> u64 list \<Rightarrow> nat \<Rightarrow> 's \<Rightarrow> (u64 list) result \<times> 's" where
  "pick_pages po reuse 0 tx = (Inr [], tx)"
| "pick_pages po (p # reuse) (Suc n) tx =
     bind_st (pick_pages po reuse n tx) (\<lambda>ps tx. (Inr (p # ps), tx))"
| "pick_pages po [] (Suc n) tx =
     bind_st (po_alloc po tx) (\<lambda>p tx. bind_st (pick_pages po [] n tx) (\<lambda>ps tx. (Inr (p # ps), tx)))"

text \<open>The second loop: every page names its successor, the last one 0.\<close>

fun write_chain :: "'s page_ops \<Rightarrow> u64 list \<Rightarrow> bytes list \<Rightarrow> 's \<Rightarrow> unit result \<times> 's" where
  "write_chain po (p # ps) (chunk # cs) tx =
     bind_st (po_write po p (overflow_page (po_page_size po) (case ps of q # _ \<Rightarrow> q | [] \<Rightarrow> 0) chunk) tx)
       (\<lambda>_ tx. write_chain po ps cs tx)"
| "write_chain po _ _ tx = (Inr (), tx)"

definition write_overflow :: "'s page_ops \<Rightarrow> bytes \<Rightarrow> u64 list \<Rightarrow> 's \<Rightarrow> u64 result \<times> 's" where
  "write_overflow po val reuse tx =
     (let cs = chunks (overflow_capacity (po_page_size po)) val in
      bind_st (pick_pages po reuse (length cs) tx) (\<lambda>pages tx.
      bind_st (write_chain po pages cs tx) (\<lambda>_ tx.
        (case pages of p # _ \<Rightarrow> Inr p | [] \<Rightarrow> Inl (Internal ''empty overflow chain''), tx))))"

fun chain_loop :: "'s page_ops \<Rightarrow> 's \<Rightarrow> u64 \<Rightarrow> nat \<Rightarrow> (u64 list) result" where
  "chain_loop po tx page_no 0 = Inr []"
| "chain_loop po tx page_no (Suc n) =
     bind_result (po_read po page_no tx) (\<lambda>page.
     bind_result (ok_or (malformed page_no ''overflow header'') (page_header_decode page)) (\<lambda>hd.
     if ph_page_type hd \<noteq> page_type.Overflow then Inl (malformed page_no ''not an overflow page'')
     else if ph_next_page hd = 0 then Inr [page_no]
     else bind_result (chain_loop po tx (ph_next_page hd) n) (\<lambda>ps. Inr (page_no # ps))))"

definition chain_pages :: "'s page_ops \<Rightarrow> u64 \<Rightarrow> u32 \<Rightarrow> 's \<Rightarrow> (u64 list) result" where
  "chain_pages po first_page total_len tx =
     (let cap = overflow_capacity (po_page_size po);
          expected = max ((unat total_len + cap - 1) div cap) 1
      in chain_loop po tx first_page expected)"

function read_chain :: "page_source \<Rightarrow> u64 \<Rightarrow> nat \<Rightarrow> bytes result" where
  "read_chain src page_no remaining =
     (if remaining = 0 then Inr []
      else bind_result (src_page src page_no) (\<lambda>page.
           bind_result (ok_or (malformed page_no ''overflow header'') (page_header_decode page)) (\<lambda>hd.
           if ph_page_type hd \<noteq> page_type.Overflow then Inl (malformed page_no ''not an overflow page'')
           else let used = unat (ph_entry_count hd) in
           if used = 0 \<or> remaining < used \<or> overflow_capacity (src_page_size src) < used
           then Inl (malformed page_no ''overflow payload length'')
           else bind_result (ok_or (malformed page_no ''overflow payload length'')
                  (get_range page PAGE_HEADER_LEN (PAGE_HEADER_LEN + used))) (\<lambda>payload.
           if 0 < remaining - used \<and> ph_next_page hd = 0 then Inl (malformed page_no ''broken overflow chain'')
           else bind_result (read_chain src (ph_next_page hd) (remaining - used)) (\<lambda>rest.
             Inr (payload @ rest))))))"
  by pat_completeness auto
termination
  by (relation "measure (\<lambda>(src, page_no, remaining). remaining)") auto

declare read_chain.simps [simp del]

definition read_overflow :: "page_source \<Rightarrow> u64 \<Rightarrow> u32 \<Rightarrow> bytes result" where
  "read_overflow src first_page total_len = read_chain src first_page (unat total_len)"

definition resolve_cell :: "page_source \<Rightarrow> cell \<Rightarrow> bytes result" where
  "resolve_cell src c =
     (case c of Inline v \<Rightarrow> Inr v | Overflow total_len first_page \<Rightarrow> read_overflow src first_page total_len)"

section \<open>Lookup\<close>

definition child_for :: "inner_node \<Rightarrow> key \<Rightarrow> u64" where
  "child_for node k =
     (case find (\<lambda>(sep, _). k \<le> sep) (in_entries node) of Some (_, child) \<Rightarrow> child | None \<Rightarrow> in_rightmost node)"

fun get_loop :: "page_source \<Rightarrow> key \<Rightarrow> u64 \<Rightarrow> nat \<Rightarrow> (bytes option) result" where
  "get_loop src k page_no 0 = Inl (malformed page_no ''b-tree deeper than MAX_DEPTH'')"
| "get_loop src k page_no (Suc n) =
     bind_result (src_page src page_no) (\<lambda>page.
     bind_result (decode_node page page_no) (\<lambda>nd.
     case nd of
       Inner node \<Rightarrow> get_loop src k (child_for node k) n
     | Leaf entries \<Rightarrow>
         (case binary_search (map le_key entries) k of
            Inr i \<Rightarrow> bind_result (resolve_cell src (le_cell (entries ! i))) (\<lambda>v. Inr (Some v))
          | Inl _ \<Rightarrow> Inr None)))"

definition btree_get :: "page_source \<Rightarrow> u64 \<Rightarrow> key \<Rightarrow> (bytes option) result" where
  "btree_get src root k = (if root = 0 then Inr None else get_loop src k root MAX_DEPTH)"

section \<open>Insert\<close>

datatype ins = Fit | Split key u64

definition make_cell :: "'s page_ops \<Rightarrow> bytes \<Rightarrow> u64 list \<Rightarrow> 's \<Rightarrow> cell result \<times> 's" where
  "make_cell po val reuse tx =
     (if length val \<le> max_inline_value (po_page_size po) then (Inr (Inline val), tx)
      else bind_st (write_overflow po val reuse tx) (\<lambda>first_page tx.
        (Inr (Overflow (word_of_nat (length val)) first_page), tx)))"

text \<open>The cut of a leaf split: how many entries the left half keeps.\<close>

fun leaf_cut :: "nat \<Rightarrow> nat \<Rightarrow> leaf_entry list \<Rightarrow> nat" where
  "leaf_cut half acc [] = 0"
| "leaf_cut half acc (e # es) =
     (let acc = acc + footprint e in if half \<le> acc then 1 else 1 + leaf_cut half acc es)"

definition leaf_upsert :: "'s page_ops \<Rightarrow> key \<Rightarrow> bytes \<Rightarrow> leaf_entry list \<Rightarrow> 's \<Rightarrow> (leaf_entry list) result \<times> 's" where
  "leaf_upsert po k val entries tx =
     (case binary_search (map le_key entries) k of
        Inr i \<Rightarrow>
          bind_st (case le_cell (entries ! i) of
                     Overflow total_len first_page \<Rightarrow> chain_pages po first_page total_len tx
                   | Inline _ \<Rightarrow> Inr [], tx) (\<lambda>reuse tx.
          bind_st (make_cell po val reuse tx) (\<lambda>c tx.
            (Inr (entries[i := (entries ! i)\<lparr>le_cell := c\<rparr>]), tx)))
      | Inl i \<Rightarrow>
          bind_st (make_cell po val [] tx) (\<lambda>c tx.
            (Inr (take i entries @ \<lparr>le_key = k, le_cell = c\<rparr> # drop i entries), tx)))"

definition leaf_store :: "'s page_ops \<Rightarrow> u64 \<Rightarrow> leaf_entry list \<Rightarrow> 's \<Rightarrow> ins result \<times> 's" where
  "leaf_store po page_no entries tx =
     (case encode_leaf entries (po_page_size po) of
        Some encoded \<Rightarrow> bind_st (po_write po page_no encoded tx) (\<lambda>_ tx. (Inr Fit, tx))
      | None \<Rightarrow>
          let total = sum_list (map footprint entries);
              cut = leaf_cut (total div 2) 0 entries;
              left = take cut entries;
              right_entries = drop cut entries
          in if right_entries = [] then (Inl (Internal ''leaf split produced an empty half''), tx)
             else case (encode_leaf left (po_page_size po), encode_leaf right_entries (po_page_size po), left) of
                    (Some left_page, Some right_page, _ # _) \<Rightarrow>
                      let sep = le_key (last left) in
                      bind_st (po_alloc po tx) (\<lambda>right tx.
                      bind_st (po_write po page_no left_page tx) (\<lambda>_ tx.
                      bind_st (po_write po right right_page tx) (\<lambda>_ tx.
                        (Inr (Split sep right), tx))))
                  | _ \<Rightarrow> (Inl (Internal ''leaf split does not fit''), tx))"

definition inner_store :: "'s page_ops \<Rightarrow> u64 \<Rightarrow> inner_node \<Rightarrow> 's \<Rightarrow> ins result \<times> 's" where
  "inner_store po page_no node tx =
     (case encode_inner node (po_page_size po) of
        Some encoded \<Rightarrow> bind_st (po_write po page_no encoded tx) (\<lambda>_ tx. (Inr Fit, tx))
      | None \<Rightarrow>
          let m = length (in_entries node) div 2;
              right_entries = drop (m + 1) (in_entries node);
              left = take (m + 1) (in_entries node)
          in if left = [] then (Inl (Internal ''inner split underflow''), tx)
             else let (promoted_key, promoted_child) = last left;
                      right_node = \<lparr>in_entries = right_entries, in_rightmost = in_rightmost node\<rparr>;
                      node = \<lparr>in_entries = butlast left, in_rightmost = promoted_child\<rparr>
                  in case (encode_inner node (po_page_size po), encode_inner right_node (po_page_size po)) of
                       (Some left_page, Some right_page) \<Rightarrow>
                         bind_st (po_alloc po tx) (\<lambda>right tx.
                         bind_st (po_write po page_no left_page tx) (\<lambda>_ tx.
                         bind_st (po_write po right right_page tx) (\<lambda>_ tx.
                           (Inr (Split promoted_key right), tx))))
                     | _ \<Rightarrow> (Inl (Internal ''inner split does not fit''), tx))"

definition inner_index :: "inner_node \<Rightarrow> key \<Rightarrow> nat" where
  "inner_index node k = length (takeWhile (\<lambda>(sep, _). \<not> k \<le> sep) (in_entries node))"

text \<open>The child at an index, and the node after that child split: the new page takes over the upper
  part of the child's range.\<close>

definition inner_child :: "inner_node \<Rightarrow> nat \<Rightarrow> u64" where
  "inner_child node idx =
     (case get_at (in_entries node) idx of Some (_, c) \<Rightarrow> c | None \<Rightarrow> in_rightmost node)"

definition inner_split_child :: "inner_node \<Rightarrow> nat \<Rightarrow> key \<Rightarrow> u64 \<Rightarrow> u64 \<Rightarrow> inner_node" where
  "inner_split_child node idx sep child right =
     (let node = (if idx < length (in_entries node)
                  then node\<lparr>in_entries := (in_entries node)[idx := (fst (in_entries node ! idx), right)]\<rparr>
                  else node\<lparr>in_rightmost := right\<rparr>)
      in node\<lparr>in_entries := take idx (in_entries node) @ (sep, child) # drop idx (in_entries node)\<rparr>)"

function insert_rec :: "'s page_ops \<Rightarrow> u64 \<Rightarrow> key \<Rightarrow> bytes \<Rightarrow> nat \<Rightarrow> 's \<Rightarrow> ins result \<times> 's" where
  "insert_rec po page_no k val depth tx =
     (if MAX_DEPTH \<le> depth then (Inl (malformed page_no ''b-tree deeper than MAX_DEPTH''), tx)
      else bind_st (po_read po page_no tx, tx) (\<lambda>page tx.
           bind_st (decode_node page page_no, tx) (\<lambda>nd tx.
           case nd of
             Leaf entries \<Rightarrow>
               bind_st (leaf_upsert po k val entries tx) (\<lambda>entries tx. leaf_store po page_no entries tx)
           | Inner node \<Rightarrow>
               let idx = inner_index node k;
                   child = inner_child node idx
               in bind_st (insert_rec po child k val (depth + 1) tx) (\<lambda>r tx.
                  case r of
                    Fit \<Rightarrow> (Inr Fit, tx)
                  | Split sep right \<Rightarrow> inner_store po page_no (inner_split_child node idx sep child right) tx))))"
  by pat_completeness auto
termination
  by (relation "measure (\<lambda>(po, page_no, k, val, depth, tx). MAX_DEPTH - depth)") auto

declare insert_rec.simps [simp del]

definition btree_insert :: "hash64 \<Rightarrow> pager \<Rightarrow> sim_state \<Rightarrow> key \<Rightarrow> bytes \<Rightarrow> txn \<Rightarrow> unit result \<times> txn" where
  "btree_insert xxh pg st k val tx =
     (if MAX_RECORD_LEN < length val then (Inl (InvalidArgument ''value exceeds MAX_RECORD_LEN''), tx)
      else let root = txn_root_btree_page pg tx;
               po = txn_ops xxh pg st in
      if root = 0 then
        bind_st (make_cell po val [] tx) (\<lambda>c tx.
        bind_st (po_alloc po tx) (\<lambda>page_no tx.
        bind_st (ok_or (Internal ''fresh leaf does not fit'')
                   (encode_leaf [\<lparr>le_key = k, le_cell = c\<rparr>] (po_page_size po)), tx) (\<lambda>page tx.
        bind_st (po_write po page_no page tx) (\<lambda>_ tx.
          (Inr (), set_root_btree_page page_no tx)))))
      else bind_st (insert_rec po root k val 0 tx) (\<lambda>r tx.
        case r of
          Fit \<Rightarrow> (Inr (), tx)
        | Split sep right \<Rightarrow>
            bind_st (po_alloc po tx) (\<lambda>new_root tx.
            bind_st (ok_or (Internal ''fresh root does not fit'')
                       (encode_inner \<lparr>in_entries = [(sep, root)], in_rightmost = right\<rparr> (po_page_size po)), tx) (\<lambda>page tx.
            bind_st (po_write po new_root page tx) (\<lambda>_ tx.
              (Inr (), set_root_btree_page new_root tx))))))"

end
