(* ===== verification/Btree_Scan.thy ===== *)
theory Btree_Scan
  imports Btree
begin

text \<open>
  The in-order iterator of the record B-tree (\<^verbatim>\<open>Scan\<close> in \<^verbatim>\<open>storage/btree.rs\<close>). The stack is a list
  with its top first; a frame holds what is left of its children or entries (the code keeps the whole
  vector and the next index). The loop of \<^verbatim>\<open>advance\<close> ends on every page source, cyclic ones included:
  the stack never exceeds \<^const>\<open>MAX_DEPTH\<close> frames and a page has fewer than $2^{32}$ entries.
\<close>

datatype frame = InnerFrame "u64 list" | LeafFrame "leaf_entry list"

record scan_state =
  sc_start :: "u64 option"
  sc_stack :: "frame list"
  sc_fused :: bool

definition btree_scan :: "u64 \<Rightarrow> scan_state" where
  "btree_scan root = \<lparr>sc_start = (if root \<noteq> 0 then Some root else None), sc_stack = [], sc_fused = False\<rparr>"

definition push_page :: "page_source \<Rightarrow> u64 \<Rightarrow> frame list \<Rightarrow> (frame list) result" where
  "push_page src page_no stack =
     (if MAX_DEPTH \<le> length stack then Inl (malformed page_no ''b-tree deeper than MAX_DEPTH'')
      else bind_result (src_page src page_no) (\<lambda>page.
           bind_result (decode_node page page_no) (\<lambda>nd.
           Inr ((case nd of
                   Inner node \<Rightarrow> InnerFrame (map snd (in_entries node) @ [in_rightmost node])
                 | Leaf entries \<Rightarrow> LeafFrame entries) # stack))))"

section \<open>The measure of a stack\<close>

fun frame_size :: "frame \<Rightarrow> nat" where
  "frame_size (InnerFrame cs) = length cs"
| "frame_size (LeafFrame es) = length es"

fun stack_weight :: "frame list \<Rightarrow> nat" where
  "stack_weight [] = 0"
| "stack_weight (f # st) = (frame_size f + 1) * (2 ^ 33) ^ (64 - length st) + stack_weight st"

lemma decode_slots_length:
  "decode_slots page page_no se ce prev i n = Inr es \<Longrightarrow> length es = n"
  by (induction n arbitrary: prev i es) (auto simp: Let_def bind_result_Inr_iff split: if_splits)

lemma decode_inner_entries_length:
  "decode_inner_entries page page_no prev i n = Inr es \<Longrightarrow> length es = n"
  by (induction n arbitrary: prev i es) (auto simp: Let_def bind_result_Inr_iff split: if_splits)

lemma u32_bound: "unat (w :: u32) < 2 ^ 32"
  using unsigned_less [of w] by simp

lemma decode_node_length:
  assumes "decode_node page page_no = Inr nd"
  shows "case nd of Inner node \<Rightarrow> length (in_entries node) < 2 ^ 32 | Leaf es \<Rightarrow> length es < 2 ^ 32"
  using assms u32_bound
  by (auto simp: decode_node_def Let_def bind_result_Inr_iff
      dest!: decode_slots_length decode_inner_entries_length split: if_splits)

lemma push_page_weight:
  assumes "push_page src page_no st = Inr st'"
  shows "length st < 64" "stack_weight st' < (2 ^ 33) ^ (65 - length st) + stack_weight st"
proof -
  obtain page nd f where k: "length st < MAX_DEPTH" "decode_node page page_no = Inr nd" "st' = f # st"
    "f = (case nd of Inner node \<Rightarrow> InnerFrame (map snd (in_entries node) @ [in_rightmost node])
                 | Leaf entries \<Rightarrow> LeafFrame entries)"
    using assms by (auto simp: push_page_def bind_result_Inr_iff not_le split: if_splits)
  show st: "length st < 64" using k(1) by (simp add: MAX_DEPTH_def)
  have "frame_size f + 1 < 2 ^ 33"
    using decode_node_length [OF k(2)] by (auto simp: k(4) split: node.splits)
  then have "(frame_size f + 1) * (2 ^ 33) ^ (64 - length st) < 2 ^ 33 * (2 ^ 33) ^ (64 - length st)"
    by (intro mult_strict_right_mono) simp_all
  also have "\<dots> = (2 ^ 33) ^ (65 - length st)"
    using st by (simp only: power_Suc [symmetric] Suc_diff_le [symmetric]) (simp add: Suc_diff_le)
  finally show "stack_weight st' < (2 ^ 33) ^ (65 - length st) + stack_weight st"
    by (simp only: k(3) stack_weight.simps)
qed

lemma pop_weight: "stack_weight st < stack_weight (f # st)"
  by simp

lemma next_entry_weight: "stack_weight (LeafFrame es # st) < stack_weight (LeafFrame (e # es) # st)"
  by simp

lemma next_child_weight:
  assumes "push_page src c (InnerFrame cs # st) = Inr st'"
  shows "stack_weight st' < stack_weight (InnerFrame (c # cs) # st)"
proof -
  have "length st < 64" "stack_weight st' < (2 ^ 33) ^ (64 - length st) + stack_weight (InnerFrame cs # st)"
    using push_page_weight [OF assms] by simp_all
  then show ?thesis by (simp add: algebra_simps)
qed

section \<open>The iterator\<close>

function scan_loop :: "page_source \<Rightarrow> frame list \<Rightarrow> ((key \<times> bytes) option) result \<times> frame list" where
  "scan_loop src [] = (Inr None, [])"
| "scan_loop src (LeafFrame [] # st) = scan_loop src st"
| "scan_loop src (LeafFrame (e # es) # st) =
     (bind_result (resolve_cell src (le_cell e)) (\<lambda>v. Inr (Some (le_key e, v))), LeafFrame es # st)"
| "scan_loop src (InnerFrame [] # st) = scan_loop src st"
| "scan_loop src (InnerFrame (c # cs) # st) =
     (case push_page src c (InnerFrame cs # st) of
        Inl e \<Rightarrow> (Inl e, InnerFrame cs # st)
      | Inr st' \<Rightarrow> scan_loop src st')"
  by pat_completeness auto
termination
  by (relation "measure (\<lambda>(src, st). stack_weight st)") (auto dest: next_child_weight)

definition scan_advance :: "page_source \<Rightarrow> scan_state \<Rightarrow> ((key \<times> bytes) option) result \<times> scan_state" where
  "scan_advance src s =
     (case sc_start s of
        Some root \<Rightarrow>
          let s = s\<lparr>sc_start := None\<rparr> in
          (case push_page src root (sc_stack s) of
             Inl e \<Rightarrow> (Inl e, s)
           | Inr st \<Rightarrow> (case scan_loop src st of (r, st) \<Rightarrow> (r, s\<lparr>sc_stack := st\<rparr>)))
      | None \<Rightarrow> (case scan_loop src (sc_stack s) of (r, st) \<Rightarrow> (r, s\<lparr>sc_stack := st\<rparr>)))"

text \<open>\<^verbatim>\<open>Iterator::next\<close>: the outer \<open>None\<close> ends the iteration.\<close>

definition scan_next :: "page_source \<Rightarrow> scan_state \<Rightarrow> ((key \<times> bytes) result) option \<times> scan_state" where
  "scan_next src s =
     (if sc_fused s then (None, s)
      else case scan_advance src s of
             (Inr (Some x), s) \<Rightarrow> (Some (Inr x), s)
           | (Inr None, s) \<Rightarrow> (None, s\<lparr>sc_fused := True\<rparr>)
           | (Inl e, s) \<Rightarrow> (Some (Inl e), s\<lparr>sc_fused := True\<rparr>))"

text \<open>The first \<open>n\<close> items of an iteration, as \<^verbatim>\<open>take(n)\<close>.\<close>

fun scan_take :: "page_source \<Rightarrow> nat \<Rightarrow> scan_state \<Rightarrow> ((key \<times> bytes) result) list" where
  "scan_take src 0 s = []"
| "scan_take src (Suc n) s =
     (case scan_next src s of (None, s) \<Rightarrow> [] | (Some x, s) \<Rightarrow> x # scan_take src n s)"

end
