(* ===== verification/Paged_Tree.thy ===== *)
theory Paged_Tree
  imports Btree_Scan Pager_Commit
begin

text \<open>
  Search trees on pages, for the record tree and for the dictionary alike. A ghost tree \<open>btree\<close> records which page holds
  which node and which overflow pages hold a long value; \<open>aligned\<close> is the search-tree order of its keys and \<open>kvs\<close> the
  sorted association list it stands for. How a node lies on its page is the business of a format: the locale
  \<open>tree_format\<close> says what every format promises, and \<open>tree_reader\<close> proves lookup once for all of them.
\<close>

section \<open>Ghost trees\<close>

text \<open>An entry is a key, its value and the overflow pages of the value, none for an inline cell.\<close>

type_synonym gentry = "key \<times> bytes \<times> u64 list"

datatype btree = Lf u64 "gentry list" | Nd u64 "(btree \<times> key) list" btree

fun root_page :: "btree \<Rightarrow> u64" where
  "root_page (Lf p es) = p"
| "root_page (Nd p ts t) = p"

definition kv_of :: "gentry \<Rightarrow> key \<times> bytes" where
  "kv_of e = (case e of (k, v, pgs) \<Rightarrow> (k, v))"

fun kvs :: "btree \<Rightarrow> (key \<times> bytes) list" where
  "kvs (Lf p es) = map kv_of es"
| "kvs (Nd p ts t) = concat (map (\<lambda>(s, _). kvs s) ts) @ kvs t"

definition chain_of :: "gentry \<Rightarrow> u64 list" where
  "chain_of e = (case e of (k, v, pgs) \<Rightarrow> pgs)"

fun pages :: "btree \<Rightarrow> u64 list" where
  "pages (Lf p es) = p # concat (map chain_of es)"
| "pages (Nd p ts t) = p # concat (map (\<lambda>(s, _). pages s) ts) @ pages t"

text \<open>All leaves at the same depth, every inner node with at least two children.\<close>

fun full :: "nat \<Rightarrow> btree \<Rightarrow> bool" where
  "full h (Lf p es) \<longleftrightarrow> h = 0"
| "full h (Nd p ts t) \<longleftrightarrow> (case h of 0 \<Rightarrow> False | Suc n \<Rightarrow> ts \<noteq> [] \<and> (\<forall>(s, _) \<in> set ts. full n s) \<and> full n t)"

text \<open>The keys of a subtree lie above its lower bound and not above its upper bound; separators lie
  strictly between.\<close>

definition above :: "key option \<Rightarrow> key \<Rightarrow> bool" where
  "above lo k = (case lo of None \<Rightarrow> True | Some l \<Rightarrow> l < k)"

definition below :: "key \<Rightarrow> key option \<Rightarrow> bool" where
  "below k hi = (case hi of None \<Rightarrow> True | Some u \<Rightarrow> k \<le> u)"

definition strictly_below :: "key \<Rightarrow> key option \<Rightarrow> bool" where
  "strictly_below k hi = (case hi of None \<Rightarrow> True | Some u \<Rightarrow> k < u)"

text \<open>\<open>ok\<close> is what the format requires of a key.\<close>

fun aligned :: "(key \<Rightarrow> bool) \<Rightarrow> key option \<Rightarrow> btree \<Rightarrow> key option \<Rightarrow> bool" where
  "aligned ok lo (Lf p es) hi \<longleftrightarrow> sorted_wrt (<) (map fst es) \<and>
     (\<forall>e \<in> set es. ok (fst e) \<and> above lo (fst e) \<and> below (fst e) hi)"
| "aligned ok lo (Nd p [] t) hi \<longleftrightarrow> aligned ok lo t hi"
| "aligned ok lo (Nd p ((s, k) # ts) t) hi \<longleftrightarrow> ok k \<and> above lo k \<and> strictly_below k hi \<and>
     aligned ok lo s (Some k) \<and> aligned ok (Some k) (Nd p ts t) hi"

section \<open>Bounds\<close>

lemma above_simps [simp]: "above None k" "above (Some l) k \<longleftrightarrow> l < k"
  by (simp_all add: above_def)

lemma below_simps [simp]: "below k None" "below k (Some u) \<longleftrightarrow> k \<le> u"
  by (simp_all add: below_def)

lemma strictly_below_simps [simp]: "strictly_below k None" "strictly_below k (Some u) \<longleftrightarrow> k < u"
  by (simp_all add: strictly_below_def)

lemma above_trans: "above lo k \<Longrightarrow> k < k' \<Longrightarrow> above lo k'"
  by (cases lo) auto

lemma below_trans: "k' \<le> k \<Longrightarrow> strictly_below k hi \<Longrightarrow> below k' hi"
  by (cases hi) auto

lemma strictly_below_trans: "k' < k \<Longrightarrow> below k hi \<Longrightarrow> strictly_below k' hi"
  by (cases hi) auto

text \<open>The keys of an aligned ok tree are sorted and within its bounds.\<close>

lemma map_fst_kv_of [simp]: "map (fst \<circ> kv_of) es = map fst es"
  by (simp add: kv_of_def split_beta)

lemma fst_kv_of [simp]: "fst (kv_of e) = fst e"
  by (simp add: kv_of_def split_beta)

lemma aligned_keys:
  assumes "aligned ok lo t hi"
  shows "sorted_wrt (<) (map fst (kvs t))" and "\<forall>k \<in> fst ` set (kvs t). above lo k \<and> below k hi"
proof -
  have "sorted_wrt (<) (map fst (kvs t)) \<and> (\<forall>k \<in> fst ` set (kvs t). above lo k \<and> below k hi)"
    using assms
  proof (induction ok lo t hi rule: aligned.induct)
    case (3 ok lo p s k ts t hi)
    let ?r = "kvs (Nd p ts t)"
    have l: "sorted_wrt (<) (map fst (kvs s))" "\<forall>x \<in> fst ` set (kvs s). above lo x \<and> x \<le> k"
      and r: "sorted_wrt (<) (map fst ?r)" "\<forall>x \<in> fst ` set ?r. k < x \<and> below x hi"
      and k: "above lo k" "strictly_below k hi"
      using 3 by simp_all
    have eq: "kvs (Nd p ((s, k) # ts) t) = kvs s @ ?r" by simp
    have lr: "x < y" if "x \<in> fst ` set (kvs s)" "y \<in> fst ` set ?r" for x y
      using bspec [OF l(2) that(1)] bspec [OF r(2) that(2)] by (blast intro: le_less_trans)
    have "below x hi" if "x \<in> fst ` set (kvs s)" for x using bspec [OF l(2) that] k(2) below_trans by blast
    moreover have "above lo x" if "x \<in> fst ` set ?r" for x using bspec [OF r(2) that] k(1) above_trans by blast
    ultimately have "\<forall>x \<in> fst ` set (kvs s @ ?r). above lo x \<and> below x hi"
      using l(2) r(2) unfolding set_append image_Un by blast
    moreover have "sorted_wrt (<) (map fst (kvs s @ ?r))"
      using l(1) r(1) lr unfolding map_append sorted_wrt_append set_map by blast
    ultimately show ?case unfolding eq by blast
  qed auto
  then show "sorted_wrt (<) (map fst (kvs t))" "\<forall>k \<in> fst ` set (kvs t). above lo k \<and> below k hi" by simp_all
qed

lemma aligned_wf: "aligned ok lo t hi \<Longrightarrow> bmap_wf (kvs t)"
  using aligned_keys by (simp add: bmap_wf_def)

section \<open>The child a key belongs to\<close>

text \<open>An inner node splits at the first separator that is not below the key.\<close>

lemma aligned_append:
  "aligned ok lo (Nd p (ts @ (s, k) # us) t) hi \<longleftrightarrow>
     aligned ok lo (Nd p ts s) (Some k) \<and> ok k \<and> above lo k \<and> strictly_below k hi \<and> aligned ok (Some k) (Nd p us t) hi"
proof (induction ts arbitrary: lo)
  case (Cons e ts)
  obtain s' k' where e: "e = (s', k')" by (cases e)
  show ?case using Cons [of "Some k'"]
    by (cases lo; cases hi) (auto simp: e)
qed auto

lemma aligned_page: "aligned ok lo (Nd p ts t) hi = aligned ok lo (Nd q ts t) hi"
proof (induction ts arbitrary: lo)
  case (Cons e ts)
  then show ?case by (cases e) simp
qed simp

definition before :: "key \<Rightarrow> (btree \<times> key) list \<Rightarrow> (btree \<times> key) list" where
  "before k ts = takeWhile (\<lambda>(_, sep). \<not> k \<le> sep) ts"

definition after :: "key \<Rightarrow> (btree \<times> key) list \<Rightarrow> (btree \<times> key) list" where
  "after k ts = dropWhile (\<lambda>(_, sep). \<not> k \<le> sep) ts"

definition child_tree :: "key \<Rightarrow> (btree \<times> key) list \<Rightarrow> btree \<Rightarrow> btree" where
  "child_tree k ts t = (case after k ts of [] \<Rightarrow> t | (s, _) # _ \<Rightarrow> s)"

lemma before_after: "ts = before k ts @ after k ts"
  by (simp add: before_def after_def)

lemma after_Cons: "after k ts = (s, sep) # us \<Longrightarrow> k \<le> sep"
  by (auto simp: after_def dropWhile_eq_Cons_conv)

lemma before_less: "(s, sep) \<in> set (before k ts) \<Longrightarrow> sep < k"
  by (auto simp: before_def dest: set_takeWhileD)

text \<open>The entries of a node as its page has them: separators and child pages.\<close>

definition children :: "(btree \<times> key) list \<Rightarrow> (key \<times> u64) list" where
  "children ts = map (\<lambda>(s, k). (k, root_page s)) ts"

definition child_page :: "key \<Rightarrow> (key \<times> u64) list \<Rightarrow> u64 \<Rightarrow> u64" where
  "child_page k cs r = (case find (\<lambda>(sep, _). k \<le> sep) cs of Some (_, c) \<Rightarrow> c | None \<Rightarrow> r)"

lemma child_page_tree: "child_page k (children ts) (root_page t) = root_page (child_tree k ts t)"
proof -
  have "find (\<lambda>(sep, _). k \<le> sep) (children ts) =
     (case after k ts of [] \<Rightarrow> None | (s, sep) # _ \<Rightarrow> Some (sep, root_page s))"
    by (induction ts) (auto simp: after_def children_def)
  then show ?thesis by (simp add: child_page_def child_tree_def split: list.split)
qed

lemma child_in: "child_tree k ts t = t \<or> (\<exists>sep. (child_tree k ts t, sep) \<in> set ts)"
proof (cases "after k ts")
  case (Cons e us)
  then have "e \<in> set ts" using before_after [of ts k] by (metis in_set_conv_decomp)
  moreover have "child_tree k ts t = fst e" using Cons by (simp add: child_tree_def split_beta)
  ultimately show ?thesis by (metis prod.collapse)
qed (simp add: child_tree_def)

text \<open>The bounds of that child, and the keys on either side of it.\<close>

definition kvs_list :: "(btree \<times> key) list \<Rightarrow> (key \<times> bytes) list" where
  "kvs_list ts = concat (map (\<lambda>(s, _). kvs s) ts)"

lemma kvs_list_simps [simp]:
  "kvs_list [] = []" "kvs_list ((s, k) # ts) = kvs s @ kvs_list ts" "kvs_list (ts @ us) = kvs_list ts @ kvs_list us"
  by (simp_all add: kvs_list_def)

lemma kvs_Nd: "kvs (Nd p ts t) = kvs_list ts @ kvs t"
  by (simp add: kvs_list_def)

definition lower :: "key option \<Rightarrow> (btree \<times> key) list \<Rightarrow> key option" where
  "lower lo ts = (if ts = [] then lo else Some (snd (last ts)))"

lemma aligned_prefix:
  assumes "aligned ok lo (Nd p (ts @ us) t) hi"
  shows "aligned ok (lower lo ts) (Nd p us t) hi"
    and "\<forall>k \<in> fst ` set (kvs_list ts). below k (lower lo ts)"
proof -
  have "aligned ok (lower lo ts) (Nd p us t) hi \<and>
      (\<forall>k \<in> fst ` set (kvs_list ts). below k (lower lo ts))"
    using assms
  proof (induction ts arbitrary: us rule: rev_induct)
    case (snoc e ts)
    obtain s k where e: "e = (s, k)" by (cases e)
    have IH: "aligned ok (lower lo ts) (Nd p ((s, k) # us) t) hi"
      "\<forall>k \<in> fst ` set (kvs_list ts). below k (lower lo ts)"
      using snoc.IH [of "(s, k) # us"] snoc.prems e by simp_all
    have k: "above (lower lo ts) k" "aligned ok (lower lo ts) s (Some k)" "aligned ok (Some k) (Nd p us t) hi"
      using IH(1) by simp_all
    have "below x (Some k)" if "x \<in> fst ` set (kvs_list ts)" for x
      using bspec [OF IH(2) that] k(1) that by (cases "lower lo ts") (auto simp: lower_def split: if_splits)
    moreover have "\<forall>x \<in> fst ` set (kvs s). x \<le> k" using aligned_keys(2) [OF k(2)] by simp
    ultimately show ?case using k(3) by (auto simp: e lower_def)
  qed (simp add: lower_def)
  then show "aligned ok (lower lo ts) (Nd p us t) hi"
    "\<forall>k \<in> fst ` set (kvs_list ts). below k (lower lo ts)" by simp_all
qed

text \<open>The parts of a node around the child, and the bounds of the child.\<close>

definition pages_list :: "(btree \<times> key) list \<Rightarrow> u64 list" where
  "pages_list ts = concat (map (\<lambda>(s, _). pages s) ts)"

lemma pages_list_simps [simp]:
  "pages_list [] = []" "pages_list ((s, k) # ts) = pages s @ pages_list ts"
  "pages_list (ts @ us) = pages_list ts @ pages_list us"
  by (simp_all add: pages_list_def)

lemma pages_Nd: "pages (Nd p ts t) = p # pages_list ts @ pages t"
  by (simp add: pages_list_def)

definition child_hi :: "key option \<Rightarrow> key \<Rightarrow> (btree \<times> key) list \<Rightarrow> key option" where
  "child_hi hi k ts = (case after k ts of [] \<Rightarrow> hi | (_, sep) # _ \<Rightarrow> Some sep)"

definition child_lo :: "key option \<Rightarrow> key \<Rightarrow> (btree \<times> key) list \<Rightarrow> key option" where
  "child_lo lo k ts = lower lo (before k ts)"

definition rest_list :: "key \<Rightarrow> (btree \<times> key) list \<Rightarrow> btree \<Rightarrow> btree list" where
  "rest_list k ts t = (case after k ts of [] \<Rightarrow> [] | _ # rest \<Rightarrow> map fst rest @ [t])"

lemma child_aligned:
  assumes "aligned ok lo (Nd p ts t) hi" "above lo k" "below k hi"
  shows "aligned ok (child_lo lo k ts) (child_tree k ts t) (child_hi hi k ts)"
    "above (child_lo lo k ts) k" "below k (child_hi hi k ts)"
proof -
  have "aligned ok lo (Nd p (before k ts @ after k ts) t) hi" using assms(1) by (simp only: before_after [symmetric])
  note pre = aligned_prefix(1) [OF this]
  show "aligned ok (child_lo lo k ts) (child_tree k ts t) (child_hi hi k ts)"
    using pre by (auto simp: child_lo_def child_tree_def child_hi_def split: list.splits)
  show "above (child_lo lo k ts) k"
    using assms(2) before_less [of _ _ k ts] by (auto simp: child_lo_def lower_def) (metis last_in_set prod.collapse)
  show "below k (child_hi hi k ts)"
    using assms(3) after_Cons [of k ts] by (auto simp: child_hi_def split: list.splits)
qed

lemma list_parts: "pages_list xs = concat (map pages (map fst xs))" "kvs_list xs = concat (map kvs (map fst xs))"
  by (simp_all add: pages_list_def kvs_list_def case_prod_beta' comp_def)

lemma node_parts:
  "pages (Nd p ts t) = p # pages_list (before k ts) @ pages (child_tree k ts t) @ concat (map pages (rest_list k ts t))"
  "kvs (Nd p ts t) = kvs_list (before k ts) @ kvs (child_tree k ts t) @ concat (map kvs (rest_list k ts t))"
proof -
  have ts: "Nd p ts t = Nd p (before k ts @ after k ts) t" by (simp only: before_after [symmetric])
  show "pages (Nd p ts t) = p # pages_list (before k ts) @ pages (child_tree k ts t) @ concat (map pages (rest_list k ts t))"
    "kvs (Nd p ts t) = kvs_list (before k ts) @ kvs (child_tree k ts t) @ concat (map kvs (rest_list k ts t))"
    by (cases "after k ts"; simp add: ts pages_Nd kvs_Nd child_tree_def rest_list_def list_parts split_beta
        del: pages.simps kvs.simps)+
qed

lemma node_keys:
  assumes "aligned ok lo (Nd p ts t) hi" "above lo k" "below k hi"
  shows "\<forall>x \<in> fst ` set (kvs_list (before k ts)). x < k" "\<forall>x \<in> fst ` set (concat (map kvs (rest_list k ts t))). k < x"
proof -
  have al: "aligned ok lo (Nd p (before k ts @ after k ts) t) hi" using assms(1) by (simp only: before_after [symmetric])
  note pre = aligned_prefix [OF al]
  show "\<forall>x \<in> fst ` set (kvs_list (before k ts)). x < k"
  proof
    fix x assume x: "x \<in> fst ` set (kvs_list (before k ts))"
    then have "before k ts \<noteq> []" by auto
    then show "x < k"
      using bspec [OF pre(2) x] child_aligned(2) [OF assms] by (auto simp: child_lo_def lower_def dest: le_less_trans)
  qed
  show "\<forall>x \<in> fst ` set (concat (map kvs (rest_list k ts t))). k < x"
  proof (cases "after k ts")
    case (Cons e rest)
    obtain s sep where e: "e = (s, sep)" by (cases e)
    have "aligned ok (Some sep) (Nd p rest t) hi" "k \<le> sep" using pre(1) Cons e after_Cons by auto
    moreover have "concat (map kvs (rest_list k ts t)) = kvs (Nd p rest t)"
      using Cons by (simp add: rest_list_def kvs_Nd list_parts del: kvs.simps)
    ultimately show ?thesis using aligned_keys(2) [of ok "Some sep" "Nd p rest t" hi] by (auto simp del: kvs.simps intro: le_less_trans)
  qed (simp add: rest_list_def)
qed

lemma map_of_around:
  assumes "\<forall>x \<in> fst ` set A. x < k" "\<forall>x \<in> fst ` set B. k < (x :: 'k :: linorder)"
  shows "map_of (A @ X @ B) k = map_of X k"
proof -
  have "map_of A k = None" "map_of B k = None" using assms by (auto simp: map_of_eq_None_iff)
  then show ?thesis by (simp add: map_add_def split: option.split)
qed
section \<open>Replacing the child of a node\<close>

lemma kv_of_simp [simp]: "kv_of (k, v, P) = (k, v)"
  by (simp add: kv_of_def)

text \<open>The node in which the child of a key is replaced by the children \<open>us\<close> and \<open>u\<close>.\<close>

definition plug_list :: "key \<Rightarrow> (btree \<times> key) list \<Rightarrow> (btree \<times> key) list \<Rightarrow> btree \<Rightarrow> (btree \<times> key) list" where
  "plug_list k ts us u =
     before k ts @ us @ (case after k ts of [] \<Rightarrow> [] | (_, sep) # rest \<Rightarrow> (u, sep) # rest)"

definition plug_last :: "key \<Rightarrow> (btree \<times> key) list \<Rightarrow> btree \<Rightarrow> btree \<Rightarrow> btree" where
  "plug_last k ts t u = (case after k ts of [] \<Rightarrow> u | _ \<Rightarrow> t)"

lemma aligned_replace:
  "aligned ok lo (Nd p (ts @ us) t) hi \<Longrightarrow> aligned ok (lower lo ts) (Nd p us' t') hi \<Longrightarrow>
    aligned ok lo (Nd p (ts @ us') t') hi"
proof (induction ts arbitrary: lo)
  case (Cons e ts)
  obtain s k where e: "e = (s, k)" by (cases e)
  have "lower lo ((s, k) # ts) = lower (Some k) ts" by (simp add: lower_def)
  then show ?case using Cons by (simp add: e)
qed (simp add: lower_def)

lemma plug_aligned:
  assumes "aligned ok lo (Nd p ts t) hi" "aligned ok (child_lo lo k ts) (Nd p us u) (child_hi hi k ts)"
  shows "aligned ok lo (Nd p (plug_list k ts us u) (plug_last k ts t u)) hi"
proof -
  have al: "aligned ok lo (Nd p (before k ts @ after k ts) t) hi"
    using assms(1) by (simp only: before_after [symmetric])
  note pre = aligned_prefix(1) [OF al]
  show ?thesis
  proof (cases "after k ts")
    case Nil
    then show ?thesis
      using aligned_replace [OF al, of us u] assms(2)
      by (simp add: plug_list_def plug_last_def child_lo_def child_hi_def)
  next
    case (Cons e rest)
    then have "aligned ok (lower lo (before k ts)) (Nd p (us @ (u, snd e) # rest) t) hi"
      using pre assms(2) by (cases e) (simp add: aligned_append child_lo_def child_hi_def)
    from aligned_replace [OF al this] show ?thesis
      using Cons by (cases e) (simp add: plug_list_def plug_last_def)
  qed
qed

lemma plug_parts:
  "pages (Nd p (plug_list k ts us u) (plug_last k ts t u)) =
     p # pages_list (before k ts) @ (pages_list us @ pages u) @ concat (map pages (rest_list k ts t))"
  "kvs (Nd p (plug_list k ts us u) (plug_last k ts t u)) =
     kvs_list (before k ts) @ (kvs_list us @ kvs u) @ concat (map kvs (rest_list k ts t))"
  by (cases "after k ts"; simp add: pages_Nd kvs_Nd plug_list_def plug_last_def rest_list_def list_parts split_beta
      del: pages.simps kvs.simps)+

lemma bmap_insert_around:
  assumes "\<forall>x \<in> fst ` set A. x < k" "\<forall>x \<in> fst ` set B. k < (x :: 'k :: linorder)"
  shows "bmap_insert k v (A @ X @ B) = A @ bmap_insert k v X @ B"
proof -
  have B: "bmap_insert k v (X @ B) = bmap_insert k v X @ B" if "\<forall>x \<in> fst ` set B. k < x" for X
    using that by (induction X) (cases B, auto)
  show ?thesis using assms(1) B [OF assms(2)] by (induction A) auto
qed

text \<open>Every tree of the new node is a tree of the old one or one of the replacements.\<close>

lemma plug_trees:
  assumes "\<forall>(s, _) \<in> set ts. P s" "P t" "\<forall>(s, _) \<in> set us. P s" "P u"
  shows "\<forall>(s, _) \<in> set (plug_list k ts us u). P s" "P (plug_last k ts t u)"
proof -
  have sub: "set (before k ts) \<subseteq> set ts" "set (after k ts) \<subseteq> set ts"
    using before_after [of ts k] by (metis Un_upper1 Un_upper2 set_append)+
  show "\<forall>(s, _) \<in> set (plug_list k ts us u). P s"
    using assms sub by (cases "after k ts") (auto simp: plug_list_def case_prod_beta' dest!: subsetD)
  show "P (plug_last k ts t u)" using assms by (simp add: plug_last_def split: list.split)
qed
text \<open>A split of the child, on the entries of the page.\<close>

definition split_before :: "key \<Rightarrow> (key \<times> u64) list \<Rightarrow> (key \<times> u64) list" where
  "split_before k cs = takeWhile (\<lambda>(sep, _). \<not> k \<le> sep) cs"

definition split_after :: "key \<Rightarrow> (key \<times> u64) list \<Rightarrow> (key \<times> u64) list" where
  "split_after k cs = dropWhile (\<lambda>(sep, _). \<not> k \<le> sep) cs"

definition split_children :: "key \<Rightarrow> (key \<times> u64) list \<Rightarrow> u64 \<Rightarrow> key \<Rightarrow> u64 \<Rightarrow> (key \<times> u64) list" where
  "split_children k cs r sep q = split_before k cs @ (sep, child_page k cs r) #
     (case split_after k cs of [] \<Rightarrow> [] | (sep', _) # rest \<Rightarrow> (sep', q) # rest)"

definition split_last :: "key \<Rightarrow> (key \<times> u64) list \<Rightarrow> u64 \<Rightarrow> u64 \<Rightarrow> u64" where
  "split_last k cs r q = (case split_after k cs of [] \<Rightarrow> q | _ \<Rightarrow> r)"

lemma split_parts:
  "split_before k (children ts) = children (before k ts)" "split_after k (children ts) = children (after k ts)"
  by (simp_all add: split_before_def split_after_def children_def before_def after_def takeWhile_map dropWhile_map comp_def case_prod_beta')

lemma split_children_plug:
  assumes "root_page l = root_page (child_tree k ts t)"
  shows "split_children k (children ts) (root_page t) sep (root_page u) = children (plug_list k ts [(l, sep)] u)"
    "split_last k (children ts) (root_page t) (root_page u) = root_page (plug_last k ts t u)"
  using assms unfolding split_children_def split_last_def split_parts child_page_tree
  by (cases "after k ts"; simp add: children_def plug_list_def plug_last_def split_beta)+

lemma split_children_keys:
  "map fst (split_children k cs r sep q) = map fst (split_before k cs) @ sep # map fst (split_after k cs)"
  by (simp add: split_children_def split: list.split)

lemma fit_children_plug:
  assumes "root_page u = root_page (child_tree k ts t)"
  shows "children (plug_list k ts [] u) = children ts" "root_page (plug_last k ts t u) = root_page t"
proof -
  have ts: "children ts = children (before k ts @ after k ts)" by (simp only: before_after [symmetric])
  show "children (plug_list k ts [] u) = children ts" "root_page (plug_last k ts t u) = root_page t"
    unfolding ts using assms by (cases "after k ts"; simp add: children_def plug_list_def plug_last_def child_tree_def split_beta)+
qed

lemma aligned_seps:
  "aligned ok lo (Nd p ts t) hi \<Longrightarrow> sorted_wrt (<) (map snd ts) \<and> (\<forall>k \<in> snd ` set ts. ok k \<and> above lo k)"
proof (induction ts arbitrary: lo)
  case (Cons e ts)
  obtain s k where e: "e = (s, k)" by (cases e)
  have "above lo k" "aligned ok (Some k) (Nd p ts t) hi" "ok k" using Cons.prems by (simp_all add: e)
  moreover note Cons.IH [OF this(2)]
  ultimately show ?case using above_trans [of lo k] by (auto simp: e)
qed simp

lemma leaf_split_aligned:
  assumes "aligned ok lo (Lf p (L @ R)) hi" "L \<noteq> []" "R \<noteq> []"
  shows "aligned ok lo (Nd 0 [(Lf p L, fst (last L))] (Lf q R)) hi"
proof -
  have srt: "sorted_wrt (<) (map fst (L @ R))" and b: "\<forall>e \<in> set (L @ R). ok (fst e) \<and> above lo (fst e) \<and> below (fst e) hi"
    using assms(1) by simp_all
  have l: "last L \<in> set L" using assms(2) by simp
  have R: "fst (last L) < fst e" if "e \<in> set R" for e
    using srt l that by (auto simp: sorted_wrt_append)
  have L: "fst e \<le> fst (last L)" if "e \<in> set L" for e
  proof -
    have "sorted_wrt (<) (map fst (butlast L @ [last L]))" using srt assms(2) by (simp add: sorted_wrt_append)
    moreover have "e \<in> set (butlast L @ [last L])" using that assms(2) by simp
    ultimately show ?thesis unfolding map_append sorted_wrt_append by auto
  qed
  obtain e where e: "e \<in> set R" using assms(3) by (cases R) auto
  have "strictly_below (fst (last L)) hi" using strictly_below_trans [OF R [OF e]] b e by simp
  then show ?thesis using srt b l L R by (auto simp: sorted_wrt_append)
qed

section \<open>Depth\<close>

text \<open>Every inner node has two children and every node a page of its own, so a tree of height \<open>h\<close> has at
  least $2^{h+1} - 1$ pages; page numbers are non-zero 64-bit words. The depth cap of 64 is never met.\<close>

lemma full_pages: "full h t \<Longrightarrow> 2 ^ (h + 1) \<le> length (pages t) + 1"
proof (induction h arbitrary: t)
  case 0
  then show ?case by (cases t) auto
next
  case (Suc h)
  obtain p ts s where t: "t = Nd p ts s" using Suc.prems by (cases t) auto
  obtain s' k ts' where ts: "ts = (s', k) # ts'" using Suc.prems t by (cases ts) auto
  have "full h s'" "full h s" using Suc.prems by (auto simp: t ts)
  then have "2 ^ (h + 1) \<le> length (pages s') + 1" "2 ^ (h + 1) \<le> length (pages s) + 1" using Suc.IH by auto
  then show ?case by (simp add: t ts)
qed

section \<open>Trees on pages\<close>

type_synonym view = "u64 \<Rightarrow> bytes option"

text \<open>\<open>E\<close>: the overflow pages hold the value of an entry; \<open>L\<close>: a page holds a leaf; \<open>N\<close>: a page holds an inner node.\<close>

fun laid :: "(view \<Rightarrow> gentry \<Rightarrow> bool) \<Rightarrow> (view \<Rightarrow> u64 \<Rightarrow> gentry list \<Rightarrow> bool) \<Rightarrow>
    (view \<Rightarrow> u64 \<Rightarrow> (key \<times> u64) list \<Rightarrow> u64 \<Rightarrow> bool) \<Rightarrow> view \<Rightarrow> btree \<Rightarrow> bool" where
  "laid E L N V (Lf p es) \<longleftrightarrow> L V p es \<and> (\<forall>e \<in> set es. E V e)"
| "laid E L N V (Nd p ts t) \<longleftrightarrow> N V p (children ts) (root_page t) \<and> (\<forall>(s, _) \<in> set ts. laid E L N V s) \<and> laid E L N V t"

text \<open>What a root page number stands for, and the pages it uses.\<close>

definition tree_at :: "(key \<Rightarrow> bool) \<Rightarrow> (view \<Rightarrow> gentry \<Rightarrow> bool) \<Rightarrow> (view \<Rightarrow> u64 \<Rightarrow> gentry list \<Rightarrow> bool) \<Rightarrow>
    (view \<Rightarrow> u64 \<Rightarrow> (key \<times> u64) list \<Rightarrow> u64 \<Rightarrow> bool) \<Rightarrow> view \<Rightarrow> u64 \<Rightarrow> (key \<times> bytes) list \<Rightarrow> u64 set \<Rightarrow> bool" where
  "tree_at ok E L N V r m K \<longleftrightarrow> r = 0 \<and> m = [] \<and> K = {} \<or>
     r \<noteq> 0 \<and> (\<exists>t. root_page t = r \<and> laid E L N V t \<and> distinct (pages t) \<and> aligned ok None t None \<and> (\<exists>h. full h t) \<and>
       kvs t = m \<and> K = set (pages t))"

lemma tree_at_empty [simp]: "tree_at ok E L N V 0 m K \<longleftrightarrow> m = [] \<and> K = {}"
  by (simp add: tree_at_def)

lemma tree_atE:
  assumes "tree_at ok E L N V r m K"
  obtains "r = 0" "m = []" "K = {}" |
    t h where "r \<noteq> 0" "root_page t = r" "laid E L N V t" "distinct (pages t)" "aligned ok None t None" "full h t" "kvs t = m" "K = set (pages t)"
  using assms by (auto simp: tree_at_def)

lemma tree_atI:
  "laid E L N V t \<Longrightarrow> distinct (pages t) \<Longrightarrow> aligned ok None t None \<Longrightarrow> full h t \<Longrightarrow> root_page t \<noteq> 0 \<Longrightarrow>
   tree_at ok E L N V (root_page t) (kvs t) (set (pages t))"
  by (auto simp: tree_at_def)

lemma tree_at_wf: "tree_at ok E L N V r m K \<Longrightarrow> bmap_wf m"
  by (erule tree_atE) (auto simp: bmap_wf_def dest: aligned_wf)

locale tree_format =
  fixes E :: "view \<Rightarrow> gentry \<Rightarrow> bool" and L :: "view \<Rightarrow> u64 \<Rightarrow> gentry list \<Rightarrow> bool"
    and N :: "view \<Rightarrow> u64 \<Rightarrow> (key \<times> u64) list \<Rightarrow> u64 \<Rightarrow> bool"
  assumes entry_pages: "E V e \<Longrightarrow> set (chain_of e) \<subseteq> dom V - {0}"
    and entry_cong: "E V e \<Longrightarrow> (\<And>q. q \<in> set (chain_of e) \<Longrightarrow> V' q = V q) \<Longrightarrow> E V' e"
    and leaf_page: "L V p es \<Longrightarrow> p \<noteq> 0 \<and> p \<in> dom V"
    and leaf_cong: "L V p es \<Longrightarrow> V' p = V p \<Longrightarrow> L V' p es"
    and inner_page: "N V p cs r \<Longrightarrow> p \<noteq> 0 \<and> p \<in> dom V"
    and inner_cong: "N V p cs r \<Longrightarrow> V' p = V p \<Longrightarrow> N V' p cs r"
begin

abbreviation on_pages :: "view \<Rightarrow> btree \<Rightarrow> bool" where
  "on_pages \<equiv> laid E L N"

lemma laid_pages: "on_pages V t \<Longrightarrow> set (pages t) \<subseteq> dom V - {0}"
proof (induction t)
  case (Lf p es)
  then show ?case using leaf_page [of V p es] entry_pages [of V] by fastforce
next
  case (Nd p ts t)
  have "set (pages s) \<subseteq> dom V - {0}" if "(s, k) \<in> set ts" for s k
    using Nd.IH(1) [OF that] Nd.prems that by auto
  then show ?case using Nd inner_page [of V p] by fastforce
qed

lemma laid_root: "on_pages V t \<Longrightarrow> root_page t \<noteq> 0 \<and> root_page t \<in> dom V"
  by (cases t) (auto dest: leaf_page inner_page)

lemma laid_cong: "on_pages V t \<Longrightarrow> (\<And>p. p \<in> set (pages t) \<Longrightarrow> V' p = V p) \<Longrightarrow> on_pages V' t"
proof (induction t)
  case (Lf p es)
  have "E V' e" if e: "e \<in> set es" for e
  proof (rule entry_cong)
    show "E V e" using Lf.prems(1) e by simp
    show "V' q = V q" if "q \<in> set (chain_of e)" for q using e that by (intro Lf.prems(2)) auto
  qed
  moreover have "L V' p es" by (rule leaf_cong [of V]) (use Lf.prems(1) in simp, rule Lf.prems(2), simp)
  ultimately show ?case by simp
next
  case (Nd p ts t)
  have "on_pages V' s" if e: "(s, k) \<in> set ts" for s k
  proof (rule Nd.IH(1) [OF e])
    show "s \<in> Basic_BNFs.fsts (s, k)" by (simp add: fsts.intros)
    show "on_pages V s" using Nd.prems(1) e by auto
    show "V' q = V q" if "q \<in> set (pages s)" for q using e that by (intro Nd.prems(2)) auto
  qed
  moreover have "on_pages V' t" by (rule Nd.IH(2)) (use Nd.prems(1) in simp, rule Nd.prems(2), simp)
  moreover have "N V' p (children ts) (root_page t)" by (rule inner_cong [of V]) (use Nd.prems(1) in simp, rule Nd.prems(2), simp)
  ultimately show ?case by auto
qed

lemma tree_height:
  assumes "on_pages V t" "distinct (pages t)" "full h t"
  shows "h < MAX_DEPTH"
proof -
  have "set (pages t) \<subseteq> UNIV - {0}" using laid_pages [OF assms(1)] by auto
  then have "card (set (pages t)) \<le> card (UNIV - {0 :: u64})" by (intro card_mono) simp_all
  moreover have "card (UNIV - {0 :: u64}) = 2 ^ 64 - 1" by (simp add: card_Diff_singleton card_word)
  ultimately have "length (pages t) + 1 \<le> 2 ^ 64" using assms(2) by (simp add: distinct_card)
  then have "(2 :: nat) ^ (h + 1) \<le> 2 ^ 64" using full_pages [OF assms(3)] by linarith
  then have "h + 1 \<le> 64" by (rule power_le_imp_le_exp [rotated]) simp
  then show ?thesis by (simp add: MAX_DEPTH_def)
qed

text \<open>The other pages of the file keep the tree: it reads its own pages only.\<close>

lemma tree_at_pages: "tree_at ok E L N V r m K \<Longrightarrow> K \<subseteq> dom V - {0}"
  by (erule tree_atE) (use laid_pages in auto)

lemma tree_at_frame: "tree_at ok E L N V r m K \<Longrightarrow> \<forall>q \<in> K. V' q = V q \<Longrightarrow> tree_at ok E L N V' r m K"
  using laid_cong [of V _ V'] by (fastforce simp: tree_at_def)

end

section \<open>Lookup\<close>

text \<open>\<open>served\<close>: the reader sees these pages; \<open>get\<close>: its descent with a bound on the depth; \<open>hit\<close>: its answer means this value.\<close>

locale tree_reader = tree_format +
  fixes served :: "view \<Rightarrow> bool" and get :: "key \<Rightarrow> u64 \<Rightarrow> nat \<Rightarrow> 'r" and hit :: "'r \<Rightarrow> bytes option \<Rightarrow> bool"
  assumes get_leaf: "served V \<Longrightarrow> L V p es \<Longrightarrow> \<forall>e \<in> set es. E V e \<Longrightarrow> sorted_wrt (<) (map fst es) \<Longrightarrow>
      hit (get k p (Suc n)) (map_of (map kv_of es) k)"
    and get_inner: "served V \<Longrightarrow> N V p cs r \<Longrightarrow> get k p (Suc n) = get k (child_page k cs r) n"
begin

lemma get_tree:
  assumes "served V" "full h t" "on_pages V t" "aligned ok lo t hi" "above lo k" "below k hi" "h < n"
  shows "hit (get k (root_page t) n) (map_of (kvs t) k)"
  using assms(2-)
proof (induction h arbitrary: t lo hi n)
  case 0
  obtain p es where t: "t = Lf p es" using "0.prems"(1) by (cases t) auto
  obtain m where n: "n = Suc m" using "0.prems"(6) by (cases n) auto
  show ?case using "0.prems"(2,3) get_leaf [OF assms(1)] by (simp add: t n)
next
  case (Suc h)
  obtain p ts s where t: "t = Nd p ts s" using Suc.prems(1) by (cases t) auto
  obtain m where n: "n = Suc m" "h < m" using Suc.prems(6) by (cases n) auto
  note al = Suc.prems(3) [unfolded t] Suc.prems(4,5)
  have "full h (child_tree k ts s)" "on_pages V (child_tree k ts s)"
    using child_in [of k ts s] Suc.prems(1,2) by (auto simp: t)
  then have "hit (get k (root_page (child_tree k ts s)) m) (map_of (kvs (child_tree k ts s)) k)"
    using child_aligned [OF al] n(2) by (intro Suc.IH)
  moreover have "get k p n = get k (root_page (child_tree k ts s)) m"
    using get_inner [OF assms(1), of p "children ts" "root_page s"] Suc.prems(2) by (simp add: t n(1) child_page_tree)
  ultimately show ?case
    using map_of_around [OF node_keys [OF al]] by (simp add: t node_parts(2) [of p ts s k] del: kvs.simps)
qed

lemma get_tree_at:
  assumes "served V" "tree_at ok E L N V r m K" "r \<noteq> 0"
  shows "hit (get k r MAX_DEPTH) (map_of m k)"
  using assms(2)
proof (cases rule: tree_atE)
  case (2 t h)
  from get_tree [OF assms(1) 2(6,3,5) _ _ tree_height [OF 2(3,4,6)], of k] show ?thesis using 2(2,7) by simp
qed (use assms(3) in simp)

end

end
