(* ===== verification/Btree_Tree.thy ===== *)
theory Btree_Tree
  imports Paged_Tree
begin

text \<open>
  The record B-tree against an ordered map: its node format as an instance of the trees on pages of \<^theory_text>\<open>Paged_Tree\<close>, overflow
  chains, lookup and scan. Both answer from the sorted association list the tree stands for.
\<close>

section \<open>The format\<close>

definition cell_of :: "bytes \<Rightarrow> u64 list \<Rightarrow> cell" where
  "cell_of v pgs = (case pgs of [] \<Rightarrow> Inline v | p # _ \<Rightarrow> Overflow (word_of_nat (length v)) p)"

definition entry_of :: "gentry \<Rightarrow> leaf_entry" where
  "entry_of e = (case e of (k, v, pgs) \<Rightarrow> \<lparr>le_key = k, le_cell = cell_of v pgs\<rparr>)"

text \<open>An overflow chain: one page per chunk, each naming its successor.\<close>

fun chain :: "(u64 \<Rightarrow> bytes option) \<Rightarrow> u64 list \<Rightarrow> bytes list \<Rightarrow> bool" where
  "chain V [] cs \<longleftrightarrow> cs = []"
| "chain V (p # pgs) [] \<longleftrightarrow> False"
| "chain V (p # pgs) (c # cs) \<longleftrightarrow> p \<noteq> 0 \<and>
     (\<exists>page. V p = Some page \<and> get_range page 16 (16 + length c) = Some c \<and>
        page_header_decode page = Some \<lparr>ph_page_type = page_type.Overflow, ph_entry_count = word_of_nat (length c),
          ph_next_page = (case pgs of q # _ \<Rightarrow> q | [] \<Rightarrow> 0)\<rparr>) \<and>
     chain V pgs cs"

definition entry_stored :: "(u64 \<Rightarrow> bytes option) \<Rightarrow> u32 \<Rightarrow> gentry \<Rightarrow> bool" where
  "entry_stored V ps e \<longleftrightarrow> (case e of (k, v, pgs) \<Rightarrow> length v \<le> MAX_RECORD_LEN \<and>
     (if pgs = [] then length v \<le> max_inline_value ps
      else max_inline_value ps < length v \<and> chain V pgs (chunks (overflow_capacity ps) v)))"

definition record_leaf :: "u32 \<Rightarrow> view \<Rightarrow> u64 \<Rightarrow> gentry list \<Rightarrow> bool" where
  "record_leaf ps V p es \<longleftrightarrow> p \<noteq> 0 \<and> (\<exists>page. V p = Some page \<and> decode_node page p = Inr (Leaf (map entry_of es))) \<and>
     encode_leaf (map entry_of es) ps \<noteq> None"

definition record_inner :: "u32 \<Rightarrow> view \<Rightarrow> u64 \<Rightarrow> (key \<times> u64) list \<Rightarrow> u64 \<Rightarrow> bool" where
  "record_inner ps V p cs r \<longleftrightarrow> p \<noteq> 0 \<and>
     (\<exists>page. V p = Some page \<and> decode_node page p = Inr (Inner \<lparr>in_entries = cs, in_rightmost = r\<rparr>)) \<and>
     encode_inner \<lparr>in_entries = cs, in_rightmost = r\<rparr> ps \<noteq> None"

abbreviation entry_in :: "u32 \<Rightarrow> view \<Rightarrow> gentry \<Rightarrow> bool" where
  "entry_in ps \<equiv> \<lambda>V e. entry_stored V ps e"

abbreviation stored :: "view \<Rightarrow> u32 \<Rightarrow> btree \<Rightarrow> bool" where
  "stored V ps \<equiv> laid (entry_in ps) (record_leaf ps) (record_inner ps) V"

abbreviation record_key :: "key \<Rightarrow> bool" where
  "record_key \<equiv> \<lambda>k. length k = 16"

text \<open>What the root pointer of a store stands for, and the pages it uses.\<close>

abbreviation btree_at :: "view \<Rightarrow> u32 \<Rightarrow> u64 \<Rightarrow> (key \<times> bytes) list \<Rightarrow> u64 set \<Rightarrow> bool" where
  "btree_at V ps \<equiv> tree_at record_key (entry_in ps) (record_leaf ps) (record_inner ps) V"

definition btree_map :: "view \<Rightarrow> u32 \<Rightarrow> u64 \<Rightarrow> (key \<times> bytes) list \<Rightarrow> bool" where
  "btree_map V ps r m \<longleftrightarrow> (\<exists>K. btree_at V ps r m K)"

lemma chain_pages_stored: "chain V pgs cs \<Longrightarrow> p \<in> set pgs \<Longrightarrow> p \<noteq> 0 \<and> V p \<noteq> None"
  by (induction V pgs cs rule: chain.induct) auto

lemma chain_cong: "chain V pgs cs \<Longrightarrow> (\<And>p. p \<in> set pgs \<Longrightarrow> V' p = V p) \<Longrightarrow> chain V' pgs cs"
  by (induction V pgs cs rule: chain.induct) auto

lemma entry_stored_cong:
  "entry_stored V ps e \<Longrightarrow> (\<And>p. p \<in> set (chain_of e) \<Longrightarrow> V' p = V p) \<Longrightarrow> entry_stored V' ps e"
  using chain_cong [of V _ _ V'] by (auto simp: entry_stored_def chain_of_def split: prod.splits if_splits)

lemma entry_chain_dom: "entry_stored V ps' e \<Longrightarrow> set (chain_of e) \<subseteq> dom V - {0}"
  using chain_pages_stored by (fastforce simp: entry_stored_def chain_of_def split: prod.splits if_splits)

interpretation record_format: tree_format "entry_in ps" "record_leaf ps" "record_inner ps" for ps
proof
  fix V V' :: view and e
  show "entry_stored V ps e \<Longrightarrow> set (chain_of e) \<subseteq> dom V - {0}" by (rule entry_chain_dom)
  show "entry_stored V ps e \<Longrightarrow> (\<And>q. q \<in> set (chain_of e) \<Longrightarrow> V' q = V q) \<Longrightarrow> entry_stored V' ps e" by (rule entry_stored_cong)
qed (auto simp: record_leaf_def record_inner_def)

section \<open>Page sources\<close>

definition serves :: "page_source \<Rightarrow> (u64 \<Rightarrow> bytes option) \<Rightarrow> u32 \<Rightarrow> bool" where
  "serves src V ps \<longleftrightarrow> src_page_size src = ps \<and> (\<forall>p page. V p = Some page \<longrightarrow> src_page src p = Inr page)"

lemma pager_serves:
  "represents xxh V pg st \<Longrightarrow> serves (pager_source xxh pg st) V (page_size (pg_header pg))"
  by (simp add: serves_def pager_source_def read_page_represents)

lemma txn_serves:
  "represents xxh V pg st \<Longrightarrow> txn_ok xxh pg tx \<Longrightarrow>
    serves (txn_source xxh pg st tx) (txn_view V tx) (page_size (pg_header pg))"
  by (simp add: serves_def txn_source_def txn_read_page_view)

section \<open>Overflow chains\<close>

lemma usable_bounds:
  assumes "page_size_is_valid ps"
  shows "usable ps = unat ps - 24" "488 \<le> usable ps" "usable ps < 65536"
  using page_size_bounds [OF assms] by (auto simp: usable_def)

lemma read_chain_chain:
  assumes "serves src V ps" "chain V pgs cs" "pgs \<noteq> []"
    "\<forall>c \<in> set cs. 0 < length c \<and> length c \<le> overflow_capacity ps" "overflow_capacity ps < 65536"
  shows "read_chain src (hd pgs) (length (concat cs)) = Inr (concat cs)"
  using assms(2-4)
proof (induction pgs arbitrary: cs)
  case (Cons p pgs)
  obtain c cs' where cs: "cs = c # cs'" using Cons.prems(1) by (cases cs) auto
  let ?h = "\<lparr>ph_page_type = page_type.Overflow, ph_entry_count = word_of_nat (length c),
          ph_next_page = (case pgs of q # _ \<Rightarrow> q | [] \<Rightarrow> 0)\<rparr> :: page_header"
  obtain page where page: "V p = Some page" "get_range page 16 (16 + length c) = Some c" "page_header_decode page = Some ?h"
    and rest: "chain V pgs cs'" using Cons.prems(1) cs by auto
  have src: "src_page src p = Inr page" "src_page_size src = ps"
    using assms(1) page(1) by (simp_all add: serves_def)
  have c: "0 < length c" "length c \<le> overflow_capacity ps" using Cons.prems(3) cs by simp_all
  then have u: "unat (word_of_nat (length c) :: u32) = length c"
    using assms(5) by (simp add: unat_of_nat)
  have step: "read_chain src p (length (concat cs)) =
    (if 0 < length (concat cs') \<and> ph_next_page ?h = 0 then Inl (malformed p ''broken overflow chain'')
     else bind_result (read_chain src (ph_next_page ?h) (length (concat cs'))) (\<lambda>rest. Inr (c @ rest)))"
    by (subst read_chain.simps) (use c src page u in \<open>simp add: cs not_le\<close>)
  show ?case
  proof (cases pgs)
    case Nil
    moreover have "read_chain src 0 0 = Inr []" by (simp add: read_chain.simps)
    ultimately show ?thesis using step rest by (simp add: cs)
  next
    case (Cons q qs)
    then have "q \<noteq> 0" using rest by (cases cs') auto
    moreover have "read_chain src q (length (concat cs')) = Inr (concat cs')"
      using Cons.IH [OF rest] Cons.prems(3) cs Cons by simp
    ultimately show ?thesis using step Cons by (simp add: cs)
  qed
qed simp

lemma entry_read:
  assumes "serves src V ps" "page_size_is_valid ps" "entry_stored V ps (k, v, pgs)"
  shows "resolve_cell src (cell_of v pgs) = Inr v"
proof (cases pgs)
  case (Cons p qs)
  let ?cap = "overflow_capacity ps"
  have cap: "0 < ?cap" "?cap < 65536" using usable_bounds [OF assms(2)] by (simp_all add: overflow_capacity_def)
  have ch: "chain V pgs (chunks ?cap v)" "length v \<le> MAX_RECORD_LEN"
    using assms(3) Cons by (simp_all add: entry_stored_def)
  then have "unat (word_of_nat (length v) :: u32) = length v"
    by (simp add: unat_of_nat MAX_RECORD_LEN_def)
  moreover have "\<forall>c \<in> set (chunks ?cap v). 0 < length c \<and> length c \<le> ?cap"
    using chunks_bounds [OF cap(1)] by blast
  then have "read_chain src (hd pgs) (length (concat (chunks ?cap v))) = Inr (concat (chunks ?cap v))"
    using Cons by (intro read_chain_chain [OF assms(1) ch(1) _ _ cap(2)]) simp_all
  ultimately show ?thesis
    using concat_chunks [OF cap(1), of v] Cons by (simp add: resolve_cell_def cell_of_def read_overflow_def)
qed (simp add: cell_of_def resolve_cell_def)

section \<open>Lookup\<close>

lemma leaf_lookup:
  assumes "serves src V ps" "page_size_is_valid ps" "sorted_wrt (<) (map fst es)" "\<forall>e \<in> set es. entry_stored V ps e"
  shows "(case binary_search (map le_key (map entry_of es)) k of
            Inr i \<Rightarrow> bind_result (resolve_cell src (le_cell (map entry_of es ! i))) (\<lambda>v. Inr (Some v))
          | Inl _ \<Rightarrow> Inr None) = Inr (map_of (map kv_of es) k)"
proof -
  have keys: "map le_key (map entry_of es) = map fst es"
    by (simp add: entry_of_def split_beta)
  show ?thesis
  proof (cases "binary_search (map fst es) k")
    case (Inl i)
    then have "k \<notin> fst ` set (map kv_of es)"
      using binary_search_Inl(2) [OF Inl assms(3)] by (simp add: image_image)
    then have "map_of (map kv_of es) k = None" by (simp only: map_of_eq_None_iff simp_thms)
    then show ?thesis using Inl by (simp add: keys del: map_map)
  next
    case (Inr i)
    then have i: "i < length es" "fst (es ! i) = k" using binary_search_Inr [OF Inr] by auto
    obtain v pgs where e: "es ! i = (k, v, pgs)" using i(2) by (cases "es ! i") simp
    have "resolve_cell src (cell_of v pgs) = Inr v"
      using entry_read [OF assms(1,2), of k v pgs] assms(4) i(1) e by (metis nth_mem)
    moreover have "distinct (map fst (map kv_of es))" using assms(3) by (simp add: strict_sorted_iff)
    moreover have "(k, v) \<in> set (map kv_of es)" using i(1) e nth_mem by (force simp: kv_of_def)
    ultimately show ?thesis
      using Inr i(1) e by (simp add: keys entry_of_def map_of_is_SomeI del: map_map set_map)
  qed
qed

interpretation record_reader: tree_reader "entry_in ps" "record_leaf ps" "record_inner ps"
    "\<lambda>V. serves src V ps \<and> page_size_is_valid ps" "\<lambda>k p n. get_loop src k p n" "\<lambda>r x. r = Inr x" for ps src
proof
  fix V :: view and p es k n
  assume a: "serves src V ps \<and> page_size_is_valid ps" "record_leaf ps V p es" "\<forall>e \<in> set es. entry_stored V ps e" "sorted_wrt (<) (map fst es)"
  then obtain page where "src_page src p = Inr page" "decode_node page p = Inr (Leaf (map entry_of es))"
    by (auto simp: record_leaf_def serves_def)
  then show "get_loop src k p (Suc n) = Inr (map_of (map kv_of es) k)" using leaf_lookup [of src V ps es k] a by simp
next
  fix V :: view and p cs r k n
  assume a: "serves src V ps \<and> page_size_is_valid ps" "record_inner ps V p cs r"
  then obtain page where "src_page src p = Inr page" "decode_node page p = Inr (Inner \<lparr>in_entries = cs, in_rightmost = r\<rparr>)"
    by (auto simp: record_inner_def serves_def)
  then show "get_loop src k p (Suc n) = get_loop src k (child_page k cs r) n" by (auto simp: child_for_def child_page_def split: option.split)
qed

lemma btree_get_map:
  assumes "serves src V ps" "page_size_is_valid ps" "btree_map V ps r m"
  shows "btree_get src r k = Inr (map_of m k)"
  using assms record_reader.get_tree_at [of src V ps record_key r m _ k]
  by (cases "r = 0") (auto simp: btree_get_def btree_map_def)

lemma btree_map_wf: "btree_map V ps r m \<Longrightarrow> bmap_wf m"
  unfolding btree_map_def using tree_at_wf by blast

section \<open>Scan\<close>

text \<open>What is left to yield of a stack, the trees of its inner frames given as a ghost list per frame.\<close>

datatype gframe = GInner "btree list" | GLeaf "gentry list"

fun frame_of :: "gframe \<Rightarrow> frame" where
  "frame_of (GInner ts) = InnerFrame (map root_page ts)"
| "frame_of (GLeaf es) = LeafFrame (map entry_of es)"

fun frame_kvs :: "gframe \<Rightarrow> (key \<times> bytes) list" where
  "frame_kvs (GInner ts) = concat (map kvs ts)"
| "frame_kvs (GLeaf es) = map kv_of es"

fun stack_kvs :: "gframe list \<Rightarrow> (key \<times> bytes) list" where
  "stack_kvs [] = []"
| "stack_kvs (f # st) = frame_kvs f @ stack_kvs st"

fun frames_ok :: "(u64 \<Rightarrow> bytes option) \<Rightarrow> u32 \<Rightarrow> gframe list \<Rightarrow> bool" where
  "frames_ok V ps [] = True"
| "frames_ok V ps (GInner ts # st) \<longleftrightarrow>
     (\<forall>t \<in> set ts. stored V ps t \<and> (\<exists>h. full h t \<and> h + Suc (length st) < MAX_DEPTH)) \<and> frames_ok V ps st"
| "frames_ok V ps (GLeaf es # st) \<longleftrightarrow> (\<forall>e \<in> set es. entry_stored V ps e) \<and> frames_ok V ps st"

fun tree_frame :: "btree \<Rightarrow> gframe" where
  "tree_frame (Lf p es) = GLeaf es"
| "tree_frame (Nd p ts t) = GInner (map fst ts @ [t])"

lemma frame_kvs_tree [simp]: "frame_kvs (tree_frame t) = kvs t"
  by (cases t) (simp_all add: case_prod_beta' comp_def)

lemma push_page_tree:
  assumes "serves src V ps" "stored V ps t" "full h t" "h + length st < MAX_DEPTH" "frames_ok V ps st"
  shows "push_page src (root_page t) (map frame_of st) = Inr (map frame_of (tree_frame t # st))"
    and "frames_ok V ps (tree_frame t # st)"
proof -
  obtain page where page: "V (root_page t) = Some page" using record_format.laid_root [OF assms(2)] by auto
  have "src_page src (root_page t) = Inr page" using assms(1) page by (simp add: serves_def)
  then show "push_page src (root_page t) (map frame_of st) = Inr (map frame_of (tree_frame t # st))"
    using assms(2,4) page
    by (cases t) (auto simp: push_page_def record_leaf_def record_inner_def children_def comp_def split_beta)
  show "frames_ok V ps (tree_frame t # st)"
  proof (cases t)
    case (Nd p ts s)
    then obtain n where n: "h = Suc n" "\<forall>(s, _) \<in> set ts. full n s" "full n s"
      using assms(3) by (auto split: nat.splits)
    have "stored V ps u \<and> full n u" if "u \<in> set (map fst ts @ [s])" for u
      using that assms(2) n Nd by auto
    moreover have "n + Suc (length st) < MAX_DEPTH" using assms(4) n(1) by simp
    ultimately have "\<forall>u \<in> set (map fst ts @ [s]). stored V ps u \<and> (\<exists>h. full h u \<and> h + Suc (length st) < MAX_DEPTH)"
      by blast
    then show ?thesis using assms(5) Nd by (simp only: tree_frame.simps frames_ok.simps)
  qed (use assms in simp)
qed

lemma scan_loop_frames:
  assumes "serves src V ps" "page_size_is_valid ps" "frames_ok V ps st"
  shows "case stack_kvs st of
      [] \<Rightarrow> scan_loop src (map frame_of st) = (Inr None, [])
    | kv # rest \<Rightarrow> \<exists>st'. scan_loop src (map frame_of st) = (Inr (Some kv), map frame_of st') \<and>
        frames_ok V ps st' \<and> stack_kvs st' = rest"
  using assms(3)
proof (induction "stack_weight (map frame_of st)" arbitrary: st rule: less_induct)
  case less
  show ?case
  proof (cases st)
    case (Cons f st1)
    show ?thesis
    proof (cases f)
      case (GLeaf es)
      show ?thesis
      proof (cases es)
        case Nil
        have "stack_weight (map frame_of st1) < stack_weight (map frame_of st)"
          by (simp add: Cons del: stack_weight.simps) (rule pop_weight)
        from less.hyps [OF this] show ?thesis using less.prems Cons GLeaf Nil by (auto split: list.splits)
      next
        case (Cons e es')
        obtain k v pgs where e: "e = (k, v, pgs)" by (cases e)
        have "entry_stored V ps (k, v, pgs)" using less.prems \<open>st = f # st1\<close> GLeaf Cons e by simp
        then have "resolve_cell src (cell_of v pgs) = Inr v" by (rule entry_read [OF assms(1,2)])
        then show ?thesis
          using less.prems \<open>st = f # st1\<close> GLeaf Cons e
          by (auto simp: entry_of_def kv_of_def intro!: exI [of _ "GLeaf es' # st1"])
      qed
    next
      case (GInner ts)
      show ?thesis
      proof (cases ts)
        case Nil
        have "stack_weight (map frame_of st1) < stack_weight (map frame_of st)"
          by (simp add: Cons del: stack_weight.simps) (rule pop_weight)
        from less.hyps [OF this] show ?thesis using less.prems Cons GInner Nil by (auto split: list.splits)
      next
        case (Cons t ts')
        let ?st = "GInner ts' # st1"
        obtain h where h: "stored V ps t" "full h t" "h + length ?st < MAX_DEPTH" "frames_ok V ps ?st"
          using less.prems \<open>st = f # st1\<close> GInner Cons by auto
        note push = push_page_tree [OF assms(1) h]
        have p: "push_page src (root_page t) (InnerFrame (map root_page ts') # map frame_of st1) =
            Inr (map frame_of (tree_frame t # ?st))"
          using push(1) by simp
        have "stack_weight (map frame_of (tree_frame t # ?st)) < stack_weight (map frame_of st)"
          using next_child_weight [OF p] \<open>st = f # st1\<close> GInner Cons by simp
        note IH = less.hyps [OF this push(2)]
        have "scan_loop src (map frame_of st) = scan_loop src (map frame_of (tree_frame t # ?st))"
          "stack_kvs st = stack_kvs (tree_frame t # ?st)"
          using p \<open>st = f # st1\<close> GInner Cons by simp_all
        then show ?thesis using IH by (simp only:)
      qed
    qed
  qed simp
qed

lemma scan_take_frames:
  assumes "serves src V ps" "page_size_is_valid ps" "frames_ok V ps st"
  shows "scan_take src n \<lparr>sc_start = None, sc_stack = map frame_of st, sc_fused = False\<rparr> =
    take n (map Inr (stack_kvs st))"
  using assms(3)
proof (induction n arbitrary: st)
  case (Suc n)
  show ?case
  proof (cases "stack_kvs st")
    case Nil
    then show ?thesis using scan_loop_frames [OF assms(1,2) Suc.prems] by (simp add: scan_next_def scan_advance_def)
  next
    case (Cons kv rest)
    then obtain st' where "scan_loop src (map frame_of st) = (Inr (Some kv), map frame_of st')"
      "frames_ok V ps st'" "stack_kvs st' = rest"
      using scan_loop_frames [OF assms(1,2) Suc.prems] by auto
    then show ?thesis using Cons Suc.IH [of st'] by (simp add: scan_next_def scan_advance_def)
  qed
qed simp

lemma btree_scan_map:
  assumes "serves src V ps" "page_size_is_valid ps" "btree_map V ps r m"
  shows "scan_take src n (btree_scan r) = take n (map Inr m)"
proof -
  obtain K where "btree_at V ps r m K" using assms(3) by (auto simp: btree_map_def)
  then show ?thesis
  proof (cases rule: tree_atE)
    case 1
    then show ?thesis by (cases n) (simp_all add: btree_scan_def scan_next_def scan_advance_def)
  next
    case (2 t h)
    have "h + length ([] :: gframe list) < MAX_DEPTH" using record_format.tree_height [OF 2(3,4,6)] by simp
    note push = push_page_tree [OF assms(1) 2(3,6) this]
    have "scan_next src (btree_scan r) =
        scan_next src \<lparr>sc_start = None, sc_stack = map frame_of [tree_frame t], sc_fused = False\<rparr>"
      using push(1) 2(1,2) by (simp add: btree_scan_def scan_next_def scan_advance_def)
    then have "scan_take src n (btree_scan r) =
        scan_take src n \<lparr>sc_start = None, sc_stack = map frame_of [tree_frame t], sc_fused = False\<rparr>"
      by (cases n) simp_all
    then show ?thesis using scan_take_frames [OF assms(1,2) push(2)] 2(7) by simp
  qed
qed

end
