(* ===== verification/Paged_Insert.thy ===== *)
theory Paged_Insert
  imports Paged_Tree
begin

text \<open>
  Insertion into a search tree on pages refines insertion into the sorted association list the tree stands for. What the
  tree needs of a transaction is the locale \<open>page_txn\<close>: reads see earlier writes, a fresh page is none of the old ones, a
  write changes one page. What the recursion needs of a node format is the locale \<open>tree_writer\<close>: how an entry is put into
  a leaf, when a node fits its page, and that a node that has grown by one entry can be split. The only error an
  insertion can then meet is that the page numbers are used up.
\<close>

text \<open>The entries around a key: those below, the one with the key if there is one, those above.\<close>

definition around :: "key \<Rightarrow> gentry list \<Rightarrow> gentry list \<Rightarrow> gentry list \<Rightarrow> gentry list \<Rightarrow> bool" where
  "around k es A M B \<longleftrightarrow> es = A @ M @ B \<and> (M = [] \<or> (\<exists>v0 P0. M = [(k, v0, P0)])) \<and>
     (\<forall>x \<in> fst ` set A. x < k) \<and> (\<forall>x \<in> fst ` set B. k < x)"

text \<open>A search among the keys of a leaf finds the entries around the key.\<close>

lemma around_miss:
  assumes "binary_search (map fst es) k = Inl i" "sorted_wrt (<) (map fst es)"
  shows "around k es (take i es) [] (drop i es)"
  using binary_search_Inl(3,4) [OF assms] by (simp add: around_def take_map drop_map)

lemma around_hit:
  assumes "binary_search (map fst es) k = Inr i" "sorted_wrt (<) (map fst es)"
  obtains v P where "i < length es" "es ! i = (k, v, P)" "around k es (take i es) [(k, v, P)] (drop (Suc i) es)"
proof -
  have i: "i < length es" "fst (es ! i) = k" using binary_search_Inr [OF assms(1)] by auto
  obtain v P where e: "es ! i = (k, v, P)" using i(2) by (cases "es ! i") auto
  have split: "es = take i es @ [(k, v, P)] @ drop (Suc i) es" using id_take_nth_drop [OF i(1)] e by simp
  have "sorted_wrt (<) (map fst (take i es @ [(k, v, P)] @ drop (Suc i) es))" using assms(2) split by metis
  then have "around k es (take i es) [(k, v, P)] (drop (Suc i) es)" using split by (auto simp: around_def sorted_wrt_append)
  then show ?thesis by (rule that [OF i(1) e])
qed

text \<open>The result of a recursive insertion as an optional split: a separator and the new page.\<close>

definition outcome_as :: "('i \<Rightarrow> (key \<times> u64) option) \<Rightarrow> 'i result \<times> 's \<Rightarrow> ((key \<times> u64) option) result \<times> 's" where
  "outcome_as f = apfst (map_sum id f)"

lemma outcome_as_simps [simp]: "outcome_as f (Inr x, s) = (Inr (f x), s)" "outcome_as f (Inl e, s) = (Inl e, s)"
  by (simp_all add: outcome_as_def)

lemma outcome_as_bind: "outcome_as g (bind_st m f) = bind_st m (\<lambda>x s. outcome_as g (f x s))"
  by (cases m; cases "fst m") auto

lemma bind_outcome_as: "bind_st (outcome_as g m) f = bind_st m (\<lambda>x s. f (g x) s)"
  by (cases m; cases "fst m") auto

section \<open>The transaction as the tree sees it\<close>

locale page_txn =
  fixes po :: "'s page_ops" and xxh :: hash64 and view :: "'s \<Rightarrow> u64 \<Rightarrow> bytes option" and inv :: "'s \<Rightarrow> bool"
    and exhausted :: error
  assumes size_valid: "inv s \<Longrightarrow> page_size_is_valid (po_page_size po)"
    and read_view: "inv s \<Longrightarrow> view s p = Some page \<Longrightarrow> po_read po p s = Inr page"
    and alloc_fresh: "inv s \<Longrightarrow> po_alloc po s = (r, s') \<Longrightarrow>
      r = Inl exhausted \<or> (\<exists>p page. r = Inr p \<and> p \<noteq> 0 \<and> view s p = None \<and> inv s' \<and> view s' = (view s)(p \<mapsto> page))"
    and write_view: "inv s \<Longrightarrow> p \<noteq> 0 \<Longrightarrow> view s p \<noteq> None \<Longrightarrow> length data = unat (po_page_size po) \<Longrightarrow>
      \<exists>s'. po_write po p data s = (Inr (), s') \<and> inv s' \<and> view s' = (view s)(p \<mapsto> stamp_page_checksum xxh data)"
begin

abbreviation ps :: u32 where "ps \<equiv> po_page_size po"

text \<open>The step changes the old pages in \<open>K\<close> only; new pages may appear.\<close>

definition evolves :: "u64 set \<Rightarrow> 's \<Rightarrow> 's \<Rightarrow> bool" where
  "evolves K s s' \<longleftrightarrow> inv s' \<and> dom (view s) \<subseteq> dom (view s') \<and> (\<forall>q \<in> dom (view s) - K. view s' q = view s q)"

text \<open>Old pages of \<open>K\<close>, or new ones.\<close>

definition old_or_new :: "u64 set \<Rightarrow> 's \<Rightarrow> 's \<Rightarrow> u64 set" where
  "old_or_new K s s' = (K \<union> - dom (view s)) \<inter> dom (view s') - {0}"

lemma evolves_refl: "inv s \<Longrightarrow> evolves K s s"
  by (simp add: evolves_def)

lemma evolves_inv: "evolves K s s' \<Longrightarrow> inv s'"
  by (simp add: evolves_def)

lemma evolves_trans:
  assumes "evolves K s s1" "evolves K' s1 s2" "K' \<subseteq> K \<union> - dom (view s)"
  shows "evolves K s s2"
proof -
  have "view s2 q = view s q" if "q \<in> dom (view s) - K" for q
  proof -
    have "view s1 q = view s q" "q \<in> dom (view s1)" "q \<notin> K'" using assms that by (auto simp: evolves_def)
    then show ?thesis using assms(2) by (simp add: evolves_def)
  qed
  moreover have "dom (view s) \<subseteq> dom (view s2)" using assms(1,2) unfolding evolves_def by blast
  ultimately show ?thesis using assms(2) by (simp add: evolves_def)
qed

lemma evolves_mono: "evolves K s s' \<Longrightarrow> K \<subseteq> K' \<Longrightarrow> evolves K' s s'"
  by (auto simp: evolves_def)

lemma evolves_keeps: "evolves K s s' \<Longrightarrow> p \<in> dom (view s) \<Longrightarrow> p \<notin> K \<Longrightarrow> view s' p = view s p"
  by (simp add: evolves_def)

lemma evolves_dom: "evolves K s s' \<Longrightarrow> dom (view s) \<subseteq> dom (view s')"
  by (simp add: evolves_def)

lemma write_evolves:
  assumes "inv s" "p \<noteq> 0" "p \<in> dom (view s)" "length data = unat ps"
  obtains s' where "po_write po p data s = (Inr (), s')" "evolves {p} s s'" "dom (view s') = dom (view s)"
    "view s' p = Some (stamp_page_checksum xxh data)"
proof -
  obtain s' where w: "po_write po p data s = (Inr (), s')" "inv s'" "view s' = (view s)(p \<mapsto> stamp_page_checksum xxh data)"
    using write_view [OF assms(1,2) _ assms(4)] assms(3) by blast
  show ?thesis
    by (rule that [OF w(1)]) (use w(2,3) assms(3) in \<open>auto simp: evolves_def\<close>)
qed

lemma alloc_cases:
  assumes "inv s"
  obtains (no_page) s' where "po_alloc po s = (Inl exhausted, s')"
    | (fresh) p s' where "po_alloc po s = (Inr p, s')" "p \<noteq> 0" "p \<notin> dom (view s)" "p \<in> dom (view s')" "evolves {} s s'"
proof -
  obtain r s' where a: "po_alloc po s = (r, s')" by (cases "po_alloc po s")
  from alloc_fresh [OF assms a] show ?thesis
  proof
    assume "r = Inl exhausted"
    then show ?thesis using no_page a by simp
  next
    assume "\<exists>p page. r = Inr p \<and> p \<noteq> 0 \<and> view s p = None \<and> inv s' \<and> view s' = (view s)(p \<mapsto> page)"
    then obtain p page where "r = Inr p" "p \<noteq> 0" "view s p = None" "inv s'" "view s' = (view s)(p \<mapsto> page)" by blast
    then show ?thesis using a by (intro fresh [of p s']) (auto simp: evolves_def)
  qed
qed

text \<open>A split: the left half replaces the node, the right half goes to a fresh page.\<close>

definition split_write :: "u64 \<Rightarrow> bytes \<Rightarrow> bytes \<Rightarrow> key \<Rightarrow> 's \<Rightarrow> ((key \<times> u64) option) result \<times> 's" where
  "split_write p lp rp sep s = bind_st (po_alloc po s) (\<lambda>right tx.
     bind_st (po_write po p lp tx) (\<lambda>_ tx. bind_st (po_write po right rp tx) (\<lambda>_ tx. (Inr (Some (sep, right)), tx))))"

lemma split_write_outcome:
  assumes s: "inv s" and p: "p \<noteq> 0" "p \<in> dom (view s)" and len: "length lp = unat ps" "length rp = unat ps"
    and out: "split_write p lp rp sep s = (r, s')"
  shows "r = Inl exhausted \<or> (\<exists>q. r = Inr (Some (sep, q)) \<and> q \<noteq> 0 \<and> q \<notin> dom (view s) \<and> q \<in> dom (view s') \<and> evolves {p} s s' \<and>
    view s' p = Some (stamp_page_checksum xxh lp) \<and> view s' q = Some (stamp_page_checksum xxh rp))"
  using s
proof (cases rule: alloc_cases)
  case (no_page s1)
  then show ?thesis using out by (simp add: split_write_def)
next
  case (fresh q s1)
  have p1: "p \<in> dom (view s1)" using p(2) evolves_dom [OF fresh(5)] by blast
  obtain s2 where s2: "po_write po p lp s1 = (Inr (), s2)" "evolves {p} s1 s2" "dom (view s2) = dom (view s1)"
      "view s2 p = Some (stamp_page_checksum xxh lp)"
    by (rule write_evolves [OF evolves_inv [OF fresh(5)] p(1) p1 len(1)])
  have q2: "q \<in> dom (view s2)" using fresh(4) s2(3) by simp
  obtain s3 where s3: "po_write po q rp s2 = (Inr (), s3)" "evolves {q} s2 s3" "dom (view s3) = dom (view s2)"
      "view s3 q = Some (stamp_page_checksum xxh rp)"
    by (rule write_evolves [OF evolves_inv [OF s2(2)] fresh(2) q2 len(2)])
  have "evolves {p} s s2" by (rule evolves_trans [OF evolves_mono [OF fresh(5)] s2(2)]) auto
  then have ev: "evolves {p} s s3" by (rule evolves_trans [OF _ s3(2)]) (use fresh(3) in auto)
  have "p \<noteq> q" using p(2) fresh(3) by auto
  then have vp: "view s3 p = Some (stamp_page_checksum xxh lp)" using evolves_keeps [OF s3(2), of p] p1 s2(3,4) by simp
  have "r = Inr (Some (sep, q))" "s' = s3" using out fresh(1) s2(1) s3(1) by (simp_all add: split_write_def)
  then show ?thesis using fresh(2,3) ev vp s3(3,4) q2 by auto
qed

text \<open>Pages for an overflow chain: those to be reused first, then fresh ones.\<close>

lemma pick_pages_outcome:
  assumes "inv s" "distinct R" "set R \<subseteq> dom (view s) - {0}" "pick_pages po R n s = (r, s')"
  shows "r = Inl exhausted \<or> (\<exists>P. r = Inr P \<and> length P = n \<and> distinct P \<and>
    set P \<subseteq> old_or_new (set R) s s' \<and> evolves {} s s')"
  using assms
proof (induction n arbitrary: R s r s')
  case (Suc n)
  show ?case
  proof (cases R)
    case Nil
    show ?thesis
      using Suc.prems(1)
    proof (cases rule: alloc_cases)
      case (no_page s1)
      then show ?thesis using Suc.prems(4) Nil by simp
    next
      case (fresh p s1)
      obtain r2 s2 where pk: "pick_pages po [] n s1 = (r2, s2)" by fastforce
      from Suc.IH [OF evolves_inv [OF fresh(5)] _ _ pk] consider "r2 = Inl exhausted" |
        P where "r2 = Inr P" "length P = n" "distinct P" "set P \<subseteq> old_or_new {} s1 s2" "evolves {} s1 s2" by auto
      then show ?thesis
      proof cases
        case 2
        have "dom (view s) \<subseteq> dom (view s1)" "dom (view s1) \<subseteq> dom (view s2)"
          using fresh(5) 2(5) evolves_dom by auto
        then have "p \<notin> set P" "set (p # P) \<subseteq> old_or_new {} s s2"
          using 2(4) fresh(2-4) unfolding old_or_new_def set_simps by blast+
        then show ?thesis
          using 2 fresh(1) pk Suc.prems(4) Nil evolves_trans [OF fresh(5) 2(5)] by auto
      qed (use fresh pk Suc.prems(4) Nil in simp)
    qed
  next
    case (Cons p R')
    obtain r2 s2 where pk: "pick_pages po R' n s = (r2, s2)" by fastforce
    from Suc.IH [OF Suc.prems(1) _ _ pk] Suc.prems(2,3) Cons consider "r2 = Inl exhausted" |
      P where "r2 = Inr P" "length P = n" "distinct P" "set P \<subseteq> old_or_new (set R') s s2" "evolves {} s s2" by auto
    then show ?thesis
    proof cases
      case 2
      have "p \<notin> set P" "set (p # P) \<subseteq> old_or_new (set R) s s2"
        using 2(4) Suc.prems(2,3) evolves_dom [OF 2(5)] unfolding old_or_new_def set_simps Cons distinct.simps by blast+
      then show ?thesis using 2 pk Suc.prems(4) Cons by auto
    qed (use pk Suc.prems(4) Cons in simp)
  qed
qed (auto simp: evolves_refl)

lemma old_or_new_mono: "dom (view s1) \<subseteq> dom (view s2) \<Longrightarrow> K \<subseteq> K' \<Longrightarrow> old_or_new K s s1 \<subseteq> old_or_new K' s s2"
  unfolding old_or_new_def by blast

end

abbreviation chains :: "gentry list \<Rightarrow> u64 list" where
  "chains es \<equiv> concat (map chain_of es)"

section \<open>What a format promises\<close>

locale tree_writer = page_txn po xxh view inv exhausted + tree_format E L N
  for po :: "'s page_ops" and xxh :: hash64 and view :: "'s \<Rightarrow> u64 \<Rightarrow> bytes option" and inv :: "'s \<Rightarrow> bool" and exhausted :: error
    and E :: "view \<Rightarrow> gentry \<Rightarrow> bool" and L :: "view \<Rightarrow> u64 \<Rightarrow> gentry list \<Rightarrow> bool"
    and N :: "view \<Rightarrow> u64 \<Rightarrow> (key \<times> u64) list \<Rightarrow> u64 \<Rightarrow> bool" +
  fixes key_ok :: "key \<Rightarrow> bool" and val_ok :: "bytes \<Rightarrow> bool" and raw :: "gentry \<Rightarrow> 'e"
    and enc_leaf :: "'e list \<Rightarrow> bytes option" and enc_inner :: "(key \<times> u64) list \<Rightarrow> u64 \<Rightarrow> bytes option"
    and leaf_room :: "'e list \<Rightarrow> bool" and inner_room :: "key list \<Rightarrow> bool"
    and upsert :: "key \<Rightarrow> bytes \<Rightarrow> 'e list \<Rightarrow> 's \<Rightarrow> ('e list) result \<times> 's"
    and store_leaf :: "u64 \<Rightarrow> 'e list \<Rightarrow> 's \<Rightarrow> ((key \<times> u64) option) result \<times> 's"
    and put_inner :: "u64 \<Rightarrow> (key \<times> u64) list \<Rightarrow> u64 \<Rightarrow> 's \<Rightarrow> ((key \<times> u64) option) result \<times> 's"
    and ins_at :: "key \<Rightarrow> bytes \<Rightarrow> u64 \<Rightarrow> nat \<Rightarrow> 's \<Rightarrow> ((key \<times> u64) option) result \<times> 's"
  assumes upsert_outcome: "inv s \<Longrightarrow> key_ok k \<Longrightarrow> val_ok v \<Longrightarrow> sorted_wrt (<) (map fst es) \<Longrightarrow> \<forall>e \<in> set es. E (view s) e \<Longrightarrow>
      distinct (chains es) \<Longrightarrow> upsert k v (map raw es) s = (r, s') \<Longrightarrow>
      r = Inl exhausted \<or> (\<exists>A M B P. around k es A M B \<and> r = Inr (map raw (A @ (k, v, P) # B)) \<and> distinct P \<and>
        set P \<subseteq> old_or_new (set (chains M)) s s' \<and> evolves (set (chains M)) s s' \<and> E (view s') (k, v, P))"
    and leaf_written: "inv s \<Longrightarrow> enc_leaf (map raw es) = Some page \<Longrightarrow> sorted_wrt (<) (map fst es) \<Longrightarrow>
      \<forall>e \<in> set es. key_ok (fst e) \<and> E V e \<Longrightarrow>
      length page = unat (po_page_size po) \<and> (V p = Some (stamp_page_checksum xxh page) \<longrightarrow> p \<noteq> 0 \<longrightarrow> L V p es)"
    and leaf_single: "inv s \<Longrightarrow> key_ok k \<Longrightarrow> E V (k, v, P) \<Longrightarrow> enc_leaf [raw (k, v, P)] \<noteq> None"
    and leaf_grows: "inv s \<Longrightarrow> L V p es \<Longrightarrow> around k es A M B \<Longrightarrow> key_ok k \<Longrightarrow> E V' (k, v, P) \<Longrightarrow> leaf_room (map raw (A @ (k, v, P) # B))"
    and store_fits: "enc_leaf (map raw es) = Some page \<Longrightarrow> store_leaf p (map raw es) s = bind_st (po_write po p page s) (\<lambda>_ tx. (Inr None, tx))"
    and store_splits: "inv s \<Longrightarrow> enc_leaf (map raw es) = None \<Longrightarrow> leaf_room (map raw es) \<Longrightarrow> \<forall>e \<in> set es. key_ok (fst e) \<and> E V e \<Longrightarrow>
      \<exists>A B lp rp. es = A @ B \<and> A \<noteq> [] \<and> B \<noteq> [] \<and> enc_leaf (map raw A) = Some lp \<and> enc_leaf (map raw B) = Some rp \<and>
        store_leaf p (map raw es) s = split_write p lp rp (fst (last A)) s"
    and inner_written: "inv s \<Longrightarrow> enc_inner cs r' = Some page \<Longrightarrow> sorted_wrt (<) (map fst cs) \<Longrightarrow>
      \<forall>c \<in> set cs. key_ok (fst c) \<and> snd c \<noteq> 0 \<Longrightarrow> r' \<noteq> 0 \<Longrightarrow>
      length page = unat (po_page_size po) \<and> (V p = Some (stamp_page_checksum xxh page) \<longrightarrow> p \<noteq> 0 \<longrightarrow> N V p cs r')"
    and inner_single: "inv s \<Longrightarrow> key_ok k \<Longrightarrow> enc_inner [(k, c)] r' \<noteq> None"
    and inner_grows: "inv s \<Longrightarrow> N V p (as @ bs) r' \<Longrightarrow> key_ok k \<Longrightarrow> inner_room (map fst as @ k # map fst bs)"
    and put_fits: "enc_inner cs r' = Some page \<Longrightarrow> put_inner p cs r' s = bind_st (po_write po p page s) (\<lambda>_ tx. (Inr None, tx))"
    and put_splits: "inv s \<Longrightarrow> enc_inner cs r' = None \<Longrightarrow> cs \<noteq> [] \<Longrightarrow> inner_room (map fst cs) \<Longrightarrow> \<forall>c \<in> set cs. key_ok (fst c) \<Longrightarrow>
      \<exists>as k c bs lp rp. cs = as @ (k, c) # bs \<and> as \<noteq> [] \<and> bs \<noteq> [] \<and> enc_inner as c = Some lp \<and> enc_inner bs r' = Some rp \<and>
        put_inner p cs r' s = split_write p lp rp k s"
    and ins_leaf: "inv s \<Longrightarrow> L (view s) p es \<Longrightarrow> depth < MAX_DEPTH \<Longrightarrow>
      ins_at k v p depth s = bind_st (upsert k v (map raw es) s) (\<lambda>entries tx. store_leaf p entries tx)"
    and ins_inner: "inv s \<Longrightarrow> N (view s) p cs r' \<Longrightarrow> depth < MAX_DEPTH \<Longrightarrow>
      ins_at k v p depth s = bind_st (ins_at k v (child_page k cs r') (depth + 1) s) (\<lambda>x tx. case x of None \<Rightarrow> (Inr None, tx)
        | Some (sep, q) \<Rightarrow> put_inner p (split_children k cs r' sep q) (split_last k cs r' q) tx)"
begin

section \<open>Writing nodes\<close>

text \<open>A tree away from the pages that change stays where it is.\<close>

lemma laid_evolves:
  assumes "evolves K s s'" "on_pages (view s) t" "set (pages t) \<inter> K = {}"
  shows "on_pages (view s') t"
proof (rule laid_cong [OF assms(2)])
  fix q assume "q \<in> set (pages t)"
  then show "view s' q = view s q" using evolves_keeps [OF assms(1), of q] laid_pages [OF assms(2)] assms(3) by blast
qed

lemma entry_evolves:
  assumes "evolves K s s'" "E (view s) e" "set (chain_of e) \<inter> K = {}"
  shows "E (view s') e"
proof (rule entry_cong [OF assms(2)])
  fix q assume "q \<in> set (chain_of e)"
  then show "view s' q = view s q" using evolves_keeps [OF assms(1), of q] entry_pages [OF assms(2)] assms(3) by blast
qed

lemma store_leaf_outcome:
  assumes s: "inv s" and p: "p \<noteq> 0" "p \<in> dom (view s)" "p \<notin> set (chains es)"
    and es: "sorted_wrt (<) (map fst es)" "\<forall>e \<in> set es. key_ok (fst e) \<and> E (view s) e"
    and big: "leaf_room (map raw es)" and out: "store_leaf p (map raw es) s = (r, s')"
  shows "r = Inl exhausted \<or> evolves {p} s s' \<and>
    (r = Inr None \<and> on_pages (view s') (Lf p es) \<or>
     (\<exists>A B q. es = A @ B \<and> A \<noteq> [] \<and> B \<noteq> [] \<and> r = Inr (Some (fst (last A), q)) \<and> q \<notin> dom (view s) \<and>
        on_pages (view s') (Lf p A) \<and> on_pages (view s') (Lf q B)))"
proof -
  have keep: "\<forall>e \<in> set es. key_ok (fst e) \<and> E (view s2) e" if "evolves {p} s s2" for s2
    using es(2) entry_evolves [OF that] p(3) by fastforce
  show ?thesis
  proof (cases "enc_leaf (map raw es)")
    case (Some page)
    note w = leaf_written [OF s Some es(1)]
    obtain s1 where s1: "po_write po p page s = (Inr (), s1)" "evolves {p} s s1" "view s1 p = Some (stamp_page_checksum xxh page)"
      using w [OF es(2)] by (auto intro: write_evolves [OF s p(1,2), of page])
    then have "on_pages (view s1) (Lf p es)" using w [OF keep [OF s1(2)], of p] keep [OF s1(2)] p(1) by simp
    then show ?thesis using out store_fits [OF Some] s1 by simp
  next
    case None
    from store_splits [OF s None big es(2)] obtain A B lp rp where e: "es = A @ B" "A \<noteq> []" "B \<noteq> []" "enc_leaf (map raw A) = Some lp"
      "enc_leaf (map raw B) = Some rp" "store_leaf p (map raw es) s = split_write p lp rp (fst (last A)) s" by blast
    have srt: "sorted_wrt (<) (map fst A)" "sorted_wrt (<) (map fst B)" using es(1) e(1) by (simp_all add: sorted_wrt_append)
    note wA = leaf_written [OF s e(4) srt(1)] and wB = leaf_written [OF s e(5) srt(2)]
    have ok: "\<forall>x \<in> set A. key_ok (fst x) \<and> E (view s2) x" "\<forall>x \<in> set B. key_ok (fst x) \<and> E (view s2) x" if "evolves {p} s s2" for s2
      using keep [OF that] e(1) by auto
    have len: "length lp = unat ps" "length rp = unat ps"
      using wA [OF ok(1)] wB [OF ok(2)] evolves_refl [OF s] by blast+
    from split_write_outcome [OF s p(1,2) len out [unfolded e(6)]] consider "r = Inl exhausted" |
      q where "r = Inr (Some (fst (last A), q))" "q \<noteq> 0" "q \<notin> dom (view s)" "evolves {p} s s'"
        "view s' p = Some (stamp_page_checksum xxh lp)" "view s' q = Some (stamp_page_checksum xxh rp)" by blast
    then show ?thesis
    proof cases
      case 2
      then have "on_pages (view s') (Lf p A)" "on_pages (view s') (Lf q B)"
        using wA [OF ok(1) [OF 2(4)]] wB [OF ok(2) [OF 2(4)]] ok [OF 2(4)] p(1) by auto
      then show ?thesis using 2 e(1-3) by blast
    qed simp
  qed
qed

lemma children_ok:
  assumes "aligned key_ok lo (Nd p ts t) hi" "\<forall>(x, _) \<in> set ts. on_pages V x" "on_pages V t"
  shows "sorted_wrt (<) (map fst (children ts))" "\<forall>c \<in> set (children ts). key_ok (fst c) \<and> snd c \<noteq> 0" "root_page t \<noteq> 0"
  using aligned_seps [OF assms(1)] laid_root [OF assms(3)] laid_root [of V] assms(2)
  by (auto simp: children_def comp_def case_prod_beta')

lemma put_inner_outcome:
  assumes s: "inv s" and p: "p \<noteq> 0" "p \<in> dom (view s)" "p \<notin> set (pages_list ts @ pages t)"
    and ts: "\<forall>(x, _) \<in> set ts. on_pages (view s) x" "on_pages (view s) t" "aligned key_ok lo (Nd p ts t) hi" "ts \<noteq> []"
    and big: "inner_room (map fst (children ts))"
    and out: "put_inner p (children ts) (root_page t) s = (r, s')"
  shows "r = Inl exhausted \<or> evolves {p} s s' \<and>
    (r = Inr None \<and> on_pages (view s') (Nd p ts t) \<or>
     (\<exists>A x k B q. ts = A @ (x, k) # B \<and> A \<noteq> [] \<and> B \<noteq> [] \<and> r = Inr (Some (k, q)) \<and> q \<notin> dom (view s) \<and>
        on_pages (view s') (Nd p A x) \<and> on_pages (view s') (Nd q B t)))"
proof -
  have kts: "\<forall>(x, _) \<in> set ts. on_pages (view s2) x" "on_pages (view s2) t" if ev: "evolves {p} s s2" for s2
    using laid_evolves [OF ev] ts(1,2) p(3) by (fastforce simp: pages_list_def)+
  note ok = children_ok [OF ts(3,1,2)]
  show ?thesis
  proof (cases "enc_inner (children ts) (root_page t)")
    case (Some page)
    note w = inner_written [OF s Some ok]
    obtain s1 where s1: "po_write po p page s = (Inr (), s1)" "evolves {p} s s1" "view s1 p = Some (stamp_page_checksum xxh page)"
      using w by (auto intro: write_evolves [OF s p(1,2), of page])
    then have "on_pages (view s1) (Nd p ts t)" using w [of "view s1" p] kts [OF s1(2)] p(1) by simp
    then show ?thesis using out put_fits [OF Some] s1 by simp
  next
    case None
    have "children ts \<noteq> []" "\<forall>c \<in> set (children ts). key_ok (fst c)" using ts(4) ok(2) by (auto simp: children_def)
    from put_splits [OF s None this(1) big this(2)] obtain as k c bs lp rp where e: "children ts = as @ (k, c) # bs" "as \<noteq> []" "bs \<noteq> []"
      "enc_inner as c = Some lp" "enc_inner bs (root_page t) = Some rp" "put_inner p (children ts) (root_page t) s = split_write p lp rp k s" by blast
    from e(1) obtain A x B where sp: "ts = A @ (x, k) # B" "as = children A" "bs = children B" "c = root_page x"
      by (auto simp: children_def map_eq_append_conv map_eq_Cons_conv)
    have al: "aligned key_ok lo (Nd p A x) (Some k)" "aligned key_ok (Some k) (Nd p B t) hi" using ts(3) unfolding sp(1) aligned_append by simp_all
    have st: "\<forall>(y, _) \<in> set A. on_pages (view s2) y" "on_pages (view s2) x" "\<forall>(y, _) \<in> set B. on_pages (view s2) y" "on_pages (view s2) t"
      if "evolves {p} s s2" for s2 using kts [OF that] by (auto simp: sp(1))
    note okA = children_ok [OF al(1) st(1,2) [OF evolves_refl [OF s]]] and okB = children_ok [OF al(2) st(3,4) [OF evolves_refl [OF s]]]
    note wA = inner_written [OF s e(4) [unfolded sp] okA] and wB = inner_written [OF s e(5) [unfolded sp] okB]
    have len: "length lp = unat ps" "length rp = unat ps" using wA wB by blast+
    from split_write_outcome [OF s p(1,2) len out [unfolded e(6)]] consider "r = Inl exhausted" |
      q where "r = Inr (Some (k, q))" "q \<noteq> 0" "q \<notin> dom (view s)" "evolves {p} s s'"
        "view s' p = Some (stamp_page_checksum xxh lp)" "view s' q = Some (stamp_page_checksum xxh rp)" by blast
    then show ?thesis
    proof cases
      case 2
      then have "on_pages (view s') (Nd p A x)" "on_pages (view s') (Nd q B t)" using wA wB st [OF 2(4)] p(1) by auto
      moreover have "A \<noteq> []" "B \<noteq> []" using e(2,3) sp by (auto simp: children_def)
      ultimately show ?thesis using 2 sp(1) by blast
    qed simp
  qed
qed

section \<open>The recursion\<close>

text \<open>What an insertion makes of a tree: one tree, or two around a separator.\<close>

definition grown :: "nat \<Rightarrow> key option \<Rightarrow> key option \<Rightarrow> key \<Rightarrow> bytes \<Rightarrow> btree \<Rightarrow> 's \<Rightarrow> 's \<Rightarrow>
    (btree \<times> key) list \<Rightarrow> btree \<Rightarrow> bool" where
  "grown h lo hi k v t s s' us u \<longleftrightarrow>
     (\<forall>(x, _) \<in> set us. full h x) \<and> full h u \<and> (\<forall>(x, _) \<in> set us. on_pages (view s') x) \<and> on_pages (view s') u \<and>
     aligned key_ok lo (Nd 0 us u) hi \<and> distinct (pages_list us @ pages u) \<and>
     kvs_list us @ kvs u = bmap_insert k v (kvs t) \<and>
     set (pages_list us @ pages u) \<subseteq> old_or_new (set (pages t)) s s' \<and> evolves (set (pages t)) s s'"

definition ins_is :: "(key \<times> u64) option \<Rightarrow> btree \<Rightarrow> (btree \<times> key) list \<Rightarrow> btree \<Rightarrow> bool" where
  "ins_is r t us u \<longleftrightarrow> (r = None \<and> us = [] \<and> root_page u = root_page t) \<or>
     (\<exists>l sep. r = Some (sep, root_page u) \<and> us = [(l, sep)] \<and> root_page l = root_page t)"

definition insert_good :: "nat \<Rightarrow> key option \<Rightarrow> key option \<Rightarrow> key \<Rightarrow> bytes \<Rightarrow> btree \<Rightarrow> 's \<Rightarrow> ((key \<times> u64) option) result \<times> 's \<Rightarrow> bool" where
  "insert_good h lo hi k v t s out \<longleftrightarrow> fst out = Inl exhausted \<or>
     (\<exists>r us u. fst out = Inr r \<and> ins_is r t us u \<and> grown h lo hi k v t s (snd out) us u)"

lemma insert_goodI:
  "ins_is r t us u \<Longrightarrow> grown h lo hi k v t s s' us u \<Longrightarrow> insert_good h lo hi k v t s (Inr r, s')"
  by (auto simp: insert_good_def)

lemma upserted:
  assumes ar: "around k es A M B" and st: "\<forall>e \<in> set es. E (view s) e" and d: "distinct (p # chains es)"
    and p: "p \<in> dom (view s) - {0}" and ev: "evolves (set (chains M)) s s1"
    and P: "distinct P" "set P \<subseteq> old_or_new (set (chains M)) s s1" "E (view s1) (k, v, P)"
    and srt: "sorted_wrt (<) (map fst es)"
  shows "\<forall>e \<in> set (A @ (k, v, P) # B). E (view s1) e"
    "distinct (p # chains (A @ (k, v, P) # B))"
    "set (p # chains (A @ (k, v, P) # B)) \<subseteq> old_or_new (set (p # chains es)) s s1"
    "sorted_wrt (<) (map fst (A @ (k, v, P) # B))"
    "map kv_of (A @ (k, v, P) # B) = bmap_insert k v (map kv_of es)"
proof -
  have es: "es = A @ M @ B" and M: "M = [] \<or> (\<exists>v0 P0. M = [(k, v0, P0)])"
    and A: "\<forall>x \<in> fst ` set A. x < k" and B: "\<forall>x \<in> fst ` set B. k < x"
    using ar by (simp_all add: around_def)
  have dm: "set (chains es) \<subseteq> dom (view s) - {0}" using entry_pages st by fastforce
  then have AB: "set (chains A) \<union> set (chains B) \<subseteq> dom (view s) - {0}" by (auto simp: es)
  have disj: "set (chains M) \<inter> (set (chains A) \<union> set (chains B)) = {}" "p \<notin> set (chains M)" using d by (auto simp: es)
  have keep: "E (view s1) e" if "e \<in> set A \<union> set B" for e
    using st that disj(1) by (intro entry_evolves [OF ev]) (auto simp: es)
  then show "\<forall>e \<in> set (A @ (k, v, P) # B). E (view s1) e" using P(3) by auto
  have c: "chains (A @ (k, v, P) # B) = chains A @ P @ chains B" by (simp add: chain_of_def)
  have Pd: "set P \<inter> (set (chains A) \<union> set (chains B)) = {}" "p \<notin> set P"
    using P(2) AB disj p unfolding old_or_new_def by blast+
  have "distinct (chains A)" "distinct (chains B)" "set (chains A) \<inter> set (chains B) = {}"
      "p \<notin> set (chains A)" "p \<notin> set (chains B)"
    using d unfolding es map_append concat_append distinct.simps distinct_append set_append by blast+
  then show "distinct (p # chains (A @ (k, v, P) # B))"
    unfolding c distinct.simps distinct_append set_append using Pd P(1) by blast
  have S: "set (p # chains es) = {p} \<union> set (chains A) \<union> set (chains M) \<union> set (chains B)"
    "set (p # chains A @ P @ chains B) = {p} \<union> set (chains A) \<union> set P \<union> set (chains B)" by (auto simp: es)
  show "set (p # chains (A @ (k, v, P) # B)) \<subseteq> old_or_new (set (p # chains es)) s s1"
    unfolding c S using P(2) AB p evolves_dom [OF ev] unfolding old_or_new_def by blast
  have "sorted_wrt (<) (map fst A)" "sorted_wrt (<) (map fst B)" using srt by (simp_all add: es sorted_wrt_append)
  moreover have "\<forall>x \<in> fst ` set A. \<forall>y \<in> fst ` set B. x < y" using A B by (meson less_trans)
  ultimately show "sorted_wrt (<) (map fst (A @ (k, v, P) # B))" using A B by (simp add: sorted_wrt_append)
  have "bmap_insert k v (map kv_of M) = [(k, v)]" using M by auto
  then show "map kv_of (A @ (k, v, P) # B) = bmap_insert k v (map kv_of es)"
    using bmap_insert_around [of "map kv_of A" k "map kv_of B" v "map kv_of M"] A B
    by (simp add: es image_image)
qed

lemma insert_leaf:
  assumes s: "inv s" and t: "on_pages (view s) (Lf p es)" "distinct (pages (Lf p es))" "aligned key_ok lo (Lf p es) hi"
    and k: "above lo k" "below k hi" "key_ok k" and v: "val_ok v"
  shows "insert_good 0 lo hi k v (Lf p es) s
    (bind_st (upsert k v (map raw es) s) (\<lambda>entries tx. store_leaf p entries tx))"
proof -
  obtain r1 s1 where up: "upsert k v (map raw es) s = (r1, s1)" by fastforce
  have d: "distinct (p # chains es)" and p: "p \<noteq> 0" "p \<in> dom (view s)" and srt: "sorted_wrt (<) (map fst es)"
    and st: "\<forall>e \<in> set es. E (view s) e" using t laid_root [OF t(1)] by auto
  have "distinct (chains es)" using d by simp
  from upsert_outcome [OF s k(3) v srt st this up] consider "r1 = Inl exhausted" |
    A M B P where "around k es A M B" "r1 = Inr (map raw (A @ (k, v, P) # B))" "distinct P"
      "set P \<subseteq> old_or_new (set (chains M)) s s1" "evolves (set (chains M)) s s1" "E (view s1) (k, v, P)"
    by blast
  then show ?thesis
  proof cases
    case 1
    then show ?thesis by (simp add: up insert_good_def)
  next
    case 2
    let ?es = "A @ (k, v, P) # B"
    have p': "p \<in> dom (view s) - {0}" using p by simp
    note u = upserted [OF 2(1) st d p' 2(5,3,4,6) srt]
    have M: "set (chains M) \<subseteq> set (chains es)" and AB: "set A \<subseteq> set es" "set B \<subseteq> set es" using 2(1) by (auto simp: around_def)
    have al: "aligned key_ok lo (Lf p ?es) hi" using t(3) u(4) k AB by auto
    obtain r2 s2 where ls: "store_leaf p (map raw ?es) s1 = (r2, s2)" by fastforce
    have p1: "p \<in> dom (view s1)" using p(2) evolves_dom [OF 2(5)] by blast
    have es1: "\<forall>e \<in> set ?es. key_ok (fst e) \<and> E (view s1) e" using u(1) al by auto
    have np: "p \<notin> set (chains ?es)" using u(2) by simp
    have big: "leaf_room (map raw ?es)" by (rule leaf_grows [of s "view s" p, OF s _ 2(1) k(3) 2(6)]) (use t(1) in simp)
    note out = store_leaf_outcome [OF evolves_inv [OF 2(5)] p(1) p1 np u(4) es1 big ls]
    have res: "bind_st (upsert k v (map raw es) s) (\<lambda>entries tx. store_leaf p entries tx) = (r2, s2)"
      using up 2(2) ls by simp
    have kv: "map kv_of ?es = bmap_insert k v (kvs (Lf p es))" using u(5) by simp
    have ev: "evolves (set (pages (Lf p es))) s s2" if "evolves {p} s1 s2"
      by (rule evolves_trans [OF evolves_mono [OF 2(5)] that]) (use M in auto)
    have pg: "set (p # chains ?es) \<subseteq> old_or_new (set (pages (Lf p es))) s s2" if "evolves {p} s1 s2"
      using u(3) old_or_new_mono [OF evolves_dom [OF that], of "set (p # chains es)" "set (p # chains es)" s] by auto
    from out consider "r2 = Inl exhausted" |
      "evolves {p} s1 s2" "r2 = Inr None" "on_pages (view s2) (Lf p ?es)" |
      C R q where "evolves {p} s1 s2" "?es = C @ R" "C \<noteq> []" "R \<noteq> []" "r2 = Inr (Some (fst (last C), q))" "q \<notin> dom (view s1)"
        "on_pages (view s2) (Lf p C)" "on_pages (view s2) (Lf q R)" by blast
    then show ?thesis
    proof cases
      case 1
      then show ?thesis by (simp add: res insert_good_def)
    next
      case fit: 2
      have "grown 0 lo hi k v (Lf p es) s s2 [] (Lf p ?es)"
        unfolding grown_def using fit(3) al u(2) kv pg [OF fit(1)] ev [OF fit(1)] by simp
      moreover have "ins_is None (Lf p es) [] (Lf p ?es)" by (simp add: ins_is_def)
      ultimately show ?thesis using insert_goodI unfolding res fit(2) by blast
    next
      case 3
      have q: "q \<notin> set (p # chains ?es)"
        using 3(6) u(3) unfolding old_or_new_def by blast
      have q': "q \<in> old_or_new (set (pages (Lf p es))) s s2"
        using 3(6,8) evolves_dom [OF 2(5)] laid_root [OF 3(8)] unfolding old_or_new_def by auto
      have "distinct (pages_list [(Lf p C, fst (last C))] @ pages (Lf q R))"
        using q u(2) unfolding 3(2) by (auto simp: pages_list_def)
      moreover have "set (pages_list [(Lf p C, fst (last C))] @ pages (Lf q R)) \<subseteq> old_or_new (set (pages (Lf p es))) s s2"
        using q' pg [OF 3(1)] unfolding 3(2) by (auto simp: pages_list_def)
      ultimately have "grown 0 lo hi k v (Lf p es) s s2 [(Lf p C, fst (last C))] (Lf q R)"
        unfolding grown_def using 3(7,8) leaf_split_aligned [OF al [unfolded 3(2)] 3(3,4)] kv [unfolded 3(2)] ev [OF 3(1)]
        by (simp del: laid.simps aligned.simps)
      moreover have "ins_is (Some (fst (last C), q)) (Lf p es) [(Lf p C, fst (last C))] (Lf q R)" by (simp add: ins_is_def)
      ultimately show ?thesis using insert_goodI unfolding res 3(5) by blast
    qed
  qed
qed

text \<open>The node whose child has been replaced, before it is written.\<close>

lemma node_replaced:
  assumes t: "on_pages (view s) (Nd p ts t)" "distinct (pages (Nd p ts t))" "aligned key_ok lo (Nd p ts t) hi" "full (Suc h) (Nd p ts t)"
    and k: "above lo k" "below k hi"
    and g: "grown h (child_lo lo k ts) (child_hi hi k ts) k v (child_tree k ts t) s s1 us u"
  defines "ts' \<equiv> plug_list k ts us u" and "t' \<equiv> plug_last k ts t u"
  shows "\<forall>(x, _) \<in> set ts'. on_pages (view s1) x" "on_pages (view s1) t'" "\<forall>(x, _) \<in> set ts'. full h x" "full h t'"
    "aligned key_ok lo (Nd p ts' t') hi" "distinct (pages (Nd p ts' t'))"
    "set (pages (Nd p ts' t')) \<subseteq> old_or_new (set (pages (Nd p ts t))) s s1"
    "kvs (Nd p ts' t') = bmap_insert k v (kvs (Nd p ts t))" "view s1 p = view s p"
    "evolves (set (pages (Nd p ts t))) s s1"
proof -
  let ?c = "child_tree k ts t"
  let ?A = "pages_list (before k ts)" and ?B = "concat (map pages (rest_list k ts t))" and ?N = "pages_list us @ pages u"
  have gr: "\<forall>(x, _) \<in> set us. full h x" "full h u" "\<forall>(x, _) \<in> set us. on_pages (view s1) x" "on_pages (view s1) u"
    "aligned key_ok (child_lo lo k ts) (Nd 0 us u) (child_hi hi k ts)" "distinct ?N"
    "kvs_list us @ kvs u = bmap_insert k v (kvs ?c)" "set ?N \<subseteq> old_or_new (set (pages ?c)) s s1"
    "evolves (set (pages ?c)) s s1"
    using g by (simp_all add: grown_def)
  have dm: "set (pages (Nd p ts t)) \<subseteq> dom (view s) - {0}" using laid_pages [OF t(1)] by blast
  have pgs: "pages (Nd p ts t) = p # ?A @ pages ?c @ ?B" "pages (Nd p ts' t') = p # ?A @ ?N @ ?B"
    unfolding ts'_def t'_def by (rule node_parts(1), rule plug_parts(1))
  have d: "p \<notin> set (pages ?c)" "p \<notin> set ?A" "p \<notin> set ?B" "distinct ?A" "distinct ?B" "set ?A \<inter> set ?B = {}"
    "(set ?A \<union> set ?B) \<inter> set (pages ?c) = {}"
    using t(2) unfolding pgs(1) distinct.simps distinct_append set_append by blast+
  have dm': "p \<in> dom (view s) - {0}" "set ?A \<union> set ?B \<subseteq> dom (view s) - {0}"
    using dm unfolding pgs(1) set_simps set_append by blast+
  have N: "set ?N \<inter> (set ?A \<union> set ?B) = {}" "p \<notin> set ?N"
    using gr(8) d dm' unfolding old_or_new_def by blast+
  show "distinct (pages (Nd p ts' t'))"
    unfolding pgs(2) distinct.simps distinct_append set_append using d N gr(6) by (simp only: distinct_append set_append) blast
  show "set (pages (Nd p ts' t')) \<subseteq> old_or_new (set (pages (Nd p ts t))) s s1"
    unfolding pgs set_simps set_append [of ?A] set_append [of ?N] set_append [of "pages ?c"]
    using gr(8) dm' evolves_dom [OF gr(9)] unfolding old_or_new_def by blast
  show "aligned key_ok lo (Nd p ts' t') hi"
    unfolding ts'_def t'_def using plug_aligned [OF t(3)] gr(5) aligned_page by blast
  show "kvs (Nd p ts' t') = bmap_insert k v (kvs (Nd p ts t))"
    unfolding ts'_def t'_def plug_parts(2) node_parts(2) [of p ts t k] gr(7)
    by (rule bmap_insert_around [OF node_keys [OF t(3) k], symmetric])
  show "view s1 p = view s p" using evolves_keeps [OF gr(9)] dm'(1) d(1) by blast
  show "evolves (set (pages (Nd p ts t))) s s1"
    by (rule evolves_mono [OF gr(9)]) (unfold pgs(1), auto)
  have keep: "on_pages (view s1) x" if "on_pages (view s) x" "set (pages x) \<inter> set (pages ?c) = {}" for x
    by (rule laid_evolves [OF gr(9) that])
  have tsf: "\<forall>(x, _) \<in> set ts. full h x" "full h t" and tst: "\<forall>(x, _) \<in> set ts. on_pages (view s) x" "on_pages (view s) t"
    using t(1,4) by auto
  show "\<forall>(x, _) \<in> set ts'. full h x" "full h t'"
    unfolding ts'_def t'_def using plug_trees [OF tsf gr(1,2)] by blast+
  have sub: "set (before k ts) \<subseteq> set ts" using before_after [of ts k] by (metis Un_upper1 set_append)
  have bef: "on_pages (view s1) (fst e)" if "e \<in> set (before k ts)" for e
  proof (rule keep)
    show "on_pages (view s) (fst e)" using that sub tst(1) by (auto simp: case_prod_beta')
    have "set (pages (fst e)) \<subseteq> set ?A" using that by (auto simp: pages_list_def case_prod_beta')
    then show "set (pages (fst e)) \<inter> set (pages ?c) = {}" using d(7) by blast
  qed
  have rst: "on_pages (view s1) x" if "x \<in> set (rest_list k ts t)" for x
  proof (rule keep)
    have "set (after k ts) \<subseteq> set ts" using before_after [of ts k] by (metis Un_upper2 set_append)
    then show "on_pages (view s) x"
      using that tst by (cases "after k ts") (auto simp: rest_list_def case_prod_beta')
    show "set (pages x) \<inter> set (pages ?c) = {}" using that d(7) by auto
  qed
  show "\<forall>(x, _) \<in> set ts'. on_pages (view s1) x" "on_pages (view s1) t'"
    using gr(3,4) bef rst unfolding ts'_def t'_def
    by (cases "after k ts"; simp add: plug_list_def plug_last_def rest_list_def case_prod_beta' ball_Un)+
qed

lemma insert_node:
  assumes s: "inv s"
    and t: "on_pages (view s) (Nd p ts t)" "distinct (pages (Nd p ts t))" "aligned key_ok lo (Nd p ts t) hi" "full (Suc h) (Nd p ts t)"
    and k: "above lo k" "below k hi"
    and child: "insert_good h (child_lo lo k ts) (child_hi hi k ts) k v (child_tree k ts t) s out"
  shows "insert_good (Suc h) lo hi k v (Nd p ts t) s (bind_st out (\<lambda>x tx. case x of None \<Rightarrow> (Inr None, tx)
    | Some (sep, q) \<Rightarrow> put_inner p (split_children k (children ts) (root_page t) sep q) (split_last k (children ts) (root_page t) q) tx))"
    (is "insert_good _ _ _ _ _ _ _ (bind_st out ?cont)")
proof (cases "fst out = Inl exhausted")
  case True
  then show ?thesis by (cases out) (simp add: insert_good_def)
next
  case False
  then obtain r us u s1 where out: "out = (Inr r, s1)" and ins: "ins_is r (child_tree k ts t) us u"
    and g: "grown h (child_lo lo k ts) (child_hi hi k ts) k v (child_tree k ts t) s s1 us u"
    using child by (cases out) (auto simp: insert_good_def)
  let ?ts = "plug_list k ts us u" and ?t = "plug_last k ts t u"
  note n = node_replaced [OF t k g]
  have p: "p \<noteq> 0" "p \<in> dom (view s)" using laid_root [OF t(1)] by auto
  have whole: "insert_good (Suc h) lo hi k v (Nd p ts t) s (Inr None, s2)"
    if "evolves {p} s1 s2" "on_pages (view s2) (Nd p ?ts ?t)" "?ts \<noteq> []" for s2
  proof (rule insert_goodI)
    show "ins_is None (Nd p ts t) [] (Nd p ?ts ?t)" by (simp add: ins_is_def)
    have "evolves (set (pages (Nd p ts t))) s s2"
      by (rule evolves_trans [OF n(10) that(1)]) auto
    moreover have "set (pages (Nd p ?ts ?t)) \<subseteq> old_or_new (set (pages (Nd p ts t))) s s2"
      using n(7) old_or_new_mono [OF evolves_dom [OF that(1)] subset_refl] by blast
    ultimately show "grown (Suc h) lo hi k v (Nd p ts t) s s2 [] (Nd p ?ts ?t)"
      unfolding grown_def using that(2,3) n(3-6,8) by (simp del: laid.simps kvs.simps pages.simps)
  qed
  have ts: "ts \<noteq> []" using t(4) by auto
  have l: "length ts = length (before k ts) + length (after k ts)" by (metis before_after length_append)
  show ?thesis
  proof (cases r)
    case None
    then have us: "us = []" "root_page u = root_page (child_tree k ts t)" using ins by (auto simp: ins_is_def)
    have "N (view s1) p (children ts) (root_page t)" using t(1) n(9) by (auto intro: inner_cong [of "view s"])
    then have "on_pages (view s1) (Nd p ?ts ?t)" using n(1,2) fit_children_plug [OF us(2)] unfolding us(1) by simp
    moreover have "?ts \<noteq> []" using l ts by (cases "after k ts") (auto simp: plug_list_def)
    ultimately show ?thesis
      using whole [OF evolves_refl] evolves_inv [OF n(10)] by (simp add: out None)
  next
    case (Some y)
    then obtain sep x where us: "us = [(x, sep)]" "root_page x = root_page (child_tree k ts t)" and y: "y = (sep, root_page u)"
      using ins by (auto simp: ins_is_def)
    note node = split_children_plug [OF us(2), folded us(1)]
    obtain r2 s2 where st: "put_inner p (children ?ts) (root_page ?t) s1 = (r2, s2)" by fastforce
    have res: "bind_st out ?cont = (r2, s2)" using st node by (simp add: out Some y us(1))
    have room: "inner_room (map fst (children ?ts))"
    proof -
      have "N (view s) p (split_before k (children ts) @ split_after k (children ts)) (root_page t)"
        using t(1) by (simp add: split_before_def split_after_def)
      moreover have "key_ok sep" using n(5) aligned_seps [of key_ok lo p ?ts ?t hi] by (auto simp: plug_list_def us(1))
      ultimately have "inner_room (map fst (split_children k (children ts) (root_page t) sep (root_page u)))"
        unfolding split_children_keys by (rule inner_grows [OF s])
      then show ?thesis using node(1) by (simp add: us(1))
    qed
    have p1: "p \<in> dom (view s1)" using p(2) evolves_dom [OF n(10)] by blast
    have np: "p \<notin> set (pages_list ?ts @ pages ?t)" using n(6) by (simp add: pages_Nd del: pages.simps)
    have ne: "?ts \<noteq> []" by (simp add: plug_list_def us(1))
    from put_inner_outcome [OF evolves_inv [OF n(10)] p(1) p1 np n(1,2,5) ne room st]
    consider "r2 = Inl exhausted" | "evolves {p} s1 s2" "r2 = Inr None" "on_pages (view s2) (Nd p ?ts ?t)" |
      C z sp R q where "evolves {p} s1 s2" "?ts = C @ (z, sp) # R" "C \<noteq> []" "R \<noteq> []" "r2 = Inr (Some (sp, q))"
        "q \<notin> dom (view s1)" "on_pages (view s2) (Nd p C z)" "on_pages (view s2) (Nd q R ?t)" by blast
    then show ?thesis
    proof cases
      case 1
      then show ?thesis by (simp add: res insert_good_def)
    next
      case 2
      then show ?thesis using whole [OF 2(1,3) ne] by (simp add: res)
    next
      case 3
      let ?us = "[(Nd p C z, sp)]" and ?u = "Nd q R ?t"
      have q: "q \<notin> set (pages (Nd p ?ts ?t))" using 3(6) n(7) unfolding old_or_new_def by blast
      have pgs: "pages_list ?us @ pages ?u = p # (pages_list C @ pages z) @ q # pages_list R @ pages ?t"
        "pages (Nd p ?ts ?t) = p # (pages_list C @ pages z) @ pages_list R @ pages ?t"
        unfolding 3(2) by (simp_all add: pages_Nd del: pages.simps)
      have "distinct (pages_list ?us @ pages ?u)" using n(6) q unfolding pgs by auto
      moreover have "set (pages_list ?us @ pages ?u) \<subseteq> old_or_new (set (pages (Nd p ts t))) s s2"
      proof -
        have "q \<in> old_or_new (set (pages (Nd p ts t))) s s2"
          using 3(6) evolves_dom [OF n(10)] laid_root [OF 3(8)] unfolding old_or_new_def by auto
        moreover have "set (pages (Nd p ?ts ?t)) \<subseteq> old_or_new (set (pages (Nd p ts t))) s s2"
          using n(7) old_or_new_mono [OF evolves_dom [OF 3(1)] subset_refl] by blast
        ultimately show ?thesis unfolding pgs by auto
      qed
      moreover have "evolves (set (pages (Nd p ts t))) s s2"
        by (rule evolves_trans [OF n(10) 3(1)]) auto
      moreover have "aligned key_ok lo (Nd 0 ?us ?u) hi"
        using n(5) aligned_page [of key_ok "Some sp" p R ?t hi q] unfolding 3(2) aligned_append by simp
      moreover have "kvs_list ?us @ kvs ?u = bmap_insert k v (kvs (Nd p ts t))"
        using n(8) unfolding 3(2) by (simp add: kvs_Nd del: kvs.simps)
      moreover have "full (Suc h) (Nd p C z)" "full (Suc h) ?u" using n(3,4) 3(3,4) unfolding 3(2) by auto
      ultimately have "grown (Suc h) lo hi k v (Nd p ts t) s s2 ?us ?u"
        unfolding grown_def using 3(7,8) by (simp del: laid.simps kvs.simps pages.simps full.simps aligned.simps)
      moreover have "ins_is (Some (sp, q)) (Nd p ts t) ?us ?u" by (simp add: ins_is_def)
      ultimately show ?thesis using insert_goodI unfolding res 3(5) by blast
    qed
  qed
qed

lemma ins_at_good:
  assumes "inv s" "on_pages (view s) t" "distinct (pages t)" "aligned key_ok lo t hi" "full h t"
    "above lo k" "below k hi" "key_ok k" "val_ok v" "h + depth < MAX_DEPTH"
  shows "insert_good h lo hi k v t s (ins_at k v (root_page t) depth s)"
  using assms
proof (induction h arbitrary: t lo hi depth)
  case 0
  obtain p es where t: "t = Lf p es" using "0.prems"(5) by (cases t) auto
  then show ?case
    using insert_leaf [OF assms(1) "0.prems"(2-4)[unfolded t] "0.prems"(6-9)] ins_leaf [OF assms(1), of p es depth k v] "0.prems"(2,10) by simp
next
  case (Suc h)
  obtain p ts t' where t: "t = Nd p ts t'" using Suc.prems(5) by (cases t) auto
  let ?c = "child_tree k ts t'"
  note al = Suc.prems(4) [unfolded t] Suc.prems(6,7)
  have "on_pages (view s) ?c" "full h ?c" using child_in [of k ts t'] Suc.prems(2,5) by (auto simp: t)
  moreover have "distinct (pages ?c)" using Suc.prems(3) unfolding t node_parts(1) [of p ts t' k] by simp
  ultimately have "insert_good h (child_lo lo k ts) (child_hi hi k ts) k v ?c s (ins_at k v (root_page ?c) (depth + 1) s)"
    using Suc.prems(8-10) child_aligned [OF al] assms(1) by (intro Suc.IH) simp_all
  from insert_node [OF assms(1) Suc.prems(2-5) [unfolded t] Suc.prems(6,7) this] show ?case
    using ins_inner [OF assms(1), of p "children ts" "root_page t'" depth k v] Suc.prems(2,10) by (simp add: t child_page_tree)
qed

section \<open>A new root\<close>

abbreviation at_root :: "'s \<Rightarrow> u64 \<Rightarrow> (key \<times> bytes) list \<Rightarrow> u64 set \<Rightarrow> bool" where
  "at_root s \<equiv> tree_at key_ok E L N (view s)"

text \<open>\<open>F\<close> is what the code does with the page number of the new root.\<close>

lemma first_leaf_outcome:
  assumes s: "inv s" and k: "key_ok k" and ev: "evolves {} s s1" and P: "distinct P" "set P \<subseteq> old_or_new {} s s1" "E (view s1) (k, v, P)"
    and out: "bind_st (po_alloc po s1) (\<lambda>p tx. bind_st (ok_or e (enc_leaf [raw (k, v, P)]), tx) (\<lambda>page tx.
      bind_st (po_write po p page tx) (\<lambda>_ tx. F p tx))) = (r, s')"
  shows "r = Inl exhausted \<or> (\<exists>p s2 K. F p s2 = (r, s') \<and> evolves {} s s2 \<and> at_root s2 p [(k, v)] K \<and> K \<subseteq> old_or_new {} s s2)"
proof -
  let ?e = "(k, v, P)"
  obtain page where page: "enc_leaf (map raw [?e]) = Some page" using leaf_single [OF s k P(3)] by auto
  note w = leaf_written [OF s page]
  from evolves_inv [OF ev] show ?thesis
  proof (cases rule: alloc_cases)
    case (no_page s2)
    then show ?thesis using out by simp
  next
    case (fresh p s2)
    have len: "length page = unat ps" using w [of "view s1"] k P(3) by simp
    obtain s3 where s3: "po_write po p page s2 = (Inr (), s3)" "evolves {p} s2 s3" "dom (view s3) = dom (view s2)"
        "view s3 p = Some (stamp_page_checksum xxh page)"
      by (rule write_evolves [OF evolves_inv [OF fresh(5)] fresh(2,4) len])
    have Pd: "set P \<subseteq> dom (view s1) - {0}" "set P \<inter> dom (view s) = {}" using P(2) unfolding old_or_new_def by blast+
    have pP: "p \<notin> set P" using Pd fresh(3) by blast
    have "E (view s2) ?e" by (rule entry_evolves [OF fresh(5) P(3)]) simp
    then have E3: "E (view s3) ?e" by (rule entry_evolves [OF s3(2)]) (use pP in \<open>simp add: chain_of_def\<close>)
    then have "on_pages (view s3) (Lf p [?e])" using w [of "view s3" p] k s3(4) fresh(2) by simp
    then have "at_root s3 p [(k, v)] (set (p # P))"
      using tree_atI [of E L N "view s3" "Lf p [?e]" key_ok 0] P(1) pP k fresh(2) by (simp add: chain_of_def)
    moreover have "evolves {} s s3"
      by (rule evolves_trans [OF evolves_trans [OF ev fresh(5)] s3(2)]) (use fresh(3) evolves_dom [OF ev] in auto)
    moreover have "set (p # P) \<subseteq> old_or_new {} s s3"
      using Pd fresh(2-4) s3(3) evolves_dom [OF ev] evolves_dom [OF fresh(5)] unfolding old_or_new_def set_simps by blast
    moreover have "F p s3 = (r, s')" using out page fresh(1) s3(1) by simp
    ultimately show ?thesis by blast
  qed
qed

lemma new_root_outcome:
  assumes s: "inv s" and g: "grown h None None k v t s0 s [(l, sep)] u"
    and out: "bind_st (po_alloc po s) (\<lambda>p tx. bind_st (ok_or e (enc_inner [(sep, root_page l)] (root_page u)), tx) (\<lambda>page tx.
      bind_st (po_write po p page tx) (\<lambda>_ tx. F p tx))) = (r, s')"
  shows "r = Inl exhausted \<or> (\<exists>p s1 K. F p s1 = (r, s') \<and> evolves (set (pages t)) s0 s1 \<and>
    at_root s1 p (bmap_insert k v (kvs t)) K \<and> K \<subseteq> old_or_new (set (pages t)) s0 s1)"
proof -
  have gr: "full h l" "full h u" "on_pages (view s) l" "on_pages (view s) u" "aligned key_ok None (Nd 0 [(l, sep)] u) None"
    "distinct (pages l @ pages u)" "kvs l @ kvs u = bmap_insert k v (kvs t)"
    "set (pages l @ pages u) \<subseteq> old_or_new (set (pages t)) s0 s" "evolves (set (pages t)) s0 s"
    using g by (simp_all add: grown_def)
  have ch: "children [(l, sep)] = [(sep, root_page l)]" by (simp add: children_def)
  have "\<forall>(x, _) \<in> set [(l, sep)]. on_pages (view s) x" using gr(3) by simp
  note ok = children_ok [OF gr(5) this gr(4), unfolded ch]
  obtain page where page: "enc_inner [(sep, root_page l)] (root_page u) = Some page"
    using inner_single [OF s, of sep] ok(2) by fastforce
  note w = inner_written [OF s page ok]
  from s show ?thesis
  proof (cases rule: alloc_cases)
    case (no_page s1)
    then show ?thesis using out by simp
  next
    case (fresh p s1)
    have len: "length page = unat ps" using w by blast
    obtain s2 where s2: "po_write po p page s1 = (Inr (), s2)" "evolves {p} s1 s2" "dom (view s2) = dom (view s1)"
        "view s2 p = Some (stamp_page_checksum xxh page)"
      by (rule write_evolves [OF evolves_inv [OF fresh(5)] fresh(2,4) len])
    have lu: "set (pages l @ pages u) \<subseteq> dom (view s) - {0}" using gr(8) unfolding old_or_new_def by blast
    have ev: "evolves {} s s2" by (rule evolves_trans [OF fresh(5) s2(2)]) (use fresh(3) in auto)
    have pn: "p \<notin> set (pages l @ pages u)" using lu fresh(3) by blast
    let ?t = "Nd p [(l, sep)] u"
    have al: "aligned key_ok None ?t None" using gr(5) aligned_page [of key_ok None p "[(l, sep)]" u None 0] by blast
    have "on_pages (view s2) ?t"
      using w [of "view s2" p] s2(4) fresh(2) laid_evolves [OF ev gr(3)] laid_evolves [OF ev gr(4)] by (simp add: ch)
    moreover have "full (Suc h) ?t" "distinct (pages ?t)" using gr(1,2,6) pn by simp_all
    ultimately have "at_root s2 p (bmap_insert k v (kvs t)) (set (pages ?t))"
      using tree_atI [of E L N "view s2" ?t key_ok "Suc h"] al fresh(2) gr(7) by (simp del: laid.simps full.simps aligned.simps)
    moreover have "evolves (set (pages t)) s0 s2" by (rule evolves_trans [OF gr(9) ev]) simp
    moreover have "set (pages ?t) \<subseteq> old_or_new (set (pages t)) s0 s2"
    proof -
      have "p \<in> old_or_new (set (pages t)) s0 s2"
        using fresh(2-4) s2(3) evolves_dom [OF gr(9)] unfolding old_or_new_def by blast
      moreover have "set (pages l @ pages u) \<subseteq> old_or_new (set (pages t)) s0 s2"
        using gr(8) old_or_new_mono [OF evolves_dom [OF ev] subset_refl] by blast
      ultimately show ?thesis by auto
    qed
    moreover have "F p s2 = (r, s')" using out page fresh(1) s2(1) by simp
    ultimately show ?thesis by blast
  qed
qed

text \<open>An insertion below an existing root, and the new root the code makes when it was split: \<open>G\<close> is what it does when it was not.\<close>

lemma insert_root_outcome:
  assumes s: "inv s" and tree: "at_root s r m K" "r \<noteq> 0" and k: "key_ok k" and v: "val_ok v"
    and out: "bind_st (ins_at k v r 0 s) (\<lambda>x tx. case x of None \<Rightarrow> G tx
      | Some (sep, q) \<Rightarrow> bind_st (po_alloc po tx) (\<lambda>p tx. bind_st (ok_or e (enc_inner [(sep, r)] q), tx) (\<lambda>page tx.
          bind_st (po_write po p page tx) (\<lambda>_ tx. F p tx)))) = (y, s')"
  shows "y = Inl exhausted \<or> (\<exists>p s1 K'. (F p s1 = (y, s') \<or> p = r \<and> G s1 = (y, s')) \<and> evolves K s s1 \<and>
    at_root s1 p (bmap_insert k v m) K' \<and> K' \<subseteq> old_or_new K s s1)"
  using tree(1)
proof (cases rule: tree_atE)
  case (2 t h)
  have "h + 0 < MAX_DEPTH" using tree_height [OF 2(3,4,6)] by simp
  note good = ins_at_good [OF s 2(3,4,5,6) _ _ k v this, simplified]
  obtain x s1 where ir: "ins_at k v r 0 s = (x, s1)" by fastforce
  from good ir 2(2) consider "x = Inl exhausted" | i us u where "x = Inr i" "ins_is i t us u" "grown h None None k v t s s1 us u"
    by (auto simp: insert_good_def)
  then show ?thesis
  proof cases
    case 1
    then show ?thesis using out ir by simp
  next
    case ins: 2
    have ev: "evolves (set (pages t)) s s1" using ins(3) by (simp add: grown_def)
    show ?thesis
    proof (cases i)
      case None
      have us: "us = []" "root_page u = r" using ins(2) None 2(2) by (simp_all add: ins_is_def)
      have g: "full h u" "on_pages (view s1) u" "aligned key_ok None u None" "distinct (pages u)" "kvs u = bmap_insert k v m"
          "set (pages u) \<subseteq> old_or_new K s s1"
        using ins(3) 2(7,8) by (simp_all add: grown_def us(1))
      have "at_root s1 r (bmap_insert k v m) (set (pages u))" using tree_atI [OF g(2,4,3,1)] us(2) 2(1) g(5) by simp
      moreover have "G s1 = (y, s')" using out ir ins(1) None by simp
      ultimately show ?thesis using ev g(6) 2(8) by blast
    next
      case (Some z)
      then obtain l sep where us: "us = [(l, sep)]" "root_page l = r" "z = (sep, root_page u)"
        using ins(2) 2(2) by (auto simp: ins_is_def)
      have "bind_st (po_alloc po s1) (\<lambda>p tx. bind_st (ok_or e (enc_inner [(sep, root_page l)] (root_page u)), tx) (\<lambda>page tx.
          bind_st (po_write po p page tx) (\<lambda>_ tx. F p tx))) = (y, s')"
        using out ir ins(1) Some us by simp
      from new_root_outcome [OF evolves_inv [OF ev] ins(3) [unfolded us(1)] this] show ?thesis unfolding 2(7,8) by blast
    qed
  qed
qed (use tree(2) in simp)

end

end
