(* ===== verification/Btree_Insert.thy ===== *)
theory Btree_Insert
  imports Btree_Tree Paged_Insert
begin

text \<open>
  Insertion into the record B-tree refines insertion into the sorted association list it stands for: the node format and
  the code of the recursion keep the laws of the locale \<open>tree_writer\<close>, over any transaction that keeps those of \<open>page_txn\<close>,
  and the transaction of the pager does. The only error an insertion into a well-formed tree can meet is that the page
  numbers are used up; no internal error is reachable.
\<close>

section \<open>Overflow pages\<close>

lemma chain_length: "chain V pgs cs \<Longrightarrow> length pgs = length cs"
  by (induction V pgs cs rule: chain.induct) auto

lemma overflow_page_read:
  assumes "page_size_is_valid ps" "length c \<le> overflow_capacity ps"
  shows "get_range (stamp_page_checksum xxh (overflow_page ps q c)) 16 (16 + length c) = Some c"
    and "page_header_decode (stamp_page_checksum xxh (overflow_page ps q c)) =
      Some \<lparr>ph_page_type = page_type.Overflow, ph_entry_count = word_of_nat (length c), ph_next_page = q\<rparr>"
    and "length (overflow_page ps q c) = unat ps"
proof -
  let ?h = "\<lparr>ph_page_type = page_type.Overflow, ph_entry_count = word_of_nat (length c), ph_next_page = q\<rparr>"
  let ?p0 = "page_header_encode_into ?h (replicate (unat ps) 0)" and ?pg = "overflow_page ps q c"
  have fit: "16 + length c + 8 \<le> unat ps" "512 \<le> unat ps"
    using assms usable_bounds [OF assms(1)] by (simp_all add: overflow_capacity_def)
  have pg: "?pg = write_bytes ?p0 16 c" by (simp add: overflow_page_def)
  show len: "length ?pg = unat ps" by (simp add: pg)
  have "holds_at ?pg 16 c" unfolding pg using fit by (intro holds_at_write) simp
  then have "holds_at (stamp_page_checksum xxh ?pg) 16 c" using fit len by (intro stamp_holds) simp_all
  then show "get_range (stamp_page_checksum xxh ?pg) 16 (16 + length c) = Some c" by (rule holds_at_range)
  have "holds_at ?pg 0 (page_header_bytes ?h)"
    using fit page_header_encode_seg [of "replicate (unat ps) 0" ?h]
    by (simp add: pg holds_at_def seg_write_before)
  then have "holds_at (stamp_page_checksum xxh ?pg) 0 (page_header_bytes ?h)"
    using fit len by (intro stamp_holds) simp_all
  then show "page_header_decode (stamp_page_checksum xxh ?pg) = Some ?h"
    using fit len by (intro page_header_decode_seg) (simp_all add: holds_at_def)
qed

lemma length_chunks: "0 < n \<Longrightarrow> length (chunks n xs) = (length xs + n - 1) div n"
proof (induction n xs rule: chunks.induct)
  case (1 n xs)
  show ?case
  proof (cases "xs = []")
    case False
    then have "length (chunks n xs) = Suc ((length xs - n + n - 1) div n)"
      using 1 by (simp add: chunks_step)
    also have "\<dots> = (length xs + n - 1) div n"
    proof (cases "n \<le> length xs")
      case True
      then have "length xs + n - 1 = (length xs - n + n - 1) + n" using 1(2) by simp
      then show ?thesis using 1(2) by (simp only: div_add_self2)
    next
      case less: False
      have "0 < length xs" using False by simp
      then have "length xs + n - 1 = (length xs - 1) + n" "length xs - 1 < n" "length xs - n + n - 1 < n"
        using less 1(2) by linarith+
      then show ?thesis using 1(2) by (simp only: div_add_self2 div_less)
    qed
    finally show ?thesis .
  qed (use 1(2) in simp)
qed

section \<open>Splitting a leaf\<close>

text \<open>The footprint of an entry is at most a quarter of the usable bytes.\<close>

lemma entry_footprint:
  assumes "entry_stored V ps e" "page_size_is_valid ps"
  shows "footprint (entry_of e) \<le> usable ps div 4"
proof -
  have "122 \<le> usable ps div 4" using usable_bounds(2) [OF assms(2)] by simp
  then show ?thesis
    using assms(1)
    by (auto simp: footprint_def entry_of_def cell_of_def entry_stored_def max_inline_value_def max_entry_footprint_def
        split: prod.splits list.splits if_splits)
qed

abbreviation footprints :: "leaf_entry list \<Rightarrow> nat" where
  "footprints es \<equiv> sum_list (map footprint es)"

lemma footprints_sum: "footprints es = length es * 20 + cells_len es"
  by (induction es) (simp_all add: footprint_def)

lemma encode_leaf_None: "page_size_is_valid ps \<Longrightarrow> encode_leaf es ps = None \<longleftrightarrow> usable ps < footprints es"
  using usable_bounds [of ps] by (auto simp: encode_leaf_fits footprints_sum)

lemma leaf_cut_bounds:
  assumes "acc < half" "half \<le> acc + footprints es" "\<forall>e \<in> set es. footprint e \<le> m"
  shows "0 < leaf_cut half acc es" "leaf_cut half acc es \<le> length es"
    "half \<le> acc + footprints (take (leaf_cut half acc es) es)"
    "acc + footprints (take (leaf_cut half acc es) es) < half + m"
  using assms by (induction half acc es rule: leaf_cut.induct) (auto simp: Let_def)

lemma leaf_halves:
  assumes ps: "page_size_is_valid ps" and m: "\<forall>e \<in> set es. footprint e \<le> usable ps div 4"
    and big: "usable ps < footprints es" "footprints es \<le> usable ps + usable ps div 4"
    and c: "c = leaf_cut (footprints es div 2) 0 es"
  shows "take c es \<noteq> []" "drop c es \<noteq> []" "footprints (take c es) \<le> usable ps" "footprints (drop c es) \<le> usable ps"
proof -
  let ?u = "usable ps" and ?T = "footprints es"
  have u: "488 \<le> ?u" using usable_bounds(2) [OF ps] .
  have pre: "0 < ?T div 2" "?T div 2 \<le> 0 + ?T" using big u by simp_all
  note b = leaf_cut_bounds [OF pre m, folded c]
  have sum: "footprints (take c es) + footprints (drop c es) = ?T"
    by (metis append_take_drop_id map_append sum_list_append)
  have le: "footprints (take c es) < ?T div 2 + ?u div 4" "?T div 2 \<le> footprints (take c es)"
    using b by simp_all
  show "take c es \<noteq> []" using b(1,2) by (cases es) auto
  show "footprints (take c es) \<le> ?u" "footprints (drop c es) \<le> ?u" using le sum big u by linarith+
  have "0 < footprints (drop c es)" using le sum big u by linarith
  then show "drop c es \<noteq> []" by auto
qed

lemma leaf_ok_entries:
  assumes "sorted_wrt (<) (map fst es)" "\<forall>e \<in> set es. length (fst e) = 16" "\<forall>e \<in> set es. entry_stored V ps' e"
  shows "leaf_ok (map entry_of es)"
proof -
  have "cell_wf (le_cell (entry_of e)) \<and> length (le_key (entry_of e)) = 16" if "e \<in> set es" for e
  proof -
    obtain k v P where e: "e = (k, v, P)" by (cases e)
    have "entry_stored V ps' e" "length k = 16" using assms(2,3) that e by auto
    then show ?thesis
      using chain_pages_stored [of V P _ "hd P"]
      by (cases P) (auto simp: e entry_of_def cell_of_def entry_stored_def unat_of_nat MAX_RECORD_LEN_def split: if_splits)
  qed
  then show ?thesis using assms(1) by (simp add: leaf_ok_def entry_of_def split_beta comp_def)
qed

text \<open>The leaf entries of an upsert, one longer than a page may hold.\<close>

lemma record_leaf_room:
  assumes "record_leaf ps V p es" "around k es A M B" "page_size_is_valid ps" "entry_stored V' ps (k, v, P)"
  shows "footprints (map entry_of (A @ (k, v, P) # B)) \<le> usable ps + usable ps div 4"
proof -
  have "footprints (map entry_of es) \<le> usable ps"
    using assms(1) encode_leaf_None [OF assms(3), of "map entry_of es"] by (auto simp: record_leaf_def)
  moreover have "footprints (map entry_of es) = footprints (map entry_of A) + footprints (map entry_of M) + footprints (map entry_of B)"
    using assms(2) by (simp add: around_def)
  moreover have "footprint (entry_of (k, v, P)) \<le> usable ps div 4" by (rule entry_footprint [OF assms(4,3)])
  moreover have "footprints (map entry_of (A @ (k, v, P) # B)) =
      footprints (map entry_of A) + footprint (entry_of (k, v, P)) + footprints (map entry_of B)" by simp
  ultimately show ?thesis by linarith
qed

section \<open>The code in the terms of the format\<close>

text \<open>The outcome of the code as an optional split, and an inner node as its entries and its last child.\<close>

fun split_of :: "ins \<Rightarrow> (key \<times> u64) option" where
  "split_of Fit = None"
| "split_of (Split sep q) = Some (sep, q)"

lemma case_split_of [simp]: "(case split_of x of None \<Rightarrow> a | Some y \<Rightarrow> f y) = (case x of Fit \<Rightarrow> a | Split sep q \<Rightarrow> f (sep, q))"
  by (cases x) simp_all

abbreviation as_split :: "ins result \<times> 's \<Rightarrow> ((key \<times> u64) option) result \<times> 's" where
  "as_split \<equiv> outcome_as split_of"

abbreviation inner_node_of :: "(key \<times> u64) list \<Rightarrow> u64 \<Rightarrow> inner_node" where
  "inner_node_of cs r \<equiv> \<lparr>in_entries = cs, in_rightmost = r\<rparr>"

lemma inner_index_before: "inner_index (inner_node_of cs r) k = length (split_before k cs)"
  by (simp add: inner_index_def split_before_def)

lemma inner_child_page: "inner_child (inner_node_of cs r) (inner_index (inner_node_of cs r) k) = child_page k cs r"
  unfolding inner_index_def child_page_def by (induction cs) (auto simp: inner_child_def get_at_def)

lemma inner_split_children:
  "inner_split_child (inner_node_of cs r) (inner_index (inner_node_of cs r) k) sep (child_page k cs r) q =
   inner_node_of (split_children k cs r sep q) (split_last k cs r q)"
proof -
  have cs: "cs = split_before k cs @ split_after k cs" by (simp add: split_before_def split_after_def)
  have "inner_split_child (inner_node_of (A @ B) r) (length A) sep c q = inner_node_of (A @ (sep, c) #
     (case B of [] \<Rightarrow> [] | (sep', _) # rest \<Rightarrow> (sep', q) # rest)) (case B of [] \<Rightarrow> q | _ \<Rightarrow> r)" for A B c
    by (cases B) (simp_all add: inner_split_child_def split_beta list_update_append nth_append)
  from this [of "split_before k cs" "split_after k cs"] show ?thesis
    unfolding inner_index_before split_children_def split_last_def cs [symmetric] .
qed

section \<open>The record tree over a transaction\<close>

locale record_txn = page_txn
begin

lemma write_chain_outcome:
  assumes "inv s" "length P = length cs" "distinct P" "set P \<subseteq> dom (view s) - {0}"
    "\<forall>c \<in> set cs. length c \<le> overflow_capacity ps"
  shows "\<exists>s'. write_chain po P cs s = (Inr (), s') \<and> evolves (set P) s s' \<and> dom (view s') = dom (view s) \<and>
    chain (view s') P cs"
  using assms
proof (induction P arbitrary: cs s)
  case (Cons p P)
  obtain c cs' where cs: "cs = c # cs'" using Cons.prems(2) by (cases cs) auto
  let ?q = "case P of q # _ \<Rightarrow> q | [] \<Rightarrow> 0"
  note ov = overflow_page_read [OF size_valid [OF Cons.prems(1)], of c]
  have c: "length c \<le> overflow_capacity ps" using Cons.prems(5) cs by simp
  obtain s1 where s1: "po_write po p (overflow_page ps ?q c) s = (Inr (), s1)" "evolves {p} s s1"
      "dom (view s1) = dom (view s)" "view s1 p = Some (stamp_page_checksum xxh (overflow_page ps ?q c))"
    using Cons.prems(4) ov(3) [OF c] by (auto intro: write_evolves [OF Cons.prems(1), of p])
  obtain s2 where s2: "write_chain po P cs' s1 = (Inr (), s2)" "evolves (set P) s1 s2" "dom (view s2) = dom (view s1)"
      "chain (view s2) P cs'"
    using Cons.IH [of s1 cs'] Cons.prems evolves_inv [OF s1(2)] s1(3) cs by auto
  have "view s2 p = view s1 p"
    using evolves_keeps [OF s2(2)] Cons.prems(3,4) s1(3) by auto
  then have "chain (view s2) (p # P) (c # cs')"
    using s1(4) s2(4) ov [OF c] Cons.prems(4) by simp
  moreover have "evolves (set (p # P)) s s2"
    by (rule evolves_trans [OF evolves_mono [OF s1(2)] s2(2)]) auto
  ultimately show ?case using s1(1,3) s2(1,3) by (simp add: cs)
qed (simp add: evolves_refl)

lemma make_cell_outcome:
  assumes "inv s" "distinct R" "set R \<subseteq> dom (view s) - {0}" "length v \<le> MAX_RECORD_LEN"
    "make_cell po v R s = (r, s')"
  shows "r = Inl exhausted \<or> (\<exists>P. r = Inr (cell_of v P) \<and> distinct P \<and> set P \<subseteq> old_or_new (set R) s s' \<and>
    evolves (set R) s s' \<and> (\<forall>k. entry_stored (view s') ps (k, v, P)))"
proof (cases "length v \<le> max_inline_value ps")
  case True
  then show ?thesis
    using assms evolves_refl [OF assms(1)]
    by (auto simp: make_cell_def cell_of_def entry_stored_def intro!: exI [of _ "[]"])
next
  case False
  let ?cs = "chunks (overflow_capacity ps) v"
  have cap: "0 < overflow_capacity ps"
    using usable_bounds [OF size_valid [OF assms(1)]] by (simp add: overflow_capacity_def)
  have ne: "?cs \<noteq> []" using False chunks_step [OF cap, of v] by (cases v) auto
  obtain r1 s1 where pk: "pick_pages po R (length ?cs) s = (r1, s1)" by fastforce
  from pick_pages_outcome [OF assms(1-3) pk] consider "r1 = Inl exhausted" |
    P where "r1 = Inr P" "length P = length ?cs" "distinct P" "set P \<subseteq> old_or_new (set R) s s1" "evolves {} s s1" by auto
  then show ?thesis
  proof cases
    case 1
    then show ?thesis using assms(5) False pk by (auto simp: make_cell_def write_overflow_def Let_def)
  next
    case 2
    have P: "set P \<subseteq> dom (view s1) - {0}" using 2(4) by (auto simp: old_or_new_def)
    have "\<forall>c \<in> set ?cs. length c \<le> overflow_capacity ps" using chunks_bounds [OF cap] by blast
    from write_chain_outcome [OF evolves_inv [OF 2(5)] 2(2,3) P this]
    obtain s2 where s2: "write_chain po P ?cs s1 = (Inr (), s2)" "evolves (set P) s1 s2" "dom (view s2) = dom (view s1)"
      "chain (view s2) P ?cs" by blast
    obtain p P' where Pc: "P = p # P'" using 2(2) ne by (cases P) auto
    have "(r, s') = (Inr (cell_of v P), s2)"
      using assms(5) False pk s2(1) 2(1) Pc by (simp add: make_cell_def write_overflow_def Let_def cell_of_def)
    moreover have "evolves (set R) s s2"
      using 2(4) by (intro evolves_trans [OF evolves_mono [OF 2(5)] s2(2)]) (auto simp: old_or_new_def)
    moreover have "set P \<subseteq> old_or_new (set R) s s2" using 2(4) s2(3) by (auto simp: old_or_new_def)
    ultimately show ?thesis
      using 2(3) s2(4) False assms(4) Pc by (auto simp: entry_stored_def intro!: exI [of _ P])
  qed
qed

lemma chain_loop_chain:
  assumes "inv s" "chain (view s) P cs" "P \<noteq> []" "length P \<le> n"
  shows "chain_loop po s (hd P) n = Inr P"
  using assms(2-)
proof (induction P arbitrary: cs n)
  case (Cons p P)
  obtain c cs' where cs: "cs = c # cs'" using Cons.prems(1) by (cases cs) auto
  obtain m where n: "n = Suc m" using Cons.prems(3) by (cases n) auto
  obtain page where page: "view s p = Some page" "page_header_decode page = Some \<lparr>ph_page_type = page_type.Overflow,
      ph_entry_count = word_of_nat (length c), ph_next_page = (case P of q # _ \<Rightarrow> q | [] \<Rightarrow> 0)\<rparr>"
    and rest: "chain (view s) P cs'" using Cons.prems(1) cs by auto
  note rd = read_view [OF assms(1) page(1)]
  show ?case
  proof (cases P)
    case Nil
    then show ?thesis using rd page(2) n by simp
  next
    case (Cons q Q)
    then have "q \<noteq> 0" using rest by (cases cs') auto
    then show ?thesis using Cons.IH [OF rest, of m] rd page(2) n Cons Cons.prems(3) by simp
  qed
qed simp

lemma chain_pages_chain:
  assumes "inv s" "entry_stored (view s) ps (k, v, P)" "P \<noteq> []"
  shows "chain_pages po (hd P) (word_of_nat (length v)) s = Inr P"
proof -
  let ?cap = "overflow_capacity ps"
  have cap: "0 < ?cap" using usable_bounds [OF size_valid [OF assms(1)]] by (simp add: overflow_capacity_def)
  have e: "length v \<le> MAX_RECORD_LEN" "chain (view s) P (chunks ?cap v)"
    using assms(2,3) by (simp_all add: entry_stored_def)
  have "length P = length (chunks ?cap v)" using e(2) by (rule chain_length)
  moreover have "unat (word_of_nat (length v) :: u32) = length v"
    using e(1) by (simp add: unat_of_nat MAX_RECORD_LEN_def)
  ultimately show ?thesis
    using chain_loop_chain [OF assms(1) e(2) assms(3)] length_chunks [OF cap, of v] by (simp add: chain_pages_def)
qed

lemma leaf_upsert_outcome:
  assumes s: "inv s" and v: "length v \<le> MAX_RECORD_LEN" and es: "sorted_wrt (<) (map fst es)"
    "\<forall>e \<in> set es. entry_stored (view s) ps e" "distinct (concat (map chain_of es))"
    and out: "leaf_upsert po k v (map entry_of es) s = (r, s')"
  shows "r = Inl exhausted \<or> (\<exists>A M B P. around k es A M B \<and> r = Inr (map entry_of (A @ (k, v, P) # B)) \<and>
    distinct P \<and> set P \<subseteq> old_or_new (set (concat (map chain_of M))) s s' \<and>
    evolves (set (concat (map chain_of M))) s s' \<and> entry_stored (view s') ps (k, v, P))"
proof -
  have keys: "map le_key (map entry_of es) = map fst es"
    by (simp add: entry_of_def split_beta)
  show ?thesis
  proof (cases "binary_search (map fst es) k")
    case (Inl i)
    obtain r1 s1 where mk: "make_cell po v [] s = (r1, s1)" by fastforce
    have o: "leaf_upsert po k v (map entry_of es) s = bind_st (r1, s1) (\<lambda>c tx.
        (Inr (take i (map entry_of es) @ \<lparr>le_key = k, le_cell = c\<rparr> # drop i (map entry_of es)), tx))"
      unfolding leaf_upsert_def keys Inl mk by simp
    note ar = around_miss [OF Inl es(1)]
    from make_cell_outcome [OF s _ _ v mk] consider "r1 = Inl exhausted" |
      P where "r1 = Inr (cell_of v P)" "distinct P" "set P \<subseteq> old_or_new {} s s1" "evolves {} s s1"
        "\<forall>k. entry_stored (view s1) ps (k, v, P)" by auto
    then show ?thesis
    proof cases
      case 2
      have "(r, s') = (Inr (map entry_of (take i es @ (k, v, P) # drop i es)), s1)"
        using o out 2(1) by (simp add: take_map drop_map entry_of_def)
      then show ?thesis using ar 2 by fastforce
    qed (use o out in simp)
  next
    case (Inr i)
    from around_hit [OF this es(1)] obtain v0 P0 where i: "i < length es" and e: "es ! i = (k, v0, P0)"
      and ar: "around k es (take i es) [(k, v0, P0)] (drop (Suc i) es)" by blast
    have split: "es = take i es @ [(k, v0, P0)] @ drop (Suc i) es" using ar by (simp add: around_def)
    have st: "entry_stored (view s) ps (k, v0, P0)" using es(2) i e by (metis nth_mem)
    have P0: "distinct P0"
      using es(3) by (subst (asm) split) (simp add: chain_of_def)
    have P0d: "set P0 \<subseteq> dom (view s) - {0}" using entry_chain_dom [OF st] by (simp add: chain_of_def)
    have re: "(case le_cell (map entry_of es ! i) of Overflow total_len first_page \<Rightarrow> chain_pages po first_page total_len s
        | Inline _ \<Rightarrow> Inr []) = Inr P0"
      using i e chain_pages_chain [OF s st] by (cases P0) (simp_all add: entry_of_def cell_of_def)
    obtain r1 s1 where mk: "make_cell po v P0 s = (r1, s1)" by fastforce
    have o: "leaf_upsert po k v (map entry_of es) s = bind_st (r1, s1) (\<lambda>c tx.
        (Inr ((map entry_of es)[i := (map entry_of es ! i)\<lparr>le_cell := c\<rparr>]), tx))"
      unfolding leaf_upsert_def keys Inr by (simp add: re mk)
    from make_cell_outcome [OF s P0 P0d v mk] consider "r1 = Inl exhausted" |
      P where "r1 = Inr (cell_of v P)" "distinct P" "set P \<subseteq> old_or_new (set P0) s s1" "evolves (set P0) s s1"
        "\<forall>k. entry_stored (view s1) ps (k, v, P)" by auto
    then show ?thesis
    proof cases
      case 2
      have "(map entry_of es)[i := (map entry_of es ! i)\<lparr>le_cell := cell_of v P\<rparr>] =
          map entry_of (take i es @ (k, v, P) # drop (Suc i) es)"
        using i e by (simp add: upd_conv_take_nth_drop take_map drop_map entry_of_def)
      then have "(r, s') = (Inr (map entry_of (take i es @ (k, v, P) # drop (Suc i) es)), s1)"
        using o out 2(1) by simp
      moreover have "concat (map chain_of [(k, v0, P0)]) = P0" by (simp add: chain_of_def)
      ultimately show ?thesis using ar 2 by (metis Pair_inject)
    qed (use o out in simp)
  qed
qed

lemma leaf_store_splits:
  assumes s: "inv s" and None: "encode_leaf (map entry_of es) ps = None" and big: "footprints (map entry_of es) \<le> usable ps + usable ps div 4"
    and es: "\<forall>e \<in> set es. entry_stored V ps e"
  shows "\<exists>A B lp rp. es = A @ B \<and> A \<noteq> [] \<and> B \<noteq> [] \<and> encode_leaf (map entry_of A) ps = Some lp \<and> encode_leaf (map entry_of B) ps = Some rp \<and>
    as_split (leaf_store po p (map entry_of es) s) = split_write p lp rp (fst (last A)) s"
proof -
  note ps = size_valid [OF s]
  let ?E = "map entry_of es"
  define c where "c = leaf_cut (footprints ?E div 2) 0 ?E"
  have "\<forall>e \<in> set ?E. footprint e \<le> usable ps div 4" using entry_footprint [OF _ ps] es by auto
  note h = leaf_halves [OF ps this None [unfolded encode_leaf_None [OF ps]] big c_def]
  define L R where "L = take c es" and "R = drop c es"
  have LR: "es = L @ R" "map entry_of L = take c ?E" "map entry_of R = drop c ?E"
    by (simp_all add: L_def R_def take_map drop_map)
  have ne: "L \<noteq> []" "R \<noteq> []" using h(1,2) LR(2,3) by auto
  obtain lp rp where e: "encode_leaf (map entry_of L) ps = Some lp" "encode_leaf (map entry_of R) ps = Some rp"
    using h(3,4) encode_leaf_None [OF ps, of "map entry_of L"] encode_leaf_None [OF ps, of "map entry_of R"]
    unfolding LR(2,3) by fastforce
  have sep: "le_key (last (map entry_of L)) = fst (last L)" using ne(1) by (simp add: last_map entry_of_def split_beta)
  obtain x xs where l: "map entry_of L = x # xs" using ne(1) by (cases L) auto
  have "as_split (leaf_store po p ?E s) = split_write p lp rp (fst (last L)) s"
    unfolding leaf_store_def Let_def None c_def [symmetric] LR(2,3) [symmetric] option.case e l prod.case list.case
    using ne(2) sep l e(1) by (simp add: outcome_as_bind split_write_def)
  then show ?thesis using LR(1) ne e by blast
qed

lemma inner_store_splits:
  assumes s: "inv s" and None: "encode_inner (inner_node_of cs r) ps = None" and ne: "cs \<noteq> []"
    and big: "24 + (length cs - 1) * 24 \<le> unat ps - 8"
  shows "\<exists>as k c bs lp rp. cs = as @ (k, c) # bs \<and> as \<noteq> [] \<and> bs \<noteq> [] \<and> encode_inner (inner_node_of as c) ps = Some lp \<and>
    encode_inner (inner_node_of bs r) ps = Some rp \<and> as_split (inner_store po p (inner_node_of cs r) s) = split_write p lp rp k s"
proof -
  define m where "m = length cs div 2"
  have n: "20 \<le> length cs" using None ne usable_bounds(1,2) [OF size_valid [OF s]] by (auto simp: encode_inner_fits)
  then have m: "0 < m" "m < length cs" "m + 1 < length cs" by (simp_all add: m_def)
  define A B where "A = take m cs" and "B = drop (m + 1) cs"
  obtain k c where kc: "cs ! m = (k, c)" by (cases "cs ! m")
  have split: "cs = A @ (k, c) # B" using id_take_nth_drop [OF m(2)] kc by (simp add: A_def B_def)
  have AB: "A \<noteq> []" "B \<noteq> []" using m by (auto simp: A_def B_def)
  have len: "length A \<le> length cs - 1" "length B \<le> length cs - 1" using split by simp_all
  obtain lp rp where e: "encode_inner (inner_node_of A c) ps = Some lp" "encode_inner (inner_node_of B r) ps = Some rp"
    using encode_inner_fits [of "inner_node_of A c" ps] encode_inner_fits [of "inner_node_of B r" ps] len AB big by fastforce
  have tk: "take (m + 1) cs = A @ [(k, c)]" using m(2) kc by (simp add: A_def take_Suc_conv_app_nth)
  have "as_split (inner_store po p (inner_node_of cs r) s) = split_write p lp rp k s"
    unfolding inner_store_def Let_def None option.case inner_node.select_convs m_def [symmetric] tk B_def [symmetric]
    using e by (simp add: outcome_as_bind split_write_def)
  then show ?thesis using split AB e by blast
qed

lemma insert_rec_leaf:
  assumes "inv s" "record_leaf ps (view s) p es" "depth < MAX_DEPTH"
  shows "as_split (insert_rec po p k v depth s) =
    bind_st (leaf_upsert po k v (map entry_of es) s) (\<lambda>entries tx. as_split (leaf_store po p entries tx))"
  using assms(2,3) read_view [OF assms(1), of p]
  by (subst insert_rec.simps) (auto simp: record_leaf_def outcome_as_bind)

lemma insert_rec_inner:
  assumes "inv s" "record_inner ps (view s) p cs r" "depth < MAX_DEPTH"
  shows "as_split (insert_rec po p k v depth s) =
    bind_st (as_split (insert_rec po (child_page k cs r) k v (depth + 1) s)) (\<lambda>x tx. case x of None \<Rightarrow> (Inr None, tx)
      | Some (sep, q) \<Rightarrow> as_split (inner_store po p (inner_node_of (split_children k cs r sep q) (split_last k cs r q)) tx))"
proof -
  obtain page where "view s p = Some page" "decode_node page p = Inr (Inner (inner_node_of cs r))"
    using assms(2) by (auto simp: record_inner_def)
  then have "insert_rec po p k v depth s = bind_st (insert_rec po (child_page k cs r) k v (depth + 1) s) (\<lambda>x tx. case x of
      Fit \<Rightarrow> (Inr Fit, tx)
    | Split sep q \<Rightarrow> inner_store po p (inner_node_of (split_children k cs r sep q) (split_last k cs r q)) tx)"
    using assms(3) read_view [OF assms(1)]
    by (subst insert_rec.simps) (simp add: Let_def inner_child_page inner_split_children cong: ins.case_cong)
  then show ?thesis unfolding bind_outcome_as by (simp add: outcome_as_bind) (intro arg_cong [of _ _ "bind_st _"] ext, simp split: ins.split)
qed

end

sublocale record_txn < tree_writer po xxh view inv exhausted "entry_in ps" "record_leaf ps" "record_inner ps" record_key
    "\<lambda>v. length v \<le> MAX_RECORD_LEN" entry_of "\<lambda>es. encode_leaf es ps" "\<lambda>cs r. encode_inner (inner_node_of cs r) ps"
    "\<lambda>es. footprints es \<le> usable ps + usable ps div 4" "\<lambda>ks. 24 + (length ks - 1) * 24 \<le> unat ps - 8" "leaf_upsert po"
    "\<lambda>p es s. as_split (leaf_store po p es s)" "\<lambda>p cs r s. as_split (inner_store po p (inner_node_of cs r) s)"
    "\<lambda>k v p depth s. as_split (insert_rec po p k v depth s)"
proof
  fix s k v es r s'
  assume "inv s" "length v \<le> MAX_RECORD_LEN" "sorted_wrt (<) (map fst es)" "\<forall>e \<in> set es. entry_stored (view s) ps e"
    "distinct (chains es)" "leaf_upsert po k v (map entry_of es) s = (r, s')"
  then show "r = Inl exhausted \<or> (\<exists>A M B P. around k es A M B \<and> r = Inr (map entry_of (A @ (k, v, P) # B)) \<and> distinct P \<and>
      set P \<subseteq> old_or_new (set (chains M)) s s' \<and> evolves (set (chains M)) s s' \<and> entry_stored (view s') ps (k, v, P))"
    by (rule leaf_upsert_outcome)
next
  fix s es page V p
  assume a: "inv s" "encode_leaf (map entry_of es) ps = Some page" "sorted_wrt (<) (map fst es)" "\<forall>e \<in> set es. length (fst e) = 16 \<and> entry_stored V ps e"
  have "leaf_ok (map entry_of es)" using a(3,4) leaf_ok_entries by blast
  then show "length page = unat ps \<and> (V p = Some (stamp_page_checksum xxh page) \<longrightarrow> p \<noteq> 0 \<longrightarrow> record_leaf ps V p es)"
    using leaf_roundtrip [OF a(2) _ size_valid [OF a(1)]] encode_leaf_Some(2) [OF a(2)] a(2) by (simp add: record_leaf_def)
next
  fix s k V v P
  assume a: "inv s" "entry_stored V ps (k, v, P)"
  then show "encode_leaf [entry_of (k, v, P)] ps \<noteq> None"
    using entry_footprint [OF a(2) size_valid [OF a(1)]] by (simp add: encode_leaf_None [OF size_valid [OF a(1)]])
next
  fix s V p es k A M B V' v P
  assume "inv s" "record_leaf ps V p es" "around k es A M B" "entry_stored V' ps (k, v, P)"
  then show "footprints (map entry_of (A @ (k, v, P) # B)) \<le> usable ps + usable ps div 4" using record_leaf_room size_valid by blast
next
  fix es page p s
  assume "encode_leaf (map entry_of es) ps = Some page"
  then show "as_split (leaf_store po p (map entry_of es) s) = bind_st (po_write po p page s) (\<lambda>_ tx. (Inr None, tx))"
    by (simp add: leaf_store_def outcome_as_bind)
next
  fix s es V p
  assume "inv s" "encode_leaf (map entry_of es) ps = None" "footprints (map entry_of es) \<le> usable ps + usable ps div 4"
    "\<forall>e \<in> set es. length (fst e) = 16 \<and> entry_stored V ps e"
  then show "\<exists>A B lp rp. es = A @ B \<and> A \<noteq> [] \<and> B \<noteq> [] \<and> encode_leaf (map entry_of A) ps = Some lp \<and> encode_leaf (map entry_of B) ps = Some rp \<and>
      as_split (leaf_store po p (map entry_of es) s) = split_write p lp rp (fst (last A)) s"
    by (intro leaf_store_splits) blast+
next
  fix s cs r page V p
  assume a: "inv s" "encode_inner (inner_node_of cs r) ps = Some page" "sorted_wrt (<) (map fst cs)"
    "\<forall>c \<in> set cs. length (fst c) = 16 \<and> snd c \<noteq> 0" "r \<noteq> 0"
  then have "inner_ok (inner_node_of cs r)" by (simp add: inner_ok_def)
  then show "length page = unat ps \<and> (V p = Some (stamp_page_checksum xxh page) \<longrightarrow> p \<noteq> 0 \<longrightarrow> record_inner ps V p cs r)"
    using inner_roundtrip [OF a(2) _ size_valid [OF a(1)]] encode_inner_Some(2) [OF a(2)] a(2) by (simp add: record_inner_def)
next
  fix s k c r
  assume "inv s"
  show "encode_inner (inner_node_of [(k, c)] r) ps \<noteq> None" using page_size_bounds [OF size_valid [OF \<open>inv s\<close>]] by (auto simp: encode_inner_fits)
next
  fix s V p as bs r k
  assume "record_inner ps V p (as @ bs) r"
  then show "24 + (length (map fst as @ k # map fst bs) - 1) * 24 \<le> unat ps - 8" by (auto simp: record_inner_def encode_inner_fits)
next
  fix cs r page p s
  assume "encode_inner (inner_node_of cs r) ps = Some page"
  then show "as_split (inner_store po p (inner_node_of cs r) s) = bind_st (po_write po p page s) (\<lambda>_ tx. (Inr None, tx))"
    by (simp add: inner_store_def outcome_as_bind)
next
  fix s cs r p
  assume "inv s" "encode_inner (inner_node_of cs r) ps = None" "cs \<noteq> []" "24 + (length (map fst cs) - 1) * 24 \<le> unat ps - 8"
  then show "\<exists>as k c bs lp rp. cs = as @ (k, c) # bs \<and> as \<noteq> [] \<and> bs \<noteq> [] \<and> encode_inner (inner_node_of as c) ps = Some lp \<and>
      encode_inner (inner_node_of bs r) ps = Some rp \<and> as_split (inner_store po p (inner_node_of cs r) s) = split_write p lp rp k s"
    by (intro inner_store_splits) simp_all
qed (rule insert_rec_leaf insert_rec_inner; assumption)+

section \<open>The transaction is such a provider\<close>

abbreviation page_overflow :: error where
  "page_overflow \<equiv> InvalidArgument ''page count overflow''"

text \<open>The invariant also fixes the pending header fields: page operations do not touch them.\<close>

definition txn_inv :: "hash64 \<Rightarrow> (u64 \<Rightarrow> bytes option) \<Rightarrow> pager \<Rightarrow> sim_state \<Rightarrow> pending_header \<Rightarrow> txn \<Rightarrow> bool" where
  "txn_inv xxh V pg st pd tx \<longleftrightarrow> represents xxh V pg st \<and> txn_ok xxh pg tx \<and> tx_pending tx = pd"

lemma txn_dom:
  assumes "represents xxh V pg st" "txn_ok xxh pg tx"
  shows "txn_view V tx p \<noteq> None \<longleftrightarrow> p < tx_page_count tx"
proof -
  have s: "store_ok xxh (pg_header pg) V" by (rule represents_store(1) [OF assms(1)])
  have d: "dirty_ok xxh (pg_header pg) (tx_page_count tx) (tx_dirty tx)" using assms(2) by (simp add: txn_ok_def)
  then have le: "page_count (pg_header pg) \<le> tx_page_count tx" by (simp add: dirty_ok_def)
  have "V p = None \<longleftrightarrow> page_count (pg_header pg) \<le> p" by (rule store_dom [OF s])
  moreover have "map_of (tx_dirty tx) p \<noteq> None \<Longrightarrow> p < tx_page_count tx" using dirty_dom(1) [OF d] by auto
  moreover have "page_count (pg_header pg) \<le> p \<Longrightarrow> p < tx_page_count tx \<Longrightarrow> map_of (tx_dirty tx) p \<noteq> None"
    using dirty_dom(2) [OF d] by (auto simp: dom_def)
  ultimately show ?thesis
    using le by (auto simp: txn_view_def map_add_def not_le split: option.splits)
qed

interpretation txn_pages: page_txn "txn_ops xxh pg st" xxh "txn_view V" "txn_inv xxh V pg st pd" page_overflow
  for xxh pg st V pd
proof
  fix s r s' p page and data :: bytes
  assume inv: "txn_inv xxh V pg st pd s"
  then have rep: "represents xxh V pg st" and tx: "txn_ok xxh pg s" and pd: "tx_pending s = pd" by (simp_all add: txn_inv_def)
  have wf: "header_wf (pg_header pg)" using represents_store(1) [OF rep] by (simp add: store_ok_def)
  show "page_size_is_valid (po_page_size (txn_ops xxh pg st))"
    using wf by (simp add: txn_ops_def header_wf_def)
  show "txn_view V s p = Some page \<Longrightarrow> po_read (txn_ops xxh pg st) p s = Inr page"
    using txn_read_page_view [OF rep tx, of p] by (simp add: txn_ops_def)
  show "r = Inl page_overflow \<or> (\<exists>p page. r = Inr p \<and> p \<noteq> 0 \<and> txn_view V s p = None \<and> txn_inv xxh V pg st pd s' \<and>
      txn_view V s' = (txn_view V s)(p \<mapsto> page))"
    if "po_alloc (txn_ops xxh pg st) s = (r, s')"
  proof -
    have al: "allocate_page xxh pg s = (r, s')" using that by (simp add: txn_ops_def)
    have ok: "txn_inv xxh V pg st pd s'" using allocate_page_ok [OF tx wf al] rep pd allocate_page_cases [OF al] by (auto simp: txn_inv_def)
    have nz: "tx_page_count s \<noteq> 0" using tx wf by (auto simp: txn_ok_def dirty_ok_def header_wf_def)
    have none: "txn_view V s (tx_page_count s) = None" using txn_dom [OF rep tx, of "tx_page_count s"] by auto
    from allocate_page_cases [OF al] show ?thesis
      using ok nz none by (auto simp: txn_view_def fun_eq_iff map_add_def)
  qed
  show "\<exists>s'. po_write (txn_ops xxh pg st) p data s = (Inr (), s') \<and> txn_inv xxh V pg st pd s' \<and>
      txn_view V s' = (txn_view V s)(p \<mapsto> stamp_page_checksum xxh data)"
    if "p \<noteq> 0" "txn_view V s p \<noteq> None" "length data = unat (po_page_size (txn_ops xxh pg st))"
  proof -
    let ?s = "s\<lparr>tx_dirty := bmap_insert p (stamp_page_checksum xxh data) (tx_dirty s)\<rparr>"
    have w: "write_page xxh pg p data s = (Inr (), ?s)"
      using that txn_dom [OF rep tx, of p] by (simp add: write_page_def txn_ops_def)
    have "txn_inv xxh V pg st pd ?s" using write_page_ok [OF tx wf w] rep pd by (simp add: txn_inv_def)
    moreover have "txn_view V ?s = (txn_view V s)(p \<mapsto> stamp_page_checksum xxh data)"
      by (auto simp: txn_view_def fun_eq_iff map_add_def)
    ultimately show ?thesis using w by (simp add: txn_ops_def)
  qed
qed

interpretation txn_records: record_txn "txn_ops xxh pg st" xxh "txn_view V" "txn_inv xxh V pg st pd" page_overflow
  for xxh pg st V pd
  by (rule record_txn.intro) (rule txn_pages.page_txn_axioms)

section \<open>Insert\<close>

text \<open>Setting the root pointer touches no page.\<close>

lemma set_root_facts [simp]:
  "txn_view V (set_root_btree_page p tx) = txn_view V tx"
  "txn_root_btree_page pg (set_root_btree_page p tx) = p"
  by (simp_all add: txn_view_def set_root_btree_page_def txn_root_btree_page_def)

lemma txn_ops_size [simp]: "po_page_size (txn_ops xxh pg st) = page_size (pg_header pg)"
  by (simp add: txn_ops_def)

lemma btree_insert_map:
  assumes rep: "represents xxh V pg st" and tx: "txn_ok xxh pg tx"
    and tree: "btree_at (txn_view V tx) (page_size (pg_header pg)) (txn_root_btree_page pg tx) m K"
    and k: "length k = 16" and v: "length v \<le> MAX_RECORD_LEN"
    and out: "btree_insert xxh pg st k v tx = (r, tx')"
  shows "r = Inl page_overflow \<or> r = Inr () \<and> txn_ok xxh pg tx' \<and>
    (\<exists>K'. btree_at (txn_view V tx') (page_size (pg_header pg)) (txn_root_btree_page pg tx') (bmap_insert k v m) K' \<and>
       K' \<subseteq> K \<union> - dom (txn_view V tx)) \<and>
    (\<forall>q \<in> dom (txn_view V tx) - K. txn_view V tx' q = txn_view V tx q) \<and>
    (tx_pending tx')\<lparr>pd_root_btree := None\<rparr> = (tx_pending tx)\<lparr>pd_root_btree := None\<rparr>"
proof -
  let ?root = "txn_root_btree_page pg tx" and ?ps = "page_size (pg_header pg)" and ?po = "txn_ops xxh pg st"
  let ?ev = "txn_pages.evolves V xxh pg st (tx_pending tx)" and ?on = "txn_pages.old_or_new V"
  have s: "txn_inv xxh V pg st (tx_pending tx) tx" using rep tx by (simp add: txn_inv_def)
  have fin: ?thesis if "?ev K tx tx1" "btree_at (txn_view V tx1) ?ps p (bmap_insert k v m) K'" "K' \<subseteq> ?on K tx tx1"
      "(Inr (), set_root_btree_page p tx1) = (r, tx')" for p tx1 K'
  proof -
    have "txn_ok xxh pg tx1" "tx_pending tx1 = tx_pending tx" using that(1) by (simp_all add: txn_pages.evolves_def txn_inv_def)
    moreover have "tx_pending (set_root_btree_page p tx1) = (tx_pending tx1)\<lparr>pd_root_btree := Some p\<rparr>"
      by (simp add: set_root_btree_page_def)
    moreover have "K' \<subseteq> K \<union> - dom (txn_view V tx)" using that(3) by (auto simp: txn_pages.old_or_new_def)
    moreover have "\<forall>q \<in> dom (txn_view V tx) - K. txn_view V tx1 q = txn_view V tx q"
      using that(1) unfolding txn_pages.evolves_def by blast
    ultimately show ?thesis
      using that(2,4) set_roots_ok(1) by force
  qed
  have same: ?thesis if "?ev K tx tx1" "btree_at (txn_view V tx1) ?ps ?root (bmap_insert k v m) K'" "K' \<subseteq> ?on K tx tx1" "(Inr (), tx1) = (r, tx')"
    for tx1 K'
  proof -
    have "txn_ok xxh pg tx1" "tx_pending tx1 = tx_pending tx" using that(1) by (simp_all add: txn_pages.evolves_def txn_inv_def)
    moreover have "txn_root_btree_page pg tx1 = ?root" using calculation(2) by (simp add: txn_root_btree_page_def)
    moreover have "K' \<subseteq> K \<union> - dom (txn_view V tx)" using that(3) by (auto simp: txn_pages.old_or_new_def)
    moreover have "\<forall>q \<in> dom (txn_view V tx) - K. txn_view V tx1 q = txn_view V tx q"
      using that(1) unfolding txn_pages.evolves_def by blast
    ultimately show ?thesis using that(2,4) by force
  qed
  show ?thesis
  proof (cases "?root = 0")
    case True
    then have m: "m = []" "K = {}" using tree by simp_all
    obtain r1 tx1 where mk: "make_cell ?po v [] tx = (r1, tx1)" by fastforce
    from txn_records.make_cell_outcome [OF s _ _ v mk] consider "r1 = Inl page_overflow" |
      P where "r1 = Inr (cell_of v P)" "distinct P" "set P \<subseteq> ?on {} tx tx1" "?ev {} tx tx1" "entry_stored (txn_view V tx1) ?ps (k, v, P)"
      by auto
    then show ?thesis
    proof cases
      case 1
      then show ?thesis using out v True mk by (simp add: btree_insert_def Let_def)
    next
      case 2
      have "bind_st (po_alloc ?po tx1) (\<lambda>p tx. bind_st (ok_or (Internal ''fresh leaf does not fit'')
          (encode_leaf [entry_of (k, v, P)] (po_page_size ?po)), tx) (\<lambda>page tx.
          bind_st (po_write ?po p page tx) (\<lambda>_ tx. (Inr (), set_root_btree_page p tx)))) = (r, tx')"
        using out v True mk 2(1) by (simp add: btree_insert_def Let_def entry_of_def)
      from txn_records.first_leaf_outcome [OF s k 2(4,2,3) _ this] show ?thesis
        using 2(5) fin unfolding m by (fastforce simp only: bmap_insert.simps txn_ops_size)
    qed
  next
    case False
    have "bind_st (as_split (insert_rec ?po ?root k v 0 tx)) (\<lambda>x tx. case x of None \<Rightarrow> (Inr (), tx)
      | Some (sep, q) \<Rightarrow> bind_st (po_alloc ?po tx) (\<lambda>p tx. bind_st (ok_or (Internal ''fresh root does not fit'')
          (encode_inner (inner_node_of [(sep, ?root)] q) (po_page_size ?po)), tx) (\<lambda>page tx.
          bind_st (po_write ?po p page tx) (\<lambda>_ tx. (Inr (), set_root_btree_page p tx))))) = (r, tx')"
      using out v False unfolding bind_outcome_as by (simp add: btree_insert_def Let_def cong: ins.case_cong)
    from txn_records.insert_root_outcome [OF s tree [folded txn_ops_size [of xxh pg st]] False k v this]
    consider "r = Inl page_overflow" | p tx1 K' where "(Inr (), set_root_btree_page p tx1) = (r, tx') \<or> p = ?root \<and> (Inr (), tx1) = (r, tx')"
        "?ev K tx tx1" "btree_at (txn_view V tx1) ?ps p (bmap_insert k v m) K'" "K' \<subseteq> ?on K tx tx1"
      unfolding txn_ops_size by blast
    then show ?thesis
    proof cases
      case 2
      from 2(1) show ?thesis
      proof
        assume "p = ?root \<and> (Inr (), tx1) = (r, tx')"
        then show ?thesis using same [OF 2(2) _ 2(4)] 2(3) by simp
      qed (rule fin [OF 2(2-4)])
    qed simp
  qed
qed

text \<open>The other pages of the file keep the tree: it reads its own pages only.\<close>

lemma btree_at_frame:
  assumes "btree_at V ps root m K" "\<forall>q \<in> K. V' q = V q"
  shows "btree_at V' ps root m K"
  using assms by (rule record_format.tree_at_frame)

lemma btree_at_pages: "btree_at V ps root m K \<Longrightarrow> K \<subseteq> dom V - {0}"
  by (rule record_format.tree_at_pages)

lemma btree_commit:
  assumes "btree_at (txn_view V tx) ps (txn_root_btree_page pg tx) m K"
  shows "btree_at (next_store xxh (pending_apply (pg_header pg) (tx_page_count tx) (tx_pending tx)) (tx_dirty tx) V) ps
    (root_btree_page (pending_apply (pg_header pg) (tx_page_count tx) (tx_pending tx))) m K"
proof -
  have "root_btree_page (pending_apply (pg_header pg) (tx_page_count tx) (tx_pending tx)) = txn_root_btree_page pg tx"
    by (simp add: pending_apply_def txn_root_btree_page_def Let_def split: option.split)
  moreover have "0 \<notin> K" using btree_at_pages [OF assms] by blast
  ultimately show ?thesis
    by (simp only:) (rule btree_at_frame [OF assms], auto simp: next_store_def txn_view_def)
qed

end
