(* ===== verification/Demo.thy ===== *)
theory Demo
  imports Pager_Lifecycle Btree_Insert
begin

text \<open>
  A small concrete store: one file, pages of 512 bytes, a toy hash. The theorems about the pager and the
  tree are applied to it, which shows that their hypotheses can be met.
\<close>

definition demo_hash :: hash64 where
  "demo_hash seed bs = seed + word_of_nat (length bs)"

definition demo_opts :: pager_options where
  "demo_opts = \<lparr>opt_page_size = 512, opt_checkpoint_threshold = 1048576, opt_format_version = 8\<rparr>"

definition demo_path :: path where
  "demo_path = ''m.mind''"

definition demo_pg :: pager where
  "demo_pg = projr (fst (pager_create demo_hash demo_path demo_opts sim_new))"

definition demo_st :: sim_state where
  "demo_st = snd (pager_create demo_hash demo_path demo_opts sim_new)"

abbreviation demo_store :: "u64 \<Rightarrow> bytes option" where
  "demo_store \<equiv> [0 \<mapsto> header_page demo_hash (create_header demo_opts)]"

lemma demo_opts_ok: "options_ok demo_opts"
  by code_simp

lemma demo_created:
  "pager_create demo_hash demo_path demo_opts sim_new = (Inr demo_pg, demo_st)"
  "pg_header demo_pg = create_header demo_opts" "sf_path (pg_main demo_pg) = demo_path"
  "pg_wal_path demo_pg = wal_path_for demo_path" "represents demo_hash demo_store demo_pg demo_st"
  "w_len (pg_wal demo_pg) = 0" "crash_at demo_st = None"
  "sf_handle_id (pg_main demo_pg) = 0" "next_handle_id demo_st = 2" "pg_checkpoint_threshold demo_pg = 1048576"
proof -
  have "files sim_new demo_path = None" "\<not> crashed sim_new" "\<not> lying_sync sim_new" "crash_at sim_new = None"
    by (simp_all add: sim_new_def)
  from pager_create_effect [OF demo_opts_ok this, of demo_hash]
  show "pager_create demo_hash demo_path demo_opts sim_new = (Inr demo_pg, demo_st)"
    "pg_header demo_pg = create_header demo_opts" "sf_path (pg_main demo_pg) = demo_path"
    "pg_wal_path demo_pg = wal_path_for demo_path" "represents demo_hash demo_store demo_pg demo_st"
    "w_len (pg_wal demo_pg) = 0" "crash_at demo_st = None"
    "sf_handle_id (pg_main demo_pg) = 0" "next_handle_id demo_st = 2" "pg_checkpoint_threshold demo_pg = 1048576"
    by (auto simp: demo_pg_def demo_st_def sim_new_def demo_opts_def)
qed

lemma demo_header:
  "page_size (pg_header demo_pg) = 512" "page_count (pg_header demo_pg) = 1" "root_btree_page (pg_header demo_pg) = 0"
  "txn_counter (pg_header demo_pg) = 0"
  by (simp_all add: demo_created(2) create_header_def demo_opts_def)

lemma demo_alive: "alive demo_st"
  using represents_store(3) [OF demo_created(5)] demo_created(7) by (simp add: alive_def)

lemma demo_order: "iter_order id"
  by (simp add: iter_order_def)

lemma demo_run: "pager_run demo_hash id demo_path [(create_header demo_opts, demo_store)] demo_pg demo_st"
proof -
  have "alive sim_new" "\<not> lying_sync sim_new" "files sim_new demo_path = None" by (simp_all add: sim_new_def alive_def)
  from pager_run.run_create [OF demo_opts_ok this(3,1,2) demo_created(1)] show ?thesis
    by (simp only: demo_created(2))
qed

text \<open>A transaction that writes one page.\<close>

definition demo_begin :: txn where
  "demo_begin = \<lparr>tx_dirty = [], tx_page_count = 1, tx_pending = pending_default\<rparr>"

definition demo_tx :: txn where
  "demo_tx = snd (allocate_page demo_hash demo_pg demo_begin)"

lemma demo_begin_ok: "pager_begin demo_pg = Inr demo_begin" "txn_ok demo_hash demo_pg demo_begin"
proof -
  show b: "pager_begin demo_pg = Inr demo_begin"
    using demo_created(5) by (simp add: pager_begin_def demo_begin_def demo_header ensure_usable_def represents_def)
  show "txn_ok demo_hash demo_pg demo_begin" by (rule pager_begin_ok [OF b])
qed

lemma demo_wf: "header_wf (pg_header demo_pg)"
  using create_header_wf [OF demo_opts_ok] by (simp only: demo_created(2))

lemma demo_tx_facts:
  "txn_ok demo_hash demo_pg demo_tx" "tx_page_count demo_tx = 2" "length (tx_dirty demo_tx) = 1"
  "tx_pending demo_tx = pending_default"
proof -
  obtain r where a: "allocate_page demo_hash demo_pg demo_begin = (r, demo_tx)"
    unfolding demo_tx_def by (metis prod.collapse)
  show "txn_ok demo_hash demo_pg demo_tx" by (rule allocate_page_ok [OF demo_begin_ok(2) demo_wf a])
  show "tx_page_count demo_tx = 2" "length (tx_dirty demo_tx) = 1" "tx_pending demo_tx = pending_default"
    by (simp_all add: demo_tx_def allocate_page_def demo_begin_def Let_def)
qed

lemma demo_tx_commit: "commit_fits demo_pg demo_tx" "\<not> txn_noop demo_pg demo_tx"
  using demo_tx_facts by (auto simp: commit_fits_def txn_noop_def demo_header demo_created(6))

section \<open>A crash at the first file operation\<close>

definition demo_armed :: sim_state where
  "demo_armed = arm_crash (ops demo_st) Before 0 demo_st"

definition demo_dead :: sim_state where
  "demo_dead = demo_armed\<lparr>ops := ops demo_st + 1, crashed := True\<rparr>"

definition demo_found :: sim_state where
  "demo_found = power_fail 7 [demo_path, wal_path_for demo_path] demo_dead"

lemma demo_enter: "enter_mut_op t demo_armed = (Inl crash_error, demo_dead)"
proof -
  have "\<not> crashed demo_st" using demo_alive by (simp add: alive_def)
  then show ?thesis by (simp add: enter_mut_op_def demo_armed_def demo_dead_def arm_crash_def Let_def)
qed

lemma demo_files:
  obtains dm dw where "files demo_st demo_path = Some dm" "files demo_st (wal_path_for demo_path) = Some dw"
    "synced dw = []" "current dw = []" "w_salt (pg_wal demo_pg) = None"
    "sf_path (w_file (pg_wal demo_pg)) = wal_path_for demo_path"
proof -
  have wp: "sf_path (w_file (pg_wal demo_pg)) = wal_path_for demo_path"
    using demo_created(4,5) by (simp add: represents_def)
  obtain txns dm dw where d: "files demo_st (sf_path (pg_main demo_pg)) = Some dm"
    "files demo_st (sf_path (w_file (pg_wal demo_pg))) = Some dw" "synced dw = current dw"
    "wal_inv demo_hash txns (pg_wal demo_pg) demo_st"
    by (rule representsE [OF demo_created(5)])
  have "length (log_bytes demo_hash ps salt txns) \<noteq> 0" for ps salt by (simp add: log_bytes_def)
  then have "w_salt (pg_wal demo_pg) = None \<and> current dw = []"
    using d(2,4) demo_created(6) by (auto simp: wal_inv_def split: option.splits)
  then show ?thesis using d(1-3) wp demo_created(3) by (intro that [of dm dw]) simp_all
qed

lemma demo_crash_commit:
  obtains pg1 where "txn_commit demo_hash id 5 demo_tx demo_pg demo_armed = (Inl crash_error, pg1, demo_dead)"
proof -
  obtain dm dw where d: "w_salt (pg_wal demo_pg) = None" by (rule demo_files)
  have rep: "represents demo_hash demo_store demo_pg demo_st" by (rule demo_created(5))
  have us: "ensure_usable demo_pg = Inr ()" using rep by (simp add: represents_def ensure_usable_def)
  let ?h = "txn_header demo_pg demo_tx"
  have dk: "dirty_ok demo_hash (pg_header demo_pg) (tx_page_count demo_tx) (tx_dirty demo_tx)" "pending_ok (tx_pending demo_tx)"
    "unat (tx_page_count demo_tx) * unat (page_size (pg_header demo_pg)) < 2 ^ 64"
    using demo_tx_facts(1) demo_tx_commit(1) by (simp_all add: txn_ok_def commit_fits_def)
  have "header_wf ?h" unfolding txn_header_def by (rule next_store_ok(2) [OF represents_store(1) [OF rep] dk])
  then have enc: "header_encode demo_hash ?h (replicate (unat (page_size (pg_header demo_pg))) 0) = Inr (header_page demo_hash ?h)"
    using header_page_encode [of ?h demo_hash] by (simp add: txn_header_def)
  have ap: "append_txn demo_hash 5 i pages (pg_wal demo_pg) demo_armed = (Inl crash_error, pg_wal demo_pg, demo_dead)" for i pages
    by (simp add: append_txn_def d file_write_at_def demo_enter)
  have "txn_commit demo_hash id 5 demo_tx demo_pg demo_armed = (Inl crash_error, demo_pg\<lparr>pg_broken := True\<rparr>, demo_dead)"
    unfolding txn_commit_def commit_txn_def us
    using demo_tx_commit(2) enc by (simp add: ap txn_noop_def txn_header_def Let_def)
  then show ?thesis by (rule that)
qed

lemma torn_detected_short: "length bs \<le> off \<Longrightarrow> torn_detected xxh salt ps bs off fs"
  by (induction fs arbitrary: off) simp_all

lemma demo_found_facts:
  "image_of (wal_path_for demo_path) demo_found = []" "settled_at (wal_path_for demo_path) demo_dead demo_found"
  "commit_detected demo_hash 5 demo_pg h dirty (image_of (wal_path_for demo_path) demo_found)"
  "\<not> lying_sync demo_dead" "distinct [demo_path, wal_path_for demo_path]"
proof -
  obtain dm dw where d: "files demo_st (wal_path_for demo_path) = Some dw" "synced dw = []" "current dw = []"
    by (rule demo_files)
  have f: "files demo_dead (wal_path_for demo_path) = Some dw"
    using d(1) by (simp add: demo_dead_def demo_armed_def arm_crash_def)
  show dist: "distinct [demo_path, wal_path_for demo_path]" by simp
  obtain bs where bs: "crash_image dw bs" "files demo_found (wal_path_for demo_path) = Some \<lparr>synced = bs, current = bs, locked_by = None\<rparr>"
    using power_fail_outcome [OF dist _ f, of 7] unfolding demo_found_def by auto
  have "bs = []" using crash_image_same [OF bs(1)] d by simp
  then show i: "image_of (wal_path_for demo_path) demo_found = []" using bs(2) by (simp add: image_of_def)
  show "settled_at (wal_path_for demo_path) demo_dead demo_found"
    using f i by (simp add: settled_at_def settled_def)
  show "commit_detected demo_hash 5 demo_pg h dirty (image_of (wal_path_for demo_path) demo_found)"
    unfolding i commit_detected_def by (rule torn_detected_short) simp
  show "\<not> lying_sync demo_dead"
    using represents_store(4) [OF demo_created(5)] by (simp add: demo_dead_def demo_armed_def arm_crash_def)
qed

section \<open>After a commit: a log that is not empty\<close>

definition demo_pg2 :: pager where
  "demo_pg2 = fst (snd (txn_commit demo_hash id 5 demo_tx demo_pg demo_st))"

definition demo_st2 :: sim_state where
  "demo_st2 = snd (snd (txn_commit demo_hash id 5 demo_tx demo_pg demo_st))"

abbreviation demo_store2 :: "u64 \<Rightarrow> bytes option" where
  "demo_store2 \<equiv> next_store demo_hash (txn_header demo_pg demo_tx) (tx_dirty demo_tx) demo_store"

lemma demo_commit:
  "txn_commit demo_hash id 5 demo_tx demo_pg demo_st = (Inr 1, demo_pg2, demo_st2)"
  "represents demo_hash demo_store2 demo_pg2 demo_st2" "pg_main demo_pg2 = pg_main demo_pg" "alive demo_st2"
  "pg_header demo_pg2 = txn_header demo_pg demo_tx"
proof -
  obtain r where o: "txn_commit demo_hash id 5 demo_tx demo_pg demo_st = (r, demo_pg2, demo_st2)"
    unfolding demo_pg2_def demo_st2_def by (metis prod.collapse)
  show al: "alive demo_st2"
    using alive_commit [OF demo_alive] o unfolding txn_commit_def by (metis snd_conv)
  have "txn_counter (txn_header demo_pg demo_tx) = 1" by (simp add: txn_header_def demo_header)
  then show "txn_commit demo_hash id 5 demo_tx demo_pg demo_st = (Inr 1, demo_pg2, demo_st2)"
    "represents demo_hash demo_store2 demo_pg2 demo_st2" "pg_main demo_pg2 = pg_main demo_pg"
    "pg_header demo_pg2 = txn_header demo_pg demo_tx"
    using txn_commit_effect [OF demo_created(5) demo_tx_facts(1) demo_tx_commit demo_order o] al o by (auto simp: alive_def)
qed

lemma demo_log: "w_len (pg_wal demo_pg2) \<noteq> 0" "sf_path (w_file (pg_wal demo_pg2)) = wal_path_for demo_path"
proof -
  let ?h = "txn_header demo_pg demo_tx" and ?w = "pg_wal demo_pg"
  let ?t = "commit_frames demo_hash ?h (tx_dirty demo_tx)"
  have rep: "represents demo_hash demo_store demo_pg demo_st" by (rule demo_created(5))
  obtain txns where inv: "wal_inv demo_hash txns ?w demo_st" by (rule representsE [OF rep])
  then have inv0: "wal_inv demo_hash [] ?w demo_st" using wal_inv_empty demo_created(6) by blast
  have ps: "w_page_size ?w = 512" using rep demo_header(1) by (simp add: represents_def)
  have dk: "dirty_ok demo_hash (pg_header demo_pg) (tx_page_count demo_tx) (tx_dirty demo_tx)" "pending_ok (tx_pending demo_tx)"
    "unat (tx_page_count demo_tx) * unat (page_size (pg_header demo_pg)) < 2 ^ 64"
    using demo_tx_facts(1) demo_tx_commit(1) by (simp_all add: txn_ok_def commit_fits_def)
  have hwf: "header_wf ?h" unfolding txn_header_def by (rule next_store_ok(2) [OF represents_store(1) [OF rep] dk])
  have twf: "txn_wf (unat (w_page_size ?w)) ?t"
    using dk(1) header_page_facts(1) [OF hwf, of demo_hash]
    by (auto simp: commit_frames_def txn_wf_def dirty_ok_def ps demo_header txn_header_def)
  have len: "length (snd ?t) = 2" by (simp add: commit_frames_def demo_tx_facts)
  obtain r w st1 where ap: "append_txn demo_hash 5 (fst ?t) (snd ?t) ?w demo_st = (r, w, st1)" by (metis prod_cases3)
  have cr: "\<not> crashed demo_st" "\<not> lying_sync demo_st" using represents_store(3,4) [OF rep] by blast+
  have "append_outcome demo_hash 5 (case w_salt ?w of Some s \<Rightarrow> s | None \<Rightarrow> 5) [] ?t ?w demo_st (r, w, st1)"
    using append_txn_effect [OF inv0 twf cr, of 5] ap len demo_created(6) ps by simp
  moreover have "\<not> crashed st1" using alive_append_txn [OF demo_alive] ap by (metis alive_def snd_conv)
  ultimately obtain salt where w: "is_ok r" "wal_inv demo_hash [?t] w st1" "w_salt w = Some salt" "w_page_size w = 512" "w_file w = w_file ?w"
    using ps by (auto simp: append_outcome_def)
  have "w_len w = 32 + length (txn_bytes demo_hash salt ?t)"
    using w(2-4) by (auto simp: wal_inv_def log_bytes_def)
  then have wl: "w_len w = 1120" using length_txn_bytes [OF twf, of demo_hash salt] len ps by simp
  have us: "ensure_usable demo_pg = Inr ()" using rep by (simp add: represents_def ensure_usable_def)
  have enc: "header_encode demo_hash ?h (replicate (unat (page_size (pg_header demo_pg))) 0) = Inr (header_page demo_hash ?h)"
    using header_page_encode [OF hwf, of demo_hash] by (simp add: txn_header_def)
  obtain offsets where r: "r = Inr offsets" using w(1) by (auto simp: is_ok_iff)
  have ap': "append_txn demo_hash 5 (txn_counter ?h) (tx_dirty demo_tx @ [(0, header_page demo_hash ?h)]) ?w demo_st = (Inr offsets, w, st1)"
    using ap r by (simp add: commit_frames_def)
  have "pg_wal demo_pg2 = w"
    using demo_tx_commit(2) enc ap' wl demo_created(10) unfolding demo_pg2_def txn_commit_def commit_txn_def us
    by (auto simp: txn_noop_def txn_header_def Let_def)
  moreover have "sf_path (w_file ?w) = wal_path_for demo_path" using rep demo_created(4) by (simp add: represents_def)
  ultimately show "w_len (pg_wal demo_pg2) \<noteq> 0" "sf_path (w_file (pg_wal demo_pg2)) = wal_path_for demo_path"
    using wl w(5) by simp_all
qed

section \<open>A crash at the first file operation of a checkpoint or a recovery\<close>

definition doomed :: "sim_state \<Rightarrow> bool" where
  "doomed st \<longleftrightarrow> \<not> crashed st \<and> (\<exists>s. crash_at st = Some (ops st, Before, s))"

lemma doomed_ops:
  assumes "doomed st"
  shows "\<exists>st'. file_write_at f buf off st = (Inl crash_error, st') \<and> files st' = files st"
    "\<exists>st'. file_sync f st = (Inl crash_error, st') \<and> files st' = files st"
    "\<exists>st'. file_truncate f n st = (Inl crash_error, st') \<and> files st' = files st"
  using assms by (auto simp: doomed_def file_write_at_def file_sync_def file_truncate_def enter_mut_op_def Let_def)

lemma doomed_copy:
  assumes "doomed st"
  shows "\<exists>e st'. bind_st (apply_images wlog main ps idx st) (\<lambda>_ st. file_sync main st) = (Inl e, st') \<and> files st' = files st"
proof (cases idx)
  case Nil
  then show ?thesis using doomed_ops(2) [OF assms, of main] by auto
next
  case (Cons x rest)
  obtain p off where x: "x = (p, off)" by (cases x)
  show ?thesis
  proof (cases "file_read_at wlog ps off st")
    case (Inr img)
    then show ?thesis using doomed_ops(1) [OF assms, of main img "unat p * ps"] by (auto simp: Cons x)
  qed (simp add: Cons x)
qed

lemma doomed_checkpoint:
  assumes "doomed st" "ensure_usable pg = Inr ()" "w_len (pg_wal pg) \<noteq> 0"
  shows "\<exists>e pg' st'. pager_checkpoint ord pg st = (Inl e, pg', st') \<and> files st' = files st"
  using doomed_copy [OF assms(1), of "w_file (pg_wal pg)" "pg_main pg" "unat (page_size (pg_header pg))" "ord (pg_wal_index pg)"]
    assms(2,3) by (auto simp: pager_checkpoint_def checkpoint_inner_def)

lemma doomed_recover:
  assumes d: "doomed st" and f: "files st (sf_path wlog) = Some dw" "current dw \<noteq> []"
  shows "\<exists>e st'. recover xxh main wlog st = (Inl e, st') \<and> files st' = files st"
proof -
  have tail: "\<exists>e st'. bind_st (file_len wlog st, st) (\<lambda>n st. if 0 < n then bind_st (file_truncate wlog 0 st) (\<lambda>_ st. file_sync wlog st)
      else (Inr (), st)) = (Inl e, st') \<and> files st' = files st"
    using doomed_ops(3) [OF d, of wlog 0] f d by (auto simp: file_len_def doomed_def)
  show ?thesis
  proof (cases "scan xxh wlog st")
    case (Inr sc)
    show ?thesis
    proof (cases sc)
      case None
      then show ?thesis using tail by (simp add: recover_def Inr)
    next
      case (Some rw)
      show ?thesis
      proof (cases "peek_main_page_size main st")
        case ex: (Inr expected)
        show ?thesis
          using tail doomed_copy [OF d, of wlog main "unat (rw_page_size rw)" "rw_committed rw"]
          by (auto simp: recover_def Inr Some ex)
      qed (simp add: recover_def Inr Some)
    qed
  qed (simp add: recover_def)
qed

text \<open>The checkpoint of the demo store dies.\<close>

definition demo_armed2 :: sim_state where
  "demo_armed2 = arm_crash (ops demo_st2) Before 0 demo_st2"

lemma demo_doomed2: "doomed demo_armed2"
  using demo_commit(4) by (simp add: doomed_def demo_armed2_def arm_crash_def alive_def)

lemma demo_files2:
  obtains dm dw where "files demo_st2 demo_path = Some dm" "files demo_st2 (wal_path_for demo_path) = Some dw"
    "synced dm = current dm" "synced dw = current dw" "current dw \<noteq> []"
proof -
  obtain txns dm dw where d: "files demo_st2 (sf_path (pg_main demo_pg2)) = Some dm" "synced dm = current dm"
    "files demo_st2 (sf_path (w_file (pg_wal demo_pg2))) = Some dw" "synced dw = current dw"
    "wal_inv demo_hash txns (pg_wal demo_pg2) demo_st2"
    by (rule representsE [OF demo_commit(2)])
  have "length (current dw) = w_len (pg_wal demo_pg2)" using d(3,5) by (auto simp: wal_inv_def)
  then have "current dw \<noteq> []" using demo_log(1) by auto
  then show ?thesis using d(1-4) demo_log(2) demo_commit(3) demo_created(3) by (intro that [of dm dw]) simp_all
qed

lemma demo_crash_checkpoint:
  obtains e pg1 st1 where "pager_checkpoint id demo_pg2 demo_armed2 = (Inl e, pg1, st1)"
    "settled_at (wal_path_for demo_path) st1 (power_fail 7 [demo_path, wal_path_for demo_path] st1)"
proof -
  obtain dm dw where dw: "files demo_st2 (wal_path_for demo_path) = Some dw" "current dw \<noteq> []" by (rule demo_files2)
  have "ensure_usable demo_pg2 = Inr ()" using demo_commit(2) by (simp add: represents_def ensure_usable_def)
  from doomed_checkpoint [OF demo_doomed2 this demo_log(1), of id] obtain e pg1 st1 where
    k: "pager_checkpoint id demo_pg2 demo_armed2 = (Inl e, pg1, st1)" "files st1 = files demo_armed2" by blast
  have "files st1 (wal_path_for demo_path) = Some dw" using k(2) dw(1) by (simp add: demo_armed2_def arm_crash_def)
  then have "settled_at (wal_path_for demo_path) st1 st2" for st2
    using dw(2) unfolding settled_at_def by (simp add: settled_def)
  then show ?thesis by (rule that [OF k(1)])
qed

text \<open>A power failure with a log that is not empty; the recovery of the next open dies.\<close>

definition demo_found2 :: sim_state where
  "demo_found2 = power_fail 7 [demo_path, wal_path_for demo_path] demo_st2"

lemma demo_image2:
  obtains M W where "disk_state demo_path demo_found2 M W" "W \<noteq> []"
    "image_ok demo_hash (txn_header demo_pg demo_tx) demo_store2 M W" "\<not> crashed demo_found2" "\<not> lying_sync demo_found2"
proof -
  obtain txns dm dw where d: "files demo_st2 (sf_path (pg_main demo_pg2)) = Some dm" "synced dm = current dm"
    "files demo_st2 (sf_path (w_file (pg_wal demo_pg2))) = Some dw" "synced dw = current dw" "length (current dw) < 2 ^ 64"
    "recovers demo_hash (page_size (pg_header demo_pg2)) (current dw) (log_images txns)"
    "disk_ok demo_hash (pg_header demo_pg2) demo_store2 (log_images txns) (current dm)"
    by (rule representsE [OF demo_commit(2)])
  obtain dw' where dw': "files demo_st2 (wal_path_for demo_path) = Some dw'" "current dw' \<noteq> []" by (rule demo_files2)
  have f: "files demo_st2 demo_path = Some dm" "files demo_st2 (wal_path_for demo_path) = Some dw" "current dw \<noteq> []"
    using d(1,3) dw' demo_log(2) demo_commit(3) demo_created(3) by simp_all
  have ord: "distinct [demo_path, wal_path_for demo_path]" "demo_path \<in> set [demo_path, wal_path_for demo_path]"
    "wal_path_for demo_path \<in> set [demo_path, wal_path_for demo_path]" by simp_all
  obtain M W where k: "disk_state demo_path demo_found2 M W" "crash_image dm M" "crash_image dw W"
    using power_fail_disk_state [OF ord f(1,2), of 7] unfolding demo_found2_def by metis
  have "M = current dm" "W = current dw" using crash_image_same [OF k(2)] crash_image_same [OF k(3)] d(2,4) by simp_all
  moreover have "\<not> lying_sync demo_found2" using represents_store(4) [OF demo_commit(2)] by (simp add: demo_found2_def)
  ultimately show ?thesis
    using k(1) d(5-7) f(3) demo_commit(5) by (intro that [of M W]) (auto simp: image_ok_def demo_found2_def)
qed

lemma demo_crash_recovery:
  obtains e st1 where "pager_open demo_hash demo_path demo_opts (arm_crash (ops demo_found2) Before 0 demo_found2) = (Inl e, st1)"
    "settled_at (wal_path_for demo_path) st1 (power_fail 9 [demo_path, wal_path_for demo_path] st1)"
proof -
  let ?st = "arm_crash (ops demo_found2) Before 0 demo_found2"
  obtain M W where i: "disk_state demo_path demo_found2 M W" "W \<noteq> []" "\<not> crashed demo_found2"
    by (rule demo_image2)
  have "disk_state demo_path ?st M W" "\<not> crashed ?st" using i(1,3) by (simp_all add: disk_state_def arm_crash_def)
  then obtain main wfile dm dw st1 where o:
    "pager_open demo_hash demo_path demo_opts ?st = drop_on_err main (bind_st (recover demo_hash main wfile st1) (\<lambda>_ st.
       bind_st (read_header demo_hash main st, st) (\<lambda>h st.
       (Inr \<lparr>pg_main = main, pg_wal = wal_new wfile (page_size h), pg_wal_path = wal_path_for demo_path,
             pg_header = h, pg_wal_index = [],
             pg_checkpoint_threshold = opt_checkpoint_threshold demo_opts, pg_broken = False\<rparr>, st))))"
    "sf_path main = demo_path" "sf_path wfile = wal_path_for demo_path" "files st1 (wal_path_for demo_path) = Some dw"
    "current dw = W" "crashed st1 = crashed ?st" "crash_at st1 = crash_at ?st"
    "ops st1 = ops ?st"
    by (rule pager_open_recover [of demo_path ?st M W demo_hash demo_opts])
  have "doomed st1" using o(6-8) i(3) by (simp add: doomed_def arm_crash_def)
  from doomed_recover [OF this, of wfile dw demo_hash main] obtain e st2 where
    r: "recover demo_hash main wfile st1 = (Inl e, st2)" "files st2 = files st1"
    using o(3-5) i(2) by auto
  have p: "pager_open demo_hash demo_path demo_opts ?st = (Inl e, file_drop main st2)"
    unfolding o(1) r(1) by (simp add: drop_on_err_def)
  have "files (file_drop main st2) (wal_path_for demo_path) = Some dw"
    using r(2) o(2,4) by (auto simp: file_drop_def split: option.splits)
  then have "settled_at (wal_path_for demo_path) (file_drop main st2) st3" for st3
    using o(5) i(2) unfolding settled_at_def by (simp add: settled_def)
  then show ?thesis by (rule that [OF p])
qed

section \<open>A record in the tree\<close>

definition demo_key :: key where
  "demo_key = replicate 16 1"

definition demo_tx3 :: txn where
  "demo_tx3 = snd (btree_insert demo_hash demo_pg demo_st demo_key [7] demo_begin)"

lemma demo_key_length: "length demo_key = 16"
  by (simp add: demo_key_def)

lemma demo_tree:
  "btree_at (txn_view demo_store demo_begin) (page_size (pg_header demo_pg)) (txn_root_btree_page demo_pg demo_begin) [] {}"
  by (simp add: txn_root_btree_page_def demo_begin_def pending_default_def demo_header)

text \<open>A short value goes into a fresh leaf on page 1.\<close>

lemma demo_insert_small:
  assumes "length v \<le> 101"
  obtains page where "encode_leaf [\<lparr>le_key = demo_key, le_cell = Inline v\<rparr>] 512 = Some page"
    "btree_insert demo_hash demo_pg demo_st demo_key v demo_begin = (Inr (), set_root_btree_page 1
      (demo_tx\<lparr>tx_dirty := [(1, stamp_page_checksum demo_hash page)]\<rparr>))"
proof -
  have u: "max_inline_value 512 = 101" "encode_leaf [\<lparr>le_key = demo_key, le_cell = Inline v\<rparr>] 512 \<noteq> None"
    using assms by (simp_all add: max_inline_value_def max_entry_footprint_def usable_def encode_leaf_fits demo_key_def)
  then obtain page where p: "encode_leaf [\<lparr>le_key = demo_key, le_cell = Inline v\<rparr>] 512 = Some page" by blast
  have root: "txn_root_btree_page demo_pg demo_begin = 0"
    by (simp add: txn_root_btree_page_def demo_begin_def pending_default_def demo_header)
  have al: "po_alloc (txn_ops demo_hash demo_pg demo_st) demo_begin = (Inr 1, demo_tx)"
    by (simp add: demo_tx_def txn_ops_def allocate_page_def demo_begin_def Let_def)
  have d: "tx_dirty demo_tx = [(1, stamp_page_checksum demo_hash (replicate 512 0))]"
    by (simp add: demo_tx_def allocate_page_def demo_begin_def Let_def demo_header)
  have wr: "po_write (txn_ops demo_hash demo_pg demo_st) 1 page demo_tx =
      (Inr (), demo_tx\<lparr>tx_dirty := [(1, stamp_page_checksum demo_hash page)]\<rparr>)"
  proof -
    have "\<not> (2 :: u64) \<le> 1" by (simp add: word_le_nat_alt)
    then show ?thesis
      using encode_leaf_Some(2) [OF p] by (simp add: txn_ops_def write_page_def demo_header demo_tx_facts d)
  qed
  show ?thesis
    by (rule that [OF p]) (use assms in \<open>simp add: btree_insert_def root make_cell_def demo_header u p al wr MAX_RECORD_LEN_def\<close>)
qed

lemma demo_insert:
  "btree_insert demo_hash demo_pg demo_st demo_key [7] demo_begin = (Inr (), demo_tx3)"
  "txn_ok demo_hash demo_pg demo_tx3" "commit_fits demo_pg demo_tx3" "\<not> txn_noop demo_pg demo_tx3"
proof -
  have "length [7 :: byte] \<le> 101" by simp
  then obtain page where t: "btree_insert demo_hash demo_pg demo_st demo_key [7] demo_begin = (Inr (), set_root_btree_page 1
      (demo_tx\<lparr>tx_dirty := [(1, stamp_page_checksum demo_hash page)]\<rparr>))" by (rule demo_insert_small)
  then show i: "btree_insert demo_hash demo_pg demo_st demo_key [7] demo_begin = (Inr (), demo_tx3)"
    by (simp add: demo_tx3_def)
  show "txn_ok demo_hash demo_pg demo_tx3"
    using btree_insert_map [OF demo_created(5) demo_begin_ok(2) demo_tree demo_key_length _ i] by simp
  show "commit_fits demo_pg demo_tx3" "\<not> txn_noop demo_pg demo_tx3"
    using t by (simp_all add: demo_tx3_def commit_fits_def txn_noop_def set_root_btree_page_def demo_tx_facts demo_header demo_created(6))
qed

definition demo_pg3 :: pager where
  "demo_pg3 = fst (snd (txn_commit demo_hash id 5 demo_tx3 demo_pg demo_st))"

definition demo_st3 :: sim_state where
  "demo_st3 = snd (snd (txn_commit demo_hash id 5 demo_tx3 demo_pg demo_st))"

abbreviation demo_store3 :: "u64 \<Rightarrow> bytes option" where
  "demo_store3 \<equiv> next_store demo_hash (txn_header demo_pg demo_tx3) (tx_dirty demo_tx3) demo_store"

lemma demo_commit3:
  "txn_commit demo_hash id 5 demo_tx3 demo_pg demo_st = (Inr 1, demo_pg3, demo_st3)"
  "represents demo_hash demo_store3 demo_pg3 demo_st3" "pg_header demo_pg3 = txn_header demo_pg demo_tx3"
proof -
  obtain r where o: "txn_commit demo_hash id 5 demo_tx3 demo_pg demo_st = (r, demo_pg3, demo_st3)"
    unfolding demo_pg3_def demo_st3_def by (metis prod.collapse)
  have al: "alive demo_st3"
    using alive_commit [OF demo_alive] o unfolding txn_commit_def by (metis snd_conv)
  have "txn_counter (txn_header demo_pg demo_tx3) = 1" by (simp add: txn_header_def demo_header)
  then show "txn_commit demo_hash id 5 demo_tx3 demo_pg demo_st = (Inr 1, demo_pg3, demo_st3)"
    "represents demo_hash demo_store3 demo_pg3 demo_st3" "pg_header demo_pg3 = txn_header demo_pg demo_tx3"
    using txn_commit_effect [OF demo_created(5) demo_insert(2-4) demo_order o] al o by (auto simp: alive_def)
qed

lemma demo_tree3:
  obtains K where "btree_at demo_store3 (page_size (pg_header demo_pg3)) (root_btree_page (pg_header demo_pg3)) [(demo_key, [7])] K"
proof -
  obtain K where "btree_at (txn_view demo_store demo_tx3) (page_size (pg_header demo_pg)) (txn_root_btree_page demo_pg demo_tx3)
      [(demo_key, [7])] K"
    using btree_insert_map [OF demo_created(5) demo_begin_ok(2) demo_tree demo_key_length _ demo_insert(1)] by auto
  from btree_commit [OF this, of demo_hash] show ?thesis
    by (intro that [of K]) (simp add: demo_commit3(3) txn_header_def)
qed

end
