(* ===== verification/Hnsw_Pages.thy ===== *)
theory Hnsw_Pages
  imports Header_Format
begin

text \<open>
  HNSW pages (\<^verbatim>\<open>HnswMeta\<close>, \<^verbatim>\<open>max_hnsw_level\<close>, \<^verbatim>\<open>HnswNode\<close> in \<^verbatim>\<open>format.rs\<close>): the fixed-size meta
  page, and graph nodes with their per-layer neighbour lists. The round trips, and the bound that
  makes \<^verbatim>\<open>HnswNode::encode\<close> succeed for every node the index builds.
\<close>

section \<open>The meta page\<close>

definition HNSW_DEFAULT_M :: u16 where [simp]: "HNSW_DEFAULT_M = 16"
definition HNSW_DEFAULT_EF_CONSTRUCTION :: u16 where [simp]: "HNSW_DEFAULT_EF_CONSTRUCTION = 200"

record hnsw_meta =
  hm_m :: u16
  hm_ef_construction :: u16
  hm_max_layer :: byte
  hm_entry_point_page :: u64
  hm_node_count :: u64

definition hnsw_meta_new :: hnsw_meta where
  "hnsw_meta_new = \<lparr>hm_m = HNSW_DEFAULT_M, hm_ef_construction = HNSW_DEFAULT_EF_CONSTRUCTION,
     hm_max_layer = 0, hm_entry_point_page = 0, hm_node_count = 0\<rparr>"

definition hnsw_meta_encode :: "hash64 \<Rightarrow> hnsw_meta \<Rightarrow> bytes \<Rightarrow> bytes result" where
  "hnsw_meta_encode xxh m page =
     (if hm_m m = 0 then Inl (InvalidArgument ''hnsw m must be >= 1'')
      else if 0 < hm_node_count m \<and> hm_entry_point_page m = 0
      then Inl (InvalidArgument ''non-empty hnsw index requires an entry point'')
      else let page = replicate (length page) 0;
               page = page_header_encode_into
                 \<lparr>ph_page_type = HnswMetaPage, ph_entry_count = 0, ph_next_page = 0\<rparr> page;
               off = PAGE_HEADER_LEN;
               page = write_u16 page off (hm_m m);
               off = off + 2;
               page = write_u16 page off (hm_ef_construction m);
               off = off + 2;
               page = page[off := hm_max_layer m];
               off = off + 1;
               page = write_u64 page off (hm_entry_point_page m);
               off = off + 8;
               page = write_u64 page off (hm_node_count m)
           in Inr (stamp_page_checksum xxh page))"

definition hnsw_meta_decode :: "bytes \<Rightarrow> u64 \<Rightarrow> hnsw_meta result" where
  "hnsw_meta_decode page page_no =
     bind_result (ok_or (MalformedPage page_no ''page header'') (page_header_decode page)) (\<lambda>hd.
     if ph_page_type hd \<noteq> HnswMetaPage then Inl (MalformedPage page_no ''not an HNSW_META page'')
     else let off = PAGE_HEADER_LEN in
     bind_result (ok_or (MalformedPage page_no ''m'') (read_u16 page off)) (\<lambda>m.
     let off = off + 2 in
     if m = 0 then Inl (MalformedPage page_no ''hnsw m is zero'')
     else bind_result (ok_or (MalformedPage page_no ''ef_construction'') (read_u16 page off)) (\<lambda>ef.
     let off = off + 2 in
     bind_result (ok_or (MalformedPage page_no ''max_layer'') (get_at page off)) (\<lambda>layer.
     let off = off + 1 in
     bind_result (ok_or (MalformedPage page_no ''entry_point_page'') (read_u64 page off)) (\<lambda>ep.
     let off = off + 8 in
     bind_result (ok_or (MalformedPage page_no ''node_count'') (read_u64 page off)) (\<lambda>n.
     if 0 < n \<and> ep = 0 then Inl (MalformedPage page_no ''hnsw entry point missing'')
     else Inr \<lparr>hm_m = m, hm_ef_construction = ef, hm_max_layer = layer,
               hm_entry_point_page = ep, hm_node_count = n\<rparr>))))))"

lemma hnsw_meta_roundtrip:
  assumes "hnsw_meta_encode xxh m page = Inr page'" "512 \<le> length page"
  shows "hnsw_meta_decode page' page_no = Inr m" "page_checksum_is_valid xxh page'"
    "length page' = length page"
proof -
  let ?h = "\<lparr>ph_page_type = HnswMetaPage, ph_entry_count = 0, ph_next_page = 0\<rparr>"
  let ?p0 = "page_header_encode_into ?h (replicate (length page) 0)"
  let ?p = "write_u64 (write_u64 (write_bytes (write_u16 (write_u16 ?p0 16 (hm_m m))
     18 (hm_ef_construction m)) 20 [hm_max_layer m]) 21 (hm_entry_point_page m)) 29 (hm_node_count m)"
  have c: "hm_m m \<noteq> 0" "\<not> (0 < hm_node_count m \<and> hm_entry_point_page m = 0)"
    and p': "page' = stamp_page_checksum xxh ?p"
    using assms
    by (auto simp: hnsw_meta_encode_def Let_def write_bytes_def upd_conv_take_nth_drop split: if_splits)
  show v: "page_checksum_is_valid xxh page'" "length page' = length page"
    using assms(2) by (simp_all add: p' stamp_valid)
  have s: "seg off n page' = seg off n ?p" if "off + n \<le> 504" for off n
    using that assms(2) by (simp add: p' stamp_seg)
  have "seg 20 1 page' = [hm_max_layer m]"
    using assms(2) by (simp add: s bytes_simps)
  then have b: "page' ! 20 = hm_max_layer m"
    using seg_eq_nth [of 20 page'] v(2) assms(2) by simp
  have h: "page_header_decode page' = Some ?h"
    using assms(2) v(2) page_header_encode_seg [of "replicate (length page) 0" ?h]
    by (intro page_header_decode_seg) (simp_all add: s bytes_simps)
  show "hnsw_meta_decode page' page_no = Inr m"
    using c h b v(2) assms(2)
    by (simp add: hnsw_meta_decode_def Let_def read_segs s bytes_simps get_at_def)
qed

section \<open>Graph nodes\<close>

definition max_hnsw_level :: "u32 \<Rightarrow> u16 \<Rightarrow> nat option" where
  "max_hnsw_level ps m =
     (let usable = unat ps - PAGE_HEADER_LEN - PAGE_TRAILER_LEN;
          fixed = 16 + 8 + 2 + 1;
          layer0 = 2 + unat m * 2 * 8;
          upper = 2 + unat m * 8
      in if fixed + layer0 \<le> usable
         then Some (min ((usable - (fixed + layer0)) div upper) 31) else None)"

record hnsw_node =
  hn_record_id :: ulid
  hn_vec_page :: u64
  hn_vec_slot :: u16
  hn_layers :: "u64 list list"

text \<open>The layer loop of \<^verbatim>\<open>HnswNode::encode\<close>; \<open>None\<close> when a count does not fit a \<^verbatim>\<open>u16\<close>.\<close>

fun encode_layers :: "u64 list list \<Rightarrow> bytes option" where
  "encode_layers [] = Some []"
| "encode_layers (layer # rest) =
     (if length layer < 2 ^ 16
      then map_option (\<lambda>bs. u16_to_le (word_of_nat (length layer)) @ concat (map u64_to_le layer) @ bs)
             (encode_layers rest)
      else None)"

definition hnsw_node_encode :: "hash64 \<Rightarrow> hnsw_node \<Rightarrow> u32 \<Rightarrow> bytes option" where
  "hnsw_node_encode xxh node ps =
     (if 255 < length (hn_layers node) then None
      else Option.bind (encode_layers (hn_layers node)) (\<lambda>layer_bytes.
        let body = hn_record_id node @ u64_to_le (hn_vec_page node) @ u16_to_le (hn_vec_slot node)
                   @ [word_of_nat (length (hn_layers node))] @ layer_bytes;
            total = PAGE_HEADER_LEN + length body
        in if unat ps - PAGE_TRAILER_LEN < total then None
           else let page = replicate (unat ps) 0;
                    page = page_header_encode_into
                      \<lparr>ph_page_type = HnswNodePage, ph_entry_count = 0, ph_next_page = 0\<rparr> page;
                    page = write_bytes page PAGE_HEADER_LEN body
                in Some (stamp_page_checksum xxh page)))"

fun decode_neighbors :: "bytes \<Rightarrow> u64 \<Rightarrow> nat \<Rightarrow> nat \<Rightarrow> (u64 list \<times> nat) result" where
  "decode_neighbors page page_no 0 off = Inr ([], off)"
| "decode_neighbors page page_no (Suc count) off =
     bind_result (ok_or (MalformedPage page_no ''hnsw neighbor page'') (read_u64 page off)) (\<lambda>n.
     if n = 0 then Inl (MalformedPage page_no ''hnsw null neighbor page'')
     else bind_result (decode_neighbors page page_no count (off + 8)) (\<lambda>(ns, off').
       Inr (n # ns, off')))"

fun decode_layers :: "bytes \<Rightarrow> u64 \<Rightarrow> nat \<Rightarrow> nat \<Rightarrow> (u64 list list) result" where
  "decode_layers page page_no 0 off = Inr []"
| "decode_layers page page_no (Suc layer_count) off =
     bind_result (ok_or (MalformedPage page_no ''hnsw neighbor count'') (read_u16 page off)) (\<lambda>c.
     let count = unat c; off = off + 2 in
     if length page - off < count * 8
     then Inl (MalformedPage page_no ''hnsw neighbor count exceeds page'')
     else bind_result (decode_neighbors page page_no count off) (\<lambda>(neighbors, off').
          bind_result (decode_layers page page_no layer_count off') (\<lambda>layers.
            Inr (neighbors # layers))))"

definition hnsw_node_decode :: "bytes \<Rightarrow> u64 \<Rightarrow> hnsw_node result" where
  "hnsw_node_decode page page_no =
     bind_result (ok_or (MalformedPage page_no ''page header'') (page_header_decode page)) (\<lambda>hd.
     if ph_page_type hd \<noteq> HnswNodePage then Inl (MalformedPage page_no ''not an HNSW_NODE page'')
     else let off = PAGE_HEADER_LEN in
     bind_result (ok_or (MalformedPage page_no ''hnsw record_id'') (get_range page off (off + 16))) (\<lambda>rid.
     let off = off + 16 in
     bind_result (ok_or (MalformedPage page_no ''hnsw vec_page'') (read_u64 page off)) (\<lambda>vp.
     let off = off + 8 in
     bind_result (ok_or (MalformedPage page_no ''hnsw vec_slot'') (read_u16 page off)) (\<lambda>vs.
     let off = off + 2 in
     bind_result (ok_or (MalformedPage page_no ''hnsw layer_count'') (get_at page off)) (\<lambda>lc.
     let off = off + 1 in
     bind_result (decode_layers page page_no (unat lc) off) (\<lambda>layers.
       Inr \<lparr>hn_record_id = rid, hn_vec_page = vp, hn_vec_slot = vs, hn_layers = layers\<rparr>))))))"

section \<open>The node round trip\<close>

definition hnsw_node_wf :: "hnsw_node \<Rightarrow> bool" where
  "hnsw_node_wf node \<longleftrightarrow>
     length (hn_record_id node) = 16 \<and> (\<forall>layer \<in> set (hn_layers node). 0 \<notin> set layer)"

lemma length_u64s [simp]: "length (concat (map u64_to_le ns)) = 8 * length ns"
  by (induction ns) auto

lemma decode_neighbors_holds:
  assumes "holds_at page off (concat (map u64_to_le ns))" "0 \<notin> set ns"
  shows "decode_neighbors page page_no (length ns) off = Inr (ns, off + 8 * length ns)"
  using assms by (induction ns arbitrary: off) (auto simp: holds_at_append)

lemma decode_layers_holds:
  assumes "encode_layers ls = Some bs" "holds_at page off bs" "\<forall>l \<in> set ls. 0 \<notin> set l"
  shows "decode_layers page page_no (length ls) off = Inr ls"
  using assms
proof (induction ls arbitrary: bs off)
  case (Cons l ls)
  obtain r where r: "encode_layers ls = Some r" and small: "length l < 2 ^ 16"
    and bs: "bs = u16_to_le (word_of_nat (length l)) @ concat (map u64_to_le l) @ r"
    using Cons.prems(1) by (auto split: if_splits)
  have cnt: "unat (word_of_nat (length l) :: u16) = length l"
    using small by (simp add: unat_of_nat)
  have h: "holds_at page off (u16_to_le (word_of_nat (length l)))"
    "holds_at page (off + 2) (concat (map u64_to_le l))"
    "holds_at page (off + 2 + 8 * length l) r"
    using Cons.prems(2) by (auto simp: bs holds_at_append add.assoc)
  have "8 * length l \<le> length page - (off + 2)"
    using holds_at_length [OF h(2)] by simp
  then show ?case
    using Cons.IH [OF r h(3)] Cons.prems(3) h(1) cnt decode_neighbors_holds [OF h(2), of page_no]
    by (simp add: Let_def mult.commute)
qed simp

lemma hnsw_node_roundtrip:
  assumes enc: "hnsw_node_encode xxh node ps = Some page" and wf: "hnsw_node_wf node"
  shows "hnsw_node_decode page page_no = Inr node" "page_checksum_is_valid xxh page"
    "length page = unat ps"
proof -
  let ?h = "\<lparr>ph_page_type = HnswNodePage, ph_entry_count = 0, ph_next_page = 0\<rparr>"
  let ?lc = "word_of_nat (length (hn_layers node)) :: byte"
  obtain lb where lb: "encode_layers (hn_layers node) = Some lb" and n255: "length (hn_layers node) \<le> 255"
    using enc by (auto simp: hnsw_node_encode_def bind_eq_Some_conv Let_def split: if_splits)
  define body where "body = hn_record_id node @ u64_to_le (hn_vec_page node) @
     u16_to_le (hn_vec_slot node) @ [?lc] @ lb"
  have fit: "16 + length body \<le> unat ps - 8"
    and page: "page = stamp_page_checksum xxh
      (write_bytes (page_header_encode_into ?h (replicate (unat ps) 0)) 16 body)"
    using enc lb n255
    by (auto simp: hnsw_node_encode_def bind_eq_Some_conv Let_def body_def not_less split: if_splits)
  let ?p = "write_bytes (page_header_encode_into ?h (replicate (unat ps) 0)) 16 body"
  have ps: "16 + length body + 8 \<le> unat ps"
    using fit by (simp add: body_def)
  show v: "page_checksum_is_valid xxh page" "length page = unat ps"
    using ps by (simp_all add: page stamp_valid)
  have hd: "page_header_decode page = Some ?h"
    using ps v(2) page_header_encode_seg [of "replicate (unat ps) 0" ?h]
    by (intro page_header_decode_seg) (simp_all add: page stamp_seg seg_write_before)
  have "holds_at ?p 16 body"
    using ps by (intro holds_at_write) simp
  then have "holds_at page 16 body"
    using ps by (simp add: holds_at_def page stamp_seg)
  moreover have "length (hn_record_id node) = 16" and nz: "\<forall>l \<in> set (hn_layers node). 0 \<notin> set l"
    using wf by (simp_all add: hnsw_node_wf_def)
  ultimately have h: "holds_at page 16 (hn_record_id node)" "holds_at page 32 (u64_to_le (hn_vec_page node))"
    "holds_at page 40 (u16_to_le (hn_vec_slot node))" "holds_at page 42 [?lc]" "holds_at page 43 lb"
    and rid: "length (hn_record_id node) = 16"
    using holds_at_Cons [of page 42 ?lc lb] by (simp_all add: body_def holds_at_append)
  have lc: "unat ?lc = length (hn_layers node)"
    using n255 by (simp add: unat_of_nat)
  show "hnsw_node_decode page page_no = Inr node"
    using hd h rid holds_at_range [OF h(1)] holds_at_get_at [OF h(4)] lc
      decode_layers_holds [OF lb h(5) nz, of page_no]
    by (simp add: hnsw_node_decode_def Let_def)
qed

section \<open>A node within its caps fits one page\<close>

text \<open>The adjacency bounds the index keeps: at most \<open>2 m\<close> neighbours in layer 0 and \<open>m\<close> above.\<close>

definition hnsw_caps :: "u16 \<Rightarrow> nat \<Rightarrow> u64 list list \<Rightarrow> bool" where
  "hnsw_caps m level layers \<longleftrightarrow> layers \<noteq> [] \<and> length layers \<le> Suc level \<and>
     length (hd layers) \<le> 2 * unat m \<and> (\<forall>l \<in> set (tl layers). length l \<le> unat m)"

lemma encode_upper_layers:
  assumes "\<forall>l \<in> set ls. length l \<le> unat (m::u16)"
  shows "\<exists>bs. encode_layers ls = Some bs \<and> length bs \<le> length ls * (2 + unat m * 8)"
  using assms
proof (induction ls)
  case (Cons l ls)
  then obtain bs where "encode_layers ls = Some bs" "length bs \<le> length ls * (2 + unat m * 8)"
    by auto
  moreover have "length l < 2 ^ 16"
    using Cons.prems unsigned_less [of m, where ?'a = nat] by (auto intro: le_less_trans)
  ultimately show ?case
    using Cons.prems by simp
qed simp

lemma hnsw_node_encode_total:
  assumes cap: "max_hnsw_level ps m = Some level" and caps: "hnsw_caps m level (hn_layers node)"
    and rid: "length (hn_record_id node) = 16" and ps: "page_size_is_valid ps"
  shows "\<exists>page. hnsw_node_encode xxh node ps = Some page"
proof -
  obtain l ls where layers: "hn_layers node = l # ls" and l: "length l \<le> 2 * unat m"
    and ls: "\<forall>x \<in> set ls. length x \<le> unat m" and n: "length ls \<le> level"
    using caps by (cases "hn_layers node") (auto simp: hnsw_caps_def)
  let ?u = "2 + unat m * 8"
  let ?rest = "unat ps - 24 - (27 + (2 + unat m * 16))"
  have fix_fit: "27 + (2 + unat m * 16) \<le> unat ps - 24" and lev: "level = min (?rest div ?u) 31"
    using cap by (auto simp: max_hnsw_level_def Let_def ac_simps split: if_splits)
  obtain bs where bs: "encode_layers ls = Some bs" "length bs \<le> length ls * ?u"
    using encode_upper_layers [OF ls] by blast
  have "length ls * ?u \<le> (?rest div ?u) * ?u"
    using n lev by (intro mult_le_mono1) simp
  also have "\<dots> \<le> ?rest" by (rule div_times_less_eq_dividend)
  finally have bs_fit: "length bs \<le> ?rest" using bs(2) by linarith
  have "16 * unat m < 65536"
    using fix_fit page_size_bounds(2) [OF ps] by linarith
  then have l16: "length l < 2 ^ 16"
    using l by simp
  have l8: "8 * length l \<le> unat m * 16"
    using l by simp
  have "length ls \<le> 31" using n lev by simp
  then show ?thesis
    using bs(1) l16 rid bs_fit fix_fit l8 page_size_bounds(1) [OF ps]
    by (simp add: hnsw_node_encode_def layers Let_def)
qed

end
