(* ===== verification/Vector_Pages.thy ===== *)
theory Vector_Pages
  imports Header_Format
begin

text \<open>
  VECTOR pages (\<^verbatim>\<open>vector_slots_per_page\<close>, \<^verbatim>\<open>vector_page_push\<close>, \<^verbatim>\<open>vector_page_get\<close>,
  \<^verbatim>\<open>init_vector_page\<close> in \<^verbatim>\<open>format.rs\<close>): a bump allocator of fixed-size slots. An \<^verbatim>\<open>f32\<close> is its
  32-bit pattern, which is all these functions do with it.
\<close>

type_synonym f32_bits = u32

definition VECTOR_STRIDE_F32 :: nat where [simp]: "VECTOR_STRIDE_F32 = 4"

definition vector_slots_per_page :: "u32 \<Rightarrow> u16 \<Rightarrow> nat" where
  "vector_slots_per_page ps dims =
     (let stride = unat dims * VECTOR_STRIDE_F32
      in if stride = 0 then 0
         else (unat ps - PAGE_HEADER_LEN - PAGE_TRAILER_LEN) div stride)"

text \<open>The loop of \<^verbatim>\<open>vector_page_push\<close>: one \<^verbatim>\<open>write_bytes\<close> per component.\<close>

fun write_components :: "bytes \<Rightarrow> nat \<Rightarrow> f32_bits list \<Rightarrow> bytes" where
  "write_components page off [] = page"
| "write_components page off (v # vs) =
     write_components (write_bytes page off (u32_to_le v)) (off + VECTOR_STRIDE_F32) vs"

definition vector_page_push :: "bytes \<Rightarrow> u16 \<Rightarrow> f32_bits list \<Rightarrow> (u16 option \<times> bytes) result" where
  "vector_page_push page dims vec =
     (if length vec \<noteq> unat dims then Inl (InvalidArgument ''vector length != header dims'')
      else let capacity = vector_slots_per_page (word_of_nat (length page)) dims in
      bind_result (ok_or (InvalidArgument ''not a valid page'') (page_header_decode page)) (\<lambda>hd.
      if ph_page_type hd \<noteq> Vector then Inl (InvalidArgument ''not a VECTOR page'')
      else let used = unat (ph_entry_count hd) in
      if capacity \<le> used then Inr (None, page)
      else let stride = unat dims * VECTOR_STRIDE_F32;
               offset = PAGE_HEADER_LEN + used * stride;
               page = write_components page offset vec;
               page = page_header_encode_into
                 \<lparr>ph_page_type = Vector, ph_entry_count = word_of_nat used + 1,
                  ph_next_page = ph_next_page hd\<rparr> page
           in Inr (Some (word_of_nat used), page)))"

text \<open>\<^verbatim>\<open>chunks_exact(4)\<close> with \<^verbatim>\<open>f32::from_le_bytes\<close> on each chunk.\<close>

fun read_components :: "bytes \<Rightarrow> f32_bits list" where
  "read_components (a # b # c # d # bs) = u32_from_le [a, b, c, d] # read_components bs"
| "read_components _ = []"

definition vector_page_get :: "bytes \<Rightarrow> u16 \<Rightarrow> u16 \<Rightarrow> u64 \<Rightarrow> (f32_bits list) result" where
  "vector_page_get page dims slot page_no =
     bind_result (ok_or (MalformedPage page_no ''page header'') (page_header_decode page)) (\<lambda>hd.
     if ph_page_type hd \<noteq> Vector then Inl (MalformedPage page_no ''not a VECTOR page'')
     else if ph_entry_count hd \<le> ucast slot
     then Inl (MalformedPage page_no ''vector slot out of range'')
     else let stride = unat dims * VECTOR_STRIDE_F32;
              offset = PAGE_HEADER_LEN + unat slot * stride
          in bind_result (ok_or (MalformedPage page_no ''vector slot bounds'')
               (get_range page offset (offset + stride))) (\<lambda>bs. Inr (read_components bs)))"

definition init_vector_page :: "bytes \<Rightarrow> bytes" where
  "init_vector_page page =
     page_header_encode_into \<lparr>ph_page_type = Vector, ph_entry_count = 0, ph_next_page = 0\<rparr> page"

section \<open>Component lists\<close>

definition component_bytes :: "f32_bits list \<Rightarrow> bytes" where
  "component_bytes vs = concat (map u32_to_le vs)"

lemma length_component_bytes [simp]: "length (component_bytes vs) = 4 * length vs"
  by (induction vs) (simp_all add: component_bytes_def)

lemma length_4: "length xs = 4 \<Longrightarrow> \<exists>a b c d. xs = [a, b, c, d]"
  by (auto simp: eval_nat_numeral length_Suc_conv)

lemma read_component_bytes: "read_components (component_bytes vs) = vs"
proof (induction vs)
  case Nil
  then show ?case by (simp add: component_bytes_def)
next
  case (Cons v vs)
  obtain a b c d where abcd: "u32_to_le v = [a, b, c, d]"
    using length_4 [OF le32.enc_length] by blast
  then have "u32_from_le [a, b, c, d] = v" by (metis le32.dec_enc)
  with Cons abcd show ?case by (simp add: component_bytes_def)
qed

lemma length_write_components [simp]: "length (write_components page off vs) = length page"
  by (induction vs arbitrary: page off) auto

lemma write_components_eq:
  "off + 4 * length vs \<le> length page \<Longrightarrow>
     write_components page off vs = write_bytes page off (component_bytes vs)"
proof (induction vs arbitrary: page off)
  case Nil
  then show ?case by (simp add: component_bytes_def write_bytes_def)
next
  case (Cons v vs)
  have "write_bytes (write_bytes page off (u32_to_le v)) (off + 4) ys =
        write_bytes page off (u32_to_le v @ ys)" if "off + 4 + length ys \<le> length page" for ys
    using that by (simp add: write_bytes_def min_def ac_simps)
  moreover have "component_bytes (v # vs) = u32_to_le v @ component_bytes vs"
    by (simp add: component_bytes_def)
  ultimately show ?case
    using Cons by simp
qed

section \<open>A vector page as a list of slots\<close>

text \<open>The vectors a VECTOR page holds, slot 0 first.\<close>

definition vector_page_holds :: "bytes \<Rightarrow> u16 \<Rightarrow> f32_bits list list \<Rightarrow> bool" where
  "vector_page_holds page dims vecs \<longleftrightarrow>
     (\<exists>hd. page_header_decode page = Some hd \<and> ph_page_type hd = Vector \<and>
           unat (ph_entry_count hd) = length vecs) \<and>
     length vecs \<le> vector_slots_per_page (word_of_nat (length page)) dims \<and>
     (\<forall>i < length vecs. length (vecs ! i) = unat dims \<and>
        holds_at page (16 + i * (unat dims * 4)) (component_bytes (vecs ! i)))"

lemma slot_fits:
  assumes "used < vector_slots_per_page ps dims"
  shows "0 < unat dims" "16 + used * (unat dims * 4) + unat dims * 4 + 8 \<le> unat ps"
proof -
  show d: "0 < unat dims"
    using assms by (auto simp: vector_slots_per_page_def Let_def split: if_splits)
  let ?s = "unat dims * 4"
  have "Suc used \<le> (unat ps - 24) div ?s"
    using assms d by (simp add: vector_slots_per_page_def Let_def)
  then have "Suc used * ?s \<le> (unat ps - 24) div ?s * ?s"
    by (rule mult_le_mono1)
  also have "\<dots> \<le> unat ps - 24" by simp
  finally show "16 + used * ?s + ?s + 8 \<le> unat ps"
    using d by simp
qed

lemma init_vector_page_holds:
  "16 \<le> length page \<Longrightarrow> vector_page_holds (init_vector_page page) dims []"
  by (simp add: vector_page_holds_def init_vector_page_def page_header_roundtrip)

lemma slots_disjoint: "i < j \<Longrightarrow> 16 + i * s + s \<le> 16 + j * (s::nat)"
proof -
  assume "i < j"
  then have "Suc i * s \<le> j * s" by (intro mult_le_mono1) simp
  then show ?thesis by simp
qed

text \<open>Pushing appends a slot while there is room and keeps every earlier one.\<close>

lemma vector_page_push_spec:
  assumes holds: "vector_page_holds page dims vecs" and len: "length page \<le> 65536"
    and vec: "length vec = unat dims"
  shows "if length vecs < vector_slots_per_page (word_of_nat (length page)) dims
         then \<exists>page'. vector_page_push page dims vec = Inr (Some (word_of_nat (length vecs)), page') \<and>
                vector_page_holds page' dims (vecs @ [vec]) \<and> length page' = length page
         else vector_page_push page dims vec = Inr (None, page)"
proof -
  obtain hd where hd: "page_header_decode page = Some hd" "ph_page_type hd = Vector"
    "unat (ph_entry_count hd) = length vecs"
    using holds by (auto simp: vector_page_holds_def)
  have ps: "unat (word_of_nat (length page) :: u32) = length page"
    using len by (simp add: unat_of_nat)
  let ?s = "unat dims * 4" and ?n = "length vecs"
  show ?thesis
  proof (cases "?n < vector_slots_per_page (word_of_nat (length page)) dims")
    case False
    then show ?thesis
      using hd vec by (simp add: vector_page_push_def Let_def)
  next
    case True
    note fit = slot_fits [OF True, unfolded ps]
    let ?h = "\<lparr>ph_page_type = Vector, ph_entry_count = word_of_nat ?n + 1, ph_next_page = ph_next_page hd\<rparr>"
    let ?p1 = "write_bytes page (16 + ?n * ?s) (component_bytes vec)"
    let ?p2 = "page_header_encode_into ?h ?p1"
    have push: "vector_page_push page dims vec = Inr (Some (word_of_nat ?n), ?p2)"
      using True hd vec fit by (simp add: vector_page_push_def Let_def write_components_eq)
    have "?n \<le> ?n * ?s"
      using fit(1) by simp
    then have small: "Suc ?n < 4294967296"
      using fit(2) len by linarith
    have "word_of_nat ?n + 1 = (word_of_nat (Suc ?n) :: u32)"
      by simp
    then have cnt: "unat (word_of_nat ?n + 1 :: u32) = Suc ?n"
      using small by (simp only: unat_of_nat) simp
    have other: "holds_at ?p2 (16 + i * ?s) (component_bytes (vecs ! i))"
      if "i < ?n" for i
    proof -
      have l: "length (vecs ! i) = unat dims" and h: "holds_at page (16 + i * ?s) (component_bytes (vecs ! i))"
        using holds that by (auto simp: vector_page_holds_def)
      have "holds_at ?p1 (16 + i * ?s) (component_bytes (vecs ! i))"
        using h l slots_disjoint [OF that, of ?s] by (subst holds_at_write_other) (auto simp: mult.commute)
      then show ?thesis
        by (simp add: holds_at_def page_header_encode_rest)
    qed
    have here: "holds_at ?p2 (16 + ?n * ?s) (component_bytes vec)"
      using fit vec holds_at_write [of "16 + ?n * ?s" "component_bytes vec" page]
      by (simp add: holds_at_def page_header_encode_rest mult.commute)
    have "vector_page_holds ?p2 dims (vecs @ [vec])"
      using True fit other here cnt vec holds
      by (auto simp: vector_page_holds_def page_header_roundtrip nth_append less_Suc_eq)
    with push True show ?thesis by auto
  qed
qed

lemma vector_page_get_spec:
  assumes "vector_page_holds page dims vecs"
  shows "vector_page_get page dims slot page_no =
    (if unat slot < length vecs then Inr (vecs ! unat slot)
     else Inl (MalformedPage page_no ''vector slot out of range''))"
proof -
  obtain hd where hd: "page_header_decode page = Some hd" "ph_page_type hd = Vector"
    "unat (ph_entry_count hd) = length vecs"
    using assms by (auto simp: vector_page_holds_def)
  have cmp: "ph_entry_count hd \<le> (ucast slot :: u32) \<longleftrightarrow> length vecs \<le> unat slot"
    using unsigned_less [of slot, where ?'a = nat]
    by (simp add: word_le_nat_alt hd(3) unsigned_ucast_eq take_bit_nat_eq_self)
  show ?thesis
  proof (cases "unat slot < length vecs")
    case True
    let ?v = "vecs ! unat slot"
    have l: "length ?v = unat dims"
      and h: "holds_at page (16 + unat slot * (unat dims * 4)) (component_bytes ?v)"
      using assms True by (auto simp: vector_page_holds_def)
    show ?thesis
      using True hd cmp holds_at_range [OF h] l
      by (simp add: vector_page_get_def Let_def mult.commute [of 4] read_component_bytes)
  next
    case False
    then show ?thesis
      using hd cmp by (simp add: vector_page_get_def Let_def)
  qed
qed

end
