(* ===== verification/Format_Properties.thy ===== *)
theory Format_Properties
  imports Hnsw_Pages Vector_Pages Wal_Format Btree_Node Pager_Store
begin

text \<open>
  The properties of the on-disk formats, one per structure: what is written is read back, what is
  accepted is well formed, and where a size limit is promised, it holds.
\<close>

lemma demo_header_new: "\<exists>h. header_new 512 = Inr h"
proof -
  have "is_ok (header_new 512)" by code_simp
  then show ?thesis by (simp add: is_ok_iff)
qed

text \<open>C19: A well-formed file header can always be written to a page of its size, and reading that page back gives
  the same header, under a valid page checksum; the 16-byte peek finds the page size.\<close>

theorem header_write_then_read:
  assumes "header_wf h" "length page = unat (page_size h)"
  shows "\<exists>page'. header_encode xxh h page = Inr page' \<and> header_decode xxh page' = Inr h \<and>
    page_checksum_is_valid xxh page' \<and> peek_page_size (take 16 page') = Inr (page_size h)"
proof -
  obtain page' where e: "header_encode xxh h page = Inr page'" using header_encode_ok [OF assms] by blast
  note d = header_roundtrip [OF e assms(1)]
  show ?thesis using e d header_decode_Inr(2) [OF d] peek_page_size_encode [OF e] by blast
qed

theorem header_write_then_read_witness:
  "\<exists>h page'. header_new 512 = Inr h \<and> header_encode (\<lambda>seed bs. seed) h (replicate 512 9) = Inr page' \<and>
     header_decode (\<lambda>seed bs. seed) page' = Inr h"
proof -
  obtain h where h: "header_new 512 = Inr h"
    using demo_header_new by blast
  have wf: "header_wf h" "page_size h = 512" using header_new_wf [OF h] by simp_all
  show ?thesis
    using header_write_then_read [OF wf(1), of "replicate 512 9" "\<lambda>seed bs. seed"] wf(2) h by auto
qed

text \<open>C20: A page that is accepted as a file header is one: right length, right magic number, valid checksum, known
  version, valid page size, UTF-8 model id within its limit, no encryption flag.\<close>

theorem header_decode_accepts_only_headers:
  assumes "header_decode xxh page = Inr h"
  shows "header_wf h \<and> length page = unat (page_size h) \<and> take 8 page = MAGIC \<and> page_checksum_is_valid xxh page"
  using header_decode_wf [OF assms] header_decode_Inr [OF assms] by (simp add: seg_def)

theorem header_decode_accepts_only_headers_witness:
  "\<exists>h. header_decode (\<lambda>seed bs. seed) (header_page (\<lambda>seed bs. seed) h) = Inr h \<and> header_wf h"
proof -
  obtain h where h: "header_new 512 = Inr h"
    using demo_header_new by blast
  then have "header_wf h" using header_new_wf by blast
  from header_decode_accepts_only_headers [OF header_page_facts(3) [OF this, of "\<lambda>seed bs. seed"]]
    header_page_facts(3) [OF this, of "\<lambda>seed bs. seed"] show ?thesis by blast
qed

text \<open>C21: Stamping a page makes its checksum valid, keeps everything but the trailer, and is idempotent; the common
  page header survives it.\<close>

theorem stamped_page_is_valid:
  assumes "24 \<le> length page"
  shows "page_checksum_is_valid xxh (stamp_page_checksum xxh (page_header_encode_into h page)) \<and>
    page_header_decode (stamp_page_checksum xxh (page_header_encode_into h page)) = Some h \<and>
    take (length page - 24) (drop 16 (stamp_page_checksum xxh (page_header_encode_into h page))) =
      take (length page - 24) (drop 16 page) \<and>
    stamp_page_checksum xxh (stamp_page_checksum xxh page) = stamp_page_checksum xxh page"
proof -
  let ?p = "page_header_encode_into h page"
  have "seg 0 16 (stamp_page_checksum xxh ?p) = page_header_bytes h"
    using assms page_header_encode_seg [of page h] by (simp add: stamp_seg)
  then have "page_header_decode (stamp_page_checksum xxh ?p) = Some h"
    using assms by (intro page_header_decode_seg) simp_all
  moreover have "seg 16 (length page - 24) (stamp_page_checksum xxh ?p) = seg 16 (length page - 24) page"
    using assms by (simp add: stamp_seg page_header_encode_rest)
  ultimately show ?thesis
    using assms stamp_valid [of ?p xxh] stamp_idem by (simp add: seg_def)
qed

theorem stamped_page_is_valid_witness:
  "page_header_decode (stamp_page_checksum (\<lambda>seed bs. seed)
     (page_header_encode_into \<lparr>ph_page_type = BtreeLeaf, ph_entry_count = 3, ph_next_page = 0\<rparr> (replicate 512 0))) =
   Some \<lparr>ph_page_type = BtreeLeaf, ph_entry_count = 3, ph_next_page = 0\<rparr>"
  using stamped_page_is_valid [of "replicate 512 0" "\<lambda>seed bs. seed"] by simp

text \<open>C22: Log header and log frames read back as written; a frame is accepted only under the salt and page image its
  checksum was computed for.\<close>

theorem wal_frame_write_then_read:
  assumes "wal_header_wf h"
  shows "wal_header_decode (wal_header_encode h) = Some h \<and>
    wal_frame_decode xxh (wal_frame_encode xxh f img salt) img salt = Some f \<and>
    (\<forall>buf. wal_frame_decode xxh buf img salt = Some f \<longrightarrow>
       take 8 (drop 24 buf) = u64_to_le (frame_checksum xxh buf img salt))"
  using wal_header_roundtrip [OF assms] wal_frame_roundtrip [of xxh f img salt] wal_frame_decode_checksum [of xxh _ img salt f]
  by (auto simp: seg_def)

theorem wal_frame_write_then_read_witness:
  "wal_header_decode (wal_header_encode \<lparr>wh_format_version = 1, wh_page_size = 512, wh_salt = 3\<rparr>) =
     Some \<lparr>wh_format_version = 1, wh_page_size = 512, wh_salt = 3\<rparr>"
proof -
  have "wal_header_wf \<lparr>wh_format_version = 1, wh_page_size = 512, wh_salt = 3\<rparr>" by code_simp
  from wal_frame_write_then_read [OF this] show ?thesis by blast
qed

text \<open>C23: A memory record that can be encoded decodes to itself, up to what the format does not distinguish: an empty
  project or session id is read as none, and so is the vector reference to slot 0 of page 0. The encoding is
  within the record limit.\<close>

theorem record_write_then_read:
  assumes "record_encode r = Inr out" "record_wf r"
  shows "record_decode out = Inr (record_norm r) \<and> length out \<le> MAX_RECORD_LEN"
  using record_roundtrip [OF assms] record_encode_Inr(2) [OF assms(1)] by blast

definition demo_record :: memory_record where
  "demo_record = \<lparr>mr_id = replicate 16 1, mr_tombstone = False, mr_superseded = True, mr_content = [104, 105],
     mr_vec_ref = Some \<lparr>vr_page_no = 4, vr_slot = 2\<rparr>, mr_project = Some [112],
     mr_provenance = \<lparr>pv_agent = [97], pv_session_id = None, pv_created_at_micros = 9\<rparr>,
     mr_metadata = [([107], SBool True)]\<rparr>"

theorem record_write_then_read_witness:
  "\<exists>out. record_encode demo_record = Inr out \<and> record_decode out = Inr demo_record"
proof -
  have ok: "is_ok (record_encode demo_record)"
    by (simp add: record_encode_def demo_record_def put_str_def MAX_RECORD_LEN_def Let_def)
  have wf: "record_wf demo_record"
    by (simp add: record_wf_def demo_record_def bmap_wf_def)
  have "record_norm demo_record = demo_record" by (simp add: record_norm_def demo_record_def norm_str_def)
  then show ?thesis using ok record_write_then_read [OF _ wf] by (auto simp: is_ok_iff)
qed

text \<open>C24: A vector page is a growing list of vectors: a push appends in the next slot until the page is full and then
  reports it, without touching the page; a read returns the vector of its slot and an error past the last one.\<close>

theorem vector_page_is_a_list:
  assumes "vector_page_holds page dims vecs" "length page \<le> 65536" "length vec = unat dims"
  shows "if length vecs < vector_slots_per_page (word_of_nat (length page)) dims
    then \<exists>page'. vector_page_push page dims vec = Inr (Some (word_of_nat (length vecs)), page') \<and> length page' = length page \<and>
      (\<forall>slot page_no. vector_page_get page' dims slot page_no =
         (if unat slot < length vecs then vector_page_get page dims slot page_no
          else if unat slot = length vecs then Inr vec
          else Inl (MalformedPage page_no ''vector slot out of range'')))
    else vector_page_push page dims vec = Inr (None, page)"
proof (cases "length vecs < vector_slots_per_page (word_of_nat (length page)) dims")
  case True
  obtain page' where p: "vector_page_push page dims vec = Inr (Some (word_of_nat (length vecs)), page')"
      "vector_page_holds page' dims (vecs @ [vec])" "length page' = length page"
    using vector_page_push_spec [OF assms] True by auto
  have "vector_page_get page' dims slot page_no =
      (if unat slot < length vecs then vector_page_get page dims slot page_no
       else if unat slot = length vecs then Inr vec
       else Inl (MalformedPage page_no ''vector slot out of range''))" for slot page_no
    unfolding vector_page_get_spec [OF p(2)] vector_page_get_spec [OF assms(1)] by (simp add: nth_append)
  then show ?thesis using True p by auto
next
  case False
  then show ?thesis using vector_page_push_spec [OF assms] by simp
qed

theorem vector_page_is_a_list_witness:
  "\<exists>page'. vector_page_push (init_vector_page (replicate 512 0)) 2 [5, 6] = Inr (Some 0, page') \<and>
     vector_page_get page' 2 0 1 = Inr [5, 6]"
proof -
  have h: "vector_page_holds (init_vector_page (replicate 512 0)) 2 []" by (rule init_vector_page_holds) simp
  have l: "length (init_vector_page (replicate 512 0)) = 512" by (simp add: init_vector_page_def)
  have c: "0 < vector_slots_per_page 512 2" by code_simp
  show ?thesis
    using vector_page_is_a_list [OF h, of "[5, 6]"] l c by auto
qed

text \<open>C25: A graph node of an HNSW index whose layers respect the neighbour limits of the index (twice \<open>m\<close> on layer 0,
  \<open>m\<close> above, at most the level that \<open>max_hnsw_level\<close> allows) fits its page and reads back unchanged.\<close>

theorem hnsw_node_fits_and_reads_back:
  assumes "max_hnsw_level ps m = Some level" "hnsw_caps m level (hn_layers node)" "hnsw_node_wf node" "page_size_is_valid ps"
  shows "\<exists>page. hnsw_node_encode xxh node ps = Some page \<and> length page = unat ps \<and>
    page_checksum_is_valid xxh page \<and> hnsw_node_decode page page_no = Inr node"
proof -
  have "length (hn_record_id node) = 16" using assms(3) by (simp add: hnsw_node_wf_def)
  then obtain page where "hnsw_node_encode xxh node ps = Some page"
    using hnsw_node_encode_total [OF assms(1,2) _ assms(4)] by blast
  then show ?thesis using hnsw_node_roundtrip [OF _ assms(3)] by blast
qed

theorem hnsw_node_fits_and_reads_back_witness:
  "\<exists>page. hnsw_node_encode (\<lambda>seed bs. seed) \<lparr>hn_record_id = replicate 16 3, hn_vec_page = 2, hn_vec_slot = 0, hn_layers = [[7, 8]]\<rparr> 4096 = Some page \<and>
     hnsw_node_decode page 5 = Inr \<lparr>hn_record_id = replicate 16 3, hn_vec_page = 2, hn_vec_slot = 0, hn_layers = [[7, 8]]\<rparr>"
proof -
  let ?n = "\<lparr>hn_record_id = replicate 16 3, hn_vec_page = 2, hn_vec_slot = 0, hn_layers = [[7, 8]]\<rparr>"
  have "max_hnsw_level 4096 16 = Some 29" by code_simp
  moreover have "hnsw_caps 16 29 (hn_layers ?n)" "hnsw_node_wf ?n" by (simp_all add: hnsw_caps_def hnsw_node_wf_def)
  moreover have "page_size_is_valid 4096" by code_simp
  ultimately show ?thesis using hnsw_node_fits_and_reads_back [of 4096 16 29 ?n "\<lambda>seed bs. seed" 5] by blast
qed

text \<open>The HNSW index header reads back as written.\<close>

lemma hnsw_meta_write_then_read:
  assumes "hm_m m \<noteq> 0" "hm_node_count m = 0 \<or> hm_entry_point_page m \<noteq> 0" "512 \<le> length page"
  shows "\<exists>page'. hnsw_meta_encode xxh m page = Inr page' \<and> hnsw_meta_decode page' page_no = Inr m \<and>
    page_checksum_is_valid xxh page'"
proof -
  have "\<exists>page'. hnsw_meta_encode xxh m page = Inr page'"
    using assms(1,2) by (auto simp: hnsw_meta_encode_def Let_def word_gt_0)
  then show ?thesis using hnsw_meta_roundtrip [OF _ assms(3)] by blast
qed

text \<open>C27: Leaf pages of the record tree: a sorted list of entries is encoded exactly when its footprint fits the
  usable bytes of the page, and then decodes to itself, also after the pager has stamped the checksum.\<close>

theorem leaf_write_then_read:
  assumes "leaf_ok es" "page_size_is_valid ps"
  shows "if sum_list (map footprint es) \<le> usable ps
    then \<exists>page. encode_leaf es ps = Some page \<and> length page = unat ps \<and>
      (\<forall>page_no. decode_node (stamp_page_checksum xxh page) page_no = Inr (Leaf es))
    else encode_leaf es ps = None"
proof -
  have s: "sum_list (map footprint es) = length es * 20 + cells_len es"
    by (induction es) (simp_all add: footprint_def)
  have u: "usable ps = unat ps - 24" "512 \<le> unat ps" using page_size_bounds [OF assms(2)] by (auto simp: usable_def)
  show ?thesis
  proof (cases "encode_leaf es ps")
    case None
    then show ?thesis using encode_leaf_fits [of es ps] s u by auto
  next
    case (Some page)
    then show ?thesis
      using encode_leaf_Some [OF Some] leaf_roundtrip [OF Some assms] s u by auto
  qed
qed

theorem leaf_write_then_read_witness:
  "\<exists>page. encode_leaf [\<lparr>le_key = replicate 16 1, le_cell = Inline [7]\<rparr>] 512 = Some page \<and>
     decode_node (stamp_page_checksum (\<lambda>seed bs. seed) page) 3 = Inr (Leaf [\<lparr>le_key = replicate 16 1, le_cell = Inline [7]\<rparr>])"
proof -
  have ps: "page_size_is_valid 512" by code_simp
  have "leaf_ok [\<lparr>le_key = replicate 16 1, le_cell = Inline [7]\<rparr>]" by (simp add: leaf_ok_def)
  from leaf_write_then_read [OF this ps, of "\<lambda>seed bs. seed"] show ?thesis
    by (auto simp: footprint_def usable_def)
qed

end
