(* ===== verification/Filter_Meta.thy ===== *)
theory Filter_Meta
  imports Btree_Insert
begin

text \<open>
  The filter sidecar (\<^verbatim>\<open>index/filter_meta.rs\<close>): a chain of FILTER_META pages with a fixed-size entry per
  record write and a chain of FILTER_SYMBOLS pages with the interned strings the entries refer to, both
  newest page first. A \<^verbatim>\<open>HashMap\<close> is an association list without duplicate keys (its order is never
  observed); \<^verbatim>\<open>Ulid\<close> and \<^verbatim>\<open>String\<close> are their bytes.
\<close>

unbundle bit_operations_syntax

section \<open>Constants and types\<close>

definition MIN_FORMAT_VERSION :: u32 where "MIN_FORMAT_VERSION = 7"

definition FM_TOMBSTONE :: byte where [simp]: "FM_TOMBSTONE = 1"
definition FM_SUPERSEDED :: byte where [simp]: "FM_SUPERSEDED = 2"
definition FM_HAS_METADATA :: byte where [simp]: "FM_HAS_METADATA = 4"
definition FM_SCOPE_OVERFLOW :: byte where [simp]: "FM_SCOPE_OVERFLOW = 8"
definition SYM_NONE :: u32 where [simp]: "SYM_NONE = 0"
definition ENTRY_LEN :: nat where [simp]: "ENTRY_LEN = 16 + 1 + 4 + 4 + 4"

record fm_entry =
  fe_flags :: byte
  fe_project_sym :: u32
  fe_agent_sym :: u32
  fe_doc_len :: u32

datatype want = Any | Sym u32 | Absent

record query_needs =
  qn_project :: want
  qn_agent :: want
  qn_has_metadata_filters :: bool

datatype reject_reason = Dead | OutOfScope | FilteredOut

datatype decision = Accept | Reject reject_reason | NeedRecord

record fm_table =
  tb_entries :: "(ulid \<times> fm_entry) list"
  tb_symbols :: "(rstring \<times> u32) list"

record fm_update =
  up_id :: ulid
  up_tombstone :: bool
  up_superseded :: bool
  up_has_metadata :: bool
  up_project :: "rstring option"
  up_agent :: rstring
  up_doc_len :: u32

section \<open>Queries\<close>

definition fm_get :: "fm_table \<Rightarrow> ulid \<Rightarrow> fm_entry option" where
  "fm_get tb i = map_of (tb_entries tb) i"

definition fm_resolve :: "fm_table \<Rightarrow> rstring \<Rightarrow> u32 option" where
  "fm_resolve tb s = map_of (tb_symbols tb) s"

definition want_project :: "fm_table \<Rightarrow> rstring option \<Rightarrow> want" where
  "want_project tb scope =
     (case scope of
        None \<Rightarrow> Any
      | Some p \<Rightarrow> if p = [] then Absent
                  else case fm_resolve tb p of Some sid \<Rightarrow> Sym sid | None \<Rightarrow> Absent)"

definition want_agent :: "fm_table \<Rightarrow> rstring option \<Rightarrow> want" where
  "want_agent tb agent =
     (case agent of
        None \<Rightarrow> Any
      | Some a \<Rightarrow> if a = [] then Sym SYM_NONE
                  else case fm_resolve tb a of Some sid \<Rightarrow> Sym sid | None \<Rightarrow> Absent)"

text \<open>One turn of the loop of \<^verbatim>\<open>decide\<close>: \<open>Some\<close> is its early return.\<close>

definition check_want :: "bool \<Rightarrow> want \<Rightarrow> u32 \<Rightarrow> decision option" where
  "check_want scope_overflow w sid =
     (if w = Any then None
      else if scope_overflow then Some NeedRecord
      else case w of
             Absent \<Rightarrow> Some (Reject OutOfScope)
           | Sym s \<Rightarrow> if sid \<noteq> s then Some (Reject OutOfScope) else None
           | Any \<Rightarrow> None)"

definition decide :: "fm_table \<Rightarrow> ulid \<Rightarrow> query_needs \<Rightarrow> decision" where
  "decide tb i needs =
     (case map_of (tb_entries tb) i of
        None \<Rightarrow> NeedRecord
      | Some e \<Rightarrow>
          if fe_flags e AND (FM_TOMBSTONE OR FM_SUPERSEDED) \<noteq> 0 then Reject Dead
          else let scope_overflow = (fe_flags e AND FM_SCOPE_OVERFLOW \<noteq> 0) in
          case check_want scope_overflow (qn_project needs) (fe_project_sym e) of
            Some d \<Rightarrow> d
          | None \<Rightarrow>
              (case check_want scope_overflow (qn_agent needs) (fe_agent_sym e) of
                 Some d \<Rightarrow> d
               | None \<Rightarrow>
                   if qn_has_metadata_filters needs then
                     if fe_flags e AND FM_HAS_METADATA = 0 then Reject FilteredOut else NeedRecord
                   else Accept))"

section \<open>Loading\<close>

text \<open>\<^verbatim>\<open>walk_chain\<close>: \<open>seen\<close> is its hash set. The loop ends because there are finitely many page numbers.\<close>

function walk_loop :: "page_source \<Rightarrow> page_type \<Rightarrow> u64 list \<Rightarrow> u64 \<Rightarrow> (u64 list) result" where
  "walk_loop src expect seen page_no =
     (if page_no = 0 then Inr []
      else if page_no \<in> set seen then Inl (malformed page_no ''filter-meta chain cycle'')
      else bind_result (src_page src page_no) (\<lambda>page.
           bind_result (ok_or (malformed page_no ''page header'') (page_header_decode page)) (\<lambda>hdr.
           if ph_page_type hdr \<noteq> expect then Inl (malformed page_no ''wrong page type in filter-meta chain'')
           else bind_result (walk_loop src expect (page_no # seen) (ph_next_page hdr)) (\<lambda>rest.
             Inr (page_no # rest)))))"
  by pat_completeness auto
termination
  by (relation "measure (\<lambda>(src, expect, seen, page_no). card (- set seen))")
     (auto intro!: psubset_card_mono)

declare walk_loop.simps [simp del]

definition walk_chain :: "page_source \<Rightarrow> u64 \<Rightarrow> page_type \<Rightarrow> (u64 list) result" where
  "walk_chain src head expect = walk_loop src expect [] head"

definition entry_capacity :: "nat \<Rightarrow> nat" where
  "entry_capacity ps = (ps - (PAGE_HEADER_LEN + PAGE_TRAILER_LEN)) div ENTRY_LEN"

fun decode_entry_list :: "bytes \<Rightarrow> u64 \<Rightarrow> nat \<Rightarrow> nat \<Rightarrow> ((ulid \<times> fm_entry) list) result" where
  "decode_entry_list page page_no i 0 = Inr []"
| "decode_entry_list page page_no i (Suc n) =
     (let off = PAGE_HEADER_LEN + i * ENTRY_LEN in
      bind_result (ok_or (malformed page_no ''filter-meta entry bounds'') (get_range page off (off + ENTRY_LEN))) (\<lambda>bs.
      bind_result (ok_or (malformed page_no ''project_sym'') (read_u32 bs 17)) (\<lambda>project_sym.
      bind_result (ok_or (malformed page_no ''agent_sym'') (read_u32 bs 21)) (\<lambda>agent_sym.
      bind_result (ok_or (malformed page_no ''doc_len'') (read_u32 bs 25)) (\<lambda>doc_len.
      bind_result (decode_entry_list page page_no (i + 1) n) (\<lambda>rest.
        Inr ((take 16 bs, \<lparr>fe_flags = bs ! 16, fe_project_sym = project_sym, fe_agent_sym = agent_sym,
                           fe_doc_len = doc_len\<rparr>) # rest)))))))"

definition decode_entries :: "bytes \<Rightarrow> u64 \<Rightarrow> ((ulid \<times> fm_entry) list) result" where
  "decode_entries page page_no =
     bind_result (ok_or (malformed page_no ''page header'') (page_header_decode page)) (\<lambda>hdr.
     if ph_page_type hdr \<noteq> FilterMeta then Inl (malformed page_no ''not a FILTER_META page'')
     else let n = unat (ph_entry_count hdr) in
     if entry_capacity (length page) < n then Inl (malformed page_no ''filter-meta entry count exceeds page'')
     else decode_entry_list page page_no 0 n)"

fun decode_symbol_list :: "bytes \<Rightarrow> u64 \<Rightarrow> nat \<Rightarrow> nat \<Rightarrow> nat \<Rightarrow> ((u32 \<times> rstring) list) result" where
  "decode_symbol_list page page_no body_end off 0 = Inr []"
| "decode_symbol_list page page_no body_end off (Suc n) =
     bind_result (ok_or (malformed page_no ''symbol id'') (read_u32 page off)) (\<lambda>sid.
     if sid = SYM_NONE then Inl (malformed page_no ''reserved symbol id 0'')
     else bind_result (ok_or (malformed page_no ''symbol length'') (read_u16 page (off + 4))) (\<lambda>len.
     let len = unat len; off = off + 6 in
     if body_end - off < len then Inl (malformed page_no ''symbol length exceeds page'')
     else bind_result (ok_or (malformed page_no ''symbol utf-8'') (from_utf8 (seg off len page))) (\<lambda>s.
     bind_result (decode_symbol_list page page_no body_end (off + len) n) (\<lambda>rest.
       Inr ((sid, s) # rest)))))"

definition decode_symbols :: "bytes \<Rightarrow> u64 \<Rightarrow> ((u32 \<times> rstring) list) result" where
  "decode_symbols page page_no =
     bind_result (ok_or (malformed page_no ''page header'') (page_header_decode page)) (\<lambda>hdr.
     if ph_page_type hdr \<noteq> FilterSymbols then Inl (malformed page_no ''not a FILTER_SYMBOLS page'')
     else let n = unat (ph_entry_count hdr); body_end = length page - PAGE_TRAILER_LEN in
     if (body_end - PAGE_HEADER_LEN) div 6 < n then Inl (malformed page_no ''filter-symbol count exceeds page'')
     else decode_symbol_list page page_no body_end PAGE_HEADER_LEN n)"

fun add_symbols :: "u64 \<Rightarrow> (u32 \<times> rstring) list \<Rightarrow> u32 list \<Rightarrow> (rstring \<times> u32) list \<Rightarrow>
    (u32 list \<times> (rstring \<times> u32) list) result" where
  "add_symbols page_no [] ids symbols = Inr (ids, symbols)"
| "add_symbols page_no ((sid, s) # rest) ids symbols =
     (if sid \<in> set ids \<or> map_of symbols s \<noteq> None then Inl (malformed page_no ''duplicate filter symbol'')
      else add_symbols page_no rest (sid # ids) (bmap_insert s sid symbols))"

fun load_symbols :: "page_source \<Rightarrow> u64 list \<Rightarrow> u32 list \<Rightarrow> (rstring \<times> u32) list \<Rightarrow> ((rstring \<times> u32) list) result" where
  "load_symbols src [] ids symbols = Inr symbols"
| "load_symbols src (page_no # rest) ids symbols =
     bind_result (src_page src page_no) (\<lambda>page.
     bind_result (decode_symbols page page_no) (\<lambda>syms.
     bind_result (add_symbols page_no syms ids symbols) (\<lambda>(ids, symbols).
       load_symbols src rest ids symbols)))"

definition or_insert :: "'k::linorder \<Rightarrow> 'v \<Rightarrow> ('k \<times> 'v) list \<Rightarrow> ('k \<times> 'v) list" where
  "or_insert k v m = (if map_of m k = None then bmap_insert k v m else m)"

fun load_entries :: "page_source \<Rightarrow> u64 list \<Rightarrow> (ulid \<times> fm_entry) list \<Rightarrow> ((ulid \<times> fm_entry) list) result" where
  "load_entries src [] entries = Inr entries"
| "load_entries src (page_no # rest) entries =
     bind_result (src_page src page_no) (\<lambda>page.
     bind_result (decode_entries page page_no) (\<lambda>es.
       load_entries src rest (fold (\<lambda>(i, e) m. or_insert i e m) (rev es) entries)))"

definition fm_load :: "page_source \<Rightarrow> u64 \<Rightarrow> u64 \<Rightarrow> fm_table result" where
  "fm_load src meta_root symbols_root =
     bind_result (walk_chain src symbols_root FilterSymbols) (\<lambda>symbol_pages.
     bind_result (load_symbols src symbol_pages [] []) (\<lambda>symbols.
     bind_result (walk_chain src meta_root FilterMeta) (\<lambda>meta_pages.
     bind_result (load_entries src meta_pages []) (\<lambda>entries.
       Inr \<lparr>tb_entries = entries, tb_symbols = symbols\<rparr>))))"

section \<open>Writing\<close>

text \<open>The two page images both chains use: a fresh head with one item, and the head with one more
  item behind the \<open>used\<close> bytes of the ones it has.\<close>

definition fresh_page :: "u32 \<Rightarrow> page_type \<Rightarrow> u64 \<Rightarrow> bytes \<Rightarrow> bytes" where
  "fresh_page ps t head encoded =
     write_bytes (page_header_encode_into \<lparr>ph_page_type = t, ph_entry_count = 1, ph_next_page = head\<rparr>
       (replicate (unat ps) 0)) PAGE_HEADER_LEN encoded"

definition grown_page :: "bytes \<Rightarrow> page_type \<Rightarrow> nat \<Rightarrow> u64 \<Rightarrow> nat \<Rightarrow> bytes \<Rightarrow> bytes" where
  "grown_page page t n next used encoded =
     page_header_encode_into \<lparr>ph_page_type = t, ph_entry_count = word_of_nat n + 1, ph_next_page = next\<rparr>
       (write_bytes page (PAGE_HEADER_LEN + used) encoded)"

definition append_entry :: "hash64 \<Rightarrow> pager \<Rightarrow> sim_state \<Rightarrow> bytes \<Rightarrow> txn \<Rightarrow> unit result \<times> txn" where
  "append_entry xxh pg st bs tx =
     (let po = txn_ops xxh pg st;
          head = txn_filter_meta_page pg tx;
          prepend = (\<lambda>tx.
            bind_st (po_alloc po tx) (\<lambda>page_no tx.
            bind_st (po_write po page_no (fresh_page (po_page_size po) FilterMeta head bs) tx) (\<lambda>_ tx.
              (Inr (), set_filter_meta_page page_no tx))))
      in if head = 0 then prepend tx
         else bind_st (po_read po head tx, tx) (\<lambda>page tx.
              bind_st (ok_or (malformed head ''page header'') (page_header_decode page), tx) (\<lambda>hdr tx.
              if ph_page_type hdr \<noteq> FilterMeta then (Inl (malformed head ''not a FILTER_META page''), tx)
              else let n = unat (ph_entry_count hdr) in
                   if n < entry_capacity (unat (po_page_size po))
                   then po_write po head (grown_page page FilterMeta n (ph_next_page hdr) (n * ENTRY_LEN) bs) tx
                   else prepend tx)))"

definition symbol_bytes :: "u32 \<times> rstring \<Rightarrow> bytes" where
  "symbol_bytes x = u32_to_le (fst x) @ u16_to_le (word_of_nat (length (snd x))) @ snd x"

text \<open>The next symbol: one more than the largest in use, if there is one.\<close>

definition next_symbol :: "(rstring \<times> u32) list \<Rightarrow> u32 option" where
  "next_symbol symbols =
     (let m = fold max (map snd symbols) SYM_NONE
      in if unat m + 1 = 2 ^ 32 then None else Some (m + 1))"

definition intern :: "hash64 \<Rightarrow> pager \<Rightarrow> sim_state \<Rightarrow> rstring \<Rightarrow> (rstring \<times> u32) list \<Rightarrow> txn \<Rightarrow>
    (u32 option \<times> (rstring \<times> u32) list) result \<times> txn" where
  "intern xxh pg st s symbols tx =
     (let po = txn_ops xxh pg st; ps = unat (po_page_size po) in
      if s = [] then (Inr (Some SYM_NONE, symbols), tx)
      else case map_of symbols s of
        Some sid \<Rightarrow> (Inr (Some sid, symbols), tx)
      | None \<Rightarrow>
          if 65535 < length s \<or> ps - PAGE_HEADER_LEN - PAGE_TRAILER_LEN < 6 + length s
          then (Inr (None, symbols), tx)
          else case next_symbol symbols of
            None \<Rightarrow> (Inr (None, symbols), tx)
          | Some sid \<Rightarrow>
              let encoded = symbol_bytes (sid, s);
                  head = txn_filter_symbols_page pg tx;
                  added = (Some sid, bmap_insert s sid symbols);
                  prepend = (\<lambda>tx.
                    bind_st (po_alloc po tx) (\<lambda>page_no tx.
                    bind_st (po_write po page_no (fresh_page (po_page_size po) FilterSymbols head encoded) tx) (\<lambda>_ tx.
                      (Inr added, set_filter_symbols_page page_no tx))))
              in if head = 0 then prepend tx
                 else bind_st (po_read po head tx, tx) (\<lambda>page tx.
                      bind_st (decode_symbols page head, tx) (\<lambda>existing tx.
                      let used = sum_list (map (\<lambda>(_, s). 6 + length s) existing) in
                      if PAGE_HEADER_LEN + used + length encoded \<le> ps - PAGE_TRAILER_LEN then
                        bind_st (ok_or (malformed head ''page header'')
                          (page_header_decode (write_bytes page (PAGE_HEADER_LEN + used) encoded)), tx) (\<lambda>hdr tx.
                        bind_st (po_write po head (grown_page page FilterSymbols (length existing) (ph_next_page hdr) used encoded) tx)
                          (\<lambda>_ tx. (Inr added, tx)))
                      else prepend tx)))"

fun read_symbols :: "page_source \<Rightarrow> u64 list \<Rightarrow> (rstring \<times> u32) list \<Rightarrow> ((rstring \<times> u32) list) result" where
  "read_symbols src [] symbols = Inr symbols"
| "read_symbols src (page_no # rest) symbols =
     bind_result (src_page src page_no) (\<lambda>page.
     bind_result (decode_symbols page page_no) (\<lambda>syms.
       read_symbols src rest (fold (\<lambda>(sid, s) m. bmap_insert s sid m) syms symbols)))"

definition entry_flags :: "fm_update \<Rightarrow> byte" where
  "entry_flags u =
     (let flags = 0;
          flags = (if up_tombstone u then flags OR FM_TOMBSTONE else flags);
          flags = (if up_superseded u then flags OR FM_SUPERSEDED else flags)
      in if up_has_metadata u then flags OR FM_HAS_METADATA else flags)"

definition fm_entry_bytes :: "ulid \<times> fm_entry \<Rightarrow> bytes" where
  "fm_entry_bytes x =
     fst x @ [fe_flags (snd x)] @ u32_to_le (fe_project_sym (snd x)) @ u32_to_le (fe_agent_sym (snd x)) @
     u32_to_le (fe_doc_len (snd x))"

definition update_entry :: "fm_update \<Rightarrow> u32 option \<Rightarrow> u32 option \<Rightarrow> fm_entry" where
  "update_entry u project_sym agent_sym =
     (case (project_sym, agent_sym) of
        (Some p, Some a) \<Rightarrow>
          \<lparr>fe_flags = entry_flags u, fe_project_sym = p, fe_agent_sym = a, fe_doc_len = up_doc_len u\<rparr>
      | _ \<Rightarrow> \<lparr>fe_flags = entry_flags u OR FM_SCOPE_OVERFLOW, fe_project_sym = SYM_NONE, fe_agent_sym = SYM_NONE,
               fe_doc_len = up_doc_len u\<rparr>)"

fun write_updates :: "hash64 \<Rightarrow> pager \<Rightarrow> sim_state \<Rightarrow> fm_update list \<Rightarrow> (rstring \<times> u32) list \<Rightarrow> txn \<Rightarrow> unit result \<times> txn" where
  "write_updates xxh pg st [] symbols tx = (Inr (), tx)"
| "write_updates xxh pg st (u # rest) symbols tx =
     bind_st (intern xxh pg st (case up_project u of Some p \<Rightarrow> p | None \<Rightarrow> []) symbols tx) (\<lambda>(project_sym, symbols) tx.
     bind_st (intern xxh pg st (up_agent u) symbols tx) (\<lambda>(agent_sym, symbols) tx.
     bind_st (append_entry xxh pg st (fm_entry_bytes (up_id u, update_entry u project_sym agent_sym)) tx) (\<lambda>_ tx.
       write_updates xxh pg st rest symbols tx)))"

definition record_updates :: "hash64 \<Rightarrow> pager \<Rightarrow> sim_state \<Rightarrow> fm_update list \<Rightarrow> txn \<Rightarrow> unit result \<times> txn" where
  "record_updates xxh pg st updates tx =
     (if format_version (pg_header pg) < MIN_FORMAT_VERSION \<or> updates = [] then (Inr (), tx)
      else let src = txn_source xxh pg st tx in
      bind_st (walk_chain src (txn_filter_symbols_page pg tx) FilterSymbols, tx) (\<lambda>pages tx.
      bind_st (read_symbols src pages [], tx) (\<lambda>symbols tx.
        write_updates xxh pg st updates symbols tx)))"

end
