(* ===== verification/Record_Filter.thy ===== *)
theory Record_Filter
  imports Memory_Record
begin

text \<open>
  Metadata filters (\<^verbatim>\<open>Scalar::as_ordered\<close>, \<^verbatim>\<open>Filter::matches\<close> in \<^verbatim>\<open>record.rs\<close>). A stored \<^verbatim>\<open>f64\<close> is its bit
  pattern; comparison of patterns follows IEEE 754: a NaN compares false with everything, the two
  zeros are equal, and otherwise sign and magnitude decide. \<^verbatim>\<open>v as f64\<close> on an \<^verbatim>\<open>i64\<close> rounds to the
  nearest value, ties to even.
\<close>

section \<open>Double-precision values as bit patterns\<close>

type_synonym f64_bits = u64

definition f64_magnitude :: "f64_bits \<Rightarrow> nat" where
  "f64_magnitude w = unat w mod 2 ^ 63"

definition f64_negative :: "f64_bits \<Rightarrow> bool" where
  "f64_negative w \<longleftrightarrow> 2 ^ 63 \<le> unat w"

definition f64_is_nan :: "f64_bits \<Rightarrow> bool" where
  "f64_is_nan w \<longleftrightarrow> 2047 * 2 ^ 52 < f64_magnitude w"

text \<open>Sign and magnitude as one integer: the order of the values, NaNs aside.\<close>

definition f64_rank :: "f64_bits \<Rightarrow> int" where
  "f64_rank w = (if f64_negative w then - int (f64_magnitude w) else int (f64_magnitude w))"

definition f64_le :: "f64_bits \<Rightarrow> f64_bits \<Rightarrow> bool" where
  "f64_le a b \<longleftrightarrow> \<not> f64_is_nan a \<and> \<not> f64_is_nan b \<and> f64_rank a \<le> f64_rank b"

definition f64_eq :: "f64_bits \<Rightarrow> f64_bits \<Rightarrow> bool" where
  "f64_eq a b \<longleftrightarrow> \<not> f64_is_nan a \<and> \<not> f64_is_nan b \<and> f64_rank a = f64_rank b"

text \<open>The position of the highest set bit.\<close>

fun top_bit :: "nat \<Rightarrow> nat" where
  "top_bit n = (if n < 2 then 0 else Suc (top_bit (n div 2)))"

declare top_bit.simps [simp del]

text \<open>The 53-bit significand of \<open>n\<close> (possibly \<open>2 ^ 53\<close> after rounding up), and the magnitude bits of the
  double nearest to it: the carry of a significand of \<open>2 ^ 53\<close> goes into the exponent.\<close>

definition significand :: "nat \<Rightarrow> nat" where
  "significand n =
     (let e = top_bit n in
      if e \<le> 52 then n * 2 ^ (52 - e)
      else let s = e - 52; q = n div 2 ^ s; r = n mod 2 ^ s
           in if 2 ^ (s - 1) < r \<or> r = 2 ^ (s - 1) \<and> odd q then q + 1 else q)"

definition nat_to_f64 :: "nat \<Rightarrow> nat" where
  "nat_to_f64 n = (if n = 0 then 0 else (1022 + top_bit n) * 2 ^ 52 + significand n)"

definition i64_to_f64 :: "u64 \<Rightarrow> f64_bits" where
  "i64_to_f64 v =
     (let i = sint v in
      word_of_nat ((if i < 0 then 2 ^ 63 else 0) + nat_to_f64 (nat \<bar>i\<bar>)))"

section \<open>Filters\<close>

definition as_ordered :: "scalar \<Rightarrow> f64_bits option" where
  "as_ordered s = (case s of SI64 v \<Rightarrow> Some (i64_to_f64 v) | SF64 v \<Rightarrow> Some v | _ \<Rightarrow> None)"

datatype metadata_filter = FEq scalar | FRange "f64_bits option" "f64_bits option"

text \<open>\<^verbatim>\<open>mem::discriminant\<close>, and the derived \<^verbatim>\<open>PartialEq\<close> of \<^verbatim>\<open>Scalar\<close>.\<close>

fun discriminant :: "scalar \<Rightarrow> nat" where
  "discriminant SNull = 0"
| "discriminant (SBool b) = 1"
| "discriminant (SI64 v) = 2"
| "discriminant (SF64 v) = 3"
| "discriminant (SStr s) = 4"

definition scalar_eq :: "scalar \<Rightarrow> scalar \<Rightarrow> bool" where
  "scalar_eq a b = (case (a, b) of (SF64 x, SF64 y) \<Rightarrow> f64_eq x y | _ \<Rightarrow> a = b)"

definition filter_matches :: "metadata_filter \<Rightarrow> scalar option \<Rightarrow> bool result" where
  "filter_matches f stored =
     (case stored of
        None \<Rightarrow> Inr False
      | Some s \<Rightarrow>
          (case f of
             FEq v \<Rightarrow>
               if discriminant v \<noteq> discriminant s
               then Inl (InvalidArgument ''recall filter type mismatch: stored value has a different type'')
               else Inr (scalar_eq v s)
           | FRange lo hi \<Rightarrow>
               (case as_ordered s of
                  None \<Rightarrow> Inl (InvalidArgument ''recall range filter requires a numeric stored value'')
                | Some v \<Rightarrow> Inr ((case lo of None \<Rightarrow> True | Some l \<Rightarrow> f64_le l v) \<and>
                                 (case hi of None \<Rightarrow> True | Some h \<Rightarrow> f64_le v h)))))"

section \<open>Integers as doubles\<close>

lemma top_bit_bounds: "0 < n \<Longrightarrow> 2 ^ top_bit n \<le> n \<and> n < 2 ^ Suc (top_bit n)"
proof (induction n rule: top_bit.induct)
  case (1 n)
  show ?case
  proof (cases "n < 2")
    case True
    with 1 show ?thesis by (simp add: top_bit.simps)
  next
    case False
    then have "2 ^ top_bit (n div 2) \<le> n div 2" "n div 2 < 2 ^ Suc (top_bit (n div 2))" using 1 by simp_all
    with False show ?thesis by (subst (1 2) top_bit.simps) auto
  qed
qed

lemma top_bit_mono: "0 < m \<Longrightarrow> m \<le> n \<Longrightarrow> top_bit m \<le> top_bit n"
proof (rule ccontr)
  assume "0 < m" "m \<le> n" "\<not> top_bit m \<le> top_bit n"
  then have "(2::nat) ^ Suc (top_bit n) \<le> 2 ^ top_bit m" by (intro power_increasing) simp_all
  with top_bit_bounds [of m] top_bit_bounds [of n] \<open>0 < m\<close> \<open>m \<le> n\<close> show False by linarith
qed

lemma significand_bounds:
  assumes "0 < n"
  shows "2 ^ 52 \<le> significand n" "significand n \<le> 2 ^ 53"
proof -
  let ?e = "top_bit n"
  have b: "2 ^ ?e \<le> n" "n < 2 ^ Suc ?e" using top_bit_bounds [OF assms] by simp_all
  have "2 ^ 52 \<le> significand n \<and> significand n \<le> 2 ^ 53"
  proof (cases "?e \<le> 52")
    case True
    have p: "(2::nat) ^ 52 = 2 ^ ?e * 2 ^ (52 - ?e)" "(2::nat) ^ 53 = 2 ^ Suc ?e * 2 ^ (52 - ?e)"
      using True by (simp_all flip: power_add power_Suc)
    have "2 ^ 52 \<le> n * 2 ^ (52 - ?e)" unfolding p(1) by (rule mult_le_mono1 [OF b(1)])
    moreover have "n * 2 ^ (52 - ?e) \<le> 2 ^ 53" unfolding p(2) using b(2) by (intro mult_le_mono1) simp
    ultimately show ?thesis using True by (simp add: significand_def Let_def)
  next
    case False
    let ?s = "?e - 52"
    have e: "?e = 52 + ?s" "Suc ?e = 53 + ?s" using False by simp_all
    have p: "(2::nat) ^ ?e = 2 ^ 52 * 2 ^ ?s" by (subst e(1)) (rule power_add)
    have p2: "(2::nat) ^ Suc ?e = 2 ^ 53 * 2 ^ ?s" by (subst e(2)) (rule power_add)
    have "2 ^ 52 \<le> n div 2 ^ ?s" using b(1) unfolding p by (simp add: less_eq_div_iff_mult_less_eq)
    moreover have "n div 2 ^ ?s < 2 ^ 53" using b(2) unfolding p2 by (rule less_mult_imp_div_less)
    ultimately show ?thesis using False by (simp add: significand_def Let_def)
  qed
  then show "2 ^ 52 \<le> significand n" "significand n \<le> 2 ^ 53" by simp_all
qed

lemma significand_mono:
  assumes "m \<le> n" "top_bit m = top_bit n"
  shows "significand m \<le> significand n"
proof (cases "top_bit n \<le> 52")
  case True
  with assms show ?thesis by (simp add: significand_def Let_def)
next
  case False
  let ?s = "top_bit n - 52"
  consider "m div 2 ^ ?s = n div 2 ^ ?s" "m mod 2 ^ ?s \<le> n mod 2 ^ ?s" | "m div 2 ^ ?s < n div 2 ^ ?s"
  proof (cases "m div 2 ^ ?s = n div 2 ^ ?s")
    case True
    have "m div 2 ^ ?s * 2 ^ ?s + m mod 2 ^ ?s \<le> n div 2 ^ ?s * 2 ^ ?s + n mod 2 ^ ?s"
      using assms(1) by (simp only: div_mult_mod_eq)
    with True that(1) show thesis by simp
  next
    case False
    with that(2) div_le_mono [OF assms(1), of "2 ^ ?s"] show thesis by linarith
  qed
  then show ?thesis
    using False assms(2) by cases (auto simp: significand_def Let_def)
qed

lemma nat_to_f64_mono:
  assumes "m \<le> n"
  shows "nat_to_f64 m \<le> nat_to_f64 n"
proof (cases "m = 0")
  case False
  then have m: "0 < m" "0 < n" using assms by simp_all
  show ?thesis
  proof (cases "top_bit m = top_bit n")
    case True
    then show ?thesis using m significand_mono [OF assms True] by (simp add: nat_to_f64_def)
  next
    case False
    then have "Suc (top_bit m) \<le> top_bit n" using top_bit_mono [OF m(1) assms] by simp
    then have "(1022 + Suc (top_bit m)) * 2 ^ 52 \<le> (1022 + top_bit n) * (2::nat) ^ 52" by (intro mult_le_mono1) simp
    with significand_bounds [OF m(1)] significand_bounds [OF m(2)] m show ?thesis by (simp add: nat_to_f64_def)
  qed
qed (simp add: nat_to_f64_def)

lemma nat_to_f64_strict:
  assumes "m < n" "n \<le> 2 ^ 53"
  shows "nat_to_f64 m < nat_to_f64 n"
proof (cases "m = 0")
  case True
  with assms show ?thesis by (simp add: nat_to_f64_def)
next
  case False
  then have m: "0 < m" "0 < n" "m < 2 ^ 53" using assms by simp_all
  have em: "top_bit m \<le> 52"
  proof (rule ccontr)
    assume "\<not> ?thesis"
    then have "(2::nat) ^ 53 \<le> 2 ^ top_bit m" by (intro power_increasing) simp_all
    with top_bit_bounds [OF m(1)] m(3) show False by simp
  qed
  have sm: "significand m = m * 2 ^ (52 - top_bit m)" using em by (simp add: significand_def Let_def)
  show ?thesis
  proof (cases "top_bit m = top_bit n")
    case True
    then show ?thesis using m sm em assms(1) by (simp add: nat_to_f64_def significand_def Let_def)
  next
    case False
    then have "Suc (top_bit m) \<le> top_bit n" using top_bit_mono [OF m(1), of n] assms(1) by simp
    then have le: "(1022 + Suc (top_bit m)) * 2 ^ 52 \<le> (1022 + top_bit n) * (2::nat) ^ 52" by (intro mult_le_mono1) simp
    have "significand m < 2 ^ Suc (top_bit m) * 2 ^ (52 - top_bit m)"
      unfolding sm using top_bit_bounds [OF m(1)] by (intro mult_strict_right_mono) simp_all
    also have "\<dots> = 2 ^ 53" using em by (simp flip: power_add power_Suc)
    finally show ?thesis using le significand_bounds [OF m(2)] m by (simp add: nat_to_f64_def)
  qed
qed

lemma nat_to_f64_finite:
  assumes "n \<le> 2 ^ 63"
  shows "nat_to_f64 n \<le> 1086 * 2 ^ 52"
proof (cases "n = 0")
  case False
  have "top_bit ((2::nat) ^ 63) = 63" by (simp add: top_bit.simps)
  moreover from this have "significand ((2::nat) ^ 63) = 2 ^ 52" by (simp add: significand_def)
  ultimately have "nat_to_f64 (2 ^ 63) = 1086 * 2 ^ 52" by (simp add: nat_to_f64_def)
  with nat_to_f64_mono [OF assms] show ?thesis by simp
qed (simp add: nat_to_f64_def)

lemma sint_abs_bound: "nat \<bar>sint (v :: u64)\<bar> \<le> 2 ^ 63"
  using sint_greater_eq [of v] sint_less [of v] by simp

text \<open>The conversion never gives a NaN, and its rank is the rounded integer.\<close>

lemma i64_to_f64_magnitude:
  "f64_magnitude (i64_to_f64 v) = nat_to_f64 (nat \<bar>sint v\<bar>)"
  "f64_negative (i64_to_f64 v) \<longleftrightarrow> sint v < 0"
  "\<not> f64_is_nan (i64_to_f64 v)"
proof -
  define k where "k = nat_to_f64 (nat \<bar>sint v\<bar>)"
  have n: "k \<le> 1086 * 2 ^ 52" unfolding k_def by (rule nat_to_f64_finite [OF sint_abs_bound])
  then have lt: "(if sint v < 0 then 2 ^ 63 else 0) + k < 2 ^ LENGTH(64)" by simp
  have u: "unat (i64_to_f64 v) = (if sint v < 0 then 2 ^ 63 else 0) + k"
    unfolding i64_to_f64_def Let_def unat_of_nat k_def [symmetric] by (rule mod_less [OF lt])
  have m: "f64_magnitude (i64_to_f64 v) = k" using n by (simp add: f64_magnitude_def u)
  then show "f64_magnitude (i64_to_f64 v) = nat_to_f64 (nat \<bar>sint v\<bar>)" by (simp add: k_def)
  show "f64_negative (i64_to_f64 v) \<longleftrightarrow> sint v < 0" using n by (simp add: f64_negative_def u)
  show "\<not> f64_is_nan (i64_to_f64 v)" using n by (simp add: f64_is_nan_def m)
qed

lemma f64_rank_i64:
  "f64_rank (i64_to_f64 v) = (if sint v < 0 then - int (nat_to_f64 (nat (- sint v))) else int (nat_to_f64 (nat (sint v))))"
  by (simp add: f64_rank_def i64_to_f64_magnitude)

lemma i64_to_f64_mono: "sint a \<le> sint b \<Longrightarrow> f64_le (i64_to_f64 a) (i64_to_f64 b)"
  using nat_to_f64_mono [of "nat (sint a)" "nat (sint b)"] nat_to_f64_mono [of "nat (- sint b)" "nat (- sint a)"]
  by (auto simp: f64_le_def f64_rank_i64 i64_to_f64_magnitude)

text \<open>Up to 53 bits nothing is lost.\<close>

lemma i64_to_f64_exact:
  assumes "\<bar>sint a\<bar> \<le> 2 ^ 53" "\<bar>sint b\<bar> \<le> 2 ^ 53"
  shows "f64_le (i64_to_f64 a) (i64_to_f64 b) \<longleftrightarrow> sint a \<le> sint b"
proof
  assume le: "f64_le (i64_to_f64 a) (i64_to_f64 b)"
  show "sint a \<le> sint b"
  proof (rule ccontr)
    assume "\<not> ?thesis"
    then have lt: "sint b < sint a" by simp
    have z: "0 < n \<Longrightarrow> 0 < nat_to_f64 n" for n by (simp add: nat_to_f64_def)
    have r: "f64_rank (i64_to_f64 a) \<le> f64_rank (i64_to_f64 b)" using le by (simp add: f64_le_def)
    consider "sint a < 0" | "0 \<le> sint a" "sint b < 0" | "0 \<le> sint b" by linarith
    then show False
    proof cases
      case 1
      then have "nat_to_f64 (nat (- sint a)) < nat_to_f64 (nat (- sint b))"
        using lt assms(2) by (intro nat_to_f64_strict) auto
      with 1 lt r show False by (simp add: f64_rank_i64)
    next
      case 2
      with z [of "nat (- sint b)"] r show False by (simp add: f64_rank_i64)
    next
      case 3
      then have "nat_to_f64 (nat (sint b)) < nat_to_f64 (nat (sint a))"
        using lt assms(1) by (intro nat_to_f64_strict) auto
      with 3 lt r show False by (simp add: f64_rank_i64)
    qed
  qed
qed (rule i64_to_f64_mono)

end
