(* ===== verification/Fts_Text.thy ===== *)
theory Fts_Text
  imports Memory_Record
begin

text \<open>
  The text side of the full-text index (\<^verbatim>\<open>index/fts.rs\<close>): the tokenizer, the document length and the clipping of
  long terms. \<open>alnum\<close> is \<^verbatim>\<open>char::is_alphanumeric\<close> and \<open>lower\<close> is \<^verbatim>\<open>char::to_lowercase\<close>, Unicode tables of the standard
  library; the latter never yields an empty sequence.
\<close>

section \<open>Tokens\<close>

text \<open>\<^verbatim>\<open>str::chars\<close>: the code points of valid UTF-8.\<close>

fun utf8_chars :: "rstring \<Rightarrow> nat list" where
  "utf8_chars [] = []"
| "utf8_chars (b0 # bs) =
     (if b0 < 0x80 then unat b0 # utf8_chars bs
      else if b0 < 0xE0 then
        (case bs of b1 # r \<Rightarrow> ((unat b0 mod 32) * 64 + unat b1 mod 64) # utf8_chars r | _ \<Rightarrow> [])
      else if b0 < 0xF0 then
        (case bs of b1 # b2 # r \<Rightarrow> ((unat b0 mod 16) * 4096 + (unat b1 mod 64) * 64 + unat b2 mod 64) # utf8_chars r | _ \<Rightarrow> [])
      else
        (case bs of b1 # b2 # b3 # r \<Rightarrow>
           ((unat b0 mod 8) * 262144 + (unat b1 mod 64) * 4096 + (unat b2 mod 64) * 64 + unat b3 mod 64) # utf8_chars r
         | _ \<Rightarrow> []))"

text \<open>The loop of \<^verbatim>\<open>tokenize\<close>: the token under construction, as code points, and the characters left.\<close>

fun split_tokens :: "(nat \<Rightarrow> bool) \<Rightarrow> (nat \<Rightarrow> nat list) \<Rightarrow> nat list \<Rightarrow> nat list \<Rightarrow> nat list list" where
  "split_tokens alnum lower cur [] = (if cur \<noteq> [] then [cur] else [])"
| "split_tokens alnum lower cur (c # cs) =
     (if alnum c then split_tokens alnum lower (cur @ lower c) cs
      else if cur \<noteq> [] then cur # split_tokens alnum lower [] cs
      else split_tokens alnum lower cur cs)"

definition tokenize :: "(nat \<Rightarrow> bool) \<Rightarrow> (nat \<Rightarrow> nat list) \<Rightarrow> rstring \<Rightarrow> nat list list" where
  "tokenize alnum lower text = split_tokens alnum lower [] (utf8_chars text)"

definition sat_succ :: "u32 \<Rightarrow> u32" where
  "sat_succ n = (if unat n + 1 = 2 ^ 32 then n else n + 1)"

fun count_tokens :: "(nat \<Rightarrow> bool) \<Rightarrow> u32 \<Rightarrow> bool \<Rightarrow> nat list \<Rightarrow> u32" where
  "count_tokens alnum n in_token [] = (if in_token then sat_succ n else n)"
| "count_tokens alnum n in_token (c # cs) =
     (if alnum c then count_tokens alnum n True cs
      else if in_token then count_tokens alnum (sat_succ n) False cs
      else count_tokens alnum n in_token cs)"

definition doc_len :: "(nat \<Rightarrow> bool) \<Rightarrow> rstring \<Rightarrow> u32" where
  "doc_len alnum text = count_tokens alnum 0 False (utf8_chars text)"

text \<open>Counting without building the tokens gives their number, until the counter saturates.\<close>

lemma sat_succ_unat: "unat (sat_succ n) = min (2 ^ 32 - 1) (unat n + 1)"
proof (cases "unat n + 1 = 2 ^ 32")
  case False
  moreover have "unat n < 2 ^ 32" using unsigned_less [of n] by simp
  ultimately have "unat (n + 1) = unat n + 1" "unat n + 1 \<le> 2 ^ 32 - 1" by (simp_all add: unat_word_ariths)
  then show ?thesis using False by (simp add: sat_succ_def)
qed (simp add: sat_succ_def)

lemma count_split_tokens:
  assumes "\<And>c. alnum c \<Longrightarrow> lower c \<noteq> []" "in_token \<longleftrightarrow> cur \<noteq> []"
  shows "unat (count_tokens alnum n in_token cs) = min (2 ^ 32 - 1) (unat n + length (split_tokens alnum lower cur cs))"
  using assms(2)
proof (induction cs arbitrary: n in_token cur)
  case Nil
  have "unat n < 2 ^ 32" using unsigned_less [of n] by simp
  with Nil show ?case by (simp add: sat_succ_unat)
next
  case (Cons c cs)
  note IH = Cons.IH [of True "cur @ lower c" n] Cons.IH [of False "[]" "sat_succ n"] Cons.IH [of False "[]" n]
  show ?case
  proof (cases "alnum c")
    case True
    then show ?thesis using assms(1) [OF True] IH(1) by simp
  next
    case False
    then show ?thesis using Cons.prems IH(2,3) by (cases "cur = []") (simp_all add: sat_succ_unat)
  qed
qed

lemma doc_len_tokenize:
  assumes "\<And>c. alnum c \<Longrightarrow> lower c \<noteq> []"
  shows "unat (doc_len alnum text) = min (2 ^ 32 - 1) (length (tokenize alnum lower text))"
  using count_split_tokens [of alnum lower False "[]" 0, OF assms] by (simp add: doc_len_def tokenize_def)

section \<open>Clipping a term\<close>

definition MAX_TERM_LEN :: nat where "MAX_TERM_LEN = 128"

text \<open>\<^verbatim>\<open>str::is_char_boundary\<close>.\<close>

definition is_char_boundary :: "rstring \<Rightarrow> nat \<Rightarrow> bool" where
  "is_char_boundary s i \<longleftrightarrow> i = 0 \<or> i = length s \<or> i < length s \<and> \<not> utf8_cont (s ! i)"

fun clip_end :: "rstring \<Rightarrow> nat \<Rightarrow> nat" where
  "clip_end term 0 = 0"
| "clip_end term (Suc e) = (if is_char_boundary term (Suc e) then Suc e else clip_end term e)"

definition clip_term :: "rstring \<Rightarrow> rstring" where
  "clip_term term = (if length term \<le> MAX_TERM_LEN then term else take (clip_end term MAX_TERM_LEN) term)"

lemma clip_end_boundary: "is_char_boundary term (clip_end term e) \<and> clip_end term e \<le> e"
  by (induction e) (auto simp: is_char_boundary_def)

lemma cont_range: "lo \<le> b \<Longrightarrow> b \<le> hi \<Longrightarrow> 0x80 \<le> lo \<Longrightarrow> hi \<le> 0xBF \<Longrightarrow> utf8_cont b"
  unfolding utf8_cont_def by (meson order_trans)

text \<open>Valid text starts with one character: a first byte and its continuation bytes.\<close>

lemma utf8_first_char:
  assumes "utf8_valid (b0 # bs)"
  obtains cs r where "bs = cs @ r" "\<forall>c \<in> set cs. utf8_cont c" "utf8_valid r" "\<And>r'. utf8_valid r' \<Longrightarrow> utf8_valid (b0 # cs @ r')"
proof -
  have n: "\<not> (0xC2 :: byte) \<le> 0x7F" "(0x80 :: byte) \<le> 0xA0" "(0x80 :: byte) \<le> 0x90" "(0x9F :: byte) \<le> 0xBF" "(0x8F :: byte) \<le> 0xBF"
    by (simp_all add: word_le_nat_alt)
  have c: "utf8_cont b" if "if b0 = x then lo \<le> b \<and> b \<le> 0xBF else if b0 = y then 0x80 \<le> b \<and> b \<le> hi else utf8_cont b"
      "0x80 \<le> lo" "hi \<le> 0xBF" for b x y lo hi
    using that cont_range [of lo b "0xBF"] cont_range [of "0x80" b hi] by (auto split: if_splits)
  show ?thesis
  proof (cases "b0 \<le> 0x7F")
    case True
    then show ?thesis using assms by (intro that [of "[]" bs]) simp_all
  next
    case a: False
    show ?thesis
    proof (cases "0xC2 \<le> b0 \<and> b0 \<le> 0xDF")
      case True
      then obtain b1 r where "bs = b1 # r" "utf8_cont b1" "utf8_valid r" using assms a by (auto split: list.splits)
      then show ?thesis using True a by (intro that [of "[b1]" r]) simp_all
    next
      case b: False
      show ?thesis
      proof (cases "0xE0 \<le> b0 \<and> b0 \<le> 0xEF")
        case True
        then obtain b1 b2 r where k: "bs = b1 # b2 # r"
          "if b0 = 0xE0 then 0xA0 \<le> b1 \<and> b1 \<le> 0xBF else if b0 = 0xED then 0x80 \<le> b1 \<and> b1 \<le> 0x9F else utf8_cont b1"
          "utf8_cont b2" "utf8_valid r"
          using assms a b by (simp only: utf8_valid.simps if_False if_True) (auto split: list.splits)
        note ok = c [OF k(2) n(2,4)]
        show ?thesis
        proof (rule that [of "[b1, b2]" r])
          show "utf8_valid (b0 # [b1, b2] @ r')" if "utf8_valid r'" for r'
            unfolding utf8_valid.simps(2) [of b0] if_not_P [OF a] if_not_P [OF b] if_P [OF True] using that k by (simp del: utf8_valid.simps)
        qed (use k ok in \<open>simp_all del: utf8_valid.simps\<close>)
      next
        case d: False
        then have e: "0xF0 \<le> b0 \<and> b0 \<le> 0xF4" using assms a b by (auto split: if_splits)
        then obtain b1 b2 b3 r where k: "bs = b1 # b2 # b3 # r"
          "if b0 = 0xF0 then 0x90 \<le> b1 \<and> b1 \<le> 0xBF else if b0 = 0xF4 then 0x80 \<le> b1 \<and> b1 \<le> 0x8F else utf8_cont b1"
          "utf8_cont b2" "utf8_cont b3" "utf8_valid r"
          using assms a b d by (simp only: utf8_valid.simps if_False if_True) (auto split: list.splits)
        note ok = c [OF k(2) n(3,5)]
        show ?thesis
        proof (rule that [of "[b1, b2, b3]" r])
          show "utf8_valid (b0 # [b1, b2, b3] @ r')" if "utf8_valid r'" for r'
            unfolding utf8_valid.simps(2) [of b0] if_not_P [OF a] if_not_P [OF b] if_not_P [OF d] if_P [OF e] using that k by (simp del: utf8_valid.simps)
        qed (use k ok in \<open>simp_all del: utf8_valid.simps\<close>)
      qed
    qed
  qed
qed

lemma utf8_take_boundary: "utf8_valid s \<Longrightarrow> is_char_boundary s i \<Longrightarrow> utf8_valid (take i s)"
proof (induction "length s" arbitrary: s i rule: less_induct)
  case less
  show ?case
  proof (cases s)
    case (Cons b0 bs)
    obtain cs r where c: "bs = cs @ r" "\<forall>c \<in> set cs. utf8_cont c" "utf8_valid r" "\<And>r'. utf8_valid r' \<Longrightarrow> utf8_valid (b0 # cs @ r')"
      using less.prems(1) Cons utf8_first_char by blast
    consider "i = 0" | "0 < i" "i \<le> length cs" | j where "i = Suc (length cs) + j" by (metis add_Suc le_Suc_ex not_gr0 not_less_eq_eq)
    then show ?thesis
    proof cases
      case 2
      then have "utf8_cont (s ! i)" using c(2) by (simp add: Cons c(1) nth_Cons' nth_append)
      then show ?thesis using less.prems(2) 2 by (auto simp: is_char_boundary_def Cons c(1))
    next
      case 3
      then have "is_char_boundary r j" using less.prems(2) by (auto simp: is_char_boundary_def Cons c(1) nth_append)
      then have "utf8_valid (take j r)" by (intro less.hyps c(3)) (simp add: Cons c(1))
      moreover have "take i s = b0 # cs @ take j r" by (simp add: Cons c(1) 3)
      ultimately show ?thesis using c(4) by (simp only:)
    qed simp
  qed simp
qed

lemma clip_term_ok:
  assumes "utf8_valid term"
  shows "utf8_valid (clip_term term) \<and> length (clip_term term) \<le> MAX_TERM_LEN \<and> (\<exists>rest. term = clip_term term @ rest)"
proof (cases "length term \<le> MAX_TERM_LEN")
  case False
  note e = clip_end_boundary [of "term" MAX_TERM_LEN]
  have "utf8_valid (take (clip_end term MAX_TERM_LEN) term)" by (rule utf8_take_boundary [OF assms]) (use e in simp)
  moreover have "term = clip_term term @ drop (clip_end term MAX_TERM_LEN) term" using False by (simp add: clip_term_def)
  then have "\<exists>rest. term = clip_term term @ rest" by blast
  ultimately show ?thesis using False e by (auto simp: clip_term_def simp del: utf8_valid.simps)
qed (use assms in \<open>simp add: clip_term_def\<close>)

end
