(* ===== verification/Store_Api.thy ===== *)
theory Store_Api
  imports Btree_Scan Filter_Meta Record_Filter Fts_Text
begin

text \<open>
  The parts of the public API (\<^verbatim>\<open>api.rs\<close>) that work on records, the record tree and the filter sidecar:
  \<^verbatim>\<open>Store::get\<close>, \<^verbatim>\<open>Store::forget\<close>, the iterators, the \<^verbatim>\<open>keep\<close> predicate of \<^verbatim>\<open>recall_detailed\<close>, the sidecar cache
  and the consistency check \<^verbatim>\<open>verify_filter_meta_invariant\<close>. Of \<^verbatim>\<open>Store\<close> only the pager (with its file system)
  and the sidecar cache matter here. \<open>alnum\<close> is \<^verbatim>\<open>char::is_alphanumeric\<close>, the Unicode table of the standard
  library; the memo table of the \<^verbatim>\<open>load\<close> closure is left out, since it only repeats reads of one committed state.
\<close>

section \<open>Memories and queries\<close>

record memory =
  me_id :: ulid
  me_content :: rstring
  me_project :: "rstring option"
  me_metadata :: "(rstring \<times> scalar) list"
  me_provenance :: provenance
  me_tombstone :: bool
  me_superseded :: bool

definition from_record :: "memory_record \<Rightarrow> memory" where
  "from_record r = \<lparr>me_id = mr_id r, me_content = mr_content r, me_project = mr_project r,
     me_metadata = mr_metadata r, me_provenance = mr_provenance r, me_tombstone = mr_tombstone r,
     me_superseded = mr_superseded r\<rparr>"

datatype scope = All | Project rstring

definition DEFAULT_RECALL_LIMIT :: nat where "DEFAULT_RECALL_LIMIT = 8"

record query =
  q_text :: rstring
  q_limit :: nat
  q_scope :: scope
  q_filters :: "(rstring \<times> metadata_filter) list" \<comment> \<open>\<^verbatim>\<open>BTreeMap\<close>\<close>
  q_agent :: "rstring option"
  q_ef_search :: "u16 option"
  q_expand_related :: bool
  q_recency :: bool

definition query_new :: "rstring \<Rightarrow> query" where
  "query_new text = \<lparr>q_text = text, q_limit = DEFAULT_RECALL_LIMIT, q_scope = All, q_filters = [],
     q_agent = None, q_ef_search = None, q_expand_related = False, q_recency = False\<rparr>"

fun passes_filters :: "(rstring \<times> scalar) list \<Rightarrow> (rstring \<times> metadata_filter) list \<Rightarrow> bool result" where
  "passes_filters metadata [] = Inr True"
| "passes_filters metadata ((k, f) # fs) =
     bind_result (filter_matches f (map_of metadata k)) (\<lambda>ok.
     if \<not> ok then Inr False else passes_filters metadata fs)"

definition record_passes_filters :: "query \<Rightarrow> memory_record \<Rightarrow> bool result" where
  "record_passes_filters q r = passes_filters (mr_metadata r) (q_filters q)"

definition in_scope :: "query \<Rightarrow> memory_record \<Rightarrow> bool" where
  "in_scope q r \<longleftrightarrow> \<not> mr_tombstone r \<and> \<not> mr_superseded r \<and>
     (case q_scope q of All \<Rightarrow> True | Project p \<Rightarrow> mr_project r = Some p) \<and>
     (case q_agent q of None \<Rightarrow> True | Some a \<Rightarrow> pv_agent (mr_provenance r) = a)"

definition filter_meta_update :: "(nat \<Rightarrow> bool) \<Rightarrow> memory_record \<Rightarrow> fm_update" where
  "filter_meta_update alnum r = \<lparr>up_id = mr_id r, up_tombstone = mr_tombstone r, up_superseded = mr_superseded r,
     up_has_metadata = (mr_metadata r \<noteq> []), up_project = mr_project r, up_agent = pv_agent (mr_provenance r),
     up_doc_len = doc_len alnum (mr_content r)\<rparr>"

definition meta_needs :: "fm_table \<Rightarrow> query \<Rightarrow> query_needs" where
  "meta_needs tb q = \<lparr>qn_project = (case q_scope q of All \<Rightarrow> want_project tb None | Project p \<Rightarrow> want_project tb (Some p)),
     qn_agent = want_agent tb (q_agent q), qn_has_metadata_filters = (q_filters q \<noteq> [])\<rparr>"

section \<open>Reading records\<close>

definition load_record :: "page_source \<Rightarrow> u64 \<Rightarrow> ulid \<Rightarrow> (memory_record option) result" where
  "load_record src root i =
     bind_result (btree_get src root i) (\<lambda>found.
     case found of
       None \<Rightarrow> Inr None
     | Some bs \<Rightarrow> bind_result (record_decode bs) (\<lambda>r. Inr (Some r)))"

definition store_get :: "page_source \<Rightarrow> u64 \<Rightarrow> ulid \<Rightarrow> (memory option) result" where
  "store_get src root i =
     bind_result (btree_get src root i) (\<lambda>found.
     case found of
       None \<Rightarrow> Inr None
     | Some bs \<Rightarrow> bind_result (record_decode bs) (\<lambda>r.
         Inr (if \<not> mr_tombstone r then Some (from_record r) else None)))"

text \<open>The \<^verbatim>\<open>keep\<close> closure: \<open>meta\<close> is the sidecar with the resolved needs, the last argument the stashed filter error.\<close>

definition keep :: "(fm_table \<times> query_needs) option \<Rightarrow> (ulid \<Rightarrow> (memory_record option) result) \<Rightarrow> query \<Rightarrow>
    ulid \<Rightarrow> error option \<Rightarrow> bool \<times> error option" where
  "keep meta load q i filter_error =
     (if filter_error \<noteq> None then (False, filter_error)
      else case (case meta of Some (tb, needs) \<Rightarrow> decide tb i needs | None \<Rightarrow> NeedRecord) of
        Accept \<Rightarrow> (True, filter_error)
      | Reject _ \<Rightarrow> (False, filter_error)
      | NeedRecord \<Rightarrow>
          (case load i of
             Inr (Some r) \<Rightarrow>
               if in_scope q r then
                 (case record_passes_filters q r of Inr pass \<Rightarrow> (pass, filter_error) | Inl e \<Rightarrow> (False, Some e))
               else (False, filter_error)
           | _ \<Rightarrow> (False, filter_error)))"

section \<open>Forgetting\<close>

text \<open>\<^verbatim>\<open>forget\<close> up to its commit: \<open>False\<close> is the early return that drops the transaction.\<close>

definition forget_writes :: "hash64 \<Rightarrow> (nat \<Rightarrow> bool) \<Rightarrow> ulid \<Rightarrow> pager \<Rightarrow> sim_state \<Rightarrow> txn \<Rightarrow> bool result \<times> txn" where
  "forget_writes xxh alnum i pg st tx =
     bind_st (btree_get (txn_source xxh pg st tx) (txn_root_btree_page pg tx) i, tx) (\<lambda>found tx.
     case found of
       None \<Rightarrow> (Inr False, tx)
     | Some bs \<Rightarrow>
         bind_st (record_decode bs, tx) (\<lambda>r tx.
         if mr_tombstone r then (Inr False, tx)
         else let r = r\<lparr>mr_tombstone := True\<rparr> in
           bind_st (record_encode r, tx) (\<lambda>bs tx.
           bind_st (btree_insert xxh pg st i bs tx) (\<lambda>_ tx.
           bind_st (record_updates xxh pg st [filter_meta_update alnum r] tx) (\<lambda>_ tx.
             (Inr True, tx))))))"

definition forget :: "hash64 \<Rightarrow> ((u64 \<times> nat) list \<Rightarrow> (u64 \<times> nat) list) \<Rightarrow> u64 \<Rightarrow> (nat \<Rightarrow> bool) \<Rightarrow> ulid \<Rightarrow>
    pager \<Rightarrow> sim_state \<Rightarrow> bool result \<times> pager \<times> sim_state" where
  "forget xxh ord new_salt alnum i pg st =
     (case pager_begin pg of
        Inl e \<Rightarrow> (Inl e, pg, st)
      | Inr tx \<Rightarrow>
          (case forget_writes xxh alnum i pg st tx of
             (Inl e, tx) \<Rightarrow> (Inl e, pg, st)
           | (Inr False, tx) \<Rightarrow> (Inr False, pg, st)
           | (Inr True, tx) \<Rightarrow>
               (case txn_commit xxh ord new_salt tx pg st of
                  (Inl e, pg, st) \<Rightarrow> (Inl e, pg, st)
                | (Inr _, pg, st) \<Rightarrow> (Inr True, pg, st))))"

section \<open>The sidecar cache\<close>

type_synonym meta_cache = "(u64 \<times> fm_table) option"

definition store_filter_meta :: "hash64 \<Rightarrow> pager \<Rightarrow> sim_state \<Rightarrow> meta_cache \<Rightarrow> (fm_table option) result \<times> meta_cache" where
  "store_filter_meta xxh pg st cache =
     (let h = pg_header pg in
      if filter_meta_page h = 0 then (Inr None, cache)
      else let stamp = txn_counter h;
               load = (case fm_load (pager_source xxh pg st) (filter_meta_page h) (filter_symbols_page h) of
                         Inl e \<Rightarrow> (Inl e, cache)
                       | Inr tb \<Rightarrow> (Inr (Some tb), Some (stamp, tb)))
           in case cache of
                Some (cached_stamp, tb) \<Rightarrow> if cached_stamp = stamp then (Inr (Some tb), cache) else load
              | None \<Rightarrow> load)"

section \<open>Iteration\<close>

text \<open>Every entry an iteration yields shrinks what is left of it, so the loops over it end.\<close>

lemma scan_loop_weight:
  "scan_loop src st = (Inr (Some x), st') \<Longrightarrow> stack_weight st' < stack_weight st"
proof (induction src st rule: scan_loop.induct)
  case (2 src st)
  then show ?case using pop_weight [of st "LeafFrame []"] by (simp del: stack_weight.simps)
next
  case (3 src e es st)
  then show ?case using next_entry_weight [of es st e] by (auto simp: bind_result_Inr_iff simp del: stack_weight.simps)
next
  case (4 src st)
  then show ?case using pop_weight [of st "InnerFrame []"] by (simp del: stack_weight.simps)
next
  case (5 src c cs st)
  then show ?case
    using next_child_weight by (auto simp del: stack_weight.simps split: sum.splits) (metis order_less_trans)
qed simp_all

definition scan_rank :: "scan_state \<Rightarrow> nat \<times> nat" where
  "scan_rank s = (if sc_start s = None then 0 else 1, stack_weight (sc_stack s))"

lemma scan_next_rank:
  assumes "scan_next src s = (Some (Inr x), s')"
  shows "(scan_rank s', scan_rank s) \<in> less_than <*lex*> less_than"
proof -
  have "\<not> sc_fused s" "scan_advance src s = (Inr (Some x), s')"
    using assms by (auto simp: scan_next_def split: if_splits prod.splits sum.splits option.splits)
  then show ?thesis
    by (cases "sc_start s")
       (auto simp: scan_advance_def scan_rank_def Let_def split: sum.splits prod.splits dest: scan_loop_weight)
qed

function iter_next :: "page_source \<Rightarrow> bool \<Rightarrow> scan_state \<Rightarrow> (memory result) option \<times> scan_state" where
  "iter_next src include_tombstones s =
     (case scan_next src s of
        (None, s) \<Rightarrow> (None, s)
      | (Some (Inl e), s) \<Rightarrow> (Some (Inl e), s)
      | (Some (Inr (k, bs)), s) \<Rightarrow>
          (case record_decode bs of
             Inl e \<Rightarrow> (Some (Inl e), s)
           | Inr r \<Rightarrow>
               let m = from_record r in
               if me_id m \<noteq> k then (Some (Inl (MalformedRecord ''key/id mismatch'')), s)
               else if me_tombstone m \<and> \<not> include_tombstones then iter_next src include_tombstones s
               else (Some (Inr m), s)))"
  by pat_completeness auto
termination
  by (relation "inv_image (less_than <*lex*> less_than) (\<lambda>(src, include_tombstones, s). scan_rank s)")
     (auto dest!: scan_next_rank [OF sym])

declare iter_next.simps [simp del]

lemma iter_next_rank:
  "iter_next src inc s = (Some (Inr m), s') \<Longrightarrow> (scan_rank s', scan_rank s) \<in> less_than <*lex*> less_than"
proof (induction src inc s rule: iter_next.induct)
  case (1 src inc s)
  from 1(2) obtain k bs s1 r where n: "scan_next src s = (Some (Inr (k, bs)), s1)" "record_decode bs = Inr r"
    "if me_tombstone (from_record r) \<and> \<not> inc then iter_next src inc s1 = (Some (Inr m), s') else s1 = s'" "me_id (from_record r) = k"
    by (subst (asm) iter_next.simps) (auto simp: Let_def split: prod.splits option.splits sum.splits if_splits)
  note r1 = scan_next_rank [OF n(1)]
  show ?case
  proof (cases "me_tombstone (from_record r) \<and> \<not> inc")
    case True
    with n have "(scan_rank s', scan_rank s1) \<in> less_than <*lex*> less_than"
      by (intro 1(1) [OF n(1) [symmetric] refl refl refl n(2) refl]) auto
    with r1 show ?thesis by (meson transD trans_less_than trans_lex_prod)
  next
    case False
    with n(3) r1 show ?thesis by simp
  qed
qed

section \<open>The consistency check\<close>

definition verify_memory :: "(nat \<Rightarrow> bool) \<Rightarrow> fm_table \<Rightarrow> memory \<Rightarrow> unit result" where
  "verify_memory alnum tb m =
     bind_result (ok_or (Internal ''filter-meta entry missing for a record'') (fm_get tb (me_id m))) (\<lambda>entry.
     if fe_doc_len entry \<noteq> doc_len alnum (me_content m) then Inl (Internal ''filter-meta doc_len disagrees'')
     else let dead = (me_tombstone m \<or> me_superseded m);
              d = decide tb (me_id m) \<lparr>qn_project = Any, qn_agent = Any, qn_has_metadata_filters = False\<rparr> in
     if \<not> (d = Accept \<and> \<not> dead \<or> d = Reject Dead \<and> dead) then Inl (Internal ''filter-meta liveness disagrees'')
     else if dead then Inr ()
     else let own = \<lparr>qn_project = want_project tb (me_project m),
                     qn_agent = want_agent tb (Some (pv_agent (me_provenance m))), qn_has_metadata_filters = False\<rparr> in
     if (\<exists>why \<in> {Dead, OutOfScope, FilteredOut}. decide tb (me_id m) own = Reject why)
     then Inl (Internal ''filter-meta rejects a record's own scope'')
     else if decide tb (me_id m) \<lparr>qn_project = Absent, qn_agent = Any, qn_has_metadata_filters = False\<rparr> = Accept
     then Inl (Internal ''filter-meta accepts an absent project'')
     else Inr ())"

function verify_loop :: "(nat \<Rightarrow> bool) \<Rightarrow> fm_table \<Rightarrow> page_source \<Rightarrow> scan_state \<Rightarrow> unit result" where
  "verify_loop alnum tb src s =
     (case iter_next src True s of
        (None, s) \<Rightarrow> Inr ()
      | (Some (Inl e), s) \<Rightarrow> Inl e
      | (Some (Inr m), s) \<Rightarrow> bind_result (verify_memory alnum tb m) (\<lambda>_. verify_loop alnum tb src s))"
  by pat_completeness auto
termination
  by (relation "inv_image (less_than <*lex*> less_than) (\<lambda>(alnum, tb, src, s). scan_rank s)")
     (auto dest!: iter_next_rank [OF sym])

declare verify_loop.simps [simp del]

definition verify_filter_meta_invariant :: "hash64 \<Rightarrow> (nat \<Rightarrow> bool) \<Rightarrow> pager \<Rightarrow> sim_state \<Rightarrow> meta_cache \<Rightarrow> unit result \<times> meta_cache" where
  "verify_filter_meta_invariant xxh alnum pg st cache =
     (case store_filter_meta xxh pg st cache of
        (Inl e, cache) \<Rightarrow> (Inl e, cache)
      | (Inr None, cache) \<Rightarrow> (Inr (), cache)
      | (Inr (Some tb), cache) \<Rightarrow>
          (verify_loop alnum tb (pager_source xxh pg st) (btree_scan (root_btree_page (pg_header pg))), cache))"

end
