(* ===== verification/Filter_Chain.thy ===== *)
theory Filter_Chain
  imports Filter_Meta
begin

text \<open>
  Page chains as append-only logs: the abstract view of the two chains of the sidecar. A page holds a
  list of encoded items behind the common header; a chain of such pages, newest first, holds a log of
  items, oldest first. The locale \<open>item_pages\<close> is what a page format owes the chain, \<open>item_log\<close> adds the
  transaction the pages are written through; both are interpreted for the entries and for the symbols.
\<close>

section \<open>Pages of items\<close>

definition item_page :: "page_type \<Rightarrow> ('a \<Rightarrow> bytes) \<Rightarrow> ('a \<Rightarrow> bool) \<Rightarrow> u32 \<Rightarrow> bytes \<Rightarrow> 'a list \<Rightarrow> u64 \<Rightarrow> bool" where
  "item_page t enc ok ps page es next \<longleftrightarrow>
     length page = unat ps \<and>
     page_header_decode page = Some \<lparr>ph_page_type = t, ph_entry_count = word_of_nat (length es), ph_next_page = next\<rparr> \<and>
     holds_at page 16 (concat (map enc es)) \<and> 24 + length (concat (map enc es)) \<le> unat ps \<and> (\<forall>x \<in> set es. ok x)"

fun page_log :: "page_type \<Rightarrow> ('a \<Rightarrow> bytes) \<Rightarrow> ('a \<Rightarrow> bool) \<Rightarrow> (u64 \<Rightarrow> bytes option) \<Rightarrow> u32 \<Rightarrow> u64 \<Rightarrow> u64 list \<Rightarrow> 'a list \<Rightarrow> bool" where
  "page_log t enc ok V ps head [] log \<longleftrightarrow> head = 0 \<and> log = []"
| "page_log t enc ok V ps head (p # pgs) log \<longleftrightarrow>
     head = p \<and> p \<noteq> 0 \<and>
     (\<exists>page es next older. V p = Some page \<and> item_page t enc ok ps page es next \<and> log = older @ es \<and>
        page_log t enc ok V ps next pgs older)"

lemma page_log_cong:
  "page_log t enc ok V ps head pgs log \<Longrightarrow> \<forall>p \<in> set pgs. V' p = V p \<Longrightarrow> page_log t enc ok V' ps head pgs log"
  by (induction pgs arbitrary: head log) (simp, fastforce)

lemma page_log_ok: "page_log t enc ok V ps head pgs log \<Longrightarrow> x \<in> set log \<Longrightarrow> ok x"
  by (induction pgs arbitrary: head log) (auto simp: item_page_def)

lemma page_log_pages:
  assumes "page_log t enc ok V ps head pgs log" "p \<in> set pgs"
  obtains page h where "p \<noteq> 0" "V p = Some page" "page_header_decode page = Some h" "ph_page_type h = t"
  using assms by (induction pgs arbitrary: head log) (auto simp: item_page_def)

lemma page_log_types_disjoint:
  assumes "page_log t enc ok V ps head pgs log" "page_log t' enc' ok' V ps' head' pgs' log'" "t \<noteq> t'"
  shows "set pgs \<inter> set pgs' = {}"
proof (rule ccontr)
  assume "\<not> ?thesis"
  then obtain p where p: "p \<in> set pgs" "p \<in> set pgs'" by blast
  show False
    by (rule page_log_pages [OF assms(1) p(1)], rule page_log_pages [OF assms(2) p(2)]) (use assms(3) in auto)
qed

text \<open>The pages a chain consists of are determined by its head, so none occurs twice.\<close>

lemma page_log_unique:
  "page_log t enc ok V ps head pgs log \<Longrightarrow> page_log t enc ok V ps head pgs' log' \<Longrightarrow> pgs = pgs'"
proof (induction pgs arbitrary: head log pgs' log')
  case Nil
  then show ?case by (cases pgs') auto
next
  case (Cons p pgs)
  then show ?case by (cases pgs') (auto simp: item_page_def)
qed

lemma page_log_suffix:
  "page_log t enc ok V ps head (xs @ p # ys) log \<Longrightarrow> \<exists>log'. page_log t enc ok V ps p (p # ys) log'"
proof (induction xs arbitrary: head log)
  case (Cons x xs)
  then obtain next' older where "page_log t enc ok V ps next' (xs @ p # ys) older" by auto
  then show ?case by (rule Cons.IH)
qed (metis append_Nil page_log.simps(2))

lemma page_log_distinct:
  assumes "page_log t enc ok V ps head pgs log"
  shows "distinct pgs"
proof (rule ccontr)
  assume "\<not> distinct pgs"
  then obtain xs ys zs p where d: "pgs = xs @ [p] @ ys @ [p] @ zs" using not_distinct_decomp by blast
  have "\<exists>l. page_log t enc ok V ps p (p # ys @ p # zs) l"
    using page_log_suffix [of t enc ok V ps head xs p "ys @ p # zs" log] assms d by simp
  moreover have "\<exists>l. page_log t enc ok V ps p (p # zs) l"
    using page_log_suffix [of t enc ok V ps head "xs @ p # ys" p zs log] assms d by simp
  ultimately have "p # ys @ p # zs = p # zs" by (metis page_log_unique)
  then have "length (p # ys @ p # zs) = length (p # zs)" by (rule arg_cong)
  then show False by simp
qed

section \<open>Walking a chain\<close>

lemma walk_loop_page_log:
  assumes "serves src V ps" "page_log t enc ok V ps head pgs log" "set pgs \<inter> set seen = {}" "distinct pgs"
  shows "walk_loop src t seen head = Inr pgs"
  using assms(2-)
proof (induction pgs arbitrary: head log seen)
  case Nil
  then show ?case by (simp add: walk_loop.simps)
next
  case (Cons p pgs)
  then obtain page es next' older where l: "head = p" "p \<noteq> 0" "V p = Some page" "item_page t enc ok ps page es next'"
    "page_log t enc ok V ps next' pgs older" by auto
  have "walk_loop src t (p # seen) next' = Inr pgs"
    using Cons.prems by (intro Cons.IH [OF l(5)]) auto
  moreover have "src_page src p = Inr page" using assms(1) l(3) by (simp add: serves_def)
  ultimately show ?case
    using l Cons.prems by (subst walk_loop.simps) (simp add: item_page_def)
qed

lemma walk_chain_page_log:
  "serves src V ps \<Longrightarrow> page_log t enc ok V ps head pgs log \<Longrightarrow> walk_chain src head t = Inr pgs"
  by (simp add: walk_chain_def walk_loop_page_log page_log_distinct)

section \<open>The contract of a page format\<close>

locale item_pages =
  fixes t :: page_type and dec :: "bytes \<Rightarrow> u64 \<Rightarrow> ('a list) result" and enc :: "'a \<Rightarrow> bytes" and ok :: "'a \<Rightarrow> bool"
  assumes enc_pos: "ok x \<Longrightarrow> 0 < length (enc x)"
    and dec_items: "page_size_is_valid ps \<Longrightarrow> item_page t enc ok ps page es next \<Longrightarrow> dec page p = Inr es"
begin

lemma item_count:
  assumes "page_size_is_valid ps" "item_page t enc ok ps page es next"
  shows "length es < 2 ^ 32" "unat (word_of_nat (length es) :: u32) = length es"
proof -
  have "\<forall>x \<in> set es. 0 < length (enc x)" using assms(2) enc_pos by (auto simp: item_page_def)
  then have "length es \<le> length (concat (map enc es))"
  proof (induction es)
    case (Cons a es)
    then have "0 < length (enc a)" "length es \<le> length (concat (map enc es))" by simp_all
    then show ?case by (simp only: concat.simps list.map length_append length_Cons)
  qed simp
  then show l: "length es < 2 ^ 32" using assms page_size_bounds by (fastforce simp: item_page_def)
  then show "unat (word_of_nat (length es) :: u32) = length es" by (simp add: unat_of_nat)
qed

lemma fresh_item_page:
  assumes "page_size_is_valid ps" "ok x" "24 + length (enc x) \<le> unat ps"
  shows "item_page t enc ok ps (stamp_page_checksum xxh (fresh_page ps t head (enc x))) [x] head"
proof -
  let ?h = "\<lparr>ph_page_type = t, ph_entry_count = 1, ph_next_page = head\<rparr>"
  let ?p = "fresh_page ps t head (enc x)"
  have len: "length ?p = unat ps" by (simp add: fresh_page_def)
  have "seg 0 16 ?p = page_header_bytes ?h"
    using assms(3) by (simp add: fresh_page_def seg_write_before page_header_encode_seg)
  then have "page_header_decode (stamp_page_checksum xxh ?p) = Some ?h"
    using assms(3) len by (intro page_header_decode_seg) (simp_all add: stamp_seg)
  moreover have "holds_at ?p 16 (enc x)"
    using assms(3) by (simp add: fresh_page_def holds_at_write)
  then have "holds_at (stamp_page_checksum xxh ?p) 16 (enc x)"
    using assms(3) len by (simp add: holds_at_def stamp_seg)
  ultimately show ?thesis using assms len by (simp add: item_page_def)
qed

lemma grown_item_page:
  assumes "page_size_is_valid ps" "item_page t enc ok ps page es next" "ok x"
    and room: "24 + length (concat (map enc es)) + length (enc x) \<le> unat ps"
  shows "item_page t enc ok ps
    (stamp_page_checksum xxh (grown_page page t (length es) next (length (concat (map enc es))) (enc x))) (es @ [x]) next"
proof -
  let ?u = "length (concat (map enc es))"
  let ?h = "\<lparr>ph_page_type = t, ph_entry_count = word_of_nat (length (es @ [x])), ph_next_page = next\<rparr>"
  let ?w = "write_bytes page (16 + ?u) (enc x)"
  let ?p = "grown_page page t (length es) next ?u (enc x)"
  have len: "length page = unat ps" and old: "holds_at page 16 (concat (map enc es))"
    using assms(2) by (simp_all add: item_page_def)
  have p: "?p = page_header_encode_into ?h ?w" by (simp add: grown_page_def add.commute)
  have "page_header_decode (stamp_page_checksum xxh ?p) = Some ?h"
    using room len by (intro page_header_decode_seg) (simp_all add: p stamp_seg page_header_encode_seg)
  moreover have "holds_at ?w 16 (concat (map enc es))" "holds_at ?w (16 + ?u) (enc x)"
    using old room len by (simp_all add: holds_at_write_other holds_at_write)
  then have "holds_at ?w 16 (concat (map enc es) @ enc x)" by (simp add: holds_at_append)
  then have "holds_at (stamp_page_checksum xxh ?p) 16 (concat (map enc es) @ enc x)"
    using room len by (simp add: holds_at_def stamp_seg p page_header_encode_rest)
  ultimately show ?thesis using assms len by (auto simp: item_page_def p)
qed

end

section \<open>Appending through a transaction\<close>

locale item_log = page_txn po xxh view inv exhausted + item_pages t dec enc ok
  for po :: "'s page_ops" and xxh :: hash64 and view :: "'s \<Rightarrow> u64 \<Rightarrow> bytes option" and inv :: "'s \<Rightarrow> bool"
    and exhausted :: error
    and t :: page_type and dec :: "bytes \<Rightarrow> u64 \<Rightarrow> ('a list) result" and enc :: "'a \<Rightarrow> bytes" and ok :: "'a \<Rightarrow> bool"
begin

abbreviation log_at :: "'s \<Rightarrow> u64 \<Rightarrow> u64 list \<Rightarrow> 'a list \<Rightarrow> bool" where
  "log_at s \<equiv> page_log t enc ok (view s) ps"

lemma grow_head:
  assumes inv: "inv s" and log: "log_at s p (p # pgs) log"
    and page: "view s p = Some page" "item_page t enc ok ps page es next"
    and x: "ok x" "24 + length (concat (map enc es)) + length (enc x) \<le> unat ps"
  shows "\<exists>s'. po_write po p (grown_page page t (length es) next (length (concat (map enc es))) (enc x)) s = (Inr (), s') \<and>
    evolves {p} s s' \<and> log_at s' p (p # pgs) (log @ [x])"
proof -
  obtain es' next' older where l: "p \<noteq> 0" "item_page t enc ok ps page es' next'" "log = older @ es'"
    "log_at s next' pgs older" using log page(1) by auto
  have n: "next' = next" using conjunct1 [OF conjunct2 [OF l(2) [unfolded item_page_def]]]
      conjunct1 [OF conjunct2 [OF page(2) [unfolded item_page_def]]] by simp
  have "dec page p = Inr es" "dec page p = Inr es'"
    using dec_items [OF size_valid [OF inv]] page(2) l(2) by blast+
  then have es: "es' = es" by simp
  let ?g = "grown_page page t (length es) next (length (concat (map enc es))) (enc x)"
  have len: "length ?g = unat ps" using page(2) by (simp add: grown_page_def item_page_def)
  obtain s' where s': "po_write po p ?g s = (Inr (), s')" "evolves {p} s s'" "dom (view s') = dom (view s)"
      "view s' p = Some (stamp_page_checksum xxh ?g)"
    by (rule write_evolves [OF inv l(1) _ len]) (use page(1) in auto)
  have "p \<notin> set pgs" using page_log_distinct [OF log] by simp
  have "log_at s' next pgs older"
  proof (rule page_log_cong)
    show "log_at s next pgs older" using l(4) n by simp
    show "\<forall>q \<in> set pgs. view s' q = view s q"
    proof
      fix q assume q: "q \<in> set pgs"
      from page_log_pages [OF l(4) q] have "q \<in> dom (view s)" by blast
      with q \<open>p \<notin> set pgs\<close> show "view s' q = view s q" by (intro evolves_keeps [OF s'(2)]) auto
    qed
  qed
  moreover have "item_page t enc ok ps (stamp_page_checksum xxh ?g) (es @ [x]) next"
    by (rule grown_item_page [OF size_valid [OF inv] page(2) x])
  moreover have "log @ [x] = older @ (es @ [x])" using l(3) es by simp
  ultimately have "log_at s' p (p # pgs) (log @ [x])" using s'(4) l(1) unfolding page_log.simps by blast
  with s'(1,2) show ?thesis by blast
qed

lemma prepend_page:
  assumes inv: "inv s" and log: "log_at s head pgs log" and x: "ok x" "24 + length (enc x) \<le> unat ps"
  shows "(\<exists>s'. po_alloc po s = (Inl exhausted, s')) \<or>
    (\<exists>p s1 s'. po_alloc po s = (Inr p, s1) \<and> po_write po p (fresh_page ps t head (enc x)) s1 = (Inr (), s') \<and>
       p \<notin> dom (view s) \<and> evolves {} s s' \<and> log_at s' p (p # pgs) (log @ [x]))"
  using inv
proof (cases rule: alloc_cases)
  case (no_page s')
  then show ?thesis by blast
next
  case (fresh p s1)
  have len: "length (fresh_page ps t head (enc x)) = unat ps" by (simp add: fresh_page_def)
  obtain s' where s': "po_write po p (fresh_page ps t head (enc x)) s1 = (Inr (), s')" "evolves {p} s1 s'"
      "dom (view s') = dom (view s1)" "view s' p = Some (stamp_page_checksum xxh (fresh_page ps t head (enc x)))"
    by (rule write_evolves [OF evolves_inv [OF fresh(5)] fresh(2,4) len])
  have ev: "evolves {} s s'" by (rule evolves_trans [OF fresh(5) s'(2)]) (use fresh(3) in auto)
  have "log_at s' head pgs log"
  proof (rule page_log_cong [OF log], rule ballI)
    fix q assume "q \<in> set pgs"
    from page_log_pages [OF log this] have "q \<in> dom (view s)" by blast
    then show "view s' q = view s q" by (rule evolves_keeps [OF ev]) simp
  qed
  then have "log_at s' p (p # pgs) (log @ [x])"
    using fresh(2) s'(4) fresh_item_page [OF size_valid [OF inv] x] by auto
  with fresh(1,3) s'(1) ev show ?thesis by blast
qed

end

end
