(* ===== verification/Filter_Sidecar.thy ===== *)
theory Filter_Sidecar
  imports Filter_Chain
begin

text \<open>
  The sidecar as two logs: both page formats satisfy the contract of \<^theory_text>\<open>Filter_Chain\<close>, so appending an
  entry and interning a string append to their logs, and loading folds them into the table.
\<close>

section \<open>The page formats\<close>

definition entry_ok :: "ulid \<times> fm_entry \<Rightarrow> bool" where
  "entry_ok x \<longleftrightarrow> length (fst x) = 16"

definition symbol_ok :: "u32 \<times> rstring \<Rightarrow> bool" where
  "symbol_ok x \<longleftrightarrow> fst x \<noteq> 0 \<and> utf8_valid (snd x) \<and> length (snd x) \<le> 65535"

lemma length_fm_entry_bytes: "entry_ok x \<Longrightarrow> length (fm_entry_bytes x) = 29"
  by (simp add: fm_entry_bytes_def entry_ok_def)

lemma length_symbol_bytes [simp]: "length (symbol_bytes x) = 6 + length (snd x)"
  by (simp add: symbol_bytes_def)

lemma length_entry_list: "\<forall>x \<in> set es. entry_ok x \<Longrightarrow> length (concat (map fm_entry_bytes es)) = length es * 29"
  by (induction es) (simp_all add: length_fm_entry_bytes)

lemma length_symbol_list:
  "length (concat (map symbol_bytes es)) = sum_list (map (\<lambda>(_, s). 6 + length s) es)"
  by (induction es) auto

text \<open>The fields of one encoded entry.\<close>

lemma fm_entry_fields:
  assumes "entry_ok x"
  shows "take 16 (fm_entry_bytes x) = fst x" "fm_entry_bytes x ! 16 = fe_flags (snd x)"
    "read_u32 (fm_entry_bytes x) 17 = Some (fe_project_sym (snd x))"
    "read_u32 (fm_entry_bytes x) 21 = Some (fe_agent_sym (snd x))"
    "read_u32 (fm_entry_bytes x) 25 = Some (fe_doc_len (snd x))"
  using assms by (auto simp: fm_entry_bytes_def entry_ok_def nth_append read_u32_Some seg_def)

lemma decode_entry_list_holds:
  "\<forall>x \<in> set es. entry_ok x \<Longrightarrow> holds_at page (16 + i * 29) (concat (map fm_entry_bytes es)) \<Longrightarrow>
     decode_entry_list page p i (length es) = Inr es"
proof (induction es arbitrary: i)
  case (Cons x es)
  have x: "entry_ok x" using Cons.prems(1) by simp
  have h: "holds_at page (16 + i * 29) (fm_entry_bytes x)" "holds_at page (16 + Suc i * 29) (concat (map fm_entry_bytes es))"
    using Cons.prems(2) length_fm_entry_bytes [OF x] by (simp_all add: holds_at_append algebra_simps)
  have "get_range page (16 + i * 29) (16 + i * 29 + 29) = Some (fm_entry_bytes x)"
    using holds_at_range [OF h(1)] by (simp add: length_fm_entry_bytes [OF x])
  moreover have "decode_entry_list page p (Suc i) (length es) = Inr es"
    using Cons.IH [OF _ h(2)] Cons.prems(1) by simp
  ultimately show ?case by (simp add: fm_entry_fields [OF x] Let_def prod_eq_iff)
qed simp

lemma decode_symbol_list_holds:
  "\<forall>x \<in> set es. symbol_ok x \<Longrightarrow> holds_at page off (concat (map symbol_bytes es)) \<Longrightarrow>
     off + length (concat (map symbol_bytes es)) \<le> body_end \<Longrightarrow>
     decode_symbol_list page p body_end off (length es) = Inr es"
proof (induction es arbitrary: off)
  case (Cons x es)
  obtain i s where x: "x = (i, s)" by (cases x)
  have ok: "i \<noteq> 0" "utf8_valid s" "length s \<le> 65535" using Cons.prems(1) by (simp_all add: x symbol_ok_def)
  have h: "holds_at page off (u32_to_le i)" "holds_at page (off + 4) (u16_to_le (word_of_nat (length s)))"
    "holds_at page (off + 6) s" "holds_at page (off + 6 + length s) (concat (map symbol_bytes es))"
    using Cons.prems(2) by (simp_all add: x symbol_bytes_def [of "(i, s)"] holds_at_append ac_simps)
  have len: "unat (word_of_nat (length s) :: u16) = length s" using ok(3) by (simp add: unat_of_nat)
  have sg: "seg (off + 6) (length s) page = s" using h(3) by (simp add: holds_at_def)
  have "decode_symbol_list page p body_end (off + 6 + length s) (length es) = Inr es"
    using Cons.prems by (intro Cons.IH h(4)) (simp_all add: x)
  then show ?case
    using ok h Cons.prems(3) by (simp add: x Let_def len sg from_utf8_def)
qed simp

lemma item_page_header:
  assumes "item_page t enc ok ps page es next"
  shows "page_header_decode page = Some \<lparr>ph_page_type = t, ph_entry_count = word_of_nat (length es), ph_next_page = next\<rparr>"
    "length page = unat ps" "holds_at page 16 (concat (map enc es))" "24 + length (concat (map enc es)) \<le> unat ps"
    "\<forall>x \<in> set es. ok x"
  using assms by (simp_all add: item_page_def)

lemma small_count: "n \<le> 65536 \<Longrightarrow> unat (word_of_nat n :: u32) = n"
  by (simp add: unat_of_nat)

lemma decode_entries_page:
  assumes "page_size_is_valid ps" "item_page FilterMeta fm_entry_bytes entry_ok ps page es next"
  shows "decode_entries page p = Inr es"
proof -
  note it = item_page_header [OF assms(2)]
  have l: "length es * 29 + 24 \<le> unat ps" using it(4) by (simp add: length_entry_list [OF it(5)])
  then have "length es \<le> entry_capacity (length page)" by (simp add: entry_capacity_def it(2) less_eq_div_iff_mult_less_eq)
  moreover have "unat (word_of_nat (length es) :: u32) = length es"
    using l page_size_bounds [OF assms(1)] by (intro small_count) simp
  ultimately show ?thesis
    using it(1) decode_entry_list_holds [OF it(5), of page 0 p] it(3) by (simp add: decode_entries_def Let_def)
qed

lemma length_le_symbols: "length es * 6 \<le> length (concat (map symbol_bytes es))"
  by (induction es) auto

lemma decode_symbols_page:
  assumes "page_size_is_valid ps" "item_page FilterSymbols symbol_bytes symbol_ok ps page es next"
  shows "decode_symbols page p = Inr es"
proof -
  note it = item_page_header [OF assms(2)]
  note n = length_le_symbols [of es]
  have "length es \<le> (length page - 8 - 16) div 6" using it(2,4) n by (simp add: less_eq_div_iff_mult_less_eq)
  moreover have "unat (word_of_nat (length es) :: u32) = length es"
    using it(4) n page_size_bounds [OF assms(1)] by (intro small_count) simp
  moreover have "decode_symbol_list page p (length page - 8) 16 (length es) = Inr es"
    using it by (intro decode_symbol_list_holds) simp_all
  ultimately show ?thesis using it(1) by (simp add: decode_symbols_def Let_def)
qed

interpretation meta_pages: item_pages FilterMeta decode_entries fm_entry_bytes entry_ok
  by unfold_locales (simp_all add: decode_entries_page length_fm_entry_bytes flip: length_greater_0_conv)

interpretation symbol_pages: item_pages FilterSymbols decode_symbols symbol_bytes symbol_ok
  by unfold_locales (simp_all add: decode_symbols_page flip: length_greater_0_conv)

interpretation meta_log: item_log "txn_ops xxh pg st" xxh "txn_view V" "txn_inv xxh V pg st pd" page_overflow
    FilterMeta decode_entries fm_entry_bytes entry_ok
  for xxh pg st V pd
  by (rule item_log.intro) (rule txn_pages.page_txn_axioms, rule meta_pages.item_pages_axioms)

interpretation symbol_log: item_log "txn_ops xxh pg st" xxh "txn_view V" "txn_inv xxh V pg st pd" page_overflow
    FilterSymbols decode_symbols symbol_bytes symbol_ok
  for xxh pg st V pd
  by (rule item_log.intro) (rule txn_pages.page_txn_axioms, rule symbol_pages.item_pages_axioms)

section \<open>Appending an entry\<close>

abbreviation entry_log where "entry_log \<equiv> page_log FilterMeta fm_entry_bytes entry_ok"
abbreviation symbol_log_at where "symbol_log_at \<equiv> page_log FilterSymbols symbol_bytes symbol_ok"

lemma set_filter_roots [simp]:
  "txn_view V (set_filter_meta_page p tx) = txn_view V tx" "txn_view V (set_filter_symbols_page p tx) = txn_view V tx"
  "txn_filter_meta_page pg (set_filter_meta_page p tx) = p" "txn_filter_symbols_page pg (set_filter_symbols_page p tx) = p"
  "txn_filter_meta_page pg (set_filter_symbols_page p tx) = txn_filter_meta_page pg tx"
  "txn_filter_symbols_page pg (set_filter_meta_page p tx) = txn_filter_symbols_page pg tx"
  by (simp_all add: txn_view_def set_filter_meta_page_def set_filter_symbols_page_def
      txn_filter_meta_page_def txn_filter_symbols_page_def)

text \<open>The header fields the sidecar does not own.\<close>

definition other_roots :: "txn \<Rightarrow> pending_header" where
  "other_roots tx = (tx_pending tx)\<lparr>pd_filter_meta := None, pd_filter_symbols := None\<rparr>"

lemma other_roots_set [simp]:
  "other_roots (set_filter_meta_page p tx) = other_roots tx" "other_roots (set_filter_symbols_page p tx) = other_roots tx"
  by (simp_all add: other_roots_def set_filter_meta_page_def set_filter_symbols_page_def)

text \<open>A step that changes old pages of \<open>K\<close> only, and no header field of another component.\<close>

definition sidecar_step :: "hash64 \<Rightarrow> (u64 \<Rightarrow> bytes option) \<Rightarrow> pager \<Rightarrow> u64 set \<Rightarrow> txn \<Rightarrow> txn \<Rightarrow> bool" where
  "sidecar_step xxh V pg K tx tx' \<longleftrightarrow> txn_ok xxh pg tx' \<and> other_roots tx' = other_roots tx \<and>
     dom (txn_view V tx) \<subseteq> dom (txn_view V tx') \<and>
     (\<forall>q \<in> dom (txn_view V tx) - K. txn_view V tx' q = txn_view V tx q)"

lemma sidecar_step_refl: "txn_ok xxh pg tx \<Longrightarrow> sidecar_step xxh V pg K tx tx"
  by (simp add: sidecar_step_def)

lemma sidecar_step_mono: "sidecar_step xxh V pg K tx tx' \<Longrightarrow> K \<subseteq> K' \<Longrightarrow> sidecar_step xxh V pg K' tx tx'"
  by (auto simp: sidecar_step_def)

lemma sidecar_step_trans:
  assumes "sidecar_step xxh V pg K tx tx1" "sidecar_step xxh V pg K1 tx1 tx2" "K1 \<subseteq> K \<union> - dom (txn_view V tx)"
  shows "sidecar_step xxh V pg K tx tx2"
proof -
  have "txn_view V tx2 q = txn_view V tx q" if "q \<in> dom (txn_view V tx) - K" for q
  proof -
    have "txn_view V tx1 q = txn_view V tx q" "q \<in> dom (txn_view V tx1) - K1" using assms that by (auto simp: sidecar_step_def)
    then show ?thesis using assms(2) by (simp add: sidecar_step_def)
  qed
  then show ?thesis using assms(1,2) unfolding sidecar_step_def by (auto simp: subset_iff)
qed

lemma evolves_sidecar_step:
  assumes "txn_pages.evolves V xxh pg st (tx_pending tx) K tx tx'"
  shows "sidecar_step xxh V pg K tx tx'" "tx_pending tx' = tx_pending tx"
  using assms unfolding txn_pages.evolves_def sidecar_step_def txn_inv_def other_roots_def by auto

lemma filter_roots_pending:
  "tx_pending tx' = tx_pending tx \<Longrightarrow> txn_filter_meta_page pg tx' = txn_filter_meta_page pg tx"
  "tx_pending tx' = tx_pending tx \<Longrightarrow> txn_filter_symbols_page pg tx' = txn_filter_symbols_page pg tx"
  by (simp_all add: txn_filter_meta_page_def txn_filter_symbols_page_def)

lemma page_log_in_dom: "page_log t enc ok V ps head pgs log \<Longrightarrow> set pgs \<subseteq> dom V - {0}"
  by (auto elim: page_log_pages)

lemma page_log_head:
  assumes "page_log t enc ok V ps head pgs log" "head \<noteq> 0"
  obtains pgs' page es nxt where "pgs = head # pgs'" "V head = Some page" "item_page t enc ok ps page es nxt"
  using assms by (cases pgs) auto

text \<open>The outcome of adding one item to a chain: the other chain's root stays.\<close>

definition entry_added :: "hash64 \<Rightarrow> (u64 \<Rightarrow> bytes option) \<Rightarrow> pager \<Rightarrow> u64 list \<Rightarrow> (ulid \<times> fm_entry) list \<Rightarrow> txn \<Rightarrow> txn \<Rightarrow> bool" where
  "entry_added xxh V pg pgs log tx tx' \<longleftrightarrow> sidecar_step xxh V pg (set pgs) tx tx' \<and>
     txn_filter_symbols_page pg tx' = txn_filter_symbols_page pg tx \<and>
     (\<exists>pgs'. entry_log (txn_view V tx') (page_size (pg_header pg)) (txn_filter_meta_page pg tx') pgs' log \<and>
        set pgs' \<subseteq> set pgs \<union> - dom (txn_view V tx))"

lemma append_entry_log:
  assumes rep: "represents xxh V pg st" and tx: "txn_ok xxh pg tx"
    and log: "entry_log (txn_view V tx) (page_size (pg_header pg)) (txn_filter_meta_page pg tx) pgs log"
    and x: "entry_ok x" and out: "append_entry xxh pg st (fm_entry_bytes x) tx = (r, tx')"
  shows "r = Inl page_overflow \<or> r = Inr () \<and> entry_added xxh V pg pgs (log @ [x]) tx tx'"
proof -
  let ?ps = "page_size (pg_header pg)" and ?head = "txn_filter_meta_page pg tx" and ?po = "txn_ops xxh pg st"
  have s: "txn_inv xxh V pg st (tx_pending tx) tx" using rep tx by (simp add: txn_inv_def)
  have valid: "page_size_is_valid ?ps" using txn_pages.size_valid [OF s] by simp
  note sz = page_size_bounds [OF valid]
  have len: "length (fm_entry_bytes x) = 29" by (rule length_fm_entry_bytes [OF x])
  have prepend: ?thesis if "bind_st (po_alloc ?po tx) (\<lambda>p tx.
      bind_st (po_write ?po p (fresh_page ?ps FilterMeta ?head (fm_entry_bytes x)) tx) (\<lambda>_ tx.
        (Inr (), set_filter_meta_page p tx))) = (r, tx')"
  proof -
    have "24 + length (fm_entry_bytes x) \<le> unat (po_page_size ?po)" using sz len by simp
    from meta_log.prepend_page [OF s _ x this, unfolded txn_ops_size, OF log] show ?thesis
    proof (elim disjE exE conjE)
      fix p tx1 tx2
      assume k: "po_alloc ?po tx = (Inr p, tx1)" "po_write ?po p (fresh_page ?ps FilterMeta ?head (fm_entry_bytes x)) tx1 = (Inr (), tx2)"
        "p \<notin> dom (txn_view V tx)" "txn_pages.evolves V xxh pg st (tx_pending tx) {} tx tx2"
        "entry_log (txn_view V tx2) ?ps p (p # pgs) (log @ [x])"
      note ev = evolves_sidecar_step [OF k(4)]
      have "sidecar_step xxh V pg (set pgs) tx (set_filter_meta_page p tx2)"
        using sidecar_step_mono [OF ev(1), of "set pgs"] set_roots_ok(5) by (simp add: sidecar_step_def)
      then show ?thesis
        using that k filter_roots_pending(2) [OF ev(2)] by (auto simp: entry_added_def intro!: exI [of _ "p # pgs"])
    qed (use that in auto)
  qed
  show ?thesis
  proof (cases "?head = 0")
    case True
    with out show ?thesis by (intro prepend) (simp add: append_entry_def Let_def)
  next
    case False
    obtain pgs' page es nxt where h: "pgs = ?head # pgs'" "txn_view V tx ?head = Some page"
      "item_page FilterMeta fm_entry_bytes entry_ok ?ps page es nxt" by (rule page_log_head [OF log False])
    note it = item_page_header [OF h(3)]
    have n: "unat (word_of_nat (length es) :: u32) = length es" by (rule meta_pages.item_count(2) [OF valid h(3)])
    have rd: "po_read ?po ?head tx = Inr page" by (rule txn_pages.read_view [OF s h(2)])
    show ?thesis
    proof (cases "length es < entry_capacity (unat ?ps)")
      case True
      then have "Suc (length es) \<le> (unat ?ps - 24) div 29" by (simp add: entry_capacity_def)
      then have "Suc (length es) * 29 \<le> unat ?ps - 24" by (simp only: less_eq_div_iff_mult_less_eq)
      then have room: "24 + length (concat (map fm_entry_bytes es)) + length (fm_entry_bytes x) \<le> unat ?ps"
        using sz len length_entry_list [OF it(5)] by simp
      from log h(1) have log': "entry_log (txn_view V tx) ?ps ?head (?head # pgs') log" by simp
      from meta_log.grow_head [OF s, unfolded txn_ops_size, OF log' h(2,3) x room] obtain tx2 where
        w: "po_write ?po ?head (grown_page page FilterMeta (length es) nxt (length (concat (map fm_entry_bytes es))) (fm_entry_bytes x)) tx = (Inr (), tx2)"
        "txn_pages.evolves V xxh pg st (tx_pending tx) {?head} tx tx2"
        "entry_log (txn_view V tx2) ?ps ?head (?head # pgs') (log @ [x])" by blast
      note ev = evolves_sidecar_step [OF w(2)]
      have "(Inr (), tx2) = (r, tx')"
        using out False rd it(1) n True w(1) length_entry_list [OF it(5)] by (simp add: append_entry_def Let_def)
      moreover have "sidecar_step xxh V pg (set pgs) tx tx2" by (rule sidecar_step_mono [OF ev(1)]) (simp add: h(1))
      ultimately show ?thesis
        using w(3) h(1) filter_roots_pending [OF ev(2)]
        by (auto simp: entry_added_def simp del: page_log.simps intro!: exI [of _ pgs])
    next
      case False
      with \<open>?head \<noteq> 0\<close> out rd it(1) n show ?thesis by (intro prepend) (simp add: append_entry_def Let_def)
    qed
  qed
qed

section \<open>Interning a string\<close>

text \<open>The symbol table a log of symbols stands for, as an association list of the code.\<close>

definition symbols_ok :: "(u32 \<times> rstring) list \<Rightarrow> bool" where
  "symbols_ok S \<longleftrightarrow> distinct (map fst S) \<and> distinct (map snd S)"

definition symbols_match :: "(rstring \<times> u32) list \<Rightarrow> (u32 \<times> rstring) list \<Rightarrow> bool" where
  "symbols_match m S \<longleftrightarrow> bmap_wf m \<and> set m = prod.swap ` set S"

text \<open>The empty string has symbol 0, the others the one they were interned with.\<close>

definition named :: "(u32 \<times> rstring) list \<Rightarrow> rstring \<Rightarrow> u32 \<Rightarrow> bool" where
  "named S s i \<longleftrightarrow> (if s = [] then i = 0 else (i, s) \<in> set S)"

lemma named_append: "named S s i \<Longrightarrow> named (S @ S') s i"
  by (auto simp: named_def split: if_splits)

lemma symbols_match_Some: "symbols_match m S \<Longrightarrow> map_of m s = Some i \<longleftrightarrow> (i, s) \<in> set S"
  by (force simp: symbols_match_def map_of_eq_Some_iff bmap_wf_distinct)

lemma symbols_match_None: "symbols_match m S \<Longrightarrow> map_of m s = None \<longleftrightarrow> s \<notin> snd ` set S"
  by (simp add: symbols_match_def map_of_eq_None_iff image_image)

lemma symbols_match_insert:
  assumes "symbols_match m S" "map_of m s = None"
  shows "symbols_match (bmap_insert s i m) (S @ [(i, s)])"
proof -
  have wf: "bmap_wf m" "bmap_wf (bmap_insert s i m)" using assms(1) by (simp_all add: symbols_match_def bmap_wf_insert)
  have "(a, b) \<in> set (bmap_insert s i m) \<longleftrightarrow> (a, b) \<in> set m \<or> (a, b) = (s, i)" for a b
    using map_of_eq_Some_iff [OF bmap_wf_distinct [OF wf(1)], of a b] map_of_eq_Some_iff [OF bmap_wf_distinct [OF wf(2)], of a b]
      assms(2) by (cases "a = s") auto
  then have "set (bmap_insert s i m) = insert (s, i) (set m)" by auto
  then show ?thesis using assms(1) wf(2) by (simp add: symbols_match_def)
qed

lemma fold_max_le:
  fixes a :: "'a::linorder"
  shows "a \<le> fold max xs a" "x \<in> set xs \<Longrightarrow> x \<le> fold max xs a"
proof -
  have "a \<le> fold max xs a \<and> (\<forall>x \<in> set xs. x \<le> fold max xs a)" for a :: 'a
  proof (induction xs arbitrary: a)
    case (Cons y xs)
    from Cons.IH [of "max y a"] show ?case by auto
  qed simp
  then show "a \<le> fold max xs a" "x \<in> set xs \<Longrightarrow> x \<le> fold max xs a" by blast+
qed

lemma next_symbol_fresh:
  assumes "next_symbol m = Some i"
  shows "i \<noteq> 0" "i \<notin> snd ` set m"
proof -
  let ?x = "fold max (map snd m) 0"
  have i: "unat ?x + 1 \<noteq> 2 ^ 32" "i = ?x + 1" using assms by (auto simp: next_symbol_def Let_def split: if_splits)
  have "unat ?x < 2 ^ 32" using unsigned_less [of ?x] by simp
  with i have u: "unat i = unat ?x + 1" by (simp add: unat_word_ariths)
  then show "i \<noteq> 0" by auto
  show "i \<notin> snd ` set m"
  proof
    assume "i \<in> snd ` set m"
    then have "i \<le> ?x" by (intro fold_max_le(2)) simp
    with u show False by (simp add: word_le_nat_alt)
  qed
qed

definition symbol_added :: "hash64 \<Rightarrow> (u64 \<Rightarrow> bytes option) \<Rightarrow> pager \<Rightarrow> u64 list \<Rightarrow> (u32 \<times> rstring) list \<Rightarrow> txn \<Rightarrow> txn \<Rightarrow> bool" where
  "symbol_added xxh V pg pgs S tx tx' \<longleftrightarrow> sidecar_step xxh V pg (set pgs) tx tx' \<and>
     txn_filter_meta_page pg tx' = txn_filter_meta_page pg tx \<and>
     (\<exists>pgs'. symbol_log_at (txn_view V tx') (page_size (pg_header pg)) (txn_filter_symbols_page pg tx') pgs' S \<and>
        set pgs' \<subseteq> set pgs \<union> - dom (txn_view V tx))"

text \<open>Writing a new symbol: the head page grows or a fresh page is put in front.\<close>

lemma write_symbol_log:
  assumes rep: "represents xxh V pg st" and tx: "txn_ok xxh pg tx"
    and log: "symbol_log_at (txn_view V tx) (page_size (pg_header pg)) (txn_filter_symbols_page pg tx) pgs S"
    and x: "symbol_ok (i, s)" "24 + (6 + length s) \<le> unat (page_size (pg_header pg))"
    and new: "s \<noteq> []" "map_of m s = None" "next_symbol m = Some i"
    and out: "intern xxh pg st s m tx = (r, tx')"
  shows "r = Inl page_overflow \<or>
    r = Inr (Some i, bmap_insert s i m) \<and> symbol_added xxh V pg pgs (S @ [(i, s)]) tx tx'"
proof -
  let ?ps = "page_size (pg_header pg)" and ?head = "txn_filter_symbols_page pg tx" and ?po = "txn_ops xxh pg st"
  let ?b = "symbol_bytes (i, s)" and ?v = "(Some i, bmap_insert s i m)"
  have inv: "txn_inv xxh V pg st (tx_pending tx) tx" using rep tx by (simp add: txn_inv_def)
  have valid: "page_size_is_valid ?ps" using txn_pages.size_valid [OF inv] by simp
  have small: "\<not> 65535 < length s" "\<not> unat ?ps - 24 < 6 + length s" using x by (simp_all add: symbol_ok_def)
  have prepend: ?thesis if "bind_st (po_alloc ?po tx) (\<lambda>p tx.
      bind_st (po_write ?po p (fresh_page ?ps FilterSymbols ?head ?b) tx) (\<lambda>_ tx.
        (Inr ?v, set_filter_symbols_page p tx))) = (r, tx')"
  proof -
    have "24 + length ?b \<le> unat (po_page_size ?po)" using x(2) by simp
    from symbol_log.prepend_page [OF inv _ x(1) this, unfolded txn_ops_size, OF log] show ?thesis
    proof (elim disjE exE conjE)
      fix p tx1 tx2
      assume k: "po_alloc ?po tx = (Inr p, tx1)" "po_write ?po p (fresh_page ?ps FilterSymbols ?head ?b) tx1 = (Inr (), tx2)"
        "p \<notin> dom (txn_view V tx)" "txn_pages.evolves V xxh pg st (tx_pending tx) {} tx tx2"
        "symbol_log_at (txn_view V tx2) ?ps p (p # pgs) (S @ [(i, s)])"
      note ev = evolves_sidecar_step [OF k(4)]
      have "sidecar_step xxh V pg (set pgs) tx (set_filter_symbols_page p tx2)"
        using sidecar_step_mono [OF ev(1), of "set pgs"] set_roots_ok(6) by (simp add: sidecar_step_def)
      then show ?thesis
        using that k filter_roots_pending(1) [OF ev(2)] by (auto simp: symbol_added_def intro!: exI [of _ "p # pgs"])
    qed (use that in auto)
  qed
  show ?thesis
  proof (cases "?head = 0")
    case True
    with out new small show ?thesis by (intro prepend) (simp add: intern_def Let_def)
  next
    case False
    obtain pgs' page es nxt where h: "pgs = ?head # pgs'" "txn_view V tx ?head = Some page"
      "item_page FilterSymbols symbol_bytes symbol_ok ?ps page es nxt" by (rule page_log_head [OF log False])
    note it = item_page_header [OF h(3)]
    let ?u = "length (concat (map symbol_bytes es))"
    have rd: "po_read ?po ?head tx = Inr page" "decode_symbols page ?head = Inr es"
      by (rule txn_pages.read_view [OF inv h(2)], rule decode_symbols_page [OF valid h(3)])
    show ?thesis
    proof (cases "16 + ?u + (6 + length s) \<le> unat ?ps - 8")
      case True
      then have room: "24 + ?u + length ?b \<le> unat ?ps" using x(2) by simp
      have hdr: "page_header_decode (write_bytes page (16 + ?u) ?b) =
          Some \<lparr>ph_page_type = FilterSymbols, ph_entry_count = word_of_nat (length es), ph_next_page = nxt\<rparr>"
        using it(1) page_header_decode_cong [of "write_bytes page (16 + ?u) ?b" page] room it(2)
        by (simp add: seg_write_before)
      from log h(1) have log': "symbol_log_at (txn_view V tx) ?ps ?head (?head # pgs') S" by simp
      from symbol_log.grow_head [OF inv, unfolded txn_ops_size, OF log' h(2,3) x(1) room] obtain tx2 where
        w: "po_write ?po ?head (grown_page page FilterSymbols (length es) nxt ?u ?b) tx = (Inr (), tx2)"
        "txn_pages.evolves V xxh pg st (tx_pending tx) {?head} tx tx2"
        "symbol_log_at (txn_view V tx2) ?ps ?head (?head # pgs') (S @ [(i, s)])" by blast
      note ev = evolves_sidecar_step [OF w(2)]
      have "(Inr ?v, tx2) = (r, tx')" 
        using out new small \<open>?head \<noteq> 0\<close> rd True hdr w(1) by (simp add: intern_def Let_def length_symbol_list)
      moreover have "sidecar_step xxh V pg (set pgs) tx tx2" by (rule sidecar_step_mono [OF ev(1)]) (simp add: h(1))
      ultimately show ?thesis
        using w(3) h(1) filter_roots_pending [OF ev(2)]
        by (auto simp: symbol_added_def simp del: page_log.simps intro!: exI [of _ pgs])
    next
      case False
      with out new small \<open>?head \<noteq> 0\<close> rd show ?thesis
        by (intro prepend) (simp add: intern_def Let_def length_symbol_list)
    qed
  qed
qed

lemma intern_log:
  assumes rep: "represents xxh V pg st" and tx: "txn_ok xxh pg tx"
    and log: "symbol_log_at (txn_view V tx) (page_size (pg_header pg)) (txn_filter_symbols_page pg tx) pgs S"
    and S: "symbols_ok S" "symbols_match m S" and s: "utf8_valid s"
    and out: "intern xxh pg st s m tx = (r, tx')"
  shows "r = Inl page_overflow \<or> (\<exists>i m' new. r = Inr (i, m') \<and> symbols_match m' (S @ new) \<and> symbols_ok (S @ new) \<and>
    (\<forall>j. i = Some j \<longrightarrow> named (S @ new) s j) \<and> symbol_added xxh V pg pgs (S @ new) tx tx')"
proof -
  let ?ps = "page_size (pg_header pg)"
  have same: ?thesis if "(Inr (i, m), tx) = (r, tx')" "\<forall>j. i = Some j \<longrightarrow> named S s j" for i
  proof -
    have "symbol_added xxh V pg pgs (S @ []) tx tx"
      using log by (auto simp: symbol_added_def sidecar_step_refl [OF tx] simp del: page_log.simps)
    then show ?thesis using that S by (intro disjI2 exI [of _ i] exI [of _ m] exI [of _ "[]"]) auto
  qed
  consider "s = []" | i where "s \<noteq> []" "map_of m s = Some i" | "s \<noteq> []" "map_of m s = None" by blast
  then show ?thesis
  proof cases
    case 1
    with out show ?thesis by (intro same [of "Some 0"]) (simp_all add: intern_def named_def)
  next
    case (2 i)
    with out show ?thesis
      by (intro same [of "Some i"]) (simp_all add: intern_def named_def symbols_match_Some [OF S(2)])
  next
    case 3
    show ?thesis
    proof (cases "65535 < length s \<or> unat ?ps - 24 < 6 + length s \<or> next_symbol m = None")
      case True
      with out 3 show ?thesis by (intro same [of None]) (auto simp: intern_def Let_def split: if_splits)
    next
      case False
      then obtain i where i: "next_symbol m = Some i" by auto
      have valid: "page_size_is_valid ?ps" using represents_store(1) [OF rep] by (simp add: store_ok_def header_wf_def)
      have room: "24 + (6 + length s) \<le> unat ?ps" using False page_size_bounds [OF valid] by linarith
      have ok: "symbol_ok (i, s)" using False s next_symbol_fresh(1) [OF i] by (simp add: symbol_ok_def)
      have "i \<notin> fst ` set S"
        using next_symbol_fresh(2) [OF i] S(2) by (simp add: symbols_match_def image_image)
      then have "symbols_ok (S @ [(i, s)])"
        using S(1) 3(2) symbols_match_None [OF S(2)] by (simp add: symbols_ok_def)
      moreover have "named (S @ [(i, s)]) s i" using 3(1) by (simp add: named_def)
      ultimately show ?thesis
        using write_symbol_log [OF rep tx log ok room 3 i out] symbols_match_insert [OF S(2) 3(2), of i] by blast
    qed
  qed
qed

section \<open>The sidecar of a store\<close>

definition sidecar_at :: "(u64 \<Rightarrow> bytes option) \<Rightarrow> u32 \<Rightarrow> u64 \<Rightarrow> u64 \<Rightarrow> (ulid \<times> fm_entry) list \<Rightarrow> (u32 \<times> rstring) list \<Rightarrow> u64 set \<Rightarrow> bool" where
  "sidecar_at V ps mroot sroot L S K \<longleftrightarrow> symbols_ok S \<and>
     (\<exists>mp sp. entry_log V ps mroot mp L \<and> symbol_log_at V ps sroot sp S \<and> K = set mp \<union> set sp)"

abbreviation sidecar_in :: "(u64 \<Rightarrow> bytes option) \<Rightarrow> pager \<Rightarrow> txn \<Rightarrow> (ulid \<times> fm_entry) list \<Rightarrow> (u32 \<times> rstring) list \<Rightarrow> u64 set \<Rightarrow> bool" where
  "sidecar_in V pg tx \<equiv> sidecar_at (txn_view V tx) (page_size (pg_header pg)) (txn_filter_meta_page pg tx) (txn_filter_symbols_page pg tx)"

lemma sidecar_at_cong: "sidecar_at V ps mroot sroot L S K \<Longrightarrow> \<forall>q \<in> K. V' q = V q \<Longrightarrow> sidecar_at V' ps mroot sroot L S K"
  unfolding sidecar_at_def by (blast intro: page_log_cong)

lemma sidecar_at_pages: "sidecar_at V ps mroot sroot L S K \<Longrightarrow> K \<subseteq> dom V - {0}"
  unfolding sidecar_at_def by (auto dest: page_log_in_dom)

text \<open>What one chain's step leaves of the other chain.\<close>

lemma step_keeps_log:
  assumes "sidecar_step xxh V pg (set pgs) tx tx'" "page_log t enc ok (txn_view V tx) ps head pgs log"
    "page_log t' enc' ok' (txn_view V tx) ps' head' pgs' log'" "t \<noteq> t'"
  shows "page_log t' enc' ok' (txn_view V tx') ps' head' pgs' log'"
proof (rule page_log_cong [OF assms(3)], rule ballI)
  fix q assume q: "q \<in> set pgs'"
  have "q \<in> dom (txn_view V tx)" using page_log_in_dom [OF assms(3)] q by blast
  moreover have "q \<notin> set pgs" using page_log_types_disjoint [OF assms(2-4)] q by blast
  ultimately show "txn_view V tx' q = txn_view V tx q" using assms(1) by (simp add: sidecar_step_def)
qed

text \<open>The sidecar grows by the entries \<open>L'\<close> and the symbols \<open>S'\<close>; of the old pages only its own change.\<close>

definition sidecar_grows where
  "sidecar_grows xxh V pg tx L S K tx' L' S' K' \<longleftrightarrow> sidecar_in V pg tx' (L @ L') (S @ S') K' \<and>
     K' \<subseteq> K \<union> - dom (txn_view V tx) \<and> sidecar_step xxh V pg K tx tx'"

lemma sidecar_grows_refl: "txn_ok xxh pg tx \<Longrightarrow> sidecar_in V pg tx L S K \<Longrightarrow> sidecar_grows xxh V pg tx L S K tx [] [] K"
  by (simp add: sidecar_grows_def sidecar_step_refl)

lemma sidecar_grows_trans:
  assumes "sidecar_grows xxh V pg tx L S K tx1 L1 S1 K1" "sidecar_grows xxh V pg tx1 (L @ L1) (S @ S1) K1 tx2 L2 S2 K2"
  shows "sidecar_grows xxh V pg tx L S K tx2 (L1 @ L2) (S1 @ S2) K2"
proof -
  have st: "sidecar_step xxh V pg K tx tx1" "sidecar_step xxh V pg K1 tx1 tx2" "K1 \<subseteq> K \<union> - dom (txn_view V tx)"
    using assms by (simp_all add: sidecar_grows_def)
  have "K2 \<subseteq> K1 \<union> - dom (txn_view V tx1)" "dom (txn_view V tx) \<subseteq> dom (txn_view V tx1)"
    using assms(2) st(1) by (simp_all add: sidecar_grows_def sidecar_step_def)
  then have "K2 \<subseteq> K \<union> - dom (txn_view V tx)" using st(3) by blast
  with sidecar_step_trans [OF st] assms(2) show ?thesis by (simp add: sidecar_grows_def)
qed

lemma sidecar_grows_ok:
  assumes "sidecar_grows xxh V pg tx L S K tx' L' S' K'"
  shows "txn_ok xxh pg tx'" "sidecar_in V pg tx' (L @ L') (S @ S') K'"
  using assms by (simp_all add: sidecar_grows_def sidecar_step_def)

lemma intern_sidecar:
  assumes rep: "represents xxh V pg st" and tx: "txn_ok xxh pg tx" and sc: "sidecar_in V pg tx L S K"
    and m: "symbols_match m S" and s: "utf8_valid s" and out: "intern xxh pg st s m tx = (r, tx')"
  shows "r = Inl page_overflow \<or> (\<exists>i m' new K'. r = Inr (i, m') \<and> symbols_match m' (S @ new) \<and>
    (\<forall>j. i = Some j \<longrightarrow> named (S @ new) s j) \<and> sidecar_grows xxh V pg tx L S K tx' [] new K')"
proof -
  let ?ps = "page_size (pg_header pg)"
  obtain mp sp where c: "symbols_ok S" "entry_log (txn_view V tx) ?ps (txn_filter_meta_page pg tx) mp L"
    "symbol_log_at (txn_view V tx) ?ps (txn_filter_symbols_page pg tx) sp S" "K = set mp \<union> set sp"
    using sc by (auto simp: sidecar_at_def)
  from intern_log [OF rep tx c(3,1) m s out] show ?thesis
  proof (elim disjE exE conjE)
    fix i m' new
    assume k: "r = Inr (i, m')" "symbols_match m' (S @ new)" "symbols_ok (S @ new)" "\<forall>j. i = Some j \<longrightarrow> named (S @ new) s j"
      "symbol_added xxh V pg sp (S @ new) tx tx'"
    then obtain sp' where a: "sidecar_step xxh V pg (set sp) tx tx'" "txn_filter_meta_page pg tx' = txn_filter_meta_page pg tx"
      "symbol_log_at (txn_view V tx') ?ps (txn_filter_symbols_page pg tx') sp' (S @ new)" "set sp' \<subseteq> set sp \<union> - dom (txn_view V tx)"
      by (auto simp: symbol_added_def simp del: page_log.simps)
    have "entry_log (txn_view V tx') ?ps (txn_filter_meta_page pg tx) mp L"
      by (rule step_keeps_log [OF a(1) c(3,2)]) simp
    then have "sidecar_in V pg tx' L (S @ new) (set mp \<union> set sp')"
      unfolding sidecar_at_def a(2) using k(3) a(3) by blast
    moreover have "sidecar_step xxh V pg K tx tx'" by (rule sidecar_step_mono [OF a(1)]) (simp add: c(4))
    moreover have "set mp \<union> set sp' \<subseteq> K \<union> - dom (txn_view V tx)" using a(4) c(4) by blast
    ultimately have "sidecar_grows xxh V pg tx L S K tx' [] new (set mp \<union> set sp')" by (simp add: sidecar_grows_def)
    then show ?thesis using k(1,2,4) by blast
  qed simp
qed

lemma append_entry_sidecar:
  assumes rep: "represents xxh V pg st" and tx: "txn_ok xxh pg tx" and sc: "sidecar_in V pg tx L S K"
    and x: "entry_ok x" and out: "append_entry xxh pg st (fm_entry_bytes x) tx = (r, tx')"
  shows "r = Inl page_overflow \<or> (\<exists>K'. r = Inr () \<and> sidecar_grows xxh V pg tx L S K tx' [x] [] K')"
proof -
  let ?ps = "page_size (pg_header pg)"
  obtain mp sp where c: "symbols_ok S" "entry_log (txn_view V tx) ?ps (txn_filter_meta_page pg tx) mp L"
    "symbol_log_at (txn_view V tx) ?ps (txn_filter_symbols_page pg tx) sp S" "K = set mp \<union> set sp"
    using sc by (auto simp: sidecar_at_def)
  from append_entry_log [OF rep tx c(2) x out] show ?thesis
  proof (elim disjE conjE)
    assume k: "r = Inr ()" "entry_added xxh V pg mp (L @ [x]) tx tx'"
    then obtain mp' where a: "sidecar_step xxh V pg (set mp) tx tx'" "txn_filter_symbols_page pg tx' = txn_filter_symbols_page pg tx"
      "entry_log (txn_view V tx') ?ps (txn_filter_meta_page pg tx') mp' (L @ [x])" "set mp' \<subseteq> set mp \<union> - dom (txn_view V tx)"
      by (auto simp: entry_added_def simp del: page_log.simps)
    have "symbol_log_at (txn_view V tx') ?ps (txn_filter_symbols_page pg tx) sp S"
      by (rule step_keeps_log [OF a(1) c(2,3)]) simp
    then have "sidecar_in V pg tx' (L @ [x]) S (set mp' \<union> set sp)"
      unfolding sidecar_at_def a(2) using c(1) a(3) by blast
    moreover have "sidecar_step xxh V pg K tx tx'" by (rule sidecar_step_mono [OF a(1)]) (simp add: c(4))
    moreover have "set mp' \<union> set sp \<subseteq> K \<union> - dom (txn_view V tx)" using a(4) c(4) by blast
    ultimately have "sidecar_grows xxh V pg tx L S K tx' [x] [] (set mp' \<union> set sp)" by (simp add: sidecar_grows_def)
    then show ?thesis using k(1) by blast
  qed simp
qed

section \<open>Writing updates\<close>

abbreviation update_project :: "fm_update \<Rightarrow> rstring" where
  "update_project u \<equiv> (case up_project u of Some p \<Rightarrow> p | None \<Rightarrow> [])"

text \<open>The strings of an update are valid UTF-8 and its id has 16 bytes, as their Rust types say.\<close>

definition update_wf :: "fm_update \<Rightarrow> bool" where
  "update_wf u \<longleftrightarrow> length (up_id u) = 16 \<and> utf8_valid (update_project u) \<and> utf8_valid (up_agent u)"

text \<open>An entry mirrors an update: id, length, liveness and metadata agree, and unless the entry says
  that its strings could not be interned, its symbols name them.\<close>

definition mirrors :: "(u32 \<times> rstring) list \<Rightarrow> fm_update \<Rightarrow> ulid \<times> fm_entry \<Rightarrow> bool" where
  "mirrors S u x \<longleftrightarrow> fst x = up_id u \<and> fe_doc_len (snd x) = up_doc_len u \<and>
     (fe_flags (snd x) AND (FM_TOMBSTONE OR FM_SUPERSEDED) \<noteq> 0 \<longleftrightarrow> up_tombstone u \<or> up_superseded u) \<and>
     (fe_flags (snd x) AND FM_HAS_METADATA \<noteq> 0 \<longleftrightarrow> up_has_metadata u) \<and>
     (fe_flags (snd x) AND FM_SCOPE_OVERFLOW = 0 \<longrightarrow>
        named S (update_project u) (fe_project_sym (snd x)) \<and> named S (up_agent u) (fe_agent_sym (snd x)))"

lemma mirrors_append: "mirrors S u x \<Longrightarrow> mirrors (S @ S') u x"
  by (auto simp: mirrors_def named_append)

lemma update_entry_mirrors:
  assumes "\<forall>j. p = Some j \<longrightarrow> named S (update_project u) j" "\<forall>j. a = Some j \<longrightarrow> named S (up_agent u) j"
  shows "mirrors S u (up_id u, update_entry u p a)"
  using assms by (auto simp: mirrors_def update_entry_def entry_flags_def Let_def split: option.splits)

text \<open>One update: its two strings, then its entry.\<close>

lemma write_update_sidecar:
  assumes rep: "represents xxh V pg st" and tx: "txn_ok xxh pg tx" and sc: "sidecar_in V pg tx L S K"
    and m: "symbols_match m S" and u: "update_wf u"
    and out: "write_updates xxh pg st (u # us) m tx = (r, tx')"
  shows "r = Inl page_overflow \<or> (\<exists>x m1 new tx1 K1. sidecar_grows xxh V pg tx L S K tx1 [x] new K1 \<and>
    symbols_match m1 (S @ new) \<and> mirrors (S @ new) u x \<and> write_updates xxh pg st us m1 tx1 = (r, tx'))"
proof -
  have utf: "utf8_valid (update_project u)" "utf8_valid (up_agent u)" using u by (simp_all add: update_wf_def)
  obtain r1 tx1 where o1: "intern xxh pg st (update_project u) m tx = (r1, tx1)" by fastforce
  from intern_sidecar [OF rep tx sc m utf(1) o1] show ?thesis
  proof (elim disjE exE conjE)
    fix p m1 N1 K1
    assume s1: "r1 = Inr (p, m1)" "symbols_match m1 (S @ N1)" "\<forall>j. p = Some j \<longrightarrow> named (S @ N1) (update_project u) j"
      "sidecar_grows xxh V pg tx L S K tx1 [] N1 K1"
    obtain r2 tx2 where o2: "intern xxh pg st (up_agent u) m1 tx1 = (r2, tx2)" by fastforce
    from intern_sidecar [OF rep sidecar_grows_ok [OF s1(4)] s1(2) utf(2) o2] show ?thesis
    proof (elim disjE exE conjE)
      fix a m2 N2 K2
      assume s2: "r2 = Inr (a, m2)" "symbols_match m2 ((S @ N1) @ N2)" "\<forall>j. a = Some j \<longrightarrow> named ((S @ N1) @ N2) (up_agent u) j"
        "sidecar_grows xxh V pg tx1 (L @ []) (S @ N1) K1 tx2 [] N2 K2"
      let ?x = "(up_id u, update_entry u p a)"
      have mir: "mirrors (S @ N1 @ N2) u ?x" using s1(3) s2(3) named_append by (intro update_entry_mirrors) fastforce+
      have g: "sidecar_grows xxh V pg tx L S K tx2 [] (N1 @ N2) K2" using sidecar_grows_trans [OF s1(4) s2(4)] by simp
      have x: "entry_ok ?x" using u by (simp add: update_wf_def entry_ok_def)
      obtain r3 tx3 where o3: "append_entry xxh pg st (fm_entry_bytes ?x) tx2 = (r3, tx3)" by fastforce
      from append_entry_sidecar [OF rep sidecar_grows_ok [OF g] x o3] show ?thesis
      proof (elim disjE exE conjE)
        fix K3
        assume s3: "r3 = Inr ()" "sidecar_grows xxh V pg tx2 (L @ []) (S @ N1 @ N2) K2 tx3 [?x] [] K3"
        have "sidecar_grows xxh V pg tx L S K tx3 [?x] (N1 @ N2) K3" using sidecar_grows_trans [OF g s3(2)] by simp
        moreover have "write_updates xxh pg st us m2 tx3 = (r, tx')" using out o1 o2 o3 s1(1) s2(1) s3(1) by simp
        moreover have "symbols_match m2 (S @ N1 @ N2)" using s2(2) by simp
        ultimately show ?thesis using mir by blast
      qed (use out o1 o2 o3 s1(1) s2(1) in simp)
    qed (use out o1 o2 s1(1) in simp)
  qed (use out o1 in simp)
qed

lemma write_updates_sidecar:
  assumes rep: "represents xxh V pg st" and tx: "txn_ok xxh pg tx" and sc: "sidecar_in V pg tx L S K"
    and m: "symbols_match m S" and us: "\<forall>u \<in> set us. update_wf u"
    and out: "write_updates xxh pg st us m tx = (r, tx')"
  shows "r = Inl page_overflow \<or> (\<exists>L' S' K'. r = Inr () \<and> sidecar_grows xxh V pg tx L S K tx' L' S' K' \<and>
    list_all2 (mirrors (S @ S')) us L')"
  using tx sc m us out
proof (induction us arbitrary: tx L S K m)
  case Nil
  then show ?case using sidecar_grows_refl [OF Nil.prems(1,2)] by auto
next
  case (Cons u us)
  have wf: "update_wf u" "\<forall>u \<in> set us. update_wf u" using Cons.prems(4) by simp_all
  from write_update_sidecar [OF rep Cons.prems(1-3) wf(1) Cons.prems(5)] show ?case
  proof (elim disjE exE conjE)
    fix x m1 new tx1 K1
    assume s: "sidecar_grows xxh V pg tx L S K tx1 [x] new K1" "symbols_match m1 (S @ new)" "mirrors (S @ new) u x"
      "write_updates xxh pg st us m1 tx1 = (r, tx')"
    from Cons.IH [OF sidecar_grows_ok [OF s(1)] s(2) wf(2) s(4)] show ?thesis
    proof (elim disjE exE conjE)
      fix L' S' K'
      assume k: "r = Inr ()" "sidecar_grows xxh V pg tx1 (L @ [x]) (S @ new) K1 tx' L' S' K'"
        "list_all2 (mirrors ((S @ new) @ S')) us L'"
      have "list_all2 (mirrors (S @ (new @ S'))) (u # us) (x # L')"
        using k(3) mirrors_append [OF s(3), of S'] by simp
      with k(1) sidecar_grows_trans [OF s(1) k(2)] show ?thesis
        by (intro disjI2 exI [of _ "x # L'"] exI [of _ "new @ S'"] exI [of _ K']) simp
    qed simp
  qed simp
qed

section \<open>Loading\<close>

lemma read_symbols_log:
  assumes "serves src V ps" "page_size_is_valid ps" "symbol_log_at V ps head pgs S" "symbols_match m S0" "symbols_ok (S @ S0)"
  shows "\<exists>m'. read_symbols src pgs m = Inr m' \<and> symbols_match m' (S @ S0)"
  using assms(3-)
proof (induction pgs arbitrary: head S S0 m)
  case (Cons p pgs)
  then obtain page es nxt older where l: "V p = Some page" "item_page FilterSymbols symbol_bytes symbol_ok ps page es nxt"
    "S = older @ es" "symbol_log_at V ps nxt pgs older" by auto
  have rd: "src_page src p = Inr page" "decode_symbols page p = Inr es"
    using assms(1) l(1) by (simp_all add: serves_def decode_symbols_page [OF assms(2) l(2)])
  let ?f = "fold (\<lambda>(i, s) m. bmap_insert s i m)"
  have f: "symbols_match (?f es m) (S0 @ es)" if "symbols_match m S0" "distinct (map snd (es @ S0))" for es m S0
    using that
  proof (induction es arbitrary: m S0)
    case (Cons x es)
    obtain i s where x: "x = (i, s)" by (cases x)
    have "map_of m s = None" using Cons.prems symbols_match_None [OF Cons.prems(1)] by (auto simp: x)
    then have "symbols_match (bmap_insert s i m) (S0 @ [(i, s)])" by (rule symbols_match_insert [OF Cons.prems(1)])
    moreover have "distinct (map snd (es @ S0 @ [(i, s)]))" using Cons.prems(2) by (auto simp: x)
    ultimately show ?case using Cons.IH [of "bmap_insert s i m" "S0 @ [(i, s)]"] by (simp add: x)
  qed simp
  have "symbols_match (?f es m) (S0 @ es)" using Cons.prems(2,3) l(3) by (intro f) (simp_all add: symbols_ok_def)
  then have "symbols_match (?f es m) (es @ S0)" by (auto simp: symbols_match_def)
  with Cons.IH [OF l(4), of "?f es m" "es @ S0"] Cons.prems(3) rd show ?case by (simp add: l(3))
qed simp

lemma record_updates_sidecar:
  assumes rep: "represents xxh V pg st" and tx: "txn_ok xxh pg tx" and sc: "sidecar_in V pg tx L S K"
    and us: "\<forall>u \<in> set us. update_wf u" and ver: "MIN_FORMAT_VERSION \<le> format_version (pg_header pg)"
    and out: "record_updates xxh pg st us tx = (r, tx')"
  shows "r = Inl page_overflow \<or> (\<exists>L' S' K'. r = Inr () \<and> sidecar_grows xxh V pg tx L S K tx' L' S' K' \<and>
    list_all2 (mirrors (S @ S')) us L')"
proof (cases "us = []")
  case True
  then show ?thesis using out sidecar_grows_refl [OF tx sc] by (auto simp: record_updates_def)
next
  case False
  let ?ps = "page_size (pg_header pg)" and ?src = "txn_source xxh pg st tx"
  obtain sp where c: "symbols_ok S" "symbol_log_at (txn_view V tx) ?ps (txn_filter_symbols_page pg tx) sp S"
    using sc by (auto simp: sidecar_at_def)
  have valid: "page_size_is_valid ?ps" using represents_store(1) [OF rep] by (simp add: store_ok_def header_wf_def)
  note src = txn_serves [OF rep tx]
  have "symbols_match [] []" by (simp add: symbols_match_def bmap_wf_def)
  then obtain m where m: "read_symbols ?src sp [] = Inr m" "symbols_match m S"
    using read_symbols_log [OF src valid c(2), of "[]" "[]"] c(1) by auto
  have "write_updates xxh pg st us m tx = (r, tx')"
    using out False leD [OF ver] m(1) walk_chain_page_log [OF src c(2)] by (simp add: record_updates_def Let_def)
  then show ?thesis by (rule write_updates_sidecar [OF rep tx sc m(2) us])
qed

lemma add_symbols_ok:
  "symbols_match m S0 \<Longrightarrow> set ids = fst ` set S0 \<Longrightarrow> symbols_ok (es @ S0) \<Longrightarrow>
     \<exists>ids' m'. add_symbols p es ids m = Inr (ids', m') \<and> symbols_match m' (es @ S0) \<and> set ids' = fst ` set (es @ S0)"
proof (induction es arbitrary: m S0 ids)
  case (Cons x es)
  obtain i s where x: "x = (i, s)" by (cases x)
  have new: "map_of m s = None" "i \<notin> set ids"
    using Cons.prems symbols_match_None [OF Cons.prems(1)] by (auto simp: x symbols_ok_def)
  have m: "symbols_match (bmap_insert s i m) (S0 @ [(i, s)])" by (rule symbols_match_insert [OF Cons.prems(1) new(1)])
  have "symbols_ok (es @ (S0 @ [(i, s)]))" using Cons.prems(3) by (auto simp: x symbols_ok_def)
  from Cons.IH [OF m _ this, of "i # ids"] Cons.prems(2) obtain ids' m' where
    k: "add_symbols p es (i # ids) (bmap_insert s i m) = Inr (ids', m')" "symbols_match m' (es @ S0 @ [(i, s)])"
      "set ids' = fst ` set (es @ S0 @ [(i, s)])" by auto
  have "set (es @ S0 @ [(i, s)]) = set ((x # es) @ S0)" by (auto simp: x)
  with k(2,3) have "symbols_match m' ((x # es) @ S0)" "set ids' = fst ` set ((x # es) @ S0)" by (simp_all only: symbols_match_def)
  with k(1) new show ?case by (simp add: x)
qed simp

lemma load_symbols_log:
  assumes "serves src V ps" "page_size_is_valid ps" "symbol_log_at V ps head pgs S" "symbols_match m S0"
    "set ids = fst ` set S0" "symbols_ok (S @ S0)"
  shows "\<exists>m'. load_symbols src pgs ids m = Inr m' \<and> symbols_match m' (S @ S0)"
  using assms(3-)
proof (induction pgs arbitrary: head S S0 m ids)
  case (Cons p pgs)
  then obtain page es nxt older where l: "V p = Some page" "item_page FilterSymbols symbol_bytes symbol_ok ps page es nxt"
    "S = older @ es" "symbol_log_at V ps nxt pgs older" by auto
  have rd: "src_page src p = Inr page" "decode_symbols page p = Inr es"
    using assms(1) l(1) by (simp_all add: serves_def decode_symbols_page [OF assms(2) l(2)])
  have "symbols_ok (es @ S0)" using Cons.prems(4) by (simp add: l(3) symbols_ok_def)
  then obtain ids' m' where a: "add_symbols p es ids m = Inr (ids', m')" "symbols_match m' (es @ S0)" "set ids' = fst ` set (es @ S0)"
    using add_symbols_ok [OF Cons.prems(2,3)] by blast
  with Cons.IH [OF l(4) a(2,3)] Cons.prems(4) rd show ?case by (simp add: l(3))
qed simp

lemma map_of_or_insert: "map_of (or_insert k v m) = [k \<mapsto> v] ++ map_of m"
  by (auto simp: or_insert_def fun_eq_iff map_add_def split: option.split)

lemma fold_or_insert: "map_of (fold (\<lambda>(i, e) m. or_insert i e m) es m) = map_of es ++ map_of m"
proof (induction es arbitrary: m)
  case (Cons x es)
  then show ?case by (cases x) (simp add: map_of_or_insert fun_eq_iff map_add_def split: option.split)
qed simp

lemma load_entries_log:
  assumes "serves src V ps" "page_size_is_valid ps" "entry_log V ps head pgs L"
  shows "\<exists>m'. load_entries src pgs m = Inr m' \<and> map_of m' = map_of (rev L) ++ map_of m"
  using assms(3)
proof (induction pgs arbitrary: head L m)
  case (Cons p pgs)
  then obtain page es nxt older where l: "V p = Some page" "item_page FilterMeta fm_entry_bytes entry_ok ps page es nxt"
    "L = older @ es" "entry_log V ps nxt pgs older" by auto
  have rd: "src_page src p = Inr page" "decode_entries page p = Inr es"
    using assms(1) l(1) by (simp_all add: serves_def decode_entries_page [OF assms(2) l(2)])
  from Cons.IH [OF l(4), of "fold (\<lambda>(i, e) m. or_insert i e m) (rev es) m"] rd show ?case
    by (auto simp: l(3) fold_or_insert map_add_assoc)
qed simp

text \<open>Loading gives the table of the newest entry of every id and of all symbols.\<close>

lemma fm_load_sidecar:
  assumes "serves src V ps" "page_size_is_valid ps" "sidecar_at V ps mroot sroot L S K"
  shows "\<exists>tb. fm_load src mroot sroot = Inr tb \<and> map_of (tb_entries tb) = map_of (rev L) \<and> symbols_match (tb_symbols tb) S"
proof -
  obtain mp sp where c: "symbols_ok S" "entry_log V ps mroot mp L" "symbol_log_at V ps sroot sp S"
    using assms(3) by (auto simp: sidecar_at_def)
  have "symbols_match [] []" by (simp add: symbols_match_def bmap_wf_def)
  from load_symbols_log [OF assms(1,2) c(3) this, of "[]"] c(1) obtain m where
    m: "load_symbols src sp [] [] = Inr m" "symbols_match m S" by auto
  obtain e where "load_entries src mp [] = Inr e" "map_of e = map_of (rev L)"
    using load_entries_log [OF assms(1,2) c(2), of "[]"] by auto
  with m show ?thesis
    by (simp add: fm_load_def walk_chain_page_log [OF assms(1) c(2)] walk_chain_page_log [OF assms(1) c(3)])
qed

end
