(* ===== verification/Store_Correct.thy ===== *)
theory Store_Correct
  imports Store_Api Filter_Sidecar Pager_Lifecycle
begin

text \<open>
  The record tree and the filter sidecar in step: \<open>memories_at\<close> is the invariant of a store of memories, every record
  of the tree mirrored by the newest sidecar entry of its id. On such a store the sidecar answers the filter of a
  recall exactly as the records do, the consistency check succeeds, and \<^verbatim>\<open>forget\<close> keeps the invariant, whether it
  returns or dies.
\<close>

section \<open>The invariant\<close>

definition stored_as :: "ulid \<Rightarrow> bytes \<Rightarrow> memory_record \<Rightarrow> bool" where
  "stored_as k v r \<longleftrightarrow> record_encode r = Inr v \<and> record_wf r \<and> record_norm r = r \<and> mr_id r = k"

definition mirrored :: "(nat \<Rightarrow> bool) \<Rightarrow> (ulid \<times> fm_entry) list \<Rightarrow> (u32 \<times> rstring) list \<Rightarrow> memory_record \<Rightarrow> bool" where
  "mirrored alnum L S r \<longleftrightarrow>
     (\<exists>e. map_of (rev L) (mr_id r) = Some e \<and> mirrors S (filter_meta_update alnum r) (mr_id r, e))"

definition memories_at :: "(nat \<Rightarrow> bool) \<Rightarrow> (u64 \<Rightarrow> bytes option) \<Rightarrow> u32 \<Rightarrow> u64 \<Rightarrow> u64 \<Rightarrow> u64 \<Rightarrow>
    (key \<times> bytes) list \<Rightarrow> (ulid \<times> fm_entry) list \<Rightarrow> (u32 \<times> rstring) list \<Rightarrow> bool" where
  "memories_at alnum V ps root mroot sroot m L S \<longleftrightarrow>
     (\<exists>K K'. btree_at V ps root m K \<and> sidecar_at V ps mroot sroot L S K' \<and> K \<inter> K' = {}) \<and>
     (\<forall>(k, v) \<in> set m. \<exists>r. stored_as k v r \<and> mirrored alnum L S r) \<and> fst ` set L = fst ` set m"

text \<open>The invariant of an open store, and inside a transaction.\<close>

definition memory_store :: "hash64 \<Rightarrow> (nat \<Rightarrow> bool) \<Rightarrow> (u64 \<Rightarrow> bytes option) \<Rightarrow> pager \<Rightarrow> sim_state \<Rightarrow>
    (key \<times> bytes) list \<Rightarrow> (ulid \<times> fm_entry) list \<Rightarrow> (u32 \<times> rstring) list \<Rightarrow> bool" where
  "memory_store xxh alnum V pg st m L S \<longleftrightarrow> represents xxh V pg st \<and>
     MIN_FORMAT_VERSION \<le> format_version (pg_header pg) \<and>
     memories_at alnum V (page_size (pg_header pg)) (root_btree_page (pg_header pg))
       (filter_meta_page (pg_header pg)) (filter_symbols_page (pg_header pg)) m L S"

abbreviation memories_in :: "(nat \<Rightarrow> bool) \<Rightarrow> (u64 \<Rightarrow> bytes option) \<Rightarrow> pager \<Rightarrow> txn \<Rightarrow>
    (key \<times> bytes) list \<Rightarrow> (ulid \<times> fm_entry) list \<Rightarrow> (u32 \<times> rstring) list \<Rightarrow> bool" where
  "memories_in alnum V pg tx \<equiv> memories_at alnum (txn_view V tx) (page_size (pg_header pg)) (txn_root_btree_page pg tx)
     (txn_filter_meta_page pg tx) (txn_filter_symbols_page pg tx)"

lemma stored_as_decode: "stored_as k v r \<Longrightarrow> record_decode v = Inr r"
  using record_roundtrip [of r v] by (simp add: stored_as_def)

lemma stored_as_unique: "stored_as k v r \<Longrightarrow> stored_as k' v r' \<Longrightarrow> r = r'"
  by (auto dest!: stored_as_decode)

lemma stored_as_facts:
  assumes "stored_as k v r"
  shows "length k = 16" "length v \<le> MAX_RECORD_LEN" "mr_project r \<noteq> Some []" "update_wf (filter_meta_update alnum r)" "mr_id r = k"
proof -
  show "length k = 16" "mr_id r = k" using assms by (auto simp: stored_as_def record_wf_def)
  show "length v \<le> MAX_RECORD_LEN" using assms record_encode_Inr(2) [of r v] by (simp add: stored_as_def)
  have "mr_project (record_norm r) = norm_str (mr_project r)" by (simp add: record_norm_def)
  then show "mr_project r \<noteq> Some []" using assms by (auto simp: stored_as_def norm_str_def)
  show "update_wf (filter_meta_update alnum r)"
    using assms by (auto simp: stored_as_def record_wf_def update_wf_def filter_meta_update_def split: option.splits)
qed

lemma memories_record:
  assumes "memories_at alnum V ps root mroot sroot m L S" "map_of m k = Some v"
  obtains r where "stored_as k v r" "mirrored alnum L S r"
  using assms map_of_SomeD [OF assms(2)] unfolding memories_at_def by blast

lemma memories_none:
  assumes "memories_at alnum V ps root mroot sroot m L S" "map_of m k = None"
  shows "map_of (rev L) k = None"
  using assms by (simp add: memories_at_def map_of_eq_None_iff)

section \<open>The sidecar answers as the records do\<close>

text \<open>A loaded table stands for the two logs.\<close>

definition table_for :: "fm_table \<Rightarrow> (ulid \<times> fm_entry) list \<Rightarrow> (u32 \<times> rstring) list \<Rightarrow> bool" where
  "table_for tb L S \<longleftrightarrow> map_of (tb_entries tb) = map_of (rev L) \<and> symbols_match (tb_symbols tb) S \<and> symbols_ok S \<and>
     (\<forall>x \<in> set S. symbol_ok x)"

lemma sidecar_symbols: "sidecar_at V ps mroot sroot L S K \<Longrightarrow> symbols_ok S \<and> (\<forall>x \<in> set S. symbol_ok x)"
  unfolding sidecar_at_def by (blast dest: page_log_ok)

lemma symbols_inj: "symbols_ok S \<Longrightarrow> (i, s) \<in> set S \<Longrightarrow> (j, t) \<in> set S \<Longrightarrow> i = j \<longleftrightarrow> s = t"
  by (auto simp: symbols_ok_def dest: eq_key_imp_eq_value) (metis distinct_map inj_onD snd_conv prod.inject)

lemma resolve_named:
  assumes "table_for tb L S" "named S s i"
  shows "p \<noteq> [] \<Longrightarrow> fm_resolve tb p = Some j \<Longrightarrow> i = j \<longleftrightarrow> s = p"
    "p \<noteq> [] \<Longrightarrow> fm_resolve tb p = None \<Longrightarrow> s \<noteq> p"
    "i = 0 \<longleftrightarrow> s = []"
proof -
  have t: "symbols_match (tb_symbols tb) S" "symbols_ok S" "\<And>x. x \<in> set S \<Longrightarrow> fst x \<noteq> 0"
    using assms(1) by (auto simp: table_for_def symbol_ok_def)
  show "i = j \<longleftrightarrow> s = p" if "p \<noteq> []" "fm_resolve tb p = Some j"
  proof -
    have "(j, p) \<in> set S" using that symbols_match_Some [OF t(1)] by (simp add: fm_resolve_def)
    then show ?thesis
      using assms(2) that(1) symbols_inj [OF t(2), of i s j p] t(3) [of "(j, p)"] by (auto simp: named_def split: if_splits)
  qed
  show "s \<noteq> p" if "p \<noteq> []" "fm_resolve tb p = None"
  proof
    assume "s = p"
    then have "(i, p) \<in> set S" using assms(2) that(1) by (simp add: named_def)
    then have "fm_resolve tb p = Some i" using symbols_match_Some [OF t(1)] by (simp add: fm_resolve_def)
    with that(2) show False by simp
  qed
  show "i = 0 \<longleftrightarrow> s = []" using assms(2) t(3) [of "(i, s)"] by (auto simp: named_def split: if_splits)
qed

text \<open>The two wants of a query, compared with the symbols of an entry, say what the strings say.\<close>

lemma check_project:
  assumes "table_for tb L S" "named S (case pr of Some p \<Rightarrow> p | None \<Rightarrow> []) i" "pr \<noteq> Some []"
  shows "check_want False (want_project tb wp) i =
    (if wp = None \<or> wp = pr then None else Some (Reject OutOfScope))"
  using resolve_named [OF assms(1,2)] assms(3)
  by (auto simp: want_project_def check_want_def split: option.splits)

lemma check_agent:
  assumes "table_for tb L S" "named S a i"
  shows "check_want False (want_agent tb wa) i =
    (if wa = None \<or> wa = Some a then None else Some (Reject OutOfScope))"
  using resolve_named [OF assms]
  by (auto simp: want_agent_def check_want_def SYM_NONE_def split: option.splits)

lemma check_want_overflow: "check_want True w i = (if w = Any then None else Some NeedRecord)"
  by (simp add: check_want_def)

lemma want_Any: "want_project tb wp = Any \<longleftrightarrow> wp = None" "want_agent tb wa = Any \<longleftrightarrow> wa = None"
  by (auto simp: want_project_def want_agent_def split: option.splits if_splits)

text \<open>The decision about a mirrored record, spelled out over the record itself.\<close>

lemma decide_mirrored:
  assumes "table_for tb L S" "mirrored alnum L S r" "mr_project r \<noteq> Some []"
  shows "\<exists>overflow. decide tb (mr_id r) \<lparr>qn_project = want_project tb wp, qn_agent = want_agent tb wa, qn_has_metadata_filters = f\<rparr> =
    (if mr_tombstone r \<or> mr_superseded r then Reject Dead
     else if overflow \<and> (wp \<noteq> None \<or> wa \<noteq> None) then NeedRecord
     else if wp \<noteq> None \<and> wp \<noteq> mr_project r \<or> wa \<noteq> None \<and> wa \<noteq> Some (pv_agent (mr_provenance r)) then Reject OutOfScope
     else if f then if mr_metadata r = [] then Reject FilteredOut else NeedRecord
     else Accept)"
proof -
  obtain e where e: "map_of (tb_entries tb) (mr_id r) = Some e" "mirrors S (filter_meta_update alnum r) (mr_id r, e)"
    using assms(1,2) by (auto simp: mirrored_def table_for_def)
  have fl: "fe_flags e AND (FM_TOMBSTONE OR FM_SUPERSEDED) \<noteq> 0 \<longleftrightarrow> mr_tombstone r \<or> mr_superseded r"
    "fe_flags e AND FM_HAS_METADATA \<noteq> 0 \<longleftrightarrow> mr_metadata r \<noteq> []"
    using e(2) by (simp_all add: mirrors_def filter_meta_update_def)
  show ?thesis
  proof (cases "fe_flags e AND FM_SCOPE_OVERFLOW = 0")
    case True
    then have n: "named S (case mr_project r of Some p \<Rightarrow> p | None \<Rightarrow> []) (fe_project_sym e)"
      "named S (pv_agent (mr_provenance r)) (fe_agent_sym e)"
      using e(2) by (simp_all add: mirrors_def filter_meta_update_def)
    show ?thesis
      by (rule exI [of _ False]) (use fl True in \<open>simp add: decide_def e(1) check_project [OF assms(1) n(1) assms(3)]
        check_agent [OF assms(1) n(2)] Let_def del: FM_SCOPE_OVERFLOW_def FM_HAS_METADATA_def FM_TOMBSTONE_def FM_SUPERSEDED_def\<close>)
  next
    case False
    then show ?thesis
      by (intro exI [of _ True]) (use fl in \<open>simp add: decide_def e(1) check_want_overflow want_Any Let_def
        del: FM_SCOPE_OVERFLOW_def FM_HAS_METADATA_def FM_TOMBSTONE_def FM_SUPERSEDED_def\<close>)
  qed
qed

lemma passes_filters_no_metadata: "fs \<noteq> [] \<Longrightarrow> passes_filters [] fs = Inr False"
  by (cases fs) (auto simp: filter_matches_def)

lemma meta_needs_wants:
  "meta_needs tb q = \<lparr>qn_project = want_project tb (case q_scope q of All \<Rightarrow> None | Project p \<Rightarrow> Some p),
     qn_agent = want_agent tb (q_agent q), qn_has_metadata_filters = (q_filters q \<noteq> [])\<rparr>"
  by (simp add: meta_needs_def split: scope.split)

lemma in_scope_wants:
  "in_scope q r \<longleftrightarrow> \<not> (mr_tombstone r \<or> mr_superseded r) \<and>
     \<not> ((case q_scope q of All \<Rightarrow> None | Project p \<Rightarrow> Some p) \<noteq> None \<and> (case q_scope q of All \<Rightarrow> None | Project p \<Rightarrow> Some p) \<noteq> mr_project r \<or>
        q_agent q \<noteq> None \<and> q_agent q \<noteq> Some (pv_agent (mr_provenance r)))"
  by (auto simp: in_scope_def split: scope.split option.split)

lemma decide_sound:
  assumes "table_for tb L S" "mirrored alnum L S r" "mr_project r \<noteq> Some []"
  shows "decide tb (mr_id r) (meta_needs tb q) = Accept \<Longrightarrow> in_scope q r \<and> record_passes_filters q r = Inr True"
    "decide tb (mr_id r) (meta_needs tb q) = Reject why \<Longrightarrow> \<not> in_scope q r \<or> record_passes_filters q r = Inr False"
  using decide_mirrored [OF assms, of "case q_scope q of All \<Rightarrow> None | Project p \<Rightarrow> Some p" "q_agent q" "q_filters q \<noteq> []"]
  unfolding meta_needs_wants in_scope_wants record_passes_filters_def
  by (auto simp: passes_filters_no_metadata split: if_splits)

section \<open>Reading an open store\<close>

lemma memory_storeE:
  assumes "memory_store xxh alnum V pg st m L S"
  obtains K where "represents xxh V pg st" "page_size_is_valid (page_size (pg_header pg))"
    "serves (pager_source xxh pg st) V (page_size (pg_header pg))"
    "btree_map V (page_size (pg_header pg)) (root_btree_page (pg_header pg)) m"
    "sidecar_at V (page_size (pg_header pg)) (filter_meta_page (pg_header pg)) (filter_symbols_page (pg_header pg)) L S K"
proof -
  have rep: "represents xxh V pg st" using assms by (simp add: memory_store_def)
  obtain K K' where k: "btree_at V (page_size (pg_header pg)) (root_btree_page (pg_header pg)) m K"
    "sidecar_at V (page_size (pg_header pg)) (filter_meta_page (pg_header pg)) (filter_symbols_page (pg_header pg)) L S K'"
    using assms unfolding memory_store_def memories_at_def by auto
  have "page_size_is_valid (page_size (pg_header pg))"
    using represents_store(1) [OF rep] by (simp add: store_ok_def header_wf_def)
  then show ?thesis by (rule that [OF rep _ pager_serves [OF rep] _ k(2)]) (auto simp: btree_map_def intro: k(1))
qed

lemma memory_store_get:
  assumes "memory_store xxh alnum V pg st m L S"
  shows "btree_get (pager_source xxh pg st) (root_btree_page (pg_header pg)) i = Inr (map_of m i)"
  using assms by (elim memory_storeE) (rule btree_get_map)

lemma memory_store_record:
  assumes "memory_store xxh alnum V pg st m L S" "map_of m i = Some v"
  obtains r where "stored_as i v r" "mirrored alnum L S r"
  using assms memories_record unfolding memory_store_def by blast

lemma load_record_store:
  assumes "memory_store xxh alnum V pg st m L S"
  shows "map_of m i = None \<Longrightarrow> load_record (pager_source xxh pg st) (root_btree_page (pg_header pg)) i = Inr None"
    "map_of m i = Some v \<Longrightarrow> stored_as i v r \<Longrightarrow>
       load_record (pager_source xxh pg st) (root_btree_page (pg_header pg)) i = Inr (Some r)"
  by (simp_all add: load_record_def memory_store_get [OF assms] stored_as_decode)

text \<open>A cached table is current when its stamp is; stamps are never ahead of the store.\<close>

definition cache_ok :: "pager \<Rightarrow> (ulid \<times> fm_entry) list \<Rightarrow> (u32 \<times> rstring) list \<Rightarrow> meta_cache \<Rightarrow> bool" where
  "cache_ok pg L S cache \<longleftrightarrow> (case cache of None \<Rightarrow> True
     | Some (stamp, tb) \<Rightarrow> stamp \<le> txn_counter (pg_header pg) \<and> (stamp = txn_counter (pg_header pg) \<longrightarrow> table_for tb L S))"

lemma store_filter_meta_outcome:
  assumes "memory_store xxh alnum V pg st m L S" "cache_ok pg L S cache"
  shows "\<exists>found cache'. store_filter_meta xxh pg st cache = (Inr found, cache') \<and> cache_ok pg L S cache' \<and>
    (case found of None \<Rightarrow> L = [] | Some tb \<Rightarrow> table_for tb L S)"
proof -
  obtain K where s: "page_size_is_valid (page_size (pg_header pg))"
    "serves (pager_source xxh pg st) V (page_size (pg_header pg))"
    "sidecar_at V (page_size (pg_header pg)) (filter_meta_page (pg_header pg)) (filter_symbols_page (pg_header pg)) L S K"
    using assms(1) by (elim memory_storeE)
  obtain tb where tb: "fm_load (pager_source xxh pg st) (filter_meta_page (pg_header pg)) (filter_symbols_page (pg_header pg)) = Inr tb"
      "table_for tb L S"
    using fm_load_sidecar [OF s(2,1,3)] sidecar_symbols [OF s(3)] unfolding table_for_def by blast
  have "L = []" if z: "filter_meta_page (pg_header pg) = 0"
  proof -
    obtain mp where "entry_log V (page_size (pg_header pg)) 0 mp L" using s(3) z by (auto simp: sidecar_at_def)
    then show ?thesis by (cases mp) auto
  qed
  then show ?thesis
    using assms(2) tb by (auto simp: store_filter_meta_def Let_def cache_ok_def split: option.splits)
qed

lemma keep_sidecar:
  assumes "memory_store xxh alnum V pg st m L S" "table_for tb L S"
  shows "keep (Some (tb, meta_needs tb q)) (load_record (pager_source xxh pg st) (root_btree_page (pg_header pg))) q i err =
    keep None (load_record (pager_source xxh pg st) (root_btree_page (pg_header pg))) q i err"
proof (cases "map_of m i")
  case None
  then have "map_of (tb_entries tb) i = None"
    using assms memories_none by (auto simp: memory_store_def table_for_def)
  then show ?thesis by (simp add: keep_def decide_def)
next
  case (Some v)
  then obtain r where r: "stored_as i v r" "mirrored alnum L S r" by (rule memory_store_record [OF assms(1)])
  note d = decide_sound [OF assms(2) r(2) stored_as_facts(3) [OF r(1)], of q, unfolded stored_as_facts(5) [OF r(1)]]
  show ?thesis
    using d by (cases "decide tb i (meta_needs tb q)") (auto simp: keep_def load_record_store(2) [OF assms(1) Some r(1)])
qed

section \<open>Iterating\<close>

text \<open>What an iteration still has to yield.\<close>

definition scan_holds :: "page_source \<Rightarrow> scan_state \<Rightarrow> (key \<times> bytes) list \<Rightarrow> bool" where
  "scan_holds src s xs \<longleftrightarrow> (\<forall>n. scan_take src n s = take n (map Inr xs))"

lemma scan_holds_Nil: "scan_holds src s [] \<Longrightarrow> \<exists>s'. scan_next src s = (None, s')"
  by (auto simp: scan_holds_def dest!: spec [of _ "Suc 0"] split: prod.splits option.splits)

lemma scan_holds_Cons:
  assumes "scan_holds src s (x # xs)"
  shows "\<exists>s'. scan_next src s = (Some (Inr x), s') \<and> scan_holds src s' xs"
proof -
  have h: "(case scan_next src s of (None, s) \<Rightarrow> [] | (Some y, s) \<Rightarrow> y # scan_take src n s) = Inr x # take n (map Inr xs)" for n
    using assms [unfolded scan_holds_def, rule_format, of "Suc n"] by simp
  obtain y s' where y: "scan_next src s = (Some y, s')"
    using h [of 0] by (auto split: prod.splits option.splits)
  with h have "y = Inr x" "scan_take src n s' = take n (map Inr xs)" for n by simp_all
  with y show ?thesis by (simp add: scan_holds_def)
qed

text \<open>The memories an iteration yields.\<close>

definition listed :: "bool \<Rightarrow> (key \<times> bytes) list \<Rightarrow> memory list" where
  "listed inc xs = filter (\<lambda>m. inc \<or> \<not> me_tombstone m) (map (\<lambda>(k, v). from_record (projr (record_decode v))) xs)"

fun iter_take :: "page_source \<Rightarrow> bool \<Rightarrow> nat \<Rightarrow> scan_state \<Rightarrow> (memory result) list" where
  "iter_take src inc 0 s = []"
| "iter_take src inc (Suc n) s =
     (case iter_next src inc s of (None, s) \<Rightarrow> [] | (Some x, s) \<Rightarrow> x # iter_take src inc n s)"

lemma iter_next_holds:
  assumes "scan_holds src s xs" "\<forall>(k, v) \<in> set xs. \<exists>r. stored_as k v r"
  shows "case listed inc xs of
      [] \<Rightarrow> \<exists>s'. iter_next src inc s = (None, s')
    | m # ms \<Rightarrow> \<exists>s' xs'. iter_next src inc s = (Some (Inr m), s') \<and> scan_holds src s' xs' \<and> listed inc xs' = ms \<and>
        set xs' \<subseteq> set xs \<and> length xs' < length xs"
  using assms
proof (induction xs arbitrary: s)
  case Nil
  then show ?case using scan_holds_Nil [of src s] by (auto simp: listed_def iter_next.simps)
next
  case (Cons x xs)
  obtain k v where x: "x = (k, v)" by (cases x)
  then obtain r where r: "stored_as k v r" using Cons.prems(2) by auto
  have d: "record_decode v = Inr r" "me_id (from_record r) = k"
    using stored_as_decode [OF r] stored_as_facts(5) [OF r] by (simp_all add: from_record_def)
  obtain s1 where s1: "scan_next src s = (Some (Inr (k, v)), s1)" "scan_holds src s1 xs"
    using scan_holds_Cons [OF Cons.prems(1)] x by blast
  show ?case
  proof (cases "inc \<or> \<not> me_tombstone (from_record r)")
    case True
    then have "iter_next src inc s = (Some (Inr (from_record r)), s1)" "listed inc (x # xs) = from_record r # listed inc xs"
      using s1(1) d x by (auto simp: iter_next.simps listed_def Let_def)
    then show ?thesis using s1(2) by auto
  next
    case False
    have n: "iter_next src inc s = iter_next src inc s1"
      by (subst iter_next.simps) (use False s1(1) d in \<open>simp add: Let_def\<close>)
    have l: "listed inc (x # xs) = listed inc xs" using False d x by (simp add: listed_def)
    have "\<forall>(k, v) \<in> set xs. \<exists>r. stored_as k v r" using Cons.prems(2) by simp
    from Cons.IH [OF s1(2) this] show ?thesis
      unfolding n l by (auto split: list.splits) (metis less_Suc_eq subset_insertI2)
  qed
qed

lemma iter_take_holds:
  assumes "scan_holds src s xs" "\<forall>(k, v) \<in> set xs. \<exists>r. stored_as k v r"
  shows "iter_take src inc n s = take n (map Inr (listed inc xs))"
  using assms
proof (induction n arbitrary: s xs)
  case (Suc n)
  show ?case
  proof (cases "listed inc xs")
    case Nil
    then show ?thesis using iter_next_holds [OF Suc.prems, of inc] by auto
  next
    case (Cons m ms)
    then obtain s' xs' where k: "iter_next src inc s = (Some (Inr m), s')" "scan_holds src s' xs'" "listed inc xs' = ms" "set xs' \<subseteq> set xs"
      using iter_next_holds [OF Suc.prems, of inc] by auto
    have "\<forall>(k, v) \<in> set xs'. \<exists>r. stored_as k v r" using Suc.prems(2) k(4) by blast
    from Suc.IH [OF k(2) this] k(1,3) Cons show ?thesis by simp
  qed
qed simp

lemma memory_store_scan:
  assumes "memory_store xxh alnum V pg st m L S"
  shows "scan_holds (pager_source xxh pg st) (btree_scan (root_btree_page (pg_header pg))) m"
    "\<forall>(k, v) \<in> set m. \<exists>r. stored_as k v r \<and> mirrored alnum L S r"
proof -
  show "scan_holds (pager_source xxh pg st) (btree_scan (root_btree_page (pg_header pg))) m"
    using assms unfolding scan_holds_def by (elim memory_storeE) (rule allI, rule btree_scan_map)
  show "\<forall>(k, v) \<in> set m. \<exists>r. stored_as k v r \<and> mirrored alnum L S r"
    using assms by (simp add: memory_store_def memories_at_def)
qed

section \<open>The consistency check\<close>

lemma verify_memory_ok:
  assumes "table_for tb L S" "mirrored alnum L S r" "mr_project r \<noteq> Some []"
  shows "verify_memory alnum tb (from_record r) = Inr ()"
proof -
  obtain e where e: "map_of (tb_entries tb) (mr_id r) = Some e" "fe_doc_len e = doc_len alnum (mr_content r)"
    using assms(1,2) by (auto simp: mirrored_def table_for_def mirrors_def filter_meta_update_def)
  let ?d = "\<lambda>p a. decide tb (mr_id r) \<lparr>qn_project = p, qn_agent = a, qn_has_metadata_filters = False\<rparr>"
  let ?dead = "mr_tombstone r \<or> mr_superseded r"
  have any: "?d Any Any = (if ?dead then Reject Dead else Accept)"
    using decide_mirrored [OF assms, of None None False] by (auto simp: want_project_def want_agent_def)
  have own: "?d (want_project tb (mr_project r)) (want_agent tb (Some (pv_agent (mr_provenance r)))) \<noteq> Reject why" if "\<not> ?dead" for why
    using decide_mirrored [OF assms, of "mr_project r" "Some (pv_agent (mr_provenance r))" False] that
    by (auto split: if_splits)
  have "want_project tb (Some []) = Absent" by (simp add: want_project_def)
  then have foreign: "?d Absent Any \<noteq> Accept"
    using decide_mirrored [OF assms, of "Some []" None False] assms(3) by (auto simp: want_agent_def split: if_splits)
  show ?thesis
    using e any own foreign by (auto simp: verify_memory_def fm_get_def from_record_def Let_def)
qed

lemma verify_loop_ok:
  assumes "scan_holds src s xs" "\<forall>(k, v) \<in> set xs. \<exists>r. stored_as k v r \<and> mirrored alnum L S r" "table_for tb L S"
  shows "verify_loop alnum tb src s = Inr ()"
  using assms(1,2)
proof (induction "length xs" arbitrary: s xs rule: less_induct)
  case less
  have st: "\<forall>(k, v) \<in> set xs. \<exists>r. stored_as k v r" using less.prems(2) by blast
  show ?case
  proof (cases xs)
    case Nil
    then show ?thesis using iter_next_holds [OF less.prems(1) st, of True] by (auto simp: listed_def verify_loop.simps)
  next
    case (Cons x ys)
    obtain k v where x: "x = (k, v)" by (cases x)
    then obtain r where r: "stored_as k v r" "mirrored alnum L S r" using less.prems(2) Cons by auto
    have "listed True xs = from_record r # listed True ys"
      by (simp add: Cons x listed_def stored_as_decode [OF r(1)])
    then obtain s' xs' where k: "iter_next src True s = (Some (Inr (from_record r)), s')" "scan_holds src s' xs'"
        "set xs' \<subseteq> set xs" "length xs' < length xs"
      using iter_next_holds [OF less.prems(1) st, of True] by auto
    have "verify_loop alnum tb src s' = Inr ()" using less.hyps [OF k(4,2)] k(3) less.prems(2) by blast
    then show ?thesis
      using k(1) verify_memory_ok [OF assms(3) r(2) stored_as_facts(3) [OF r(1)]] by (simp add: verify_loop.simps)
  qed
qed

lemma verify_store_ok:
  assumes "memory_store xxh alnum V pg st m L S" "cache_ok pg L S cache"
  shows "\<exists>cache'. verify_filter_meta_invariant xxh alnum pg st cache = (Inr (), cache') \<and> cache_ok pg L S cache'"
proof -
  obtain found cache' where f: "store_filter_meta xxh pg st cache = (Inr found, cache')" "cache_ok pg L S cache'"
    "case found of None \<Rightarrow> L = [] | Some tb \<Rightarrow> table_for tb L S"
    using store_filter_meta_outcome [OF assms] by blast
  then show ?thesis
    using verify_loop_ok [OF memory_store_scan [OF assms(1)]]
    by (auto simp: verify_filter_meta_invariant_def split: option.splits)
qed

section \<open>Writing a record and its mirror\<close>

lemma stored_as_tombstone:
  assumes "stored_as k v r"
  obtains v' where "stored_as k v' (r\<lparr>mr_tombstone := True\<rparr>)"
proof -
  have e: "record_encode r = Inr v" and w: "record_wf (r\<lparr>mr_tombstone := True\<rparr>)" "mr_id r = k"
    using assms by (auto simp: stored_as_def record_wf_def)
  have "is_ok (record_encode (r\<lparr>mr_tombstone := True\<rparr>))"
    using e by (auto simp: record_encode_def bind_result_Inr_iff Let_def is_ok_iff split: if_splits option.splits)
  moreover have "record_norm (r\<lparr>mr_tombstone := True\<rparr>) = (record_norm r)\<lparr>mr_tombstone := True\<rparr>"
    by (simp add: record_norm_def)
  moreover have "record_norm r = r" using assms by (simp add: stored_as_def)
  ultimately show ?thesis using w that by (auto simp: stored_as_def is_ok_iff)
qed

lemma mirrored_grow:
  assumes "mirrored alnum L S r" "k \<noteq> mr_id r"
  shows "mirrored alnum (L @ [(k, e)]) (S @ S') r"
  using assms mirrors_append by (fastforce simp: mirrored_def)

lemma records_grow:
  assumes "bmap_wf m" "\<forall>(k, v) \<in> set m. \<exists>r. stored_as k v r \<and> mirrored alnum L S r"
    "stored_as k v r" "mirrors (S @ S') (filter_meta_update alnum r) (k, e)"
  shows "\<forall>(k', v') \<in> set (bmap_insert k v m). \<exists>r. stored_as k' v' r \<and> mirrored alnum (L @ [(k, e)]) (S @ S') r"
proof -
  have "\<exists>r. stored_as k' v' r \<and> mirrored alnum (L @ [(k, e)]) (S @ S') r" if "(k', v') \<in> set (bmap_insert k v m)" for k' v'
  proof -
    have "map_of (bmap_insert k v m) k' = Some v'"
      by (rule map_of_is_SomeI [OF bmap_wf_distinct [OF bmap_wf_insert [OF assms(1)]] that])
    then consider "k' = k" "v' = v" | "k' \<noteq> k" "(k', v') \<in> set m" by (auto simp: map_of_SomeD split: if_splits)
    then show ?thesis
    proof cases
      case 1
      then show ?thesis using assms(3,4) stored_as_facts(5) [OF assms(3)] by (auto simp: mirrored_def intro!: exI [of _ r])
    next
      case 2
      then obtain r' where r': "stored_as k' v' r'" "mirrored alnum L S r'" using assms(2) by blast
      then have "mirrored alnum (L @ [(k, e)]) (S @ S') r'" using 2(1) stored_as_facts(5) [OF r'(1)] by (intro mirrored_grow) auto
      with r'(1) show ?thesis by blast
    qed
  qed
  then show ?thesis by blast
qed

lemma mirror_write:
  assumes rep: "represents xxh V pg st" and tx: "txn_ok xxh pg tx" and ver: "MIN_FORMAT_VERSION \<le> format_version (pg_header pg)"
    and tree: "btree_at (txn_view V tx) (page_size (pg_header pg)) (txn_root_btree_page pg tx) (bmap_insert k v m) K"
    and sc: "sidecar_in V pg tx L S K2" "K \<inter> K2 = {}" and recs: "\<forall>(k, v) \<in> set m. \<exists>r. stored_as k v r \<and> mirrored alnum L S r"
    and keys: "fst ` set L = fst ` set m" "bmap_wf m" and r: "stored_as k v r"
    and out: "record_updates xxh pg st [filter_meta_update alnum r] tx = (r', tx')"
  shows "r' = Inl page_overflow \<or> r' = Inr () \<and> txn_ok xxh pg tx' \<and> (\<exists>L' S'. memories_in alnum V pg tx' (bmap_insert k v m) L' S')"
proof -
  let ?u = "filter_meta_update alnum r"
  have u: "\<forall>u \<in> set [?u]. update_wf u" using stored_as_facts(4) [OF r] by simp
  from record_updates_sidecar [OF rep tx sc(1) u ver out] show ?thesis
  proof (elim disjE exE conjE)
    fix L' S' K'
    assume g: "r' = Inr ()" "sidecar_grows xxh V pg tx L S K2 tx' L' S' K'" "list_all2 (mirrors (S @ S')) [?u] L'"
    then obtain e where e: "L' = [(k, e)]" "mirrors (S @ S') ?u (k, e)"
      using stored_as_facts(5) [OF r] by (auto simp: list_all2_Cons1 mirrors_def filter_meta_update_def)
    have st: "sidecar_step xxh V pg K2 tx tx'" "K' \<subseteq> K2 \<union> - dom (txn_view V tx)" using g(2) by (simp_all add: sidecar_grows_def)
    have K: "K \<subseteq> dom (txn_view V tx)" using btree_at_pages [OF tree] by blast
    have root: "txn_root_btree_page pg tx' = txn_root_btree_page pg tx"
      using st(1) unfolding sidecar_step_def other_roots_def txn_root_btree_page_def
      by (metis (no_types, lifting) pending_header.select_convs(1) pending_header.surjective pending_header.update_convs(5,6))
    have "btree_at (txn_view V tx') (page_size (pg_header pg)) (txn_root_btree_page pg tx') (bmap_insert k v m) K"
      unfolding root by (rule btree_at_frame [OF tree]) (use st(1) sc(2) K in \<open>unfold sidecar_step_def, blast\<close>)
    moreover have "K \<inter> K' = {}" using st(2) sc(2) K by blast
    moreover have "fst ` set (L @ L') = fst ` set (bmap_insert k v m)" using keys(1) by (auto simp: e(1))
    ultimately have "memories_in alnum V pg tx' (bmap_insert k v m) (L @ L') (S @ S')"
      using sidecar_grows_ok(2) [OF g(2)] records_grow [OF keys(2) recs r e(2)] unfolding memories_at_def e(1) by blast
    then show ?thesis using g(1) sidecar_grows_ok(1) [OF g(2)] by blast
  qed simp
qed

text \<open>The two writes every change of a record makes, in one transaction.\<close>

lemma record_write:
  assumes rep: "represents xxh V pg st" and tx: "txn_ok xxh pg tx" and ver: "MIN_FORMAT_VERSION \<le> format_version (pg_header pg)"
    and mem: "memories_in alnum V pg tx m L S" and r: "stored_as k v r"
    and ins: "btree_insert xxh pg st k v tx = (r1, tx1)"
  shows "r1 = Inl page_overflow \<or> r1 = Inr () \<and>
    (\<forall>r2 tx2. record_updates xxh pg st [filter_meta_update alnum r] tx1 = (r2, tx2) \<longrightarrow>
       r2 = Inl page_overflow \<or>
       r2 = Inr () \<and> txn_ok xxh pg tx2 \<and> (\<exists>L' S'. memories_in alnum V pg tx2 (bmap_insert k v m) L' S'))"
proof -
  let ?ps = "page_size (pg_header pg)" and ?u = "filter_meta_update alnum r"
  obtain K K2 where k: "btree_at (txn_view V tx) ?ps (txn_root_btree_page pg tx) m K" "sidecar_in V pg tx L S K2" "K \<inter> K2 = {}"
    and recs: "\<forall>(k, v) \<in> set m. \<exists>r. stored_as k v r \<and> mirrored alnum L S r" and keys: "fst ` set L = fst ` set m"
    using mem unfolding memories_at_def by blast
  note f = stored_as_facts [OF r]
  show ?thesis
  proof (cases "r1 = Inl page_overflow")
    case False
    then obtain K1 where b: "r1 = Inr ()" "txn_ok xxh pg tx1"
      "btree_at (txn_view V tx1) ?ps (txn_root_btree_page pg tx1) (bmap_insert k v m) K1" "K1 \<subseteq> K \<union> - dom (txn_view V tx)"
      "\<forall>q \<in> dom (txn_view V tx) - K. txn_view V tx1 q = txn_view V tx q"
      "(tx_pending tx1)\<lparr>pd_root_btree := None\<rparr> = (tx_pending tx)\<lparr>pd_root_btree := None\<rparr>"
      using btree_insert_map [OF rep tx k(1) f(1,2) ins] by blast
    have roots: "txn_filter_meta_page pg tx1 = txn_filter_meta_page pg tx" "txn_filter_symbols_page pg tx1 = txn_filter_symbols_page pg tx"
      using b(6) by (auto simp: txn_filter_meta_page_def txn_filter_symbols_page_def) (metis pending_header.ext_inject pending_header.surjective pending_header.update_convs(1))+
    have K2: "K2 \<subseteq> dom (txn_view V tx)" using sidecar_at_pages [OF k(2)] by blast
    have sc: "sidecar_in V pg tx1 L S K2"
      unfolding roots by (rule sidecar_at_cong [OF k(2)]) (use b(5) K2 k(3) in blast)
    have disj: "K1 \<inter> K2 = {}" using b(4) K2 k(3) by blast
    have "bmap_wf m" by (rule btree_map_wf [unfolded btree_map_def]) (use k(1) in blast)
    from mirror_write [OF rep b(2) ver b(3) sc disj recs keys this r] show ?thesis using b(1) by blast
  qed simp
qed

section \<open>Forgetting\<close>

lemma memories_begin:
  assumes "memory_store xxh alnum V pg st m L S" "pager_begin pg = Inr tx"
  shows "txn_ok xxh pg tx" "memories_in alnum V pg tx m L S"
proof -
  show "txn_ok xxh pg tx" by (rule pager_begin_ok [OF assms(2)])
  have "txn_view V tx = V" "txn_root_btree_page pg tx = root_btree_page (pg_header pg)"
    "txn_filter_meta_page pg tx = filter_meta_page (pg_header pg)" "txn_filter_symbols_page pg tx = filter_symbols_page (pg_header pg)"
    using assms(2) by (auto simp: pager_begin_def bind_result_Inr_iff txn_view_def txn_root_btree_page_def
        txn_filter_meta_page_def txn_filter_symbols_page_def pending_default_def)
  then show "memories_in alnum V pg tx m L S" using assms(1) by (simp add: memory_store_def)
qed

lemma memories_get:
  assumes "represents xxh V pg st" "txn_ok xxh pg tx" "memories_in alnum V pg tx m L S"
  shows "btree_get (txn_source xxh pg st tx) (txn_root_btree_page pg tx) i = Inr (map_of m i)"
proof (rule btree_get_map [OF txn_serves [OF assms(1,2)]])
  show "page_size_is_valid (page_size (pg_header pg))"
    using represents_store(1) [OF assms(1)] by (simp add: store_ok_def header_wf_def)
  show "btree_map (txn_view V tx) (page_size (pg_header pg)) (txn_root_btree_page pg tx) m"
    using assms(3) by (auto simp: memories_at_def btree_map_def)
qed

text \<open>What \<^verbatim>\<open>forget\<close> does to the map of records, on every branch.\<close>

lemma forget_writes_outcome:
  assumes rep: "represents xxh V pg st" and tx: "txn_ok xxh pg tx" and ver: "MIN_FORMAT_VERSION \<le> format_version (pg_header pg)"
    and mem: "memories_in alnum V pg tx m L S"
    and out: "forget_writes xxh alnum i pg st tx = (r', tx')"
  shows "map_of m i = None \<and> r' = Inr False \<or>
    (\<exists>v r. map_of m i = Some v \<and> stored_as i v r \<and>
      (if mr_tombstone r then r' = Inr False
       else r' = Inl page_overflow \<or>
         (\<exists>v' L' S'. r' = Inr True \<and> stored_as i v' (r\<lparr>mr_tombstone := True\<rparr>) \<and> txn_ok xxh pg tx' \<and>
            memories_in alnum V pg tx' (bmap_insert i v' m) L' S')))"
proof (cases "map_of m i")
  case None
  then show ?thesis using out by (simp add: forget_writes_def memories_get [OF rep tx mem])
next
  case (Some v)
  then obtain r where r: "stored_as i v r" "mirrored alnum L S r" by (rule memories_record [OF mem])
  note d = stored_as_decode [OF r(1)]
  show ?thesis
  proof (cases "mr_tombstone r")
    case True
    then show ?thesis using out Some r(1) d by (auto simp: forget_writes_def memories_get [OF rep tx mem])
  next
    case False
    let ?r = "r\<lparr>mr_tombstone := True\<rparr>"
    obtain v' where v': "stored_as i v' ?r" by (rule stored_as_tombstone [OF r(1)])
    then have enc: "record_encode ?r = Inr v'" by (simp add: stored_as_def)
    obtain r1 tx1 where o1: "btree_insert xxh pg st i v' tx = (r1, tx1)" by fastforce
    obtain r2 tx2 where o2: "record_updates xxh pg st [filter_meta_update alnum ?r] tx1 = (r2, tx2)" by fastforce
    have o: "bind_st (r1, tx1) (\<lambda>_ tx. bind_st (record_updates xxh pg st [filter_meta_update alnum ?r] tx) (\<lambda>_ tx. (Inr True, tx))) = (r', tx')"
      using out False by (simp add: forget_writes_def memories_get [OF rep tx mem] Some d enc o1 Let_def)
    from record_write [OF rep tx ver mem v' o1] o2 o
    have "r' = Inl page_overflow \<or> r' = Inr True \<and> txn_ok xxh pg tx' \<and> (\<exists>L' S'. memories_in alnum V pg tx' (bmap_insert i v' m) L' S')"
      by auto blast
    then show ?thesis using Some r(1) v' False by auto
  qed
qed

text \<open>A changed record is a transaction that writes something.\<close>

lemma memories_unique:
  assumes rep: "represents xxh V pg st" and tx: "txn_ok xxh pg tx"
    and "memories_in alnum V pg tx m L S" "memories_in alnum' V pg tx m' L' S'"
  shows "map_of m = map_of m'"
  using memories_get [OF rep tx assms(3)] memories_get [OF rep tx assms(4)] by (simp add: fun_eq_iff)

lemma noop_view:
  assumes "txn_noop pg tx"
  shows "txn_view V tx = V" "txn_root_btree_page pg tx = root_btree_page (pg_header pg)"
    "txn_filter_meta_page pg tx = filter_meta_page (pg_header pg)" "txn_filter_symbols_page pg tx = filter_symbols_page (pg_header pg)"
  using assms by (auto simp: txn_noop_def pending_is_empty_def txn_view_def txn_root_btree_page_def
      txn_filter_meta_page_def txn_filter_symbols_page_def)

lemma memories_commit:
  assumes "memories_in alnum V pg tx m L S"
  shows "memories_at alnum (next_store xxh (txn_header pg tx) (tx_dirty tx) V) (page_size (txn_header pg tx))
    (root_btree_page (txn_header pg tx)) (filter_meta_page (txn_header pg tx)) (filter_symbols_page (txn_header pg tx)) m L S"
proof -
  let ?V = "next_store xxh (txn_header pg tx) (tx_dirty tx) V" and ?ps = "page_size (pg_header pg)"
  obtain K K' where k: "btree_at (txn_view V tx) ?ps (txn_root_btree_page pg tx) m K" "sidecar_in V pg tx L S K'" "K \<inter> K' = {}"
    and rest: "\<forall>(k, v) \<in> set m. \<exists>r. stored_as k v r \<and> mirrored alnum L S r" "fst ` set L = fst ` set m"
    using assms unfolding memories_at_def by blast
  have h: "page_size (txn_header pg tx) = ?ps" "filter_meta_page (txn_header pg tx) = txn_filter_meta_page pg tx"
    "filter_symbols_page (txn_header pg tx) = txn_filter_symbols_page pg tx"
    by (simp_all add: txn_header_def pending_apply_def txn_filter_meta_page_def txn_filter_symbols_page_def Let_def split: option.split)
  have "\<forall>q \<in> K'. ?V q = txn_view V tx q"
    using sidecar_at_pages [OF k(2)] by (auto simp: next_store_def txn_view_def)
  then have "sidecar_at ?V ?ps (txn_filter_meta_page pg tx) (txn_filter_symbols_page pg tx) L S K'"
    by (rule sidecar_at_cong [OF k(2)])
  then show ?thesis
    using btree_commit [OF k(1), of xxh, folded txn_header_def] k(3) rest unfolding memories_at_def h by blast
qed

lemma txn_header_version [simp]: "format_version (txn_header pg tx) = format_version (pg_header pg)"
  by (simp add: txn_header_def pending_apply_def Let_def split: option.split)

text \<open>The abstract store: ids to records; forgetting sets the tombstone of a live record.\<close>

definition records_of :: "(key \<times> bytes) list \<Rightarrow> ulid \<Rightarrow> memory_record option" where
  "records_of m = (\<lambda>k. map_option (\<lambda>v. projr (record_decode v)) (map_of m k))"

definition forget_spec :: "ulid \<Rightarrow> (ulid \<Rightarrow> memory_record option) \<Rightarrow> bool \<times> (ulid \<Rightarrow> memory_record option)" where
  "forget_spec i R = (case R i of
     None \<Rightarrow> (False, R)
   | Some r \<Rightarrow> if mr_tombstone r then (False, R) else (True, R(i \<mapsto> r\<lparr>mr_tombstone := True\<rparr>)))"

lemma records_of_insert: "stored_as k v r \<Longrightarrow> records_of (bmap_insert k v m) = (records_of m)(k \<mapsto> r)"
  by (auto simp: records_of_def stored_as_decode)

lemma records_of_stored: "map_of m k = Some v \<Longrightarrow> stored_as k v r \<Longrightarrow> records_of m k = Some r"
  by (simp add: records_of_def stored_as_decode)

lemma forget_steps:
  assumes ms: "memory_store xxh alnum V pg st m L S" and beg: "pager_begin pg = Inr tx"
    and out: "forget xxh ord new_salt alnum i pg st = (r', pg', st')"
  shows "r' = Inr False \<and> pg' = pg \<and> st' = st \<and> forget_spec i (records_of m) = (False, records_of m) \<or>
    r' = Inl page_overflow \<and> pg' = pg \<and> st' = st \<and> fst (forget_spec i (records_of m)) \<or>
    (\<exists>tx' m' L' S' c. forget_writes xxh alnum i pg st tx = (Inr True, tx') \<and> txn_ok xxh pg tx' \<and> \<not> txn_noop pg tx' \<and>
       memories_in alnum V pg tx' m' L' S' \<and> forget_spec i (records_of m) = (True, records_of m') \<and>
       txn_commit xxh ord new_salt tx' pg st = (c, pg', st') \<and> r' = (case c of Inl e \<Rightarrow> Inl e | Inr _ \<Rightarrow> Inr True))"
proof -
  have rep: "represents xxh V pg st" and ver: "MIN_FORMAT_VERSION \<le> format_version (pg_header pg)"
    using ms by (simp_all add: memory_store_def)
  note tx = memories_begin [OF ms beg]
  obtain w tx' where w: "forget_writes xxh alnum i pg st tx = (w, tx')" by fastforce
  from forget_writes_outcome [OF rep tx(1) ver tx(2) w] consider
      (none) "map_of m i = None" "w = Inr False"
    | (dead) v r where "map_of m i = Some v" "stored_as i v r" "mr_tombstone r" "w = Inr False"
    | (overflow) v r where "map_of m i = Some v" "stored_as i v r" "\<not> mr_tombstone r" "w = Inl page_overflow"
    | (live) v r v' L' S' where "map_of m i = Some v" "stored_as i v r" "\<not> mr_tombstone r" "w = Inr True"
        "stored_as i v' (r\<lparr>mr_tombstone := True\<rparr>)" "txn_ok xxh pg tx'" "memories_in alnum V pg tx' (bmap_insert i v' m) L' S'"
    by (auto split: if_splits)
  then show ?thesis
  proof cases
    case none
    then show ?thesis using out w beg by (simp add: forget_def forget_spec_def records_of_def)
  next
    case dead
    then show ?thesis using out w beg records_of_stored [OF dead(1,2)] by (simp add: forget_def forget_spec_def)
  next
    case overflow
    then show ?thesis using out w beg records_of_stored [OF overflow(1,2)] by (simp add: forget_def forget_spec_def)
  next
    case live
    have "\<not> txn_noop pg tx'"
    proof
      assume n: "txn_noop pg tx'"
      have "memories_in alnum V pg tx' m L S" using ms unfolding noop_view [OF n] by (simp add: memory_store_def)
      from memories_unique [OF rep live(6) this live(7)] have "v' = v" using live(1) by (auto dest!: fun_cong [of _ _ i])
      then have "r = r\<lparr>mr_tombstone := True\<rparr>" using live(2,5) stored_as_unique by blast
      then have "mr_tombstone r = mr_tombstone (r\<lparr>mr_tombstone := True\<rparr>)" by (rule arg_cong)
      with live(3) show False by simp
    qed
    moreover have "forget_spec i (records_of m) = (True, records_of (bmap_insert i v' m))"
      using live(3) records_of_stored [OF live(1,2)] records_of_insert [OF live(5)] by (simp add: forget_spec_def)
    moreover obtain c where "txn_commit xxh ord new_salt tx' pg st = (c, pg', st')" "r' = (case c of Inl e \<Rightarrow> Inl e | Inr _ \<Rightarrow> Inr True)"
      using out w live(4) beg by (auto simp: forget_def split: prod.splits sum.splits)
    ultimately show ?thesis using w live(4,6,7) by blast
  qed
qed

lemma memory_store_begin: "memory_store xxh alnum V pg st m L S \<Longrightarrow> \<exists>tx. pager_begin pg = Inr tx"
  by (auto simp: memory_store_def represents_def pager_begin_def ensure_usable_def)

lemma memory_store_next:
  assumes "memory_store xxh alnum V pg st m L S" "memories_in alnum V pg tx m' L' S'"
    "represents xxh (next_store xxh (txn_header pg tx) (tx_dirty tx) V) pg' st'" "pg_header pg' = txn_header pg tx"
  shows "memory_store xxh alnum (next_store xxh (txn_header pg tx) (tx_dirty tx) V) pg' st' m' L' S'"
  using assms memories_commit [OF assms(2), of xxh] by (simp add: memory_store_def)

lemma memory_store_same:
  "memory_store xxh alnum V pg st m L S \<Longrightarrow> represents xxh V pg' st' \<Longrightarrow> pg_header pg' = pg_header pg \<Longrightarrow>
     memory_store xxh alnum V pg' st' m L S"
  by (simp add: memory_store_def)

text \<open>The outcome of \<^verbatim>\<open>forget\<close>: the specification, or a reported failure that has changed nothing, or a dead process.\<close>

lemma forget_outcome:
  assumes ms: "memory_store xxh alnum V pg st m L S" and beg: "pager_begin pg = Inr tx" and ord: "iter_order ord"
    and fits: "commit_fits pg (snd (forget_writes xxh alnum i pg st tx))"
    and out: "forget xxh ord new_salt alnum i pg st = (r', pg', st')"
  shows "r' = Inl page_overflow \<and> pg' = pg \<and> st' = st \<or> r' = Inl crash_error \<and> crashed st' \<or>
    (\<exists>b V' m' L' S'. r' = Inr b \<and> memory_store xxh alnum V' pg' st' m' L' S' \<and>
       (b, records_of m') = forget_spec i (records_of m) \<and> pg_main pg' = pg_main pg \<and> pg_wal_path pg' = pg_wal_path pg \<and>
       (if b then txn_counter (pg_header pg') = txn_counter (pg_header pg) + 1 else pg' = pg \<and> st' = st \<and> L' = L \<and> S' = S))"
  using forget_steps [OF ms beg out]
proof (elim disjE exE conjE)
  fix tx' m' L' S' c
  assume w: "forget_writes xxh alnum i pg st tx = (Inr True, tx')" "txn_ok xxh pg tx'" "\<not> txn_noop pg tx'"
    "memories_in alnum V pg tx' m' L' S'" "forget_spec i (records_of m) = (True, records_of m')"
    "txn_commit xxh ord new_salt tx' pg st = (c, pg', st')" "r' = (case c of Inl e \<Rightarrow> Inl e | Inr _ \<Rightarrow> Inr True)"
  have rep: "represents xxh V pg st" using ms by (simp add: memory_store_def)
  have f: "commit_fits pg tx'" using fits w(1) by simp
  let ?V = "next_store xxh (txn_header pg tx') (tx_dirty tx') V"
  from txn_commit_effect [OF rep w(2) f w(3) ord w(6)] show ?thesis
  proof (elim disjE conjE)
    assume c: "c = Inr (txn_counter (txn_header pg tx'))" "represents xxh ?V pg' st'" "pg_header pg' = txn_header pg tx'"
      "pg_main pg' = pg_main pg"
    have "pg_wal_path pg' = pg_wal_path pg" using w(6) by (auto simp: txn_commit_def dest: commit_keeps)
    moreover have "memory_store xxh alnum ?V pg' st' m' L' S'" by (rule memory_store_next [OF ms w(4) c(2,3)])
    moreover have "txn_counter (pg_header pg') = txn_counter (pg_header pg) + 1" by (simp add: c(3) txn_header_def)
    moreover have "r' = Inr True" using w(7) c(1) by simp
    ultimately have "r' = Inr True \<and> memory_store xxh alnum ?V pg' st' m' L' S' \<and> (True, records_of m') = forget_spec i (records_of m) \<and>
        pg_main pg' = pg_main pg \<and> pg_wal_path pg' = pg_wal_path pg \<and> txn_counter (pg_header pg') = txn_counter (pg_header pg) + 1"
      using w(5) c(4) by (simp only: simp_thms)
    then show ?thesis by (metis (full_types))
  qed (use w(7) in auto)
qed (use ms in force)+

lemma cache_ok_later:
  assumes "cache_ok pg L S cache" "txn_counter (pg_header pg') = txn_counter (pg_header pg) + 1"
    "txn_counter (pg_header pg) + 1 \<noteq> 0"
  shows "cache_ok pg' L' S' cache"
proof -
  have "stamp < txn_counter (pg_header pg) + 1" if "stamp \<le> txn_counter (pg_header pg)" for stamp
    using that assms(3) unatSuc [of "txn_counter (pg_header pg)"] by (simp add: add.commute word_le_nat_alt word_less_nat_alt)
  note less = this
  show ?thesis
  proof (cases cache)
    case (Some c)
    obtain stamp tb where c: "c = (stamp, tb)" by (cases c)
    have "stamp < txn_counter (pg_header pg')" using less assms(1,2) by (simp add: cache_ok_def Some c)
    then show ?thesis by (auto simp: cache_ok_def Some c)
  qed (simp add: cache_ok_def)
qed

text \<open>A \<^verbatim>\<open>forget\<close> that dies in its commit: what the next open finds.\<close>

lemma forget_crash:
  assumes ms: "memory_store xxh alnum V pg st m L S" and beg: "pager_begin pg = Inr tx" and ord: "iter_order ord"
    and w: "forget_writes xxh alnum i pg (arm_crash at_op mode torn_seed st) tx = (w, tx')" and fits: "commit_fits pg tx'"
    and path: "sf_path (pg_main pg) = path" "sf_path (w_file (pg_wal pg)) = wal_path_for path"
    and out: "forget xxh ord new_salt alnum i pg (arm_crash at_op mode torn_seed st) = (Inl e, pg1, st1)" "crashed st1"
    and order: "distinct order" "path \<in> set order" "wal_path_for path \<in> set order" and pf: "st2 = power_fail seed order st1"
    and det: "commit_detected xxh new_salt pg (txn_header pg tx') (tx_dirty tx') (image_of (wal_path_for path) st2)"
    and set: "settled_at (wal_path_for path) st1 st2"
  shows "\<exists>pg' st' V' m' L' S'. pager_open xxh path opts st2 = (Inr pg', st') \<and> memory_store xxh alnum V' pg' st' m' L' S' \<and>
    records_of m' = (if pg_header pg' = pg_header pg then records_of m else snd (forget_spec i (records_of m)))"
proof -
  let ?st = "arm_crash at_op mode torn_seed st"
  have ms': "memory_store xxh alnum V pg ?st m L S" using ms by (simp add: memory_store_def)
  then have rep: "represents xxh V pg ?st" by (simp add: memory_store_def)
  have "\<not> crashed ?st" by (rule represents_store(3) [OF rep])
  with forget_steps [OF ms' beg out(1)] out(2) w obtain m' L' S' c where f: "txn_ok xxh pg tx'" "\<not> txn_noop pg tx'"
    "memories_in alnum V pg tx' m' L' S'" "forget_spec i (records_of m) = (True, records_of m')"
    "txn_commit xxh ord new_salt tx' pg ?st = (c, pg1, st1)" "(Inl e :: bool result) = (case c of Inl e \<Rightarrow> Inl e | Inr _ \<Rightarrow> Inr True)"
    by auto
  let ?V = "next_store xxh (txn_header pg tx') (tx_dirty tx') V"
  have c: "\<not> lying_sync st1" "commit_torn xxh new_salt pg V (txn_header pg tx') (tx_dirty tx') st1 \<or>
      interrupted xxh (txn_header pg tx') ?V path (wal_path_for path) st1"
    using txn_commit_effect [OF rep f(1) fits f(2) ord f(5)] f(6) path by auto
  then obtain pg' st' where o: "pager_open xxh path opts st2 = (Inr pg', st')"
    "represents xxh V pg' st' \<and> pg_header pg' = pg_header pg \<or> represents xxh ?V pg' st' \<and> pg_header pg' = txn_header pg tx'"
    using reopen_commit_torn [OF _ c(1) path order det [unfolded pf], of V opts]
      reopen_interrupted [OF _ c(1) order set [unfolded pf], of xxh "txn_header pg tx'" ?V opts] unfolding pf by blast
  from o(2) show ?thesis
  proof (elim disjE conjE)
    assume "represents xxh V pg' st'" "pg_header pg' = pg_header pg"
    from memory_store_same [OF ms this] o(1) this(2) show ?thesis by auto
  next
    assume k: "represents xxh ?V pg' st'" "pg_header pg' = txn_header pg tx'"
    have "pg_header pg' \<noteq> pg_header pg" using k(2) txn_header_counter [of pg tx'] by auto
    with memory_store_next [OF ms f(3) k] o(1) f(4) show ?thesis by auto
  qed
qed

section \<open>Reading the abstract store\<close>

lemma store_get_records:
  assumes "memory_store xxh alnum V pg st m L S"
  shows "store_get (pager_source xxh pg st) (root_btree_page (pg_header pg)) i =
    Inr (case records_of m i of None \<Rightarrow> None | Some r \<Rightarrow> if mr_tombstone r then None else Some (from_record r))"
proof (cases "map_of m i")
  case None
  then show ?thesis by (simp add: store_get_def memory_store_get [OF assms] records_of_def)
next
  case (Some v)
  then obtain r where "stored_as i v r" by (rule memory_store_record [OF assms])
  with Some show ?thesis
    by (simp add: store_get_def memory_store_get [OF assms] records_of_def stored_as_decode)
qed

section \<open>The life of a store of memories\<close>

text \<open>Forgets, checkpoints, loads of the sidecar table and forgets that die, with a power failure and a reopening
  after them; the last two arguments are the sidecar cache of the handle and the abstract store.\<close>

inductive store_life :: "hash64 \<Rightarrow> ((u64 \<times> nat) list \<Rightarrow> (u64 \<times> nat) list) \<Rightarrow> (nat \<Rightarrow> bool) \<Rightarrow> path \<Rightarrow>
    (ulid \<Rightarrow> memory_record option) \<Rightarrow> pager \<Rightarrow> sim_state \<Rightarrow> meta_cache \<Rightarrow> (ulid \<Rightarrow> memory_record option) \<Rightarrow> bool"
  for xxh ord alnum path R0 where
  life_start: "memory_store xxh alnum V pg st m L S \<Longrightarrow> sf_path (pg_main pg) = path \<Longrightarrow> pg_wal_path pg = wal_path_for path \<Longrightarrow>
     R0 = records_of m \<Longrightarrow> store_life xxh ord alnum path R0 pg st None R0"
| life_forget: "store_life xxh ord alnum path R0 pg st cache R \<Longrightarrow> pager_begin pg = Inr tx \<Longrightarrow>
     commit_fits pg (snd (forget_writes xxh alnum i pg st tx)) \<Longrightarrow> txn_counter (pg_header pg) + 1 \<noteq> 0 \<Longrightarrow>
     forget xxh ord new_salt alnum i pg st = (Inr b, pg', st') \<Longrightarrow>
     store_life xxh ord alnum path R0 pg' st' cache (snd (forget_spec i R))"
| life_table: "store_life xxh ord alnum path R0 pg st cache R \<Longrightarrow> store_filter_meta xxh pg st cache = (found, cache') \<Longrightarrow>
     store_life xxh ord alnum path R0 pg st cache' R"
| life_checkpoint: "store_life xxh ord alnum path R0 pg st cache R \<Longrightarrow> pager_checkpoint ord pg st = (Inr (), pg', st') \<Longrightarrow>
     store_life xxh ord alnum path R0 pg' st' cache R"
| life_forget_crash: "store_life xxh ord alnum path R0 pg st cache R \<Longrightarrow> pager_begin pg = Inr tx \<Longrightarrow>
     forget_writes xxh alnum i pg (arm_crash at_op mode torn_seed st) tx = (w, tx') \<Longrightarrow> commit_fits pg tx' \<Longrightarrow>
     forget xxh ord new_salt alnum i pg (arm_crash at_op mode torn_seed st) = (Inl e, pg1, st1) \<Longrightarrow> crashed st1 \<Longrightarrow>
     distinct order \<Longrightarrow> path \<in> set order \<Longrightarrow> wal_path_for path \<in> set order \<Longrightarrow> st2 = power_fail seed order st1 \<Longrightarrow>
     commit_detected xxh new_salt pg (txn_header pg tx') (tx_dirty tx') (image_of (wal_path_for path) st2) \<Longrightarrow>
     settled_at (wal_path_for path) st1 st2 \<Longrightarrow> pager_open xxh path opts st2 = (Inr pg', st') \<Longrightarrow>
     R' = (if pg_header pg' = pg_header pg then R else snd (forget_spec i R)) \<Longrightarrow>
     store_life xxh ord alnum path R0 pg' st' None R'"

definition life_inv :: "hash64 \<Rightarrow> (nat \<Rightarrow> bool) \<Rightarrow> path \<Rightarrow> pager \<Rightarrow> sim_state \<Rightarrow> meta_cache \<Rightarrow> (ulid \<Rightarrow> memory_record option) \<Rightarrow> bool" where
  "life_inv xxh alnum path pg st cache R \<longleftrightarrow> sf_path (pg_main pg) = path \<and> pg_wal_path pg = wal_path_for path \<and>
     (\<exists>V m L S. memory_store xxh alnum V pg st m L S \<and> cache_ok pg L S cache \<and> R = records_of m)"

lemma life_inv_forget:
  assumes "life_inv xxh alnum path pg st cache R" "iter_order ord" "pager_begin pg = Inr tx"
    "commit_fits pg (snd (forget_writes xxh alnum i pg st tx))" "txn_counter (pg_header pg) + 1 \<noteq> 0"
    "forget xxh ord new_salt alnum i pg st = (Inr b, pg', st')"
  shows "life_inv xxh alnum path pg' st' cache (snd (forget_spec i R))"
proof -
  obtain V m L S where s: "memory_store xxh alnum V pg st m L S" "cache_ok pg L S cache" "R = records_of m"
    and path: "sf_path (pg_main pg) = path" "pg_wal_path pg = wal_path_for path"
    using assms(1) by (auto simp: life_inv_def)
  from forget_outcome [OF s(1) assms(3,2,4,6)] obtain V' m' L' S' where f: "memory_store xxh alnum V' pg' st' m' L' S'"
    "(b, records_of m') = forget_spec i (records_of m)" "pg_main pg' = pg_main pg" "pg_wal_path pg' = pg_wal_path pg"
    "if b then txn_counter (pg_header pg') = txn_counter (pg_header pg) + 1 else pg' = pg \<and> st' = st \<and> L' = L \<and> S' = S"
    by auto
  have "cache_ok pg' L' S' cache"
    using f(5) s(2) cache_ok_later [OF s(2) _ assms(5)] by (cases b) auto
  moreover have "snd (forget_spec i R) = records_of m'" unfolding s(3) f(2) [symmetric] by simp
  ultimately show ?thesis using f(1,3,4) path unfolding life_inv_def by auto
qed

lemma life_inv_wal: "life_inv xxh alnum path pg st cache R \<Longrightarrow> sf_path (w_file (pg_wal pg)) = wal_path_for path"
  by (auto simp: life_inv_def memory_store_def represents_def)

lemma store_life_inv:
  assumes "store_life xxh ord alnum path R0 pg st cache R" "iter_order ord"
  shows "life_inv xxh alnum path pg st cache R"
  using assms(1)
proof (induction rule: store_life.induct)
  case (life_start V pg st m L S)
  then show ?case by (auto simp: life_inv_def cache_ok_def)
next
  case (life_forget pg st cache R tx i new_salt b pg' st')
  then show ?case by (intro life_inv_forget [OF life_forget.IH assms(2)])
next
  case (life_table pg st cache R found cache')
  then obtain V m L S where s: "memory_store xxh alnum V pg st m L S" "cache_ok pg L S cache" "R = records_of m"
    by (auto simp: life_inv_def)
  have "cache_ok pg L S cache'" using store_filter_meta_outcome [OF s(1,2)] life_table.hyps(2) by auto
  with s life_table.IH show ?case by (auto simp: life_inv_def)
next
  case (life_checkpoint pg st cache R pg' st')
  then obtain V m L S where s: "memory_store xxh alnum V pg st m L S" "cache_ok pg L S cache" "R = records_of m"
    by (auto simp: life_inv_def)
  have rep: "represents xxh V pg st" using s(1) by (simp add: memory_store_def)
  have k: "represents xxh V pg' st'" "pg_header pg' = pg_header pg" "pg_main pg' = pg_main pg" "pg_wal_path pg' = pg_wal_path pg"
    using checkpoint_effect [OF rep assms(2) life_checkpoint.hyps(2)] life_checkpoint.hyps(2) by (auto dest: checkpoint_keeps)
  have "cache_ok pg' L S cache" using s(2) unfolding cache_ok_def k(2) .
  with memory_store_same [OF s(1) k(1,2)] s(3) k(3,4) life_checkpoint.IH show ?case by (auto simp: life_inv_def)
next
  case (life_forget_crash pg st cache R tx i at_op mode torn_seed w tx' new_salt e pg1 st1 order st2 seed opts pg' st' R')
  then obtain V m L S where s: "memory_store xxh alnum V pg st m L S" "R = records_of m" "sf_path (pg_main pg) = path"
    by (auto simp: life_inv_def)
  from forget_crash [OF s(1) life_forget_crash.hyps(2) assms(2) life_forget_crash.hyps(3,4) s(3) life_inv_wal [OF life_forget_crash.IH]
      life_forget_crash.hyps(5-12), of opts] life_forget_crash.hyps(13)
  obtain V' m' L' S' where k: "memory_store xxh alnum V' pg' st' m' L' S'"
    "records_of m' = (if pg_header pg' = pg_header pg then records_of m else snd (forget_spec i (records_of m)))"
    by auto
  have "R' = records_of m'" unfolding k(2) life_forget_crash.hyps(14) s(2) ..
  moreover have "cache_ok pg' L' S' None" by (simp add: cache_ok_def)
  ultimately show ?case using k(1) open_paths [OF life_forget_crash.hyps(13)] unfolding life_inv_def by blast
qed

text \<open>Along a life records only ever gain their tombstone.\<close>

definition same_but_dead :: "memory_record \<Rightarrow> memory_record \<Rightarrow> bool" where
  "same_but_dead r r' \<longleftrightarrow> r' = r \<or> r' = r\<lparr>mr_tombstone := True\<rparr>"

lemma forget_spec_records:
  "rel_option same_but_dead (R i) (R' i) \<Longrightarrow> rel_option same_but_dead (R i) (snd (forget_spec j R') i)"
  by (auto simp: forget_spec_def same_but_dead_def option_rel_Some1 option_rel_Some2 split: option.splits elim!: option.rel_cases)

lemma store_life_records: "store_life xxh ord alnum path R0 pg st cache R \<Longrightarrow> rel_option same_but_dead (R0 i) (R i)"
proof (induction rule: store_life.induct)
  case (life_start V pg st m L S)
  then show ?case by (simp add: option.rel_refl same_but_dead_def)
qed (auto intro: forget_spec_records)

section \<open>What an iteration lists\<close>

lemma listed_store:
  assumes "memory_store xxh alnum V pg st m L S"
  shows "sorted_wrt (<) (map me_id (listed inc m)) \<and>
    set (listed inc m) = {from_record r | r. r \<in> ran (records_of m) \<and> (inc \<or> \<not> mr_tombstone r)}"
proof -
  have wf: "bmap_wf m" using assms by (elim memory_storeE) (rule btree_map_wf)
  let ?f = "\<lambda>(k, v). from_record (projr (record_decode v))"
  have "me_id (?f x) = fst x" if "x \<in> set m" for x
    using that memory_store_scan(2) [OF assms] stored_as_facts(5) by (fastforce simp: stored_as_decode from_record_def)
  then have ids: "map me_id (map ?f m) = map fst m" by simp
  have "sorted_wrt (<) (map me_id (map ?f m))" unfolding ids using wf by (simp only: bmap_wf_def)
  then have "sorted_wrt (\<lambda>x y. me_id x < me_id y) (map ?f m)" by (simp only: sorted_wrt_map [of _ me_id])
  then have s: "sorted_wrt (<) (map me_id (listed inc m))"
    unfolding listed_def sorted_wrt_map [of _ me_id] by (rule sorted_wrt_filter)
  have "ran (records_of m) = (\<lambda>(k, v). projr (record_decode v)) ` set m"
    using bmap_wf_distinct [OF wf] by (force simp: records_of_def ran_def map_of_eq_Some_iff)
  then have "set (listed inc m) = {from_record r | r. r \<in> ran (records_of m) \<and> (inc \<or> \<not> mr_tombstone r)}"
    by (auto simp: listed_def from_record_def)
  with s show ?thesis by blast
qed

end
