(* ===== verification/Store_Demo.thy ===== *)
theory Store_Demo
  imports Store_Correct Demo
begin

text \<open>
  The concrete store of \<^theory_text>\<open>Demo\<close> with one memory in it: the record in the tree, its mirror in the sidecar. The
  theorems about the API are applied to it.
\<close>

definition demo_alnum :: "nat \<Rightarrow> bool" where
  "demo_alnum c \<longleftrightarrow> 97 \<le> c \<and> c \<le> 122"

definition demo_memory :: memory_record where
  "demo_memory = \<lparr>mr_id = demo_key, mr_tombstone = False, mr_superseded = False, mr_content = [104, 105],
     mr_vec_ref = None, mr_project = None,
     mr_provenance = \<lparr>pv_agent = [], pv_session_id = None, pv_created_at_micros = 9\<rparr>, mr_metadata = []\<rparr>"

definition demo_bytes :: bytes where
  "demo_bytes = projr (record_encode demo_memory)"

lemma demo_memory_stored: "stored_as demo_key demo_bytes demo_memory" "length demo_bytes \<le> 101"
proof -
  obtain v where v: "record_encode demo_memory = Inr v" "length v \<le> 101"
    by (simp add: record_encode_def demo_memory_def put_str_def MAX_RECORD_LEN_def Let_def demo_key_def)
  moreover have "record_wf demo_memory" by (simp add: record_wf_def demo_memory_def bmap_wf_def demo_key_def)
  moreover have "record_norm demo_memory = demo_memory" by (simp add: record_norm_def demo_memory_def norm_str_def)
  ultimately show "stored_as demo_key demo_bytes demo_memory" "length demo_bytes \<le> 101"
    by (simp_all add: stored_as_def demo_bytes_def demo_memory_def [THEN arg_cong [where f = mr_id]])
qed

lemma demo_memories_begin: "memories_in demo_alnum demo_store demo_pg demo_begin [] [] []"
proof -
  have "btree_at (txn_view demo_store demo_begin) (page_size (pg_header demo_pg)) (txn_root_btree_page demo_pg demo_begin) [] {}"
    by (rule demo_tree)
  moreover have "sidecar_in demo_store demo_pg demo_begin [] [] {}"
    by (simp add: sidecar_at_def symbols_ok_def txn_filter_meta_page_def txn_filter_symbols_page_def demo_begin_def pending_default_def
        demo_created(2) create_header_def exI [of _ "[]"])
  ultimately show ?thesis unfolding memories_at_def by auto
qed

abbreviation demo_update :: fm_update where
  "demo_update \<equiv> filter_meta_update demo_alnum demo_memory"

text \<open>An update without project and agent interns nothing: it is one appended entry.\<close>

lemma plain_update:
  assumes "MIN_FORMAT_VERSION \<le> format_version (pg_header pg)" "txn_filter_symbols_page pg tx = 0"
    "up_project u = None" "up_agent u = []"
  shows "record_updates xxh pg st [u] tx = append_entry xxh pg st (fm_entry_bytes (up_id u, update_entry u (Some 0) (Some 0))) tx"
proof -
  have "\<not> format_version (pg_header pg) < MIN_FORMAT_VERSION" using assms(1) by simp
  moreover have "walk_chain src 0 FilterSymbols = Inr []" for src by (simp add: walk_chain_def walk_loop.simps)
  moreover obtain a b where o: "append_entry xxh pg st (fm_entry_bytes (up_id u, update_entry u (Some 0) (Some 0))) tx = (a, b)"
    by fastforce
  ultimately show ?thesis
    using assms(2-4) by (cases a) (simp_all add: record_updates_def intern_def)
qed

text \<open>The first entry of a sidecar goes to a fresh page.\<close>

lemma first_entry:
  assumes "txn_filter_meta_page pg tx = 0" "unat (tx_page_count tx) + 1 < 2 ^ 64" "tx_page_count tx \<noteq> 0"
  shows "\<exists>tx'. append_entry xxh pg st bs tx = (Inr (), set_filter_meta_page (tx_page_count tx) tx') \<and>
    tx_page_count tx' = tx_page_count tx + 1 \<and> tx_pending tx' = tx_pending tx \<and>
    tx_dirty tx' = bmap_insert (tx_page_count tx) (stamp_page_checksum xxh (fresh_page (page_size (pg_header pg)) FilterMeta 0 bs))
      (bmap_insert (tx_page_count tx) (stamp_page_checksum xxh (replicate (unat (page_size (pg_header pg))) 0)) (tx_dirty tx))"
proof -
  let ?n = "tx_page_count tx" and ?ps = "page_size (pg_header pg)"
  let ?t1 = "tx\<lparr>tx_page_count := ?n + 1, tx_dirty := bmap_insert ?n (stamp_page_checksum xxh (replicate (unat ?ps) 0)) (tx_dirty tx)\<rparr>"
  let ?page = "fresh_page ?ps FilterMeta 0 bs"
  let ?t2 = "?t1\<lparr>tx_dirty := bmap_insert ?n (stamp_page_checksum xxh ?page) (tx_dirty ?t1)\<rparr>"
  have "unat (?n + 1) = unat ?n + 1" using assms(2) by (simp add: unat_word_ariths)
  then have "\<not> ?n + 1 \<le> ?n" by (simp add: word_le_nat_alt)
  then have w: "write_page xxh pg ?n ?page ?t1 = (Inr (), ?t2)"
    using assms(3) by (simp add: write_page_def fresh_page_def)
  have "unat ?n + 1 \<noteq> 2 ^ 64" using assms(2) by linarith
  then have a: "allocate_page xxh pg tx = (Inr ?n, ?t1)" by (simp only: allocate_page_def Let_def if_False)
  have "append_entry xxh pg st bs tx = (Inr (), set_filter_meta_page ?n ?t2)"
    by (simp add: append_entry_def txn_ops_def assms(1) a w del: One_nat_def)
  then show ?thesis by (intro exI [of _ ?t2]) simp
qed

definition demo_tx4 :: txn where
  "demo_tx4 = snd (record_updates demo_hash demo_pg demo_st [demo_update] (snd (btree_insert demo_hash demo_pg demo_st demo_key demo_bytes demo_begin)))"

lemma demo_tx4:
  obtains page1 page2 where "btree_insert demo_hash demo_pg demo_st demo_key demo_bytes demo_begin =
      (Inr (), snd (btree_insert demo_hash demo_pg demo_st demo_key demo_bytes demo_begin))"
    "record_updates demo_hash demo_pg demo_st [demo_update] (snd (btree_insert demo_hash demo_pg demo_st demo_key demo_bytes demo_begin)) = (Inr (), demo_tx4)"
    "encode_leaf [\<lparr>le_key = demo_key, le_cell = Inline demo_bytes\<rparr>] 512 = Some page1" "tx_page_count demo_tx4 = 3"
    "page2 = fresh_page 512 FilterMeta 0 (fm_entry_bytes (demo_key, update_entry demo_update (Some 0) (Some 0)))"
    "tx_dirty demo_tx4 = [(1, stamp_page_checksum demo_hash page1), (2, stamp_page_checksum demo_hash page2)]"
    "txn_root_btree_page demo_pg demo_tx4 = 1" "txn_filter_meta_page demo_pg demo_tx4 = 2" "txn_filter_symbols_page demo_pg demo_tx4 = 0"
proof -
  obtain page1 where p: "encode_leaf [\<lparr>le_key = demo_key, le_cell = Inline demo_bytes\<rparr>] 512 = Some page1"
    "btree_insert demo_hash demo_pg demo_st demo_key demo_bytes demo_begin = (Inr (), set_root_btree_page 1
      (demo_tx\<lparr>tx_dirty := [(1, stamp_page_checksum demo_hash page1)]\<rparr>))" (is "_ = (Inr (), ?tx)")
    by (rule demo_insert_small [OF demo_memory_stored(2)])
  have v: "MIN_FORMAT_VERSION \<le> format_version (pg_header demo_pg)"
    by (simp add: demo_created(2) create_header_def demo_opts_def MIN_FORMAT_VERSION_def)
  have z: "txn_filter_symbols_page demo_pg ?tx = 0" "txn_filter_meta_page demo_pg ?tx = 0" "tx_page_count ?tx = 2"
    by (simp_all add: txn_filter_symbols_page_def txn_filter_meta_page_def set_root_btree_page_def demo_tx_facts pending_default_def
        demo_created(2) create_header_def)
  have u: "up_project demo_update = None" "up_agent demo_update = []" "up_id demo_update = demo_key"
    by (simp_all add: filter_meta_update_def demo_memory_def)
  let ?bs = "fm_entry_bytes (demo_key, update_entry demo_update (Some 0) (Some 0))"
  have l: "\<not> (2 :: u64) < 1" "\<not> (2 :: u64) = 1" "(1 :: u64) < 2" by (simp_all add: word_less_nat_alt)
  obtain tx' where t: "append_entry demo_hash demo_pg demo_st ?bs ?tx = (Inr (), set_filter_meta_page 2 tx')"
    "tx_page_count tx' = 3" "tx_pending tx' = tx_pending ?tx"
    "tx_dirty tx' = [(1, stamp_page_checksum demo_hash page1), (2, stamp_page_checksum demo_hash (fresh_page 512 FilterMeta 0 ?bs))]"
    using first_entry [OF z(2), of demo_hash demo_st ?bs] unfolding z(3) by (auto simp: demo_header set_root_btree_page_def l)
  have r: "record_updates demo_hash demo_pg demo_st [demo_update] ?tx = (Inr (), set_filter_meta_page 2 tx')"
    unfolding plain_update [OF v z(1) u(1,2)] u(3) by (rule t(1))
  then have d: "demo_tx4 = set_filter_meta_page 2 tx'" by (simp add: demo_tx4_def p(2))
  show ?thesis
    by (rule that [OF _ _ p(1) _ refl], simp add: p(2), simp add: p(2) r d)
      (simp_all add: d t(2,3,4) set_filter_meta_page_def set_root_btree_page_def txn_root_btree_page_def
        txn_filter_meta_page_def txn_filter_symbols_page_def demo_tx_facts pending_default_def demo_created(2) create_header_def)
qed

definition demo_pg4 :: pager where
  "demo_pg4 = fst (snd (txn_commit demo_hash id 5 demo_tx4 demo_pg demo_st))"

definition demo_st4 :: sim_state where
  "demo_st4 = snd (snd (txn_commit demo_hash id 5 demo_tx4 demo_pg demo_st))"

abbreviation demo_store4 :: "u64 \<Rightarrow> bytes option" where
  "demo_store4 \<equiv> next_store demo_hash (txn_header demo_pg demo_tx4) (tx_dirty demo_tx4) demo_store"

lemma demo_version: "MIN_FORMAT_VERSION \<le> format_version (pg_header demo_pg)"
  by (simp add: demo_created(2) create_header_def demo_opts_def MIN_FORMAT_VERSION_def)

lemma demo_tx4_memories:
  obtains L S where "txn_ok demo_hash demo_pg demo_tx4" "memories_in demo_alnum demo_store demo_pg demo_tx4 [(demo_key, demo_bytes)] L S"
proof -
  let ?t = "snd (btree_insert demo_hash demo_pg demo_st demo_key demo_bytes demo_begin)"
  have w: "btree_insert demo_hash demo_pg demo_st demo_key demo_bytes demo_begin = (Inr (), ?t)"
    "record_updates demo_hash demo_pg demo_st [demo_update] ?t = (Inr (), demo_tx4)" by (rule demo_tx4, assumption)+
  from record_write [OF demo_created(5) demo_begin_ok(2) demo_version demo_memories_begin demo_memory_stored(1) w(1)] w(2) show ?thesis
    using that by auto
qed

lemma demo_tx4_commit: "commit_fits demo_pg demo_tx4" "\<not> txn_noop demo_pg demo_tx4"
proof -
  have "tx_page_count demo_tx4 = 3" "length (tx_dirty demo_tx4) = 2" by (rule demo_tx4, simp)+
  then show "commit_fits demo_pg demo_tx4" "\<not> txn_noop demo_pg demo_tx4"
    by (auto simp: commit_fits_def txn_noop_def demo_header demo_created(6))
qed

lemma demo_commit4:
  "represents demo_hash demo_store4 demo_pg4 demo_st4" "pg_header demo_pg4 = txn_header demo_pg demo_tx4" "alive demo_st4"
  "pg_main demo_pg4 = pg_main demo_pg" "pg_wal_path demo_pg4 = pg_wal_path demo_pg"
proof -
  have tx: "txn_ok demo_hash demo_pg demo_tx4" by (rule demo_tx4_memories)
  obtain r where o: "txn_commit demo_hash id 5 demo_tx4 demo_pg demo_st = (r, demo_pg4, demo_st4)"
    unfolding demo_pg4_def demo_st4_def by (metis prod.collapse)
  show al: "alive demo_st4"
    using alive_commit [OF demo_alive] o unfolding txn_commit_def by (metis snd_conv)
  then show "represents demo_hash demo_store4 demo_pg4 demo_st4" "pg_header demo_pg4 = txn_header demo_pg demo_tx4"
    "pg_main demo_pg4 = pg_main demo_pg"
    using txn_commit_effect [OF demo_created(5) tx demo_tx4_commit demo_order o] by (auto simp: alive_def)
  show "pg_wal_path demo_pg4 = pg_wal_path demo_pg" using o by (auto simp: txn_commit_def dest: commit_keeps)
qed

lemma demo_memory_store:
  obtains L S where "memory_store demo_hash demo_alnum demo_store4 demo_pg4 demo_st4 [(demo_key, demo_bytes)] L S"
proof -
  have ms: "memory_store demo_hash demo_alnum demo_store demo_pg demo_st [] [] []"
  proof -
    have "txn_view demo_store demo_begin = demo_store" "tx_pending demo_begin = pending_default" by (simp_all add: txn_view_def demo_begin_def)
    then show ?thesis
      using demo_memories_begin demo_created(5) demo_version
      by (simp add: memory_store_def txn_root_btree_page_def txn_filter_meta_page_def txn_filter_symbols_page_def pending_default_def)
  qed
  obtain L S where "memories_in demo_alnum demo_store demo_pg demo_tx4 [(demo_key, demo_bytes)] L S" by (rule demo_tx4_memories)
  from memory_store_next [OF ms this demo_commit4(1,2)] show ?thesis by (rule that)
qed

section \<open>Forgetting the memory\<close>

text \<open>How much a commit adds to the log at most.\<close>

lemma append_frames_len:
  "append_frames xxh salt txn_id images w st = (Inr offsets, w', st') \<Longrightarrow>
     w_len w' = w_len w + length images * (32 + unat (w_page_size w)) \<and> w_page_size w' = w_page_size w"
  by (induction images arbitrary: w st offsets w' st') (fastforce simp: Let_def split: if_splits prod.splits sum.splits)+

lemma append_txn_len:
  "append_txn xxh ns txn_id images w st = (Inr offsets, w', st') \<Longrightarrow>
     w_len w' \<le> w_len w + 32 + length images * (32 + unat (w_page_size w))"
  by (auto simp: append_txn_def Let_def split: option.splits prod.splits sum.splits dest!: append_frames_len)

lemma checkpoint_len: "pager_checkpoint ord pg st = (Inr (), pg', st') \<Longrightarrow> w_len (pg_wal pg') = 0"
  by (auto simp: pager_checkpoint_def checkpoint_inner_def wal_reset_def split: if_splits prod.splits sum.splits)

lemma commit_len:
  assumes "txn_commit xxh ord ns tx pg st = (Inr txn_id, pg', st')"
  shows "w_len (pg_wal pg') \<le> w_len (pg_wal pg) + 32 + (length (tx_dirty tx) + 1) * (32 + unat (w_page_size (pg_wal pg)))"
  using assms unfolding txn_commit_def commit_txn_def Let_def
  by (auto split: if_splits prod.splits sum.splits dest!: checkpoint_len append_txn_len)

definition demo_tx5 :: txn where
  "demo_tx5 = \<lparr>tx_dirty = [], tx_page_count = 3, tx_pending = pending_default\<rparr>"

lemma demo_header4:
  "page_size (pg_header demo_pg4) = 512" "page_count (pg_header demo_pg4) = 3" "root_btree_page (pg_header demo_pg4) = 1"
  "filter_meta_page (pg_header demo_pg4) = 2" "filter_symbols_page (pg_header demo_pg4) = 0" "txn_counter (pg_header demo_pg4) = 1"
  "MIN_FORMAT_VERSION \<le> format_version (pg_header demo_pg4)"
proof -
  have "tx_page_count demo_tx4 = 3" "txn_root_btree_page demo_pg demo_tx4 = 1" "txn_filter_meta_page demo_pg demo_tx4 = 2"
    "txn_filter_symbols_page demo_pg demo_tx4 = 0" by (rule demo_tx4, simp)+
  then show "page_size (pg_header demo_pg4) = 512" "page_count (pg_header demo_pg4) = 3" "root_btree_page (pg_header demo_pg4) = 1"
    "filter_meta_page (pg_header demo_pg4) = 2" "filter_symbols_page (pg_header demo_pg4) = 0" "txn_counter (pg_header demo_pg4) = 1"
    "MIN_FORMAT_VERSION \<le> format_version (pg_header demo_pg4)"
    using demo_version by (simp_all add: demo_commit4(2) demo_header txn_header_def pending_apply_def txn_root_btree_page_def
        txn_filter_meta_page_def txn_filter_symbols_page_def Let_def split: option.splits)
qed

lemma demo_begin4: "pager_begin demo_pg4 = Inr demo_tx5" "txn_ok demo_hash demo_pg4 demo_tx5"
proof -
  show b: "pager_begin demo_pg4 = Inr demo_tx5"
    using demo_commit4(1) by (simp add: pager_begin_def demo_tx5_def demo_header4 ensure_usable_def represents_def)
  show "txn_ok demo_hash demo_pg4 demo_tx5" by (rule pager_begin_ok [OF b])
qed

lemma demo_log4: "w_len (pg_wal demo_pg4) \<le> 1664"
proof -
  obtain r where o: "txn_commit demo_hash id 5 demo_tx4 demo_pg demo_st = (r, demo_pg4, demo_st4)"
    unfolding demo_pg4_def demo_st4_def by (metis prod.collapse)
  have tx: "txn_ok demo_hash demo_pg demo_tx4" by (rule demo_tx4_memories)
  have "\<exists>t. r = Inr t" using txn_commit_effect [OF demo_created(5) tx demo_tx4_commit demo_order o] demo_commit4(3) by (auto simp: alive_def)
  moreover have "length (tx_dirty demo_tx4) = 2" by (rule demo_tx4) simp
  moreover have "w_page_size (pg_wal demo_pg) = 512" using demo_created(5) demo_header(1) by (simp add: represents_def)
  ultimately show ?thesis using commit_len [of demo_hash id 5 demo_tx4 demo_pg demo_st] o demo_created(6) by auto
qed

text \<open>The transaction of \<^verbatim>\<open>forget\<close> rewrites the two pages in place.\<close>

lemma demo_write5:
  assumes "p = 1 \<or> p = 2" "length data = 512" "tx_page_count tx = 3"
  shows "write_page demo_hash demo_pg4 p data tx =
    (Inr (), tx\<lparr>tx_dirty := bmap_insert p (stamp_page_checksum demo_hash data) (tx_dirty tx)\<rparr>)"
proof -
  have "\<not> (3 :: u64) \<le> 1" "\<not> (3 :: u64) \<le> 2" by (simp_all add: word_le_nat_alt)
  then show ?thesis using assms by (auto simp: write_page_def demo_header4)
qed

lemma demo_rewrite:
  assumes rep: "represents demo_hash demo_store4 demo_pg4 st" and v: "length v \<le> 101"
  obtains page where "btree_insert demo_hash demo_pg4 st demo_key v demo_tx5 = (Inr (), demo_tx5\<lparr>tx_dirty := [(1, page)]\<rparr>)"
proof -
  let ?po = "txn_ops demo_hash demo_pg4 st"
  obtain page1 where p1: "encode_leaf [\<lparr>le_key = demo_key, le_cell = Inline demo_bytes\<rparr>] 512 = Some page1"
    "map_of (tx_dirty demo_tx4) 1 = Some (stamp_page_checksum demo_hash page1)"
    by (rule demo_tx4) simp
  have V: "txn_view demo_store4 demo_tx5 1 = Some (stamp_page_checksum demo_hash page1)"
    using p1(2) by (simp add: txn_view_def next_store_def demo_tx5_def)
  have ps: "page_size_is_valid 512" by code_simp
  have "leaf_ok [\<lparr>le_key = demo_key, le_cell = Inline demo_bytes\<rparr>]"
    using demo_memory_stored(2) by (simp add: leaf_ok_def demo_key_def)
  note rt = leaf_roundtrip [OF p1(1) this ps]
  have rd: "po_read ?po 1 demo_tx5 = Inr (stamp_page_checksum demo_hash page1)"
    using txn_read_page_view [OF rep demo_begin4(2), of 1] V by (simp add: txn_ops_def)
  have u: "max_inline_value 512 = 101" "encode_leaf [\<lparr>le_key = demo_key, le_cell = Inline v\<rparr>] 512 \<noteq> None"
    using v by (simp_all add: max_inline_value_def max_entry_footprint_def usable_def encode_leaf_fits demo_key_def)
  then obtain page where p: "encode_leaf [\<lparr>le_key = demo_key, le_cell = Inline v\<rparr>] 512 = Some page" by blast
  have w: "po_write ?po 1 page demo_tx5 = (Inr (), demo_tx5\<lparr>tx_dirty := [(1, stamp_page_checksum demo_hash page)]\<rparr>)"
    using demo_write5 [of 1 page demo_tx5] encode_leaf_Some(2) [OF p] by (simp add: demo_tx5_def txn_ops_def)
  have root: "txn_root_btree_page demo_pg4 demo_tx5 = 1"
    by (simp add: txn_root_btree_page_def demo_tx5_def pending_default_def demo_header4)
  have bs: "binary_search [demo_key] demo_key = Inr 0" using binary_search_Inr_iff [of "[demo_key]" demo_key 0] by simp
  have up: "leaf_upsert ?po demo_key v [\<lparr>le_key = demo_key, le_cell = Inline demo_bytes\<rparr>] demo_tx5 =
      (Inr [\<lparr>le_key = demo_key, le_cell = Inline v\<rparr>], demo_tx5)"
    using v by (simp add: leaf_upsert_def bs make_cell_def demo_header4 u)
  have "insert_rec ?po 1 demo_key v 0 demo_tx5 = (Inr Fit, demo_tx5\<lparr>tx_dirty := [(1, stamp_page_checksum demo_hash page)]\<rparr>)"
    by (subst insert_rec.simps) (simp add: rd rt up leaf_store_def demo_header4 p w MAX_DEPTH_def)
  then show ?thesis using v by (intro that) (simp add: btree_insert_def root MAX_RECORD_LEN_def)
qed

lemma demo_append:
  assumes rep: "represents demo_hash demo_store4 demo_pg4 st" and bs: "length bs = 29"
    and tx: "txn_ok demo_hash demo_pg4 tx" "tx_dirty tx = [(1, page)]" "tx_page_count tx = 3" "tx_pending tx = pending_default"
  obtains page' where "append_entry demo_hash demo_pg4 st bs tx = (Inr (), tx\<lparr>tx_dirty := [(1, page), (2, page')]\<rparr>)"
proof -
  let ?po = "txn_ops demo_hash demo_pg4 st"
  obtain page2 where p2: "page2 = fresh_page 512 FilterMeta 0 (fm_entry_bytes (demo_key, update_entry demo_update (Some 0) (Some 0)))"
    "map_of (tx_dirty demo_tx4) 2 = Some (stamp_page_checksum demo_hash page2)"
    by (rule demo_tx4) simp
  let ?P = "stamp_page_checksum demo_hash page2"
  have V: "txn_view demo_store4 tx 2 = Some ?P" using p2(2) tx(2) by (simp add: txn_view_def next_store_def)
  have rd: "po_read ?po 2 tx = Inr ?P" using txn_read_page_view [OF rep tx(1), of 2] V by (simp add: txn_ops_def)
  have ok: "entry_ok (demo_key, update_entry demo_update (Some 0) (Some 0))" by (simp add: entry_ok_def demo_key_def)
  have "page_size_is_valid 512" by code_simp
  from meta_pages.fresh_item_page [OF this ok] length_fm_entry_bytes [OF ok]
  have "item_page FilterMeta fm_entry_bytes entry_ok 512 ?P [(demo_key, update_entry demo_update (Some 0) (Some 0))] 0"
    unfolding p2(1) by simp
  then have hd: "page_header_decode ?P = Some \<lparr>ph_page_type = FilterMeta, ph_entry_count = 1, ph_next_page = 0\<rparr>" "length ?P = 512"
    by (simp_all add: item_page_def)
  let ?G = "grown_page ?P FilterMeta 1 0 29 bs"
  have "length ?G = 512" using hd(2) by (simp add: grown_page_def)
  then have w: "po_write ?po 2 ?G tx = (Inr (), tx\<lparr>tx_dirty := [(1, page), (2, stamp_page_checksum demo_hash ?G)]\<rparr>)"
    using demo_write5 [of 2 ?G tx] tx(2,3) by (simp add: txn_ops_def)
  have head: "txn_filter_meta_page demo_pg4 tx = 2" by (simp add: txn_filter_meta_page_def tx(4) pending_default_def demo_header4)
  have "append_entry demo_hash demo_pg4 st bs tx = (Inr (), tx\<lparr>tx_dirty := [(1, page), (2, stamp_page_checksum demo_hash ?G)]\<rparr>)"
    using w by (simp add: append_entry_def head rd hd(1) demo_header4 entry_capacity_def)
  then show ?thesis by (rule that)
qed

lemma demo_forget_writes:
  assumes rep: "represents demo_hash demo_store4 demo_pg4 st"
  obtains tx' where "forget_writes demo_hash demo_alnum demo_key demo_pg4 st demo_tx5 = (Inr True, tx')"
    "tx_page_count tx' = 3" "length (tx_dirty tx') = 2"
proof -
  let ?r = "demo_memory\<lparr>mr_tombstone := True\<rparr>" let ?u = "filter_meta_update demo_alnum ?r"
  obtain L S where ms: "memory_store demo_hash demo_alnum demo_store4 demo_pg4 demo_st4 [(demo_key, demo_bytes)] L S" by (rule demo_memory_store)
  have ms: "memory_store demo_hash demo_alnum demo_store4 demo_pg4 st [(demo_key, demo_bytes)] L S"
    using ms rep by (simp add: memory_store_def)
  have g: "btree_get (txn_source demo_hash demo_pg4 st demo_tx5) (txn_root_btree_page demo_pg4 demo_tx5) demo_key = Inr (Some demo_bytes)"
    using memories_get [OF rep demo_begin4(2) memories_begin(2) [OF ms demo_begin4(1)], of demo_key] by simp
  obtain v where v: "record_encode ?r = Inr v" "length v \<le> 101"
    by (simp add: record_encode_def demo_memory_def put_str_def MAX_RECORD_LEN_def Let_def demo_key_def)
  obtain page where i: "btree_insert demo_hash demo_pg4 st demo_key v demo_tx5 = (Inr (), demo_tx5\<lparr>tx_dirty := [(1, page)]\<rparr>)"
    (is "_ = (_, ?tx)") by (rule demo_rewrite [OF rep v(2)])
  have s: "stored_as demo_key v ?r" using demo_memory_stored(1) stored_as_tombstone v(1) by (metis stored_as_def sum.inject(2))
  have u: "up_project ?u = None" "up_agent ?u = []" "up_id ?u = demo_key" by (simp_all add: filter_meta_update_def demo_memory_def)
  have ok: "txn_ok demo_hash demo_pg4 ?tx"
    using btree_insert_map [OF rep demo_begin4(2) _ stored_as_facts(1,2) [OF s] i] memories_begin(2) [OF ms demo_begin4(1)]
    by (auto simp: memories_at_def)
  have e: "length (fm_entry_bytes (demo_key, update_entry ?u (Some 0) (Some 0))) = 29"
    by (rule length_fm_entry_bytes) (simp add: entry_ok_def demo_key_def)
  have sym: "txn_filter_symbols_page demo_pg4 ?tx = 0"
    by (simp add: txn_filter_symbols_page_def demo_tx5_def pending_default_def demo_header4)
  obtain page' where a: "append_entry demo_hash demo_pg4 st (fm_entry_bytes (demo_key, update_entry ?u (Some 0) (Some 0))) ?tx =
      (Inr (), ?tx\<lparr>tx_dirty := [(1, page), (2, page')]\<rparr>)"
    by (rule demo_append [OF rep e ok]) (simp_all add: demo_tx5_def)
  have r: "record_updates demo_hash demo_pg4 st [?u] ?tx = (Inr (), ?tx\<lparr>tx_dirty := [(1, page), (2, page')]\<rparr>)"
    unfolding plain_update [OF demo_header4(7) sym u(1,2)] u(3) by (rule a)
  have "\<not> mr_tombstone demo_memory" by (simp add: demo_memory_def)
  then have "forget_writes demo_hash demo_alnum demo_key demo_pg4 st demo_tx5 = (Inr True, ?tx\<lparr>tx_dirty := [(1, page), (2, page')]\<rparr>)"
    using v(1) r by (simp add: forget_writes_def g stored_as_decode [OF demo_memory_stored(1)] i)
  then show ?thesis by (rule that) (simp_all add: demo_tx5_def)
qed

lemma demo_forget_fits:
  assumes "represents demo_hash demo_store4 demo_pg4 st"
  shows "commit_fits demo_pg4 (snd (forget_writes demo_hash demo_alnum demo_key demo_pg4 st demo_tx5))"
  by (rule demo_forget_writes [OF assms]) (use demo_log4 in \<open>simp add: commit_fits_def demo_header4\<close>)

definition demo_forgotten :: "bool result \<times> pager \<times> sim_state" where
  "demo_forgotten = forget demo_hash id 5 demo_alnum demo_key demo_pg4 demo_st4"

lemma demo_forgets: "fst demo_forgotten = Inr True"
proof -
  obtain L S where ms: "memory_store demo_hash demo_alnum demo_store4 demo_pg4 demo_st4 [(demo_key, demo_bytes)] L S"
    by (rule demo_memory_store)
  obtain tx' where w: "forget_writes demo_hash demo_alnum demo_key demo_pg4 demo_st4 demo_tx5 = (Inr True, tx')" "length (tx_dirty tx') = 2"
    by (rule demo_forget_writes [OF demo_commit4(1)])
  obtain r pg' st' where c: "txn_commit demo_hash id 5 tx' demo_pg4 demo_st4 = (r, pg', st')" by (metis prod_cases3)
  have ok: "txn_ok demo_hash demo_pg4 tx'"
    using forget_writes_outcome [OF demo_commit4(1) demo_begin4(2) demo_header4(7) memories_begin(2) [OF ms demo_begin4(1)] w(1)]
    by (auto split: if_splits)
  have fits: "commit_fits demo_pg4 tx'" "\<not> txn_noop demo_pg4 tx'"
    using demo_forget_fits [OF demo_commit4(1)] w by (auto simp: txn_noop_def)
  have "\<not> crashed st'" using alive_commit [OF demo_commit4(3)] c unfolding txn_commit_def by (metis alive_def snd_conv)
  then have "\<exists>n. r = Inr n" using txn_commit_effect [OF demo_commit4(1) ok fits demo_order c] by auto
  then show ?thesis using w(1) c by (auto simp: demo_forgotten_def forget_def demo_begin4)
qed

section \<open>A forget that dies\<close>

definition demo_armed4 :: sim_state where
  "demo_armed4 = arm_crash (ops demo_st4) Before 0 demo_st4"

lemma doomed_append:
  assumes "doomed st" "imgs \<noteq> []"
  shows "\<exists>e w' st'. append_txn xxh ns txn_id imgs w st = (Inl e, w', st')"
proof -
  obtain p img rest where imgs: "imgs = (p, img) # rest" using assms(2) by (metis list.exhaust prod.exhaust)
  have w: "\<exists>e st'. file_write_at f buf off st = (Inl e, st')" for f buf off using doomed_ops(1) [OF assms(1)] by blast
  obtain e st' where h: "file_write_at (w_file w) (wal_header_encode \<lparr>wh_format_version = FORMAT_VERSION, wh_page_size = w_page_size w, wh_salt = ns\<rparr>) 0 st
      = (Inl e, st')" using w by blast
  have f: "\<exists>e w' st'. append_frames xxh salt txn_id imgs w st = (Inl e, w', st')" for salt
    using w [of "w_file w" "wal_frame_encode xxh \<lparr>wf_page_no = p, wf_txn_id = txn_id, wf_commit = rest = []\<rparr> img salt @ img" "w_len w"]
    by (auto simp: imgs Let_def)
  show ?thesis
  proof (cases "w_salt w")
    case None
    then show ?thesis using h by (simp add: append_txn_def)
  next
    case (Some salt)
    then show ?thesis using f [of salt] by (auto simp: append_txn_def)
  qed
qed

lemma demo_forget_dies:
  obtains e pg' st' where "forget demo_hash id 5 demo_alnum demo_key demo_pg4 demo_armed4 = (Inl e, pg', st')" "e \<noteq> page_overflow"
proof -
  have rep: "represents demo_hash demo_store4 demo_pg4 demo_armed4" using demo_commit4(1) by (simp add: demo_armed4_def)
  have d: "doomed demo_armed4" using demo_commit4(3) by (simp add: doomed_def demo_armed4_def arm_crash_def alive_def)
  have us: "ensure_usable demo_pg4 = Inr ()" using rep by (simp add: represents_def ensure_usable_def)
  obtain tx' where w: "forget_writes demo_hash demo_alnum demo_key demo_pg4 demo_armed4 demo_tx5 = (Inr True, tx')" "length (tx_dirty tx') = 2"
    by (rule demo_forget_writes [OF rep])
  have ne: "tx_dirty tx' \<noteq> []" using w(2) by auto
  obtain L S where "memory_store demo_hash demo_alnum demo_store4 demo_pg4 demo_st4 [(demo_key, demo_bytes)] L S" by (rule demo_memory_store)
  then have ms: "memory_store demo_hash demo_alnum demo_store4 demo_pg4 demo_armed4 [(demo_key, demo_bytes)] L S"
    using rep by (simp add: memory_store_def)
  have ap: "\<exists>e w' st'. append_txn demo_hash 5 i (tx_dirty tx' @ [x]) (pg_wal demo_pg4) demo_armed4 = (Inl e, w', st')" for i x
    using doomed_append [OF d] by blast
  obtain e pg' st' where c: "txn_commit demo_hash id 5 tx' demo_pg4 demo_armed4 = (Inl e, pg', st')"
  proof -
    let ?h = "pending_apply (pg_header demo_pg4) (tx_page_count tx') (tx_pending tx')"
    show ?thesis
    proof (cases "header_encode demo_hash ?h (replicate (unat (page_size (pg_header demo_pg4))) 0)")
      case (Inl e)
      then show ?thesis using that ne by (simp add: txn_commit_def commit_txn_def us Let_def)
    next
      case (Inr page0)
      then show ?thesis
        using that ne ap [of "txn_counter ?h" "(0, page0)"] by (auto simp: txn_commit_def commit_txn_def us Let_def)
    qed
  qed
  have ok: "txn_ok demo_hash demo_pg4 tx'"
    using forget_writes_outcome [OF rep demo_begin4(2) demo_header4(7) memories_begin(2) [OF ms demo_begin4(1)] w(1)]
    by (auto split: if_splits)
  have fits: "commit_fits demo_pg4 tx'" "\<not> txn_noop demo_pg4 tx'"
    using demo_forget_fits [OF rep] w by (auto simp: txn_noop_def)
  have "e = crash_error" using txn_commit_effect [OF rep ok fits demo_order c] by auto
  then have "e \<noteq> page_overflow" by (simp add: crash_error_def)
  moreover have "forget demo_hash id 5 demo_alnum demo_key demo_pg4 demo_armed4 = (Inl e, pg', st')"
    using w(1) c by (simp add: forget_def demo_begin4)
  ultimately show ?thesis using that by blast
qed

end
