(* ===== verification/Store_Properties.thy ===== *)
theory Store_Properties
  imports Store_Demo
begin

text \<open>
  The properties of the store of memories: the public operations against the abstract store \<open>records_of\<close>, and the
  sidecar against the records it mirrors.
\<close>

section \<open>The sidecar in front of the records\<close>

text \<open>C28: On a store of memories the filter of a recall admits the same ids, and stashes the same error, whether it asks
  the sidecar first or loads every record: the sidecar changes the cost of a query, never its answer.\<close>

theorem sidecar_keeps_recall_answers:
  assumes "memory_store xxh alnum V pg st m L S" "cache_ok pg L S cache"
    and "store_filter_meta xxh pg st cache = (found, cache')"
  shows "\<exists>meta. found = Inr meta \<and>
    keep (map_option (\<lambda>tb. (tb, meta_needs tb q)) meta) (load_record (pager_source xxh pg st) (root_btree_page (pg_header pg))) q i err =
    keep None (load_record (pager_source xxh pg st) (root_btree_page (pg_header pg))) q i err"
proof -
  from store_filter_meta_outcome [OF assms(1,2)] assms(3) obtain meta where
    f: "found = Inr meta" "case meta of None \<Rightarrow> L = [] | Some tb \<Rightarrow> table_for tb L S" by auto
  then show ?thesis using keep_sidecar [OF assms(1)] by (cases meta) auto
qed

theorem sidecar_keeps_recall_answers_witness:
  "\<exists>meta. fst (store_filter_meta demo_hash demo_pg4 demo_st4 None) = Inr meta \<and>
    keep (map_option (\<lambda>tb. (tb, meta_needs tb (query_new [104]))) meta)
      (load_record (pager_source demo_hash demo_pg4 demo_st4) (root_btree_page (pg_header demo_pg4))) (query_new [104]) demo_key None =
    (True, None)"
proof -
  obtain L S where ms: "memory_store demo_hash demo_alnum demo_store4 demo_pg4 demo_st4 [(demo_key, demo_bytes)] L S"
    by (rule demo_memory_store)
  have c: "cache_ok demo_pg4 L S None" by (simp add: cache_ok_def)
  obtain found cache' where f: "store_filter_meta demo_hash demo_pg4 demo_st4 None = (found, cache')" by fastforce
  have "load_record (pager_source demo_hash demo_pg4 demo_st4) (root_btree_page (pg_header demo_pg4)) demo_key = Inr (Some demo_memory)"
    using load_record_store(2) [OF ms _ demo_memory_stored(1)] by simp
  then have "keep None (load_record (pager_source demo_hash demo_pg4 demo_st4) (root_btree_page (pg_header demo_pg4))) (query_new [104]) demo_key None = (True, None)"
    by (simp add: keep_def in_scope_def query_new_def record_passes_filters_def demo_memory_def)
  with sidecar_keeps_recall_answers [OF ms c f, of "query_new [104]" demo_key None] f show ?thesis by auto
qed

section \<open>Forgetting\<close>

text \<open>C29: A \<^verbatim>\<open>forget\<close> that returns has done what its specification says: a live record gets its tombstone, and the answer is
  true; for an unknown or forgotten id the answer is false and neither store nor files have changed. The
  record tree and the sidecar are in step afterwards.\<close>

theorem forget_refines_spec:
  assumes "memory_store xxh alnum V pg st m L S" "pager_begin pg = Inr tx" "iter_order ord"
    and "commit_fits pg (snd (forget_writes xxh alnum i pg st tx))"
    and "forget xxh ord new_salt alnum i pg st = (Inr b, pg', st')"
  shows "\<exists>V' m' L' S'. memory_store xxh alnum V' pg' st' m' L' S' \<and> forget_spec i (records_of m) = (b, records_of m') \<and>
    (\<not> b \<longrightarrow> pg' = pg \<and> st' = st)"
proof -
  from forget_outcome [OF assms(1-5)] obtain V' m' L' S' where "memory_store xxh alnum V' pg' st' m' L' S'"
    "(b, records_of m') = forget_spec i (records_of m)"
    "if b then txn_counter (pg_header pg') = txn_counter (pg_header pg) + 1 else pg' = pg \<and> st' = st \<and> L' = L \<and> S' = S" by auto
  then show ?thesis by (cases b) (metis, metis)
qed

theorem forget_refines_spec_witness:
  "\<exists>pg' st' V' m' L' S'. demo_forgotten = (Inr True, pg', st') \<and> memory_store demo_hash demo_alnum V' pg' st' m' L' S' \<and>
     records_of m' = [demo_key \<mapsto> demo_memory\<lparr>mr_tombstone := True\<rparr>]"
proof -
  obtain L S where ms: "memory_store demo_hash demo_alnum demo_store4 demo_pg4 demo_st4 [(demo_key, demo_bytes)] L S"
    by (rule demo_memory_store)
  obtain pg' st' where o: "forget demo_hash id 5 demo_alnum demo_key demo_pg4 demo_st4 = (Inr True, pg', st')"
    using demo_forgets unfolding demo_forgotten_def by (metis prod.collapse)
  have "records_of [(demo_key, demo_bytes)] = [demo_key \<mapsto> demo_memory]"
    by (auto simp: records_of_def stored_as_decode [OF demo_memory_stored(1)])
  moreover have "\<not> mr_tombstone demo_memory" by (simp add: demo_memory_def)
  ultimately have "snd (forget_spec demo_key (records_of [(demo_key, demo_bytes)])) = [demo_key \<mapsto> demo_memory\<lparr>mr_tombstone := True\<rparr>]"
    by (simp add: forget_spec_def)
  moreover obtain V' m' L' S' where "memory_store demo_hash demo_alnum V' pg' st' m' L' S'"
    "forget_spec demo_key (records_of [(demo_key, demo_bytes)]) = (True, records_of m')"
    using forget_refines_spec [OF ms demo_begin4(1) demo_order demo_forget_fits [OF demo_commit4(1)] o] by blast
  ultimately have "demo_forgotten = (Inr True, pg', st') \<and> memory_store demo_hash demo_alnum V' pg' st' m' L' S' \<and>
      records_of m' = [demo_key \<mapsto> demo_memory\<lparr>mr_tombstone := True\<rparr>]"
    using o by (simp add: demo_forgotten_def)
  then show ?thesis by blast
qed



section \<open>The life of a store\<close>



text \<open>C32: The iterators over the memories yield every memory of the store once, in the order of the ids, the forgotten
  ones only on request; they never report an error, and they end.\<close>

theorem iteration_lists_memories:
  assumes "memory_store xxh alnum V pg st m L S"
  shows "iter_take (pager_source xxh pg st) include_tombstones n (btree_scan (root_btree_page (pg_header pg))) =
      take n (map Inr (listed include_tombstones m)) \<and>
    sorted_wrt (<) (map me_id (listed include_tombstones m)) \<and>
    set (listed include_tombstones m) = {from_record r | r. r \<in> ran (records_of m) \<and> (include_tombstones \<or> \<not> mr_tombstone r)}"
  using iter_take_holds [OF memory_store_scan(1) [OF assms]] memory_store_scan(2) [OF assms] listed_store [OF assms] by blast

theorem iteration_lists_memories_witness:
  "iter_take (pager_source demo_hash demo_pg4 demo_st4) False 5 (btree_scan (root_btree_page (pg_header demo_pg4))) =
     [Inr (from_record demo_memory)]"
proof -
  obtain L S where ms: "memory_store demo_hash demo_alnum demo_store4 demo_pg4 demo_st4 [(demo_key, demo_bytes)] L S"
    by (rule demo_memory_store)
  have "listed False [(demo_key, demo_bytes)] = [from_record demo_memory]"
    by (simp add: listed_def stored_as_decode [OF demo_memory_stored(1)]) (simp add: demo_memory_def from_record_def)
  with iteration_lists_memories [OF ms, of False 5] show ?thesis by simp
qed

end
