(* ===== verification/Dict.thy ===== *)
theory Dict
  imports Btree
begin

text \<open>
  The byte-keyed dictionary tree shared by the full-text and the graph index (\<^verbatim>\<open>index/dict.rs\<close>): node formats,
  overflow chains, lookup and upsert. It is the record tree with keys of any length, so its definitions follow
  those of \<^theory_text>\<open>Btree\<close>, with the prefix \<open>dict\<close>. The reader of overflow chains has no bound of its own on empty pages;
  it is a \<^theory_text>\<open>partial_function\<close>, and \<open>None\<close> means that it never returns.
\<close>

section \<open>Little-endian helpers\<close>

text \<open>The writers move an offset and skip a write that would not fit.\<close>

definition put_raw :: "bytes \<Rightarrow> bytes \<times> nat \<Rightarrow> bytes \<times> nat" where
  "put_raw v s = (case s of (buf, off) \<Rightarrow>
     (if off + length v \<le> length buf then write_bytes buf off v else buf, off + length v))"

definition put_u32 :: "u32 \<Rightarrow> bytes \<times> nat \<Rightarrow> bytes \<times> nat" where "put_u32 v = put_raw (u32_to_le v)"
definition put_u64 :: "u64 \<Rightarrow> bytes \<times> nat \<Rightarrow> bytes \<times> nat" where "put_u64 v = put_raw (u64_to_le v)"

definition put_bytes_u16 :: "bytes \<Rightarrow> bytes \<times> nat \<Rightarrow> bytes \<times> nat" where
  "put_bytes_u16 v s = put_raw v (put_raw (u16_to_le (word_of_nat (length v))) s)"

definition put_bytes_u32 :: "bytes \<Rightarrow> bytes \<times> nat \<Rightarrow> bytes \<times> nat" where
  "put_bytes_u32 v s = put_raw v (put_raw (u32_to_le (word_of_nat (length v))) s)"

definition dict_read_u32 :: "bytes \<Rightarrow> nat \<Rightarrow> u64 \<Rightarrow> u32 result" where
  "dict_read_u32 buf off page_no = ok_or (malformed page_no ''dict short read'') (read_u32 buf off)"

definition get_u16 :: "bytes \<Rightarrow> nat \<Rightarrow> u64 \<Rightarrow> (u16 \<times> nat) result" where
  "get_u16 buf off page_no = bind_result (ok_or (malformed page_no ''dict short read'') (read_u16 buf off)) (\<lambda>v. Inr (v, off + 2))"

definition get_u32 :: "bytes \<Rightarrow> nat \<Rightarrow> u64 \<Rightarrow> (u32 \<times> nat) result" where
  "get_u32 buf off page_no = bind_result (dict_read_u32 buf off page_no) (\<lambda>v. Inr (v, off + 4))"

definition get_u64 :: "bytes \<Rightarrow> nat \<Rightarrow> u64 \<Rightarrow> (u64 \<times> nat) result" where
  "get_u64 buf off page_no = bind_result (ok_or (malformed page_no ''dict short read'') (read_u64 buf off)) (\<lambda>v. Inr (v, off + 8))"

definition get_bytes_u16 :: "bytes \<Rightarrow> nat \<Rightarrow> nat \<Rightarrow> u64 \<Rightarrow> string \<Rightarrow> (bytes \<times> nat) result" where
  "get_bytes_u16 buf off content_end page_no what =
     bind_result (ok_or (malformed page_no what) (read_u16 buf off)) (\<lambda>len.
     let off = off + 2; e = off + unat len in
     if e \<le> content_end \<and> e \<le> length buf then Inr (seg off (unat len) buf, e)
     else Inl (malformed page_no what))"

definition get_bytes_u32 :: "bytes \<Rightarrow> nat \<Rightarrow> nat \<Rightarrow> u64 \<Rightarrow> string \<Rightarrow> (bytes \<times> nat) result" where
  "get_bytes_u32 buf off content_end page_no what =
     bind_result (dict_read_u32 buf off page_no) (\<lambda>len.
     let off = off + 4; e = off + unat len in
     if e \<le> content_end \<and> e \<le> length buf then Inr (seg off (unat len) buf, e)
     else Inl (malformed page_no what))"

section \<open>Nodes\<close>

record dict_spec =
  ds_dict :: page_type
  ds_overflow :: page_type
  ds_max_key_len :: nat

definition NODE_META :: byte where [simp]: "NODE_META = 0"
definition NODE_INNER :: byte where [simp]: "NODE_INNER = 1"
definition NODE_LEAF :: byte where [simp]: "NODE_LEAF = 2"
definition VALUE_INLINE :: byte where [simp]: "VALUE_INLINE = 0"
definition VALUE_OVERFLOW :: byte where [simp]: "VALUE_OVERFLOW = 1"

datatype dict_value = DInline bytes | DOverflow u32 u64

fun value_len :: "dict_value \<Rightarrow> nat" where
  "value_len (DInline b) = 1 + 4 + length b"
| "value_len (DOverflow total_len first_page) = 1 + 4 + 8"

record dict_entry =
  de_key :: bytes
  de_value :: dict_value

definition dict_footprint :: "dict_entry \<Rightarrow> nat" where
  "dict_footprint e = 2 + length (de_key e) + value_len (de_value e)"

record dict_inner =
  di_entries :: "(bytes \<times> u64) list"
  di_rightmost :: u64

datatype dict_node = DLeaf "dict_entry list" | DInner dict_inner

text \<open>\<^verbatim>\<open>usable\<close>, \<^verbatim>\<open>max_entry_footprint\<close> and \<^verbatim>\<open>overflow_capacity\<close> are those of the record tree.\<close>

definition max_inline_body :: "dict_spec \<Rightarrow> u32 \<Rightarrow> nat" where
  "max_inline_body spec ps = max_entry_footprint ps - (2 + ds_max_key_len spec + 1 + 4)"

definition dict_decode_value :: "bytes \<Rightarrow> nat \<Rightarrow> nat \<Rightarrow> u64 \<Rightarrow> (dict_value \<times> nat) result" where
  "dict_decode_value page off content_end page_no =
     bind_result (ok_or (malformed page_no ''dict value tag'') (get_at page off)) (\<lambda>tag.
     let off = off + 1 in
     if tag = VALUE_INLINE then
       bind_result (get_bytes_u32 page off content_end page_no ''dict inline value'') (\<lambda>(body, off). Inr (DInline body, off))
     else if tag = VALUE_OVERFLOW then
       bind_result (get_u32 page off page_no) (\<lambda>(total_len, off).
       bind_result (get_u64 page off page_no) (\<lambda>(first_page, off).
       if first_page = 0 then Inl (malformed page_no ''dict null overflow page'')
       else Inr (DOverflow total_len first_page, off)))
     else Inl (malformed page_no ''dict value tag''))"

fun dict_leaf_entries :: "bytes \<Rightarrow> u64 \<Rightarrow> nat \<Rightarrow> bytes option \<Rightarrow> nat \<Rightarrow> nat \<Rightarrow> (dict_entry list) result" where
  "dict_leaf_entries page page_no content_end prev off 0 = Inr []"
| "dict_leaf_entries page page_no content_end prev off (Suc n) =
     bind_result (get_bytes_u16 page off content_end page_no ''dict leaf key'') (\<lambda>(k, off).
     if (case prev of Some p \<Rightarrow> k \<le> p | None \<Rightarrow> False) then Inl (malformed page_no ''unsorted dict leaf keys'')
     else bind_result (dict_decode_value page off content_end page_no) (\<lambda>(v, off).
          bind_result (dict_leaf_entries page page_no content_end (Some k) off n) (\<lambda>rest.
            Inr (\<lparr>de_key = k, de_value = v\<rparr> # rest))))"

fun dict_inner_entries :: "bytes \<Rightarrow> u64 \<Rightarrow> nat \<Rightarrow> bytes option \<Rightarrow> nat \<Rightarrow> nat \<Rightarrow> ((bytes \<times> u64) list) result" where
  "dict_inner_entries page page_no content_end prev off 0 = Inr []"
| "dict_inner_entries page page_no content_end prev off (Suc n) =
     bind_result (get_bytes_u16 page off content_end page_no ''dict inner key'') (\<lambda>(k, off).
     if (case prev of Some p \<Rightarrow> k \<le> p | None \<Rightarrow> False) then Inl (malformed page_no ''unsorted dict inner keys'')
     else bind_result (get_u64 page off page_no) (\<lambda>(child, off).
          if child = 0 then Inl (malformed page_no ''dict null child'')
          else bind_result (dict_inner_entries page page_no content_end (Some k) off n) (\<lambda>rest.
            Inr ((k, child) # rest))))"

definition dict_decode_node :: "bytes \<Rightarrow> u64 \<Rightarrow> dict_spec \<Rightarrow> dict_node result" where
  "dict_decode_node page page_no spec =
     bind_result (ok_or (malformed page_no ''dict page header'') (page_header_decode page)) (\<lambda>hdr.
     if ph_page_type hdr \<noteq> ds_dict spec then Inl (malformed page_no ''not a dict page'')
     else let content_end = length page - PAGE_TRAILER_LEN; off = PAGE_HEADER_LEN in
     bind_result (ok_or (malformed page_no ''dict node kind'') (get_at page off)) (\<lambda>kind.
     let off = off + 1; n = unat (ph_entry_count hdr) in
     if kind = NODE_LEAF then
       bind_result (dict_leaf_entries page page_no content_end None off n) (\<lambda>es. Inr (DLeaf es))
     else if kind = NODE_INNER then
       if n = 0 then Inl (malformed page_no ''empty dict inner node'')
       else bind_result (get_u64 page off page_no) (\<lambda>(rightmost, off).
            if rightmost = 0 then Inl (malformed page_no ''dict null rightmost child'')
            else bind_result (dict_inner_entries page page_no content_end None off n) (\<lambda>es.
              Inr (DInner \<lparr>di_entries = es, di_rightmost = rightmost\<rparr>)))
     else Inl (malformed page_no ''unexpected dict node kind'')))"

definition put_value :: "dict_value \<Rightarrow> bytes \<times> nat \<Rightarrow> bytes \<times> nat" where
  "put_value v s =
     (case v of
        DInline body \<Rightarrow> put_bytes_u32 body (put_raw [VALUE_INLINE] s)
      | DOverflow total_len first_page \<Rightarrow> put_u64 first_page (put_u32 total_len (put_raw [VALUE_OVERFLOW] s)))"

definition put_leaf_entry :: "dict_entry \<Rightarrow> bytes \<times> nat \<Rightarrow> bytes \<times> nat" where
  "put_leaf_entry e s = put_value (de_value e) (put_bytes_u16 (de_key e) s)"

definition dict_encode_leaf :: "hash64 \<Rightarrow> dict_entry list \<Rightarrow> u32 \<Rightarrow> dict_spec \<Rightarrow> bytes option" where
  "dict_encode_leaf xxh entries ps spec =
     (let body_len = 1 + sum_list (map dict_footprint entries) in
      if unat ps - PAGE_TRAILER_LEN < PAGE_HEADER_LEN + body_len then None
      else let page = page_header_encode_into \<lparr>ph_page_type = ds_dict spec,
                        ph_entry_count = word_of_nat (length entries), ph_next_page = 0\<rparr> (replicate (unat ps) 0);
               (page, off) = fold put_leaf_entry entries (put_raw [NODE_LEAF] (page, PAGE_HEADER_LEN))
           in Some (stamp_page_checksum xxh page))"

definition put_dict_child :: "bytes \<times> u64 \<Rightarrow> bytes \<times> nat \<Rightarrow> bytes \<times> nat" where
  "put_dict_child e s = put_u64 (snd e) (put_bytes_u16 (fst e) s)"

definition dict_encode_inner :: "hash64 \<Rightarrow> dict_inner \<Rightarrow> u32 \<Rightarrow> dict_spec \<Rightarrow> bytes option" where
  "dict_encode_inner xxh node ps spec =
     (if di_entries node = [] then None
      else let body_len = 1 + 8 + sum_list (map (\<lambda>(k, _). 2 + length k + 8) (di_entries node)) in
      if unat ps - PAGE_TRAILER_LEN < PAGE_HEADER_LEN + body_len then None
      else let page = page_header_encode_into \<lparr>ph_page_type = ds_dict spec,
                        ph_entry_count = word_of_nat (length (di_entries node)), ph_next_page = 0\<rparr> (replicate (unat ps) 0);
               (page, off) = fold put_dict_child (di_entries node)
                 (put_u64 (di_rightmost node) (put_raw [NODE_INNER] (page, PAGE_HEADER_LEN)))
           in Some (stamp_page_checksum xxh page))"

section \<open>Overflow chains\<close>

definition dict_overflow_page :: "hash64 \<Rightarrow> dict_spec \<Rightarrow> u32 \<Rightarrow> u64 \<Rightarrow> bytes \<Rightarrow> bytes" where
  "dict_overflow_page xxh spec ps next_page chunk =
     stamp_page_checksum xxh (write_bytes (page_header_encode_into \<lparr>ph_page_type = ds_overflow spec,
       ph_entry_count = word_of_nat (length chunk), ph_next_page = next_page\<rparr> (replicate (unat ps) 0)) PAGE_HEADER_LEN chunk)"

fun dict_write_chain :: "hash64 \<Rightarrow> 's page_ops \<Rightarrow> dict_spec \<Rightarrow> u64 list \<Rightarrow> bytes list \<Rightarrow> 's \<Rightarrow> unit result \<times> 's" where
  "dict_write_chain xxh po spec (p # ps) (chunk # cs) tx =
     bind_st (po_write po p (dict_overflow_page xxh spec (po_page_size po) (case ps of q # _ \<Rightarrow> q | [] \<Rightarrow> 0) chunk) tx)
       (\<lambda>_ tx. dict_write_chain xxh po spec ps cs tx)"
| "dict_write_chain xxh po spec _ _ tx = (Inr (), tx)"

definition write_overflow_chain :: "hash64 \<Rightarrow> 's page_ops \<Rightarrow> bytes \<Rightarrow> dict_spec \<Rightarrow> u64 list \<Rightarrow> 's \<Rightarrow> u64 result \<times> 's" where
  "write_overflow_chain xxh po body spec reuse tx =
     (let cs = (if body = [] then [[]] else chunks (overflow_capacity (po_page_size po)) body) in
      bind_st (pick_pages po reuse (length cs) tx) (\<lambda>pages tx.
      bind_st (dict_write_chain xxh po spec pages cs tx) (\<lambda>_ tx.
        (case pages of p # _ \<Rightarrow> Inr p | [] \<Rightarrow> Inl (Internal ''empty dict overflow chain''), tx))))"

partial_function (option) read_dict_chain :: "page_source \<Rightarrow> dict_spec \<Rightarrow> nat \<Rightarrow> u64 \<Rightarrow> bytes \<Rightarrow> bytes result option" where
  "read_dict_chain src spec remaining page_no out =
     (case src_page src page_no of
        Inl e \<Rightarrow> Some (Inl e)
      | Inr page \<Rightarrow>
          (case page_header_decode page of
             None \<Rightarrow> Some (Inl (malformed page_no ''dict overflow header''))
           | Some hdr \<Rightarrow>
               if ph_page_type hdr \<noteq> ds_overflow spec then Some (Inl (malformed page_no ''not a dict overflow page''))
               else if remaining < unat (ph_entry_count hdr) \<or> overflow_capacity (src_page_size src) < unat (ph_entry_count hdr)
               then Some (Inl (malformed page_no ''dict overflow payload length''))
               else (case get_range page PAGE_HEADER_LEN (PAGE_HEADER_LEN + unat (ph_entry_count hdr)) of
                       None \<Rightarrow> Some (Inl (malformed page_no ''dict overflow payload bounds''))
                     | Some payload \<Rightarrow>
                         if remaining - unat (ph_entry_count hdr) = 0 then Some (Inr (out @ payload))
                         else if ph_next_page hdr = 0 then Some (Inl (malformed page_no ''broken dict overflow chain''))
                         else read_dict_chain src spec (remaining - unat (ph_entry_count hdr)) (ph_next_page hdr) (out @ payload))))"

definition read_overflow_chain :: "page_source \<Rightarrow> u64 \<Rightarrow> u32 \<Rightarrow> dict_spec \<Rightarrow> bytes result option" where
  "read_overflow_chain src first_page total_len spec = read_dict_chain src spec (unat total_len) first_page []"

fun dict_chain_loop :: "'s page_ops \<Rightarrow> dict_spec \<Rightarrow> 's \<Rightarrow> u64 \<Rightarrow> nat \<Rightarrow> (u64 list) result" where
  "dict_chain_loop po spec tx page_no 0 = Inr []"
| "dict_chain_loop po spec tx page_no (Suc n) =
     bind_result (po_read po page_no tx) (\<lambda>page.
     bind_result (ok_or (malformed page_no ''dict overflow header'') (page_header_decode page)) (\<lambda>hdr.
     if ph_page_type hdr \<noteq> ds_overflow spec then Inl (malformed page_no ''not a dict overflow page'')
     else if ph_next_page hdr = 0 then Inr [page_no]
     else bind_result (dict_chain_loop po spec tx (ph_next_page hdr) n) (\<lambda>ps. Inr (page_no # ps))))"

definition dict_chain_pages :: "'s page_ops \<Rightarrow> u64 \<Rightarrow> u32 \<Rightarrow> dict_spec \<Rightarrow> 's \<Rightarrow> (u64 list) result" where
  "dict_chain_pages po first_page total_len spec tx =
     (let cap = overflow_capacity (po_page_size po);
          expected = max ((unat total_len + cap - 1) div cap) 1
      in dict_chain_loop po spec tx first_page expected)"

section \<open>Lookup\<close>

definition dict_child_for :: "dict_inner \<Rightarrow> bytes \<Rightarrow> u64" where
  "dict_child_for node k =
     (case find (\<lambda>(sep, _). k \<le> sep) (di_entries node) of Some (_, child) \<Rightarrow> child | None \<Rightarrow> di_rightmost node)"

text \<open>The result carries the page a decoding error of the body is reported for; \<open>None\<close> is a chain that is read forever.\<close>

fun dict_get_loop :: "page_source \<Rightarrow> dict_spec \<Rightarrow> bytes \<Rightarrow> u64 \<Rightarrow> nat \<Rightarrow> ((bytes \<times> u64) option) result option" where
  "dict_get_loop src spec k page_no 0 = Some (Inl (malformed page_no ''dict tree deeper than MAX_DEPTH''))"
| "dict_get_loop src spec k page_no (Suc n) =
     (case bind_result (src_page src page_no) (\<lambda>page. dict_decode_node page page_no spec) of
        Inl e \<Rightarrow> Some (Inl e)
      | Inr (DInner node) \<Rightarrow> dict_get_loop src spec k (dict_child_for node k) n
      | Inr (DLeaf entries) \<Rightarrow>
          (case binary_search (map de_key entries) k of
             Inl _ \<Rightarrow> Some (Inr None)
           | Inr i \<Rightarrow>
               (case de_value (entries ! i) of
                  DInline b \<Rightarrow> Some (Inr (Some (b, page_no)))
                | DOverflow total_len first_page \<Rightarrow>
                    map_option (\<lambda>r. bind_result r (\<lambda>b. Inr (Some (b, first_page))))
                      (read_overflow_chain src first_page total_len spec))))"

definition dict_get :: "page_source \<Rightarrow> dict_spec \<Rightarrow> u64 \<Rightarrow> bytes \<Rightarrow> ((bytes \<times> u64) option) result option" where
  "dict_get src spec root k = (if root = 0 then Some (Inr None) else dict_get_loop src spec k root MAX_DEPTH)"

section \<open>Upsert\<close>

definition make_value :: "hash64 \<Rightarrow> 's page_ops \<Rightarrow> bytes \<Rightarrow> dict_spec \<Rightarrow> u64 list \<Rightarrow> 's \<Rightarrow> dict_value result \<times> 's" where
  "make_value xxh po body spec reuse tx =
     (if length body \<le> max_inline_body spec (po_page_size po) then (Inr (DInline body), tx)
      else if 2 ^ 32 \<le> length body then (Inl (InvalidArgument ''dict value exceeds u32''), tx)
      else bind_st (write_overflow_chain xxh po body spec reuse tx) (\<lambda>first_page tx.
        (Inr (DOverflow (word_of_nat (length body)) first_page), tx)))"

datatype dict_ins = DFit | DSplit bytes u64

definition dict_leaf_upsert :: "hash64 \<Rightarrow> 's page_ops \<Rightarrow> bytes \<Rightarrow> bytes \<Rightarrow> dict_spec \<Rightarrow> dict_entry list \<Rightarrow> 's \<Rightarrow>
    (dict_entry list) result \<times> 's" where
  "dict_leaf_upsert xxh po k body spec entries tx =
     (case binary_search (map de_key entries) k of
        Inr i \<Rightarrow>
          bind_st (case de_value (entries ! i) of
                     DOverflow total_len first_page \<Rightarrow> dict_chain_pages po first_page total_len spec tx
                   | DInline _ \<Rightarrow> Inr [], tx) (\<lambda>reuse tx.
          bind_st (make_value xxh po body spec reuse tx) (\<lambda>v tx.
            (Inr (entries[i := (entries ! i)\<lparr>de_value := v\<rparr>]), tx)))
      | Inl i \<Rightarrow>
          bind_st (make_value xxh po body spec [] tx) (\<lambda>v tx.
            (Inr (take i entries @ \<lparr>de_key = k, de_value = v\<rparr> # drop i entries), tx)))"

fun dict_leaf_cut :: "nat \<Rightarrow> nat \<Rightarrow> dict_entry list \<Rightarrow> nat" where
  "dict_leaf_cut half acc [] = 0"
| "dict_leaf_cut half acc (e # es) =
     (let acc = acc + dict_footprint e in if half \<le> acc then 1 else 1 + dict_leaf_cut half acc es)"

definition dict_leaf_store :: "hash64 \<Rightarrow> 's page_ops \<Rightarrow> u64 \<Rightarrow> dict_spec \<Rightarrow> dict_entry list \<Rightarrow> 's \<Rightarrow> dict_ins result \<times> 's" where
  "dict_leaf_store xxh po page_no spec entries tx =
     (case dict_encode_leaf xxh entries (po_page_size po) spec of
        Some encoded \<Rightarrow> bind_st (po_write po page_no encoded tx) (\<lambda>_ tx. (Inr DFit, tx))
      | None \<Rightarrow>
          let total = sum_list (map dict_footprint entries);
              cut = dict_leaf_cut (total div 2) 0 entries;
              left = take cut entries;
              right_entries = drop cut entries
          in if right_entries = [] then (Inl (Internal ''dict leaf split produced an empty half''), tx)
             else if left = [] then (Inl (Internal ''dict leaf split empty left''), tx)
             else case (dict_encode_leaf xxh left (po_page_size po) spec, dict_encode_leaf xxh right_entries (po_page_size po) spec) of
                    (Some left_page, Some right_page) \<Rightarrow>
                      let sep = de_key (last left) in
                      bind_st (po_alloc po tx) (\<lambda>right tx.
                      bind_st (po_write po page_no left_page tx) (\<lambda>_ tx.
                      bind_st (po_write po right right_page tx) (\<lambda>_ tx.
                        (Inr (DSplit sep right), tx))))
                  | _ \<Rightarrow> (Inl (Internal ''dict leaf split does not fit''), tx))"

definition dict_inner_index :: "dict_inner \<Rightarrow> bytes \<Rightarrow> nat" where
  "dict_inner_index node k = length (takeWhile (\<lambda>(sep, _). \<not> k \<le> sep) (di_entries node))"

definition dict_inner_child :: "dict_inner \<Rightarrow> nat \<Rightarrow> u64" where
  "dict_inner_child node idx = (if idx < length (di_entries node) then snd (di_entries node ! idx) else di_rightmost node)"

definition dict_split_child :: "dict_inner \<Rightarrow> nat \<Rightarrow> bytes \<Rightarrow> u64 \<Rightarrow> u64 \<Rightarrow> dict_inner" where
  "dict_split_child node idx sep child right =
     (let node = (if idx < length (di_entries node)
                  then node\<lparr>di_entries := (di_entries node)[idx := (fst (di_entries node ! idx), right)]\<rparr>
                  else node\<lparr>di_rightmost := right\<rparr>)
      in node\<lparr>di_entries := take idx (di_entries node) @ (sep, child) # drop idx (di_entries node)\<rparr>)"

definition dict_inner_store :: "hash64 \<Rightarrow> 's page_ops \<Rightarrow> u64 \<Rightarrow> dict_spec \<Rightarrow> dict_inner \<Rightarrow> 's \<Rightarrow> dict_ins result \<times> 's" where
  "dict_inner_store xxh po page_no spec node tx =
     (case dict_encode_inner xxh node (po_page_size po) spec of
        Some encoded \<Rightarrow> bind_st (po_write po page_no encoded tx) (\<lambda>_ tx. (Inr DFit, tx))
      | None \<Rightarrow>
          let m = length (di_entries node) div 2;
              right_entries = drop (m + 1) (di_entries node);
              left = take (m + 1) (di_entries node)
          in if left = [] then (Inl (Internal ''dict inner split underflow''), tx)
             else let (promoted_key, promoted_child) = last left;
                      right_node = \<lparr>di_entries = right_entries, di_rightmost = di_rightmost node\<rparr>;
                      node = \<lparr>di_entries = butlast left, di_rightmost = promoted_child\<rparr>
                  in case (dict_encode_inner xxh node (po_page_size po) spec, dict_encode_inner xxh right_node (po_page_size po) spec) of
                       (Some left_page, Some right_page) \<Rightarrow>
                         bind_st (po_alloc po tx) (\<lambda>right tx.
                         bind_st (po_write po page_no left_page tx) (\<lambda>_ tx.
                         bind_st (po_write po right right_page tx) (\<lambda>_ tx.
                           (Inr (DSplit promoted_key right), tx))))
                     | _ \<Rightarrow> (Inl (Internal ''dict inner split does not fit''), tx))"

function dict_insert_rec :: "hash64 \<Rightarrow> 's page_ops \<Rightarrow> u64 \<Rightarrow> bytes \<Rightarrow> bytes \<Rightarrow> nat \<Rightarrow> dict_spec \<Rightarrow> 's \<Rightarrow> dict_ins result \<times> 's" where
  "dict_insert_rec xxh po page_no k body depth spec tx =
     (if MAX_DEPTH \<le> depth then (Inl (malformed page_no ''dict tree deeper than MAX_DEPTH''), tx)
      else bind_st (po_read po page_no tx, tx) (\<lambda>page tx.
           bind_st (dict_decode_node page page_no spec, tx) (\<lambda>nd tx.
           case nd of
             DLeaf entries \<Rightarrow>
               bind_st (dict_leaf_upsert xxh po k body spec entries tx) (\<lambda>entries tx. dict_leaf_store xxh po page_no spec entries tx)
           | DInner node \<Rightarrow>
               let idx = dict_inner_index node k;
                   child = dict_inner_child node idx
               in bind_st (dict_insert_rec xxh po child k body (depth + 1) spec tx) (\<lambda>r tx.
                  case r of
                    DFit \<Rightarrow> (Inr DFit, tx)
                  | DSplit sep right \<Rightarrow> dict_inner_store xxh po page_no spec (dict_split_child node idx sep child right) tx))))"
  by pat_completeness auto
termination
  by (relation "measure (\<lambda>(xxh, po, page_no, k, body, depth, spec, tx). MAX_DEPTH - depth)") auto

declare dict_insert_rec.simps [simp del]

definition dict_upsert :: "hash64 \<Rightarrow> 's page_ops \<Rightarrow> dict_spec \<Rightarrow> u64 \<Rightarrow> bytes \<Rightarrow> bytes \<Rightarrow> 's \<Rightarrow> u64 result \<times> 's" where
  "dict_upsert xxh po spec root k body tx =
     (if ds_max_key_len spec < length k then (Inl (InvalidArgument ''dict key exceeds its length cap''), tx)
      else if root = 0 then
        bind_st (make_value xxh po body spec [] tx) (\<lambda>v tx.
        bind_st (po_alloc po tx) (\<lambda>page_no tx.
        bind_st (ok_or (Internal ''fresh dict leaf does not fit'')
                   (dict_encode_leaf xxh [\<lparr>de_key = k, de_value = v\<rparr>] (po_page_size po) spec), tx) (\<lambda>page tx.
        bind_st (po_write po page_no page tx) (\<lambda>_ tx. (Inr page_no, tx)))))
      else bind_st (dict_insert_rec xxh po root k body 0 spec tx) (\<lambda>r tx.
        case r of
          DFit \<Rightarrow> (Inr root, tx)
        | DSplit sep right \<Rightarrow>
            bind_st (po_alloc po tx) (\<lambda>new_root tx.
            bind_st (ok_or (Internal ''fresh dict root does not fit'')
                       (dict_encode_inner xxh \<lparr>di_entries = [(sep, root)], di_rightmost = right\<rparr> (po_page_size po) spec), tx) (\<lambda>page tx.
            bind_st (po_write po new_root page tx) (\<lambda>_ tx. (Inr new_root, tx))))))"

end
