(* ===== verification/Dict_Correct.thy ===== *)
theory Dict_Correct
  imports Dict Btree_Insert
begin

text \<open>
  The dictionary of \<^theory_text>\<open>Dict\<close>: a node that is encoded decodes to itself, the reader of overflow chains returns
  on chains without empty pages, and it returns what was written.
\<close>

section \<open>Runs of bytes\<close>

text \<open>What the writers put on a page is one run of bytes.\<close>

fun value_bytes :: "dict_value \<Rightarrow> bytes" where
  "value_bytes (DInline b) = VALUE_INLINE # u32_to_le (word_of_nat (length b)) @ b"
| "value_bytes (DOverflow total_len first_page) = VALUE_OVERFLOW # u32_to_le total_len @ u64_to_le first_page"

definition key_bytes :: "bytes \<Rightarrow> bytes" where
  "key_bytes k = u16_to_le (word_of_nat (length k)) @ k"

definition leaf_entry_bytes :: "dict_entry \<Rightarrow> bytes" where
  "leaf_entry_bytes e = key_bytes (de_key e) @ value_bytes (de_value e)"

definition child_bytes :: "bytes \<times> u64 \<Rightarrow> bytes" where
  "child_bytes e = key_bytes (fst e) @ u64_to_le (snd e)"

lemma length_value_bytes [simp]: "length (value_bytes v) = value_len v"
  by (cases v) simp_all

lemma length_key_bytes [simp]: "length (key_bytes k) = 2 + length k"
  by (simp add: key_bytes_def)

lemma length_leaf_entry_bytes [simp]: "length (leaf_entry_bytes e) = dict_footprint e"
  by (simp add: leaf_entry_bytes_def dict_footprint_def)

lemma length_child_bytes [simp]: "length (child_bytes e) = 2 + length (fst e) + 8"
  by (simp add: child_bytes_def)

definition fits :: "bytes \<times> nat \<Rightarrow> nat \<Rightarrow> bool" where
  "fits s n \<longleftrightarrow> snd s + n \<le> length (fst s)"

lemma put_raw_append: "fits s (length v + length w) \<Longrightarrow> put_raw w (put_raw v s) = put_raw (v @ w) s"
  by (cases s) (simp add: put_raw_def fits_def write_bytes_append)

lemma put_leaf_entry_run:
  "fits s (length pre + dict_footprint e) \<Longrightarrow> put_leaf_entry e (put_raw pre s) = put_raw (pre @ leaf_entry_bytes e) s"
  by (cases "de_value e")
    (simp_all add: put_leaf_entry_def put_value_def put_bytes_u16_def put_bytes_u32_def put_u32_def put_u64_def leaf_entry_bytes_def
      key_bytes_def dict_footprint_def put_raw_append fits_def)

lemma put_child_run:
  "fits s (length pre + (2 + length (fst e) + 8)) \<Longrightarrow> put_dict_child e (put_raw pre s) = put_raw (pre @ child_bytes e) s"
  by (simp add: put_dict_child_def put_bytes_u16_def put_u64_def child_bytes_def key_bytes_def put_raw_append fits_def)

lemma put_leaf_run:
  "fits s (length pre + sum_list (map dict_footprint es)) \<Longrightarrow>
   fold put_leaf_entry es (put_raw pre s) = put_raw (pre @ concat (map leaf_entry_bytes es)) s"
proof (induction es arbitrary: pre)
  case (Cons e es)
  then show ?case using Cons.IH [of "pre @ leaf_entry_bytes e"] by (simp add: put_leaf_entry_run fits_def)
qed simp

lemma put_inner_run:
  "fits s (length pre + sum_list (map (\<lambda>(k, _). 2 + length k + 8) es)) \<Longrightarrow>
   fold put_dict_child es (put_raw pre s) = put_raw (pre @ concat (map child_bytes es)) s"
proof (induction es arbitrary: pre)
  case (Cons e es)
  then show ?case using Cons.IH [of "pre @ child_bytes e"] by (simp add: put_child_run fits_def split_beta)
qed simp

section \<open>Reading a run back\<close>

lemma get_key_at:
  assumes "holds_at page off (key_bytes k)" "off + 2 + length k \<le> content_end" "length k < 65536"
  shows "get_bytes_u16 page off content_end page_no what = Inr (k, off + 2 + length k)"
proof -
  have "read_u16 page off = Some (word_of_nat (length k))" "holds_at page (off + 2) k"
    using assms(1) by (simp_all add: key_bytes_def holds_at_append)
  then show ?thesis using assms(2,3) by (simp add: get_bytes_u16_def u16_of_nat holds_at_def)
qed

definition value_ok :: "dict_value \<Rightarrow> bool" where
  "value_ok v \<longleftrightarrow> (case v of DInline b \<Rightarrow> length b < 2 ^ 32 | DOverflow total_len first_page \<Rightarrow> first_page \<noteq> 0)"

lemma decode_value_at:
  assumes "holds_at page off (value_bytes v)" "off + value_len v \<le> content_end" "value_ok v"
  shows "dict_decode_value page off content_end page_no = Inr (v, off + value_len v)"
proof (cases v)
  case (DInline b)
  have h: "holds_at page off [0]" "holds_at page (Suc off) (u32_to_le (word_of_nat (length b)))" "holds_at page (5 + off) b"
    using holds_at_Cons [of page off VALUE_INLINE "u32_to_le (word_of_nat (length b)) @ b"] assms(1) DInline by (simp_all add: holds_at_append)
  show ?thesis
    using h assms DInline
    by (simp add: dict_decode_value_def holds_at_get_at [OF h(1)] get_bytes_u32_def dict_read_u32_def value_ok_def unat_of_nat holds_at_def)
next
  case (DOverflow l p)
  have h: "holds_at page off [1]" "holds_at page (Suc off) (u32_to_le l)" "holds_at page (5 + off) (u64_to_le p)"
    using holds_at_Cons [of page off VALUE_OVERFLOW "u32_to_le l @ u64_to_le p"] assms(1) DOverflow by (simp_all add: holds_at_append)
  show ?thesis
    using h assms DOverflow
    by (simp add: dict_decode_value_def holds_at_get_at [OF h(1)] get_u32_def get_u64_def dict_read_u32_def value_ok_def)
qed

definition ascending_from :: "bytes option \<Rightarrow> bytes list \<Rightarrow> bool" where
  "ascending_from prev ks \<longleftrightarrow> sorted_wrt (<) (case prev of Some p \<Rightarrow> p # ks | None \<Rightarrow> ks)"

lemma ascending_from_Cons: "ascending_from prev (k # ks) \<longleftrightarrow> (case prev of Some p \<Rightarrow> p < k | None \<Rightarrow> True) \<and> ascending_from (Some k) ks"
  by (cases prev) (auto simp: ascending_from_def)

lemma decode_leaf_at:
  assumes "holds_at page off (concat (map leaf_entry_bytes es))" "off + sum_list (map dict_footprint es) \<le> content_end" "content_end < 65536"
    "ascending_from prev (map de_key es)" "\<forall>e \<in> set es. value_ok (de_value e)"
  shows "dict_leaf_entries page page_no content_end prev off (length es) = Inr es"
  using assms
proof (induction es arbitrary: prev off)
  case (Cons e es)
  let ?k = "off + 2 + length (de_key e)"
  have h: "holds_at page off (key_bytes (de_key e))" "holds_at page ?k (value_bytes (de_value e))"
      "holds_at page (off + dict_footprint e) (concat (map leaf_entry_bytes es))"
    using Cons.prems(1) by (simp_all add: holds_at_append leaf_entry_bytes_def [of e] dict_footprint_def add.assoc)
  have b: "?k + value_len (de_value e) = off + dict_footprint e" by (simp add: dict_footprint_def)
  have "dict_leaf_entries page page_no content_end (Some (de_key e)) (off + dict_footprint e) (length es) = Inr es"
    using Cons.prems h by (intro Cons.IH) (simp_all add: ascending_from_Cons)
  moreover have "get_bytes_u16 page off content_end page_no ''dict leaf key'' = Inr (de_key e, ?k)"
    using Cons.prems b by (intro get_key_at h) simp_all
  moreover have "dict_decode_value page ?k content_end page_no = Inr (de_value e, off + dict_footprint e)"
    using Cons.prems decode_value_at [OF h(2), of content_end page_no] b by simp
  ultimately show ?case using Cons.prems(4) by (cases prev) (auto simp: ascending_from_Cons)
qed simp

lemma decode_inner_at:
  assumes "holds_at page off (concat (map child_bytes es))" "off + sum_list (map (\<lambda>(k, _). 2 + length k + 8) es) \<le> content_end"
    "content_end < 65536" "ascending_from prev (map fst es)" "\<forall>e \<in> set es. snd e \<noteq> 0"
  shows "dict_inner_entries page page_no content_end prev off (length es) = Inr es"
  using assms
proof (induction es arbitrary: prev off)
  case (Cons e es)
  let ?k = "off + 2 + length (fst e)"
  have h: "holds_at page off (key_bytes (fst e))" "holds_at page ?k (u64_to_le (snd e))" "holds_at page (?k + 8) (concat (map child_bytes es))"
    using Cons.prems(1) by (simp_all add: holds_at_append child_bytes_def [of e] add.assoc)
  have "dict_inner_entries page page_no content_end (Some (fst e)) (?k + 8) (length es) = Inr es"
    using Cons.prems h by (intro Cons.IH) (auto simp: ascending_from_Cons split_beta)
  moreover have "get_bytes_u16 page off content_end page_no ''dict inner key'' = Inr (fst e, ?k)"
    using Cons.prems by (intro get_key_at h) (simp_all add: split_beta)
  moreover have "get_u64 page ?k page_no = Inr (snd e, ?k + 8)" using h by (simp add: get_u64_def)
  ultimately show ?case using Cons.prems(4,5) by (cases prev) (auto simp: ascending_from_Cons)
qed simp

section \<open>The node round trip\<close>

text \<open>A page with a header and one run behind it, then stamped.\<close>

lemma stamped_run:
  assumes "page = stamp_page_checksum xxh (fst (put_raw bs (page_header_encode_into h (replicate n 0), 16)))" "16 + length bs + 8 \<le> n"
  shows "page_header_decode page = Some h" "holds_at page 16 bs" "length page = n"
proof -
  let ?p0 = "page_header_encode_into h (replicate n 0)"
  let ?p = "write_bytes ?p0 16 bs"
  have page: "page = stamp_page_checksum xxh ?p" using assms by (simp add: put_raw_def)
  have hd: "holds_at ?p 0 (page_header_bytes h)"
    using assms(2) page_header_encode_seg [of "replicate n 0" h] by (simp add: holds_at_write_other) (simp add: holds_at_def)
  have bs: "holds_at ?p 16 bs" using assms(2) by (intro holds_at_write) simp
  show "page_header_decode page = Some h"
    using stamp_holds [OF hd, of xxh] assms(2) unfolding page by (intro page_header_decode_seg) (simp_all add: holds_at_def)
  show "holds_at page 16 bs" using stamp_holds [OF bs, of xxh] assms(2) unfolding page by simp
  show "length page = n" by (simp add: page)
qed

definition dict_leaf_ok :: "dict_entry list \<Rightarrow> bool" where
  "dict_leaf_ok es \<longleftrightarrow> sorted_wrt (<) (map de_key es) \<and> (\<forall>e \<in> set es. value_ok (de_value e))"

definition dict_inner_ok :: "dict_inner \<Rightarrow> bool" where
  "dict_inner_ok node \<longleftrightarrow> sorted_wrt (<) (map fst (di_entries node)) \<and> (\<forall>e \<in> set (di_entries node). snd e \<noteq> 0) \<and> di_rightmost node \<noteq> 0"

lemma count_le_footprint: "length es \<le> sum_list (map dict_footprint es)"
  by (induction es) (auto simp: dict_footprint_def)

lemma count_le_children: "length es \<le> sum_list (map (\<lambda>(k, _). 2 + length k + 8) es)"
  by (induction es) auto

lemma length_leaf_run: "length (concat (map leaf_entry_bytes es)) = sum_list (map dict_footprint es)"
  by (simp add: length_concat comp_def)

lemma length_inner_run: "length (concat (map child_bytes es)) = sum_list (map (\<lambda>(k, _). 2 + length k + 8) es)"
  by (induction es) (auto simp: split_beta)

lemma dict_leaf_roundtrip:
  assumes enc: "dict_encode_leaf xxh es ps spec = Some page" and ok: "dict_leaf_ok es" and ps: "page_size_is_valid ps"
  shows "dict_decode_node page page_no spec = Inr (DLeaf es)" "length page = unat ps"
proof -
  let ?h = "\<lparr>ph_page_type = ds_dict spec, ph_entry_count = word_of_nat (length es), ph_next_page = 0\<rparr>"
  let ?bs = "NODE_LEAF # concat (map leaf_entry_bytes es)"
  have big: "512 \<le> unat ps" "unat ps \<le> 65536" using page_size_bounds [OF ps] by auto
  have fit: "16 + length ?bs + 8 \<le> unat ps"
    using enc big length_leaf_run [of es] by (auto simp: dict_encode_leaf_def Let_def not_less split: if_splits)
  have run: "fold put_leaf_entry es (put_raw [NODE_LEAF] s) = put_raw ?bs s" if "s = (page_header_encode_into ?h (replicate (unat ps) 0), 16)" for s
    using put_leaf_run [of s "[NODE_LEAF]" es] fit length_leaf_run [of es] that by (simp add: fits_def)
  have "page = stamp_page_checksum xxh (fst (put_raw ?bs (page_header_encode_into ?h (replicate (unat ps) 0), 16)))"
    using enc run by (auto simp: dict_encode_leaf_def Let_def split_beta split: if_splits)
  note page = stamped_run [OF this fit]
  have n: "unat (word_of_nat (length es) :: u32) = length es"
    using fit big length_leaf_run [of es] count_le_footprint [of es] by (simp add: unat_of_nat)
  have at: "holds_at page 16 [2]" "holds_at page 17 (concat (map leaf_entry_bytes es))"
    using page(2) holds_at_Cons [of page 16 NODE_LEAF "concat (map leaf_entry_bytes es)"] by auto
  have "dict_leaf_entries page page_no (unat ps - 8) None 17 (length es) = Inr es"
    using at(2) fit big ok length_leaf_run [of es] by (intro decode_leaf_at) (simp_all add: ascending_from_def dict_leaf_ok_def)
  then show "dict_decode_node page page_no spec = Inr (DLeaf es)"
    using page(1,3) n holds_at_get_at [OF at(1)] by (simp add: dict_decode_node_def Let_def)
  show "length page = unat ps" by (rule page(3))
qed

lemma dict_inner_roundtrip:
  assumes enc: "dict_encode_inner xxh node ps spec = Some page" and ok: "dict_inner_ok node" and ps: "page_size_is_valid ps"
  shows "dict_decode_node page page_no spec = Inr (DInner node)" "length page = unat ps"
proof -
  let ?es = "di_entries node"
  let ?h = "\<lparr>ph_page_type = ds_dict spec, ph_entry_count = word_of_nat (length ?es), ph_next_page = 0\<rparr>"
  let ?pre = "NODE_INNER # u64_to_le (di_rightmost node)"
  let ?bs = "?pre @ concat (map child_bytes ?es)"
  have big: "512 \<le> unat ps" "unat ps \<le> 65536" using page_size_bounds [OF ps] by auto
  have ne: "?es \<noteq> []" using enc by (auto simp: dict_encode_inner_def)
  have fit: "16 + length ?bs + 8 \<le> unat ps"
    using enc big length_inner_run [of ?es] by (auto simp: dict_encode_inner_def Let_def not_less split: if_splits)
  have run: "fold put_dict_child ?es (put_u64 (di_rightmost node) (put_raw [NODE_INNER] s)) = put_raw ?bs s"
    if "s = (page_header_encode_into ?h (replicate (unat ps) 0), 16)" for s
    using put_inner_run [of s ?pre ?es] put_raw_append [of s "[NODE_INNER]" "u64_to_le (di_rightmost node)"]
      fit length_inner_run [of ?es] that by (simp add: fits_def put_u64_def)
  have "page = stamp_page_checksum xxh (fst (put_raw ?bs (page_header_encode_into ?h (replicate (unat ps) 0), 16)))"
    using enc run by (auto simp: dict_encode_inner_def Let_def split_beta split: if_splits)
  note page = stamped_run [OF this fit]
  have n: "unat (word_of_nat (length ?es) :: u32) = length ?es"
    using fit big length_inner_run [of ?es] count_le_children [of ?es] by (simp add: unat_of_nat)
  have at: "holds_at page 16 [1]" "holds_at page 17 (u64_to_le (di_rightmost node))" "holds_at page 25 (concat (map child_bytes ?es))"
    using page(2) holds_at_Cons [of page 16 NODE_INNER "u64_to_le (di_rightmost node) @ concat (map child_bytes ?es)"] by (auto simp: holds_at_append)
  have "dict_inner_entries page page_no (unat ps - 8) None 25 (length ?es) = Inr ?es"
    using at(3) fit big ok length_inner_run [of ?es] by (intro decode_inner_at) (simp_all add: ascending_from_def dict_inner_ok_def)
  then show "dict_decode_node page page_no spec = Inr (DInner node)"
    using page(1,3) n ne ok at(2) holds_at_get_at [OF at(1)] by (simp add: dict_decode_node_def Let_def get_u64_def dict_inner_ok_def)
  show "length page = unat ps" by (rule page(3))
qed

section \<open>Reading a chain\<close>

fun dict_chain :: "(u64 \<Rightarrow> bytes option) \<Rightarrow> page_type \<Rightarrow> u64 list \<Rightarrow> bytes list \<Rightarrow> bool" where
  "dict_chain V t [] cs \<longleftrightarrow> cs = []"
| "dict_chain V t (p # pgs) [] \<longleftrightarrow> False"
| "dict_chain V t (p # pgs) (c # cs) \<longleftrightarrow> p \<noteq> 0 \<and>
     (\<exists>page. V p = Some page \<and> get_range page 16 (16 + length c) = Some c \<and>
        page_header_decode page = Some \<lparr>ph_page_type = t, ph_entry_count = word_of_nat (length c),
          ph_next_page = (case pgs of q # _ \<Rightarrow> q | [] \<Rightarrow> 0)\<rparr>) \<and>
     dict_chain V t pgs cs"

lemma read_dict_chain_chain:
  assumes "serves src V ps" "dict_chain V (ds_overflow spec) pgs cs" "pgs \<noteq> []"
    "\<forall>c \<in> set cs. length c \<le> overflow_capacity ps" "\<forall>c \<in> set (tl cs). c \<noteq> []" "overflow_capacity ps < 65536"
  shows "read_dict_chain src spec (length (concat cs)) (hd pgs) out = Some (Inr (out @ concat cs))"
  using assms(2-5)
proof (induction pgs arbitrary: cs out)
  case (Cons p pgs)
  obtain c cs' where cs: "cs = c # cs'" using Cons.prems(1) by (cases cs) auto
  let ?h = "\<lparr>ph_page_type = ds_overflow spec, ph_entry_count = word_of_nat (length c),
          ph_next_page = (case pgs of q # _ \<Rightarrow> q | [] \<Rightarrow> 0)\<rparr> :: page_header"
  obtain page where page: "V p = Some page" "get_range page 16 (16 + length c) = Some c" "page_header_decode page = Some ?h"
    and rest: "dict_chain V (ds_overflow spec) pgs cs'" using Cons.prems(1) cs by auto
  have src: "src_page src p = Inr page" "src_page_size src = ps" using assms(1) page(1) by (simp_all add: serves_def)
  have c: "length c \<le> overflow_capacity ps" using Cons.prems(3) cs by simp
  then have u: "unat (word_of_nat (length c) :: u32) = length c" using assms(6) by (simp add: unat_of_nat)
  have step: "read_dict_chain src spec (length (concat cs)) p out =
    (if concat cs' = [] then Some (Inr (out @ c))
     else if ph_next_page ?h = 0 then Some (Inl (malformed p ''broken dict overflow chain''))
     else read_dict_chain src spec (length (concat cs')) (ph_next_page ?h) (out @ c))"
    by (subst read_dict_chain.simps) (use c src page u in \<open>simp add: cs not_le\<close>)
  show ?case
  proof (cases pgs)
    case Nil
    then show ?thesis using step rest by (simp add: cs)
  next
    case (Cons q qs)
    then obtain d ds where d: "cs' = d # ds" "q \<noteq> 0" "d \<noteq> []" using rest Cons.prems(4) cs by (cases cs') auto
    have "read_dict_chain src spec (length (concat cs')) q (out @ c) = Some (Inr ((out @ c) @ concat cs'))"
      using Cons.IH [OF rest, of "out @ c"] Cons.prems(3,4) cs d(1) Cons by (cases ds) simp_all
    then show ?thesis using step Cons d by (simp add: cs)
  qed
qed simp

text \<open>The reader returns when no page of its chain is empty: each hop then takes a byte off the length.\<close>

lemma read_dict_chain_returns:
  assumes full: "\<And>p page hdr. src_page src p = Inr page \<Longrightarrow> page_header_decode page = Some hdr \<Longrightarrow>
      ph_page_type hdr = ds_overflow spec \<Longrightarrow> ph_entry_count hdr \<noteq> 0"
  shows "read_dict_chain src spec remaining page_no out \<noteq> None"
proof (induction remaining arbitrary: page_no out rule: less_induct)
  case (less n)
  show ?case
  proof (cases "\<exists>page hdr. src_page src page_no = Inr page \<and> page_header_decode page = Some hdr \<and> ph_page_type hdr = ds_overflow spec")
    case True
    then obtain page hdr where h: "src_page src page_no = Inr page" "page_header_decode page = Some hdr" "ph_page_type hdr = ds_overflow spec" by blast
    have "0 < unat (ph_entry_count hdr)" using full [OF h] by (simp add: unat_gt_0)
    then have "read_dict_chain src spec (n - unat (ph_entry_count hdr)) q o2 \<noteq> None" if "\<not> n < unat (ph_entry_count hdr)" for q o2
      using less.IH [of "n - unat (ph_entry_count hdr)" q o2] that by simp
    then show ?thesis using h by (subst read_dict_chain.simps) (auto split: option.split)
  next
    case False
    then show ?thesis by (subst read_dict_chain.simps) (auto split: sum.split option.split)
  qed
qed

text \<open>An empty page that names itself is read forever.\<close>

lemma read_dict_chain_loops:
  assumes "src_page src p = Inr page" "page_header_decode page = Some hdr" "ph_page_type hdr = ds_overflow spec"
    "ph_entry_count hdr = 0" "ph_next_page hdr = p" "p \<noteq> 0" "0 < remaining"
  shows "read_dict_chain src spec remaining p out = None"
proof -
  have g: "get_range page 16 16 = Some []"
    using page_header_decode_Some [OF assms(2)] by (simp add: get_range_def seg_def)
  have "src' = src \<longrightarrow> spec' = spec \<longrightarrow> q = p \<longrightarrow> n = 0" if "read_dict_chain src' spec' n q o2 = Some y" for src' spec' n q o2 y
    by (rule read_dict_chain.raw_induct [rotated, where P = "\<lambda>src' spec' n q o2 y. src' = src \<longrightarrow> spec' = spec \<longrightarrow> q = p \<longrightarrow> n = 0", OF that])
      (use assms(1-6) g in \<open>fastforce split: if_splits\<close>)
  then show ?thesis using assms(7) by (cases "read_dict_chain src spec remaining p out") fastforce+
qed

section \<open>Writing a chain\<close>

lemma dict_overflow_page_read:
  assumes "page_size_is_valid ps" "length c \<le> overflow_capacity ps"
  shows "length (dict_overflow_page xxh spec ps q c) = unat ps"
    "get_range (dict_overflow_page xxh spec ps q c) 16 (16 + length c) = Some c"
    "page_header_decode (dict_overflow_page xxh spec ps q c) = Some \<lparr>ph_page_type = ds_overflow spec, ph_entry_count = word_of_nat (length c), ph_next_page = q\<rparr>"
    "stamp_page_checksum xxh (dict_overflow_page xxh spec ps q c) = dict_overflow_page xxh spec ps q c"
proof -
  have fit: "16 + length c + 8 \<le> unat ps" using assms usable_bounds [OF assms(1)] by (simp add: overflow_capacity_def)
  let ?h = "\<lparr>ph_page_type = ds_overflow spec, ph_entry_count = word_of_nat (length c), ph_next_page = q\<rparr> :: page_header"
  have "dict_overflow_page xxh spec ps q c = stamp_page_checksum xxh (fst (put_raw c (page_header_encode_into ?h (replicate (unat ps) 0), 16)))"
    using fit by (simp add: dict_overflow_page_def put_raw_def)
  note page = stamped_run [OF this fit]
  show "length (dict_overflow_page xxh spec ps q c) = unat ps" "page_header_decode (dict_overflow_page xxh spec ps q c) = Some ?h"
    using page by simp_all
  show "get_range (dict_overflow_page xxh spec ps q c) 16 (16 + length c) = Some c" by (rule holds_at_range [OF page(2)])
  show "stamp_page_checksum xxh (dict_overflow_page xxh spec ps q c) = dict_overflow_page xxh spec ps q c"
    by (simp add: dict_overflow_page_def stamp_idem)
qed

definition dict_chunks :: "u32 \<Rightarrow> bytes \<Rightarrow> bytes list" where
  "dict_chunks ps body = (if body = [] then [[]] else chunks (overflow_capacity ps) body)"

lemma dict_chunks_props:
  assumes "page_size_is_valid ps"
  shows "dict_chunks ps body \<noteq> []" "concat (dict_chunks ps body) = body" "\<forall>c \<in> set (dict_chunks ps body). length c \<le> overflow_capacity ps"
    "\<forall>c \<in> set (tl (dict_chunks ps body)). c \<noteq> []"
proof -
  have cap: "0 < overflow_capacity ps" using usable_bounds [OF assms] by (simp add: overflow_capacity_def)
  show "dict_chunks ps body \<noteq> []" using chunks_step [OF cap, of body] by (simp add: dict_chunks_def)
  show "concat (dict_chunks ps body) = body" using concat_chunks [OF cap, of body] by (simp add: dict_chunks_def)
  show "\<forall>c \<in> set (dict_chunks ps body). length c \<le> overflow_capacity ps" using chunks_bounds [OF cap] by (auto simp: dict_chunks_def)
  show "\<forall>c \<in> set (tl (dict_chunks ps body)). c \<noteq> []"
    using chunks_bounds [OF cap, of _ body] by (cases "chunks (overflow_capacity ps) body") (auto simp: dict_chunks_def)
qed

section \<open>Splitting a leaf\<close>

abbreviation dict_footprints :: "dict_entry list \<Rightarrow> nat" where
  "dict_footprints es \<equiv> sum_list (map dict_footprint es)"

text \<open>What \<^const>\<open>make_value\<close> puts into a leaf.\<close>

definition dict_entry_ok :: "dict_spec \<Rightarrow> u32 \<Rightarrow> dict_entry \<Rightarrow> bool" where
  "dict_entry_ok spec ps e \<longleftrightarrow> length (de_key e) \<le> ds_max_key_len spec \<and>
     (case de_value e of DInline b \<Rightarrow> length b \<le> max_inline_body spec ps | DOverflow total_len first_page \<Rightarrow> first_page \<noteq> 0)"

text \<open>On small pages an entry may exceed a quarter of the usable bytes, by at most 22 bytes.\<close>

lemma dict_entry_footprint:
  assumes "dict_entry_ok spec ps e" "page_size_is_valid ps" "ds_max_key_len spec \<le> 129"
  shows "dict_footprint e \<le> usable ps div 4 + 22"
proof -
  have "122 \<le> usable ps div 4" using usable_bounds(2) [OF assms(2)] by simp
  then show ?thesis
    using assms by (auto simp: dict_footprint_def dict_entry_ok_def max_inline_body_def max_entry_footprint_def split: dict_value.splits)
qed

lemma dict_encode_leaf_None: "page_size_is_valid ps \<Longrightarrow> dict_encode_leaf xxh es ps spec = None \<longleftrightarrow> usable ps < 1 + dict_footprints es"
  using usable_bounds [of ps] by (auto simp: dict_encode_leaf_def Let_def split_beta)

lemma dict_leaf_cut_bounds:
  assumes "acc < half" "half \<le> acc + dict_footprints es" "\<forall>e \<in> set es. dict_footprint e \<le> m"
  shows "0 < dict_leaf_cut half acc es" "dict_leaf_cut half acc es \<le> length es"
    "half \<le> acc + dict_footprints (take (dict_leaf_cut half acc es) es)"
    "acc + dict_footprints (take (dict_leaf_cut half acc es) es) < half + m"
  using assms by (induction half acc es rule: dict_leaf_cut.induct) (auto simp: Let_def)

lemma dict_leaf_halves:
  assumes ps: "page_size_is_valid ps" and m: "\<forall>e \<in> set es. dict_footprint e \<le> usable ps div 4 + 22"
    and big: "usable ps < 1 + dict_footprints es" "1 + dict_footprints es \<le> usable ps + (usable ps div 4 + 22)"
    and c: "c = dict_leaf_cut (dict_footprints es div 2) 0 es"
  shows "take c es \<noteq> []" "drop c es \<noteq> []" "1 + dict_footprints (take c es) \<le> usable ps" "1 + dict_footprints (drop c es) \<le> usable ps"
proof -
  let ?u = "usable ps" and ?T = "dict_footprints es"
  have u: "488 \<le> ?u" using usable_bounds(2) [OF ps] .
  have pre: "0 < ?T div 2" "?T div 2 \<le> 0 + ?T" using big u by simp_all
  note b = dict_leaf_cut_bounds [OF pre m, folded c]
  have sum: "dict_footprints (take c es) + dict_footprints (drop c es) = ?T"
    by (metis append_take_drop_id map_append sum_list_append)
  have le: "dict_footprints (take c es) < ?T div 2 + (?u div 4 + 22)" "?T div 2 \<le> dict_footprints (take c es)" using b by simp_all
  show "take c es \<noteq> []" using b(1,2) by (cases es) auto
  show "1 + dict_footprints (take c es) \<le> ?u" "1 + dict_footprints (drop c es) \<le> ?u" using le sum big u by linarith+
  have "0 < dict_footprints (drop c es)" using le sum big u by linarith
  then show "drop c es \<noteq> []" by auto
qed

lemma dict_leaf_ok_parts: "dict_leaf_ok (l @ r) \<Longrightarrow> dict_leaf_ok l \<and> dict_leaf_ok r"
  by (auto simp: dict_leaf_ok_def sorted_wrt_append)

lemma dict_encode_stamped: "dict_encode_leaf xxh es ps spec = Some page \<Longrightarrow> stamp_page_checksum xxh page = page"
  by (auto simp: dict_encode_leaf_def Let_def split_beta stamp_idem split: if_splits)

section \<open>Splitting an inner node\<close>

abbreviation dict_children :: "(bytes \<times> u64) list \<Rightarrow> nat" where
  "dict_children es \<equiv> sum_list (map (\<lambda>(k, _). 2 + length k + 8) es)"

lemma dict_encode_inner_None:
  "page_size_is_valid ps \<Longrightarrow> dict_encode_inner xxh node ps spec = None \<longleftrightarrow> di_entries node = [] \<or> usable ps < 9 + dict_children (di_entries node)"
  using usable_bounds [of ps] by (auto simp: dict_encode_inner_def Let_def split_beta)

lemma dict_encode_inner_stamped: "dict_encode_inner xxh node ps spec = Some page \<Longrightarrow> stamp_page_checksum xxh page = page"
  by (auto simp: dict_encode_inner_def Let_def split_beta stamp_idem split: if_splits)

lemma dict_children_bounds:
  assumes "\<forall>e \<in> set es. length (fst e) \<le> 129"
  shows "10 * length es \<le> dict_children es" "dict_children es \<le> 139 * length es"
  using assms by (induction es) auto

text \<open>The split is by the number of entries. From 2048 bytes on both halves fit; on the two smaller page sizes they may not.\<close>

lemma dict_inner_halves:
  assumes ps: "page_size_is_valid ps" "2048 \<le> unat ps" and k: "\<forall>e \<in> set es. length (fst e) \<le> 129"
    and big: "usable ps < 9 + dict_children es" "9 + dict_children es \<le> usable ps + 139" and m: "m = length es div 2"
  shows "take m es \<noteq> []" "drop (m + 1) es \<noteq> []" "9 + dict_children (take m es) \<le> usable ps" "9 + dict_children (drop (m + 1) es) \<le> usable ps"
proof -
  let ?u = "usable ps" and ?L = "take m es" and ?R = "drop (m + 1) es"
  have u: "2024 \<le> ?u" using usable_bounds(1) [OF ps(1)] ps(2) by simp
  have "139 * length es > 2000" using big(1) dict_children_bounds(2) [OF k] u by linarith
  then have n: "3 \<le> length es" by linarith
  then have ml: "1 \<le> m" "m + 1 < length es" using m by linarith+
  then have es: "es = ?L @ es ! m # ?R" using id_take_nth_drop [of m es] by simp
  have sum: "dict_children es = dict_children ?L + dict_children (es ! m # ?R)"
    by (subst es) (simp only: map_append sum_list_append)
  have kk: "\<forall>e \<in> set ?L. length (fst e) \<le> 129" "\<forall>e \<in> set (es ! m # ?R). length (fst e) \<le> 129" "\<forall>e \<in> set ?R. length (fst e) \<le> 129"
    using k ml by (auto dest: in_set_takeD in_set_dropD)
  note b = dict_children_bounds [OF kk(1)] dict_children_bounds [OF kk(2)] dict_children_bounds [OF kk(3)]
  have len: "length ?L = m" "length (es ! m # ?R) = length es - m" "length ?R = length es - m - 1" using ml by simp_all
  have half: "m \<le> length es - m" "length es - m - 1 \<le> m" using m by linarith+
  have R: "dict_children ?R + 10 \<le> dict_children (es ! m # ?R)" by (simp add: split_beta)
  show "take m es \<noteq> []" "drop (m + 1) es \<noteq> []" using ml by auto
  show "9 + dict_children ?L \<le> ?u" using b(2,3) len(1,2) half(1) sum big u by linarith
  show "9 + dict_children ?R \<le> ?u" using b(1,6) len(1,3) half(2) sum R big u by linarith
qed

end
