(* ===== verification/Graph.thy ===== *)
theory Graph
  imports Dict_Correct Memory_Record "HOL-Library.Product_Lexorder"
begin

text \<open>
  The knowledge graph (\<^verbatim>\<open>index/graph.rs\<close>): the meta page, the two kinds of value bodies (the members of an entity,
  the adjacency of a memory) and the operations on them, over the dictionary of \<^theory_text>\<open>Dict\<close>. The dictionary may read
  a chain forever, so an operation that looks something up returns an option, \<open>None\<close> for a call that does not return.
  The en dash in two messages is written as a hyphen.
\<close>

definition MAX_ENTITY_LEN :: nat where [simp]: "MAX_ENTITY_LEN = 128"
definition MAX_KIND_LEN :: nat where [simp]: "MAX_KIND_LEN = 64"

definition GRAPH_DICT :: dict_spec where
  "GRAPH_DICT = \<lparr>ds_dict = GraphDict, ds_overflow = GraphOverflow, ds_max_key_len = 1 + MAX_ENTITY_LEN\<rparr>"

definition KEY_ENTITY :: byte where [simp]: "KEY_ENTITY = 1"
definition KEY_MEMORY :: byte where [simp]: "KEY_MEMORY = 2"
definition DIR_OUT :: byte where [simp]: "DIR_OUT = 0"
definition DIR_IN :: byte where [simp]: "DIR_IN = 1"
definition EDGE_FIXED_LEN :: nat where [simp]: "EDGE_FIXED_LEN = 1 + 2 + 16"

definition entity_key :: "rstring \<Rightarrow> bytes" where "entity_key name = KEY_ENTITY # name"
definition memory_key :: "ulid \<Rightarrow> bytes" where "memory_key i = KEY_MEMORY # i"

section \<open>The meta page\<close>

record graph_meta =
  gm_entity_count :: u64
  gm_relation_count :: u64
  gm_dict_root :: u64

definition graph_meta_empty :: graph_meta where
  "graph_meta_empty = \<lparr>gm_entity_count = 0, gm_relation_count = 0, gm_dict_root = 0\<rparr>"

definition graph_meta_encode :: "hash64 \<Rightarrow> graph_meta \<Rightarrow> u32 \<Rightarrow> bytes" where
  "graph_meta_encode xxh m ps =
     (let page = page_header_encode_into \<lparr>ph_page_type = GraphDict, ph_entry_count = 0, ph_next_page = 0\<rparr> (replicate (unat ps) 0);
          s = put_raw [NODE_META] (page, PAGE_HEADER_LEN);
          s = put_u64 (gm_entity_count m) s;
          s = put_u64 (gm_relation_count m) s;
          (page, off) = put_u64 (gm_dict_root m) s
      in stamp_page_checksum xxh page)"

definition graph_meta_decode :: "bytes \<Rightarrow> u64 \<Rightarrow> graph_meta result" where
  "graph_meta_decode page page_no =
     bind_result (ok_or (malformed page_no ''graph page header'') (page_header_decode page)) (\<lambda>hdr.
     if ph_page_type hdr \<noteq> GraphDict then Inl (malformed page_no ''not a graph page'')
     else let off = PAGE_HEADER_LEN in
     if get_at page off \<noteq> Some NODE_META then Inl (malformed page_no ''not a graph meta page'')
     else let off = off + 1 in
     bind_result (get_u64 page off page_no) (\<lambda>(entity_count, off).
     bind_result (get_u64 page off page_no) (\<lambda>(relation_count, off).
     bind_result (get_u64 page off page_no) (\<lambda>(dict_root, off).
       Inr \<lparr>gm_entity_count = entity_count, gm_relation_count = relation_count, gm_dict_root = dict_root\<rparr>))))"

definition load_meta :: "page_source \<Rightarrow> u64 \<Rightarrow> (graph_meta option) result" where
  "load_meta src root =
     (if root = 0 then Inr None
      else bind_result (src_page src root) (\<lambda>page. bind_result (graph_meta_decode page root) (\<lambda>m. Inr (Some m))))"

definition save_meta :: "hash64 \<Rightarrow> pager \<Rightarrow> sim_state \<Rightarrow> graph_meta \<Rightarrow> txn \<Rightarrow> unit result \<times> txn" where
  "save_meta xxh pg st m tx =
     bind_st (if txn_graph_root_page pg tx = 0 then allocate_page xxh pg tx else (Inr (txn_graph_root_page pg tx), tx)) (\<lambda>page_no tx.
     bind_st (write_page xxh pg page_no (graph_meta_encode xxh m (page_size (pg_header pg))) tx) (\<lambda>_ tx.
       (Inr (), set_graph_root_page page_no tx)))"

section \<open>The members of an entity\<close>

type_synonym members = "ulid list"

text \<open>An insertion that keeps a list sorted by a key; the flag says whether the element is new.\<close>

definition insert_by :: "('a \<Rightarrow> 'k::linorder) \<Rightarrow> 'a \<Rightarrow> 'a list \<Rightarrow> bool \<times> 'a list" where
  "insert_by f x xs = (case binary_search (map f xs) (f x) of Inr _ \<Rightarrow> (False, xs) | Inl i \<Rightarrow> (True, take i xs @ x # drop i xs))"

definition members_insert :: "ulid \<Rightarrow> members \<Rightarrow> bool \<times> members" where
  "members_insert i ids = insert_by (\<lambda>x. x) i ids"

definition members_encode :: "members \<Rightarrow> bytes" where
  "members_encode ids = u32_to_le (word_of_nat (length ids)) @ concat ids"

fun decode_ids :: "bytes \<Rightarrow> u64 \<Rightarrow> ulid option \<Rightarrow> nat \<Rightarrow> nat \<Rightarrow> (ulid list) result" where
  "decode_ids body page_no prev off 0 = Inr []"
| "decode_ids body page_no prev off (Suc n) =
     bind_result (ok_or (malformed page_no ''graph member id'') (get_range body off (off + 16))) (\<lambda>i.
     if (case prev of Some p \<Rightarrow> i \<le> p | None \<Rightarrow> False) then Inl (malformed page_no ''unsorted graph members'')
     else bind_result (decode_ids body page_no (Some i) (off + 16) n) (\<lambda>rest. Inr (i # rest)))"

definition members_decode :: "bytes \<Rightarrow> u64 \<Rightarrow> members result" where
  "members_decode body page_no =
     bind_result (dict_read_u32 body 0 page_no) (\<lambda>count.
     if length body < 4 + unat count * 16 then Inl (malformed page_no ''graph members truncated'')
     else decode_ids body page_no None 4 (unat count))"

section \<open>The adjacency of a memory\<close>

record edge =
  ed_outgoing :: bool
  ed_kind :: rstring
  ed_other :: ulid

definition dir_byte :: "bool \<Rightarrow> byte" where
  "dir_byte outgoing = (if outgoing then DIR_OUT else DIR_IN)"

definition edge_sort_key :: "edge \<Rightarrow> byte \<times> bytes \<times> bytes" where
  "edge_sort_key e = (dir_byte (ed_outgoing e), ed_kind e, ed_other e)"

record memory_graph =
  mg_entities :: "rstring list"
  mg_edges :: "edge list"

definition memory_graph_default :: memory_graph where
  "memory_graph_default = \<lparr>mg_entities = [], mg_edges = []\<rparr>"

definition insert_entity :: "rstring \<Rightarrow> memory_graph \<Rightarrow> bool \<times> memory_graph" where
  "insert_entity name g = (case insert_by (\<lambda>x. x) name (mg_entities g) of (b, es) \<Rightarrow> (b, g\<lparr>mg_entities := es\<rparr>))"

definition insert_edge :: "edge \<Rightarrow> memory_graph \<Rightarrow> bool \<times> memory_graph" where
  "insert_edge e g = (case insert_by edge_sort_key e (mg_edges g) of (b, es) \<Rightarrow> (b, g\<lparr>mg_edges := es\<rparr>))"

definition entity_bytes :: "rstring \<Rightarrow> bytes" where
  "entity_bytes name = u16_to_le (word_of_nat (length name)) @ name"

definition edge_bytes :: "edge \<Rightarrow> bytes" where
  "edge_bytes e = dir_byte (ed_outgoing e) # u16_to_le (word_of_nat (length (ed_kind e))) @ ed_kind e @ ed_other e"

definition memory_graph_encode :: "memory_graph \<Rightarrow> bytes result" where
  "memory_graph_encode g =
     (if 2 ^ 16 \<le> length (mg_entities g) then Inl (InvalidArgument ''too many entities on one memory'')
      else if 2 ^ 32 \<le> length (mg_edges g) then Inl (InvalidArgument ''too many edges on one memory'')
      else Inr (u16_to_le (word_of_nat (length (mg_entities g))) @ concat (map entity_bytes (mg_entities g)) @
                u32_to_le (word_of_nat (length (mg_edges g))) @ concat (map edge_bytes (mg_edges g))))"

fun decode_entities :: "bytes \<Rightarrow> u64 \<Rightarrow> rstring option \<Rightarrow> nat \<Rightarrow> nat \<Rightarrow> (rstring list \<times> nat) result" where
  "decode_entities body page_no prev off 0 = Inr ([], off)"
| "decode_entities body page_no prev off (Suc n) =
     bind_result (get_bytes_u16 body off (length body) page_no ''graph entity name'') (\<lambda>(name, off).
     if name = [] \<or> MAX_ENTITY_LEN < length name then Inl (malformed page_no ''graph entity name length'')
     else if (case prev of Some p \<Rightarrow> name \<le> p | None \<Rightarrow> False) then Inl (malformed page_no ''unsorted graph entities'')
     else bind_result (ok_or (malformed page_no ''graph entity not utf-8'') (from_utf8 name)) (\<lambda>owned.
          bind_result (decode_entities body page_no (Some name) off n) (\<lambda>(rest, off). Inr (owned # rest, off))))"

fun decode_edges :: "bytes \<Rightarrow> u64 \<Rightarrow> edge option \<Rightarrow> nat \<Rightarrow> nat \<Rightarrow> (edge list) result" where
  "decode_edges body page_no prev off 0 = Inr []"
| "decode_edges body page_no prev off (Suc n) =
     bind_result (ok_or (malformed page_no ''graph edge direction'') (get_at body off)) (\<lambda>dir.
     if dir \<noteq> DIR_OUT \<and> dir \<noteq> DIR_IN then Inl (malformed page_no ''graph edge direction byte'')
     else let off = off + 1 in
     bind_result (get_bytes_u16 body off (length body) page_no ''graph edge kind'') (\<lambda>(kind, off).
     if kind = [] \<or> MAX_KIND_LEN < length kind then Inl (malformed page_no ''graph edge kind length'')
     else bind_result (ok_or (malformed page_no ''graph edge kind not utf-8'') (from_utf8 kind)) (\<lambda>kind.
     bind_result (ok_or (malformed page_no ''graph edge other id'') (get_range body off (off + 16))) (\<lambda>id_bytes.
     let off = off + 16;
         e = \<lparr>ed_outgoing = (dir = DIR_OUT), ed_kind = kind, ed_other = id_bytes\<rparr>
     in if (case prev of Some p \<Rightarrow> edge_sort_key e \<le> edge_sort_key p | None \<Rightarrow> False) then Inl (malformed page_no ''unsorted graph edges'')
        else bind_result (decode_edges body page_no (Some e) off n) (\<lambda>rest. Inr (e # rest))))))"

definition memory_graph_decode :: "bytes \<Rightarrow> u64 \<Rightarrow> memory_graph result" where
  "memory_graph_decode body page_no =
     bind_result (get_u16 body 0 page_no) (\<lambda>(entity_count, off).
     if length body - off < unat entity_count * 3 then Inl (malformed page_no ''graph entity count exceeds body'')
     else bind_result (decode_entities body page_no None off (unat entity_count)) (\<lambda>(entities, off).
     bind_result (get_u32 body off page_no) (\<lambda>(edge_count, off).
     if length body - off < unat edge_count * (EDGE_FIXED_LEN + 1) then Inl (malformed page_no ''graph edge count exceeds body'')
     else bind_result (decode_edges body page_no None off (unat edge_count)) (\<lambda>edges.
       Inr \<lparr>mg_entities = entities, mg_edges = edges\<rparr>))))"

section \<open>Reading\<close>

definition get_members :: "page_source \<Rightarrow> u64 \<Rightarrow> rstring \<Rightarrow> (members option) result option" where
  "get_members src root name =
     map_option (\<lambda>r. bind_result r (\<lambda>found. case found of
         Some (body, page_no) \<Rightarrow> bind_result (members_decode body page_no) (\<lambda>m. Inr (Some m))
       | None \<Rightarrow> Inr None))
       (dict_get src GRAPH_DICT root (entity_key name))"

definition get_adjacency :: "page_source \<Rightarrow> u64 \<Rightarrow> ulid \<Rightarrow> (memory_graph option) result option" where
  "get_adjacency src root i =
     map_option (\<lambda>r. bind_result r (\<lambda>found. case found of
         Some (body, page_no) \<Rightarrow> bind_result (memory_graph_decode body page_no) (\<lambda>g. Inr (Some g))
       | None \<Rightarrow> Inr None))
       (dict_get src GRAPH_DICT root (memory_key i))"

definition entity_members :: "page_source \<Rightarrow> u64 \<Rightarrow> rstring \<Rightarrow> (ulid list) result option" where
  "entity_members src graph_root entity =
     (case load_meta src graph_root of
        Inl e \<Rightarrow> Some (Inl e)
      | Inr None \<Rightarrow> Some (Inr [])
      | Inr (Some m) \<Rightarrow>
          map_option (\<lambda>r. bind_result r (\<lambda>found. Inr (case found of Some ids \<Rightarrow> ids | None \<Rightarrow> [])))
            (get_members src (gm_dict_root m) entity))"

definition read_memory_graph :: "page_source \<Rightarrow> u64 \<Rightarrow> ulid \<Rightarrow> (memory_graph option) result option" where
  "read_memory_graph src graph_root i =
     (case load_meta src graph_root of
        Inl e \<Rightarrow> Some (Inl e)
      | Inr None \<Rightarrow> Some (Inr None)
      | Inr (Some m) \<Rightarrow> get_adjacency src (gm_dict_root m) i)"

definition graph_stats :: "page_source \<Rightarrow> u64 \<Rightarrow> (u64 \<times> u64) result" where
  "graph_stats src graph_root =
     bind_result (load_meta src graph_root) (\<lambda>found.
       Inr (case found of Some m \<Rightarrow> (gm_entity_count m, gm_relation_count m) | None \<Rightarrow> (0, 0)))"

section \<open>Writing\<close>

type_synonym 'a run = "('a result \<times> txn) option"

definition bind_run :: "'a run \<Rightarrow> ('a \<Rightarrow> txn \<Rightarrow> 'b run) \<Rightarrow> 'b run" where
  "bind_run r f = (case r of None \<Rightarrow> None | Some (Inl e, tx) \<Rightarrow> Some (Inl e, tx) | Some (Inr x, tx) \<Rightarrow> f x tx)"

definition lookup_run :: "('a result) option \<Rightarrow> txn \<Rightarrow> 'a run" where
  "lookup_run r tx = map_option (\<lambda>x. (x, tx)) r"

definition sat_succ64 :: "u64 \<Rightarrow> u64" where
  "sat_succ64 n = (if unat n + 1 = 2 ^ 64 then n else n + 1)"

text \<open>The two loops of \<^verbatim>\<open>add_memory\<close>: over the names, and over the relations.\<close>

fun add_entities :: "hash64 \<Rightarrow> pager \<Rightarrow> sim_state \<Rightarrow> ulid \<Rightarrow> rstring list \<Rightarrow> memory_graph \<Rightarrow> u64 \<Rightarrow> graph_meta \<Rightarrow> txn \<Rightarrow>
    (memory_graph \<times> u64 \<times> graph_meta) run" where
  "add_entities xxh pg st i [] adj root m tx = Some (Inr (adj, root, m), tx)"
| "add_entities xxh pg st i (name # names) adj root m tx =
     (case insert_entity name adj of
        (False, adj) \<Rightarrow> add_entities xxh pg st i names adj root m tx
      | (True, adj) \<Rightarrow>
          bind_run (lookup_run (get_members (txn_source xxh pg st tx) root name) tx) (\<lambda>found tx.
          let ids = snd (members_insert i (case found of Some ids \<Rightarrow> ids | None \<Rightarrow> [])) in
          bind_run (Some (dict_upsert xxh (txn_ops xxh pg st) GRAPH_DICT root (entity_key name) (members_encode ids) tx)) (\<lambda>root tx.
          add_entities xxh pg st i names adj root
            (if found = None then m\<lparr>gm_entity_count := sat_succ64 (gm_entity_count m)\<rparr> else m) tx)))"

fun add_relations :: "hash64 \<Rightarrow> pager \<Rightarrow> sim_state \<Rightarrow> ulid \<Rightarrow> (rstring \<times> ulid) list \<Rightarrow> memory_graph \<Rightarrow> u64 \<Rightarrow> graph_meta \<Rightarrow> txn \<Rightarrow>
    (memory_graph \<times> u64 \<times> graph_meta) run" where
  "add_relations xxh pg st i [] adj root m tx = Some (Inr (adj, root, m), tx)"
| "add_relations xxh pg st i ((kind, to) # rels) adj root m tx =
     (case insert_edge \<lparr>ed_outgoing = True, ed_kind = kind, ed_other = to\<rparr> adj of
        (False, adj) \<Rightarrow> add_relations xxh pg st i rels adj root m tx
      | (True, adj) \<Rightarrow>
          bind_run (lookup_run (get_adjacency (txn_source xxh pg st tx) root to) tx) (\<lambda>found tx.
          let target = snd (insert_edge \<lparr>ed_outgoing = False, ed_kind = kind, ed_other = i\<rparr>
                (case found of Some g \<Rightarrow> g | None \<Rightarrow> memory_graph_default)) in
          bind_run (Some (memory_graph_encode target, tx)) (\<lambda>body tx.
          bind_run (Some (dict_upsert xxh (txn_ops xxh pg st) GRAPH_DICT root (memory_key to) body tx)) (\<lambda>root tx.
          add_relations xxh pg st i rels adj root (m\<lparr>gm_relation_count := sat_succ64 (gm_relation_count m)\<rparr>) tx))))"

definition check_memory :: "ulid \<Rightarrow> rstring list \<Rightarrow> (rstring \<times> ulid) list \<Rightarrow> unit result" where
  "check_memory i entities relations =
     (if \<exists>name \<in> set entities. name = [] \<or> MAX_ENTITY_LEN < length name
      then Inl (InvalidArgument ''entity name must be 1-128 bytes of UTF-8'')
      else case find (\<lambda>(kind, to). kind = [] \<or> MAX_KIND_LEN < length kind \<or> to = i) relations of
             None \<Rightarrow> Inr ()
           | Some (kind, to) \<Rightarrow>
               Inl (InvalidArgument (if kind = [] \<or> MAX_KIND_LEN < length kind then ''relation kind must be 1-64 bytes of UTF-8''
                                     else ''a memory cannot relate to itself'')))"

definition add_memory :: "hash64 \<Rightarrow> pager \<Rightarrow> sim_state \<Rightarrow> ulid \<Rightarrow> rstring list \<Rightarrow> (rstring \<times> ulid) list \<Rightarrow> txn \<Rightarrow> unit run" where
  "add_memory xxh pg st i entities relations tx =
     (if entities = [] \<and> relations = [] then Some (Inr (), tx)
      else bind_run (Some (check_memory i entities relations, tx)) (\<lambda>_ tx.
      bind_run (Some (load_meta (txn_source xxh pg st tx) (txn_graph_root_page pg tx), tx)) (\<lambda>found tx.
      let m = (case found of Some m \<Rightarrow> m | None \<Rightarrow> graph_meta_empty); root = gm_dict_root m in
      bind_run (lookup_run (get_adjacency (txn_source xxh pg st tx) root i) tx) (\<lambda>found tx.
      let adj = (case found of Some g \<Rightarrow> g | None \<Rightarrow> memory_graph_default) in
      bind_run (add_entities xxh pg st i (remdups_adj (sort entities)) adj root m tx) (\<lambda>(adj, root, m) tx.
      bind_run (add_relations xxh pg st i (remdups_adj (sort relations)) adj root m tx) (\<lambda>(adj, root, m) tx.
      bind_run (Some (memory_graph_encode adj, tx)) (\<lambda>body tx.
      bind_run (Some (dict_upsert xxh (txn_ops xxh pg st) GRAPH_DICT root (memory_key i) body tx)) (\<lambda>root tx.
        Some (save_meta xxh pg st (m\<lparr>gm_dict_root := root\<rparr>) tx)))))))))"

section \<open>Sorted insertion\<close>

lemma insert_by_outcome:
  assumes "sorted_wrt (<) (map f xs)" "insert_by f x xs = (b, ys)"
  shows "sorted_wrt (<) (map f ys)" "set ys = (if b then insert x (set xs) else set xs)" "b \<longleftrightarrow> f x \<notin> f ` set xs"
    "length ys = (if b then Suc (length xs) else length xs)"
proof -
  have "sorted_wrt (<) (map f ys) \<and> set ys = (if b then insert x (set xs) else set xs) \<and> (b \<longleftrightarrow> f x \<notin> f ` set xs) \<and>
    length ys = (if b then Suc (length xs) else length xs)"
  proof (cases "binary_search (map f xs) (f x)")
    case (Inl i)
    note h = binary_search_Inl [OF Inl assms(1)]
    have ys: "b" "ys = take i xs @ x # drop i xs" using assms(2) Inl by (simp_all add: insert_by_def)
    have "sorted_wrt (<) (map f (take i xs @ drop i xs))" using assms(1) by simp
    then have "sorted_wrt (<) (map f (take i xs))" "sorted_wrt (<) (map f (drop i xs))" unfolding map_append sorted_wrt_append by blast+
    moreover have lt: "\<forall>y \<in> set (map f (take i xs)). y < f x" "\<forall>y \<in> set (map f (drop i xs)). f x < y" using h(3,4) by (simp_all add: take_map drop_map)
    ultimately have "sorted_wrt (<) (map f (take i xs) @ f x # map f (drop i xs))"
      unfolding sorted_wrt_append by (fastforce intro: less_trans)
    moreover have "set ys = insert x (set (take i xs @ drop i xs))" unfolding ys(2) by (simp del: append_take_drop_id)
    moreover have "length ys = Suc (length xs)" using h(1) ys by simp
    ultimately show ?thesis using ys h(2) by simp
  next
    case (Inr i)
    then have "f x \<in> f ` set xs" using binary_search_Inr [OF Inr] nth_mem [of i "map f xs"] by simp
    then show ?thesis using assms Inr by (simp add: insert_by_def)
  qed
  then show "sorted_wrt (<) (map f ys)" "set ys = (if b then insert x (set xs) else set xs)" "b \<longleftrightarrow> f x \<notin> f ` set xs"
    "length ys = (if b then Suc (length xs) else length xs)" by blast+
qed

section \<open>Bodies read back\<close>

definition members_ok :: "members \<Rightarrow> bool" where
  "members_ok ids \<longleftrightarrow> sorted_wrt (<) ids \<and> (\<forall>i \<in> set ids. length i = 16)"

lemma length_ids: "\<forall>i \<in> set ids. length i = 16 \<Longrightarrow> length (concat ids) = 16 * length ids"
  by (induction ids) auto

lemma after_Cons_key: "ascending_from prev (k # ks) \<longleftrightarrow> (case prev of Some p \<Rightarrow> \<not> k \<le> p | None \<Rightarrow> True) \<and> ascending_from (Some k) ks"
  by (auto simp: ascending_from_Cons not_le split: option.split)

lemma decode_ids_at:
  assumes "holds_at body off (concat ids)" "\<forall>i \<in> set ids. length i = 16" "ascending_from prev ids"
  shows "decode_ids body page_no prev off (length ids) = Inr ids"
  using assms
proof (induction ids arbitrary: prev off)
  case (Cons i ids)
  have h: "holds_at body off i" "holds_at body (off + 16) (concat ids)" "length i = 16" using Cons.prems by (simp_all add: holds_at_append)
  have "decode_ids body page_no (Some i) (off + 16) (length ids) = Inr ids"
    using Cons.prems h by (intro Cons.IH) (simp_all add: after_Cons_key)
  then show ?case using Cons.prems(3) holds_at_range [OF h(1)] h(3) by (cases prev) (auto simp: after_Cons_key)
qed simp

lemma members_roundtrip:
  assumes "members_ok ids" "length ids < 2 ^ 32"
  shows "members_decode (members_encode ids) page_no = Inr ids"
proof -
  let ?b = "members_encode ids"
  have u: "unat (word_of_nat (length ids) :: u32) = length ids" using assms(2) by (simp add: unat_of_nat)
  have len: "length ?b = 4 + 16 * length ids" using assms(1) by (simp add: members_encode_def members_ok_def length_ids)
  have h: "holds_at ?b 0 (u32_to_le (word_of_nat (length ids)))" "holds_at ?b 4 (concat ids)"
    using holds_at_here [of "[]" "u32_to_le (word_of_nat (length ids))" "concat ids"]
      holds_at_here [of "u32_to_le (word_of_nat (length ids))" "concat ids" "[]"] by (simp_all add: members_encode_def)
  have "decode_ids ?b page_no None 4 (length ids) = Inr ids"
    using assms(1) h(2) by (intro decode_ids_at) (simp_all add: members_ok_def ascending_from_def)
  then show ?thesis using h(1) u len by (simp add: members_decode_def dict_read_u32_def)
qed

definition entity_ok :: "rstring \<Rightarrow> bool" where
  "entity_ok name \<longleftrightarrow> name \<noteq> [] \<and> length name \<le> MAX_ENTITY_LEN \<and> utf8_valid name"

definition edge_ok :: "edge \<Rightarrow> bool" where
  "edge_ok e \<longleftrightarrow> ed_kind e \<noteq> [] \<and> length (ed_kind e) \<le> MAX_KIND_LEN \<and> utf8_valid (ed_kind e) \<and> length (ed_other e) = 16"

definition memory_graph_ok :: "memory_graph \<Rightarrow> bool" where
  "memory_graph_ok g \<longleftrightarrow> sorted_wrt (<) (mg_entities g) \<and> (\<forall>name \<in> set (mg_entities g). entity_ok name) \<and>
     sorted_wrt (<) (map edge_sort_key (mg_edges g)) \<and> (\<forall>e \<in> set (mg_edges g). edge_ok e)"

lemma decode_entities_at:
  assumes "holds_at body off (concat (map entity_bytes names))" "\<forall>name \<in> set names. entity_ok name" "ascending_from prev names"
  shows "decode_entities body page_no prev off (length names) = Inr (names, off + length (concat (map entity_bytes names)))"
  using assms
proof (induction names arbitrary: prev off)
  case (Cons name names)
  have ok: "entity_ok name" using Cons.prems(2) by simp
  let ?o = "off + 2 + length name"
  have h: "holds_at body off (key_bytes name)" "holds_at body ?o (concat (map entity_bytes names))"
    using Cons.prems(1) by (simp_all add: holds_at_append entity_bytes_def [of name] key_bytes_def add.assoc)
  have "?o \<le> length body" using holds_at_length [OF h(2)] by simp
  then have "get_bytes_u16 body off (length body) page_no ''graph entity name'' = Inr (name, ?o)"
    using ok by (intro get_key_at h) (simp_all add: entity_ok_def)
  moreover have "decode_entities body page_no (Some name) ?o (length names) = Inr (names, ?o + length (concat (map entity_bytes names)))"
    using Cons.prems h by (intro Cons.IH) (simp_all add: after_Cons_key)
  ultimately show ?case
    using Cons.prems(3) ok by (cases prev) (auto simp: after_Cons_key entity_ok_def from_utf8_def entity_bytes_def [of name] not_less add.assoc)
qed simp

definition edges_after :: "edge option \<Rightarrow> edge list \<Rightarrow> bool" where
  "edges_after prev es \<longleftrightarrow> sorted_wrt (<) (map edge_sort_key (case prev of Some p \<Rightarrow> p # es | None \<Rightarrow> es))"

lemma edges_after_Cons:
  "edges_after prev (e # es) \<longleftrightarrow> (case prev of Some p \<Rightarrow> \<not> edge_sort_key e \<le> edge_sort_key p | None \<Rightarrow> True) \<and> edges_after (Some e) es"
  by (cases prev) (auto simp: edges_after_def not_le intro: less_trans)

lemma decode_edges_at:
  assumes "holds_at body off (concat (map edge_bytes es))" "\<forall>e \<in> set es. edge_ok e" "edges_after prev es"
  shows "decode_edges body page_no prev off (length es) = Inr es"
  using assms
proof (induction es arbitrary: prev off)
  case (Cons e es)
  have ok: "edge_ok e" using Cons.prems(2) by simp
  let ?k = "off + 1 + 2 + length (ed_kind e)"
  have "holds_at body off (edge_bytes e)" and rest: "holds_at body (off + length (edge_bytes e)) (concat (map edge_bytes es))"
    using Cons.prems(1) by (simp_all add: holds_at_append)
  then have h: "holds_at body off [dir_byte (ed_outgoing e)]" "holds_at body (off + 1) (key_bytes (ed_kind e))" "holds_at body ?k (ed_other e)"
    using holds_at_Cons [of body off "dir_byte (ed_outgoing e)" "key_bytes (ed_kind e) @ ed_other e"]
    by (simp_all add: edge_bytes_def key_bytes_def holds_at_append add.assoc)
  have l: "length (edge_bytes e) = 1 + 2 + length (ed_kind e) + 16" using ok by (simp add: edge_bytes_def edge_ok_def)
  have o: "?k + 16 = off + length (edge_bytes e)" using l by simp
  have "?k \<le> length body" using holds_at_length [OF h(3)] by simp
  then have "get_bytes_u16 body (off + 1) (length body) page_no ''graph edge kind'' = Inr (ed_kind e, ?k)"
    using ok by (intro get_key_at h) (simp_all add: edge_ok_def)
  moreover have "get_range body ?k (?k + 16) = Some (ed_other e)" using holds_at_range [OF h(3)] ok by (simp add: edge_ok_def)
  moreover have "decode_edges body page_no (Some e) (?k + 16) (length es) = Inr es"
    unfolding o using Cons.prems rest by (intro Cons.IH) (simp_all add: edges_after_Cons)
  moreover have "\<lparr>ed_outgoing = (dir_byte (ed_outgoing e) = 0), ed_kind = ed_kind e, ed_other = ed_other e\<rparr> = e" by (simp add: dir_byte_def)
  moreover have "dir_byte (ed_outgoing e) = 0 \<or> dir_byte (ed_outgoing e) = 1" by (simp add: dir_byte_def)
  ultimately show ?case
    using Cons.prems(3) ok holds_at_get_at [OF h(1)] by (cases prev) (auto simp: edges_after_Cons edge_ok_def from_utf8_def not_less Let_def)
qed simp

lemma entities_length: "\<forall>name \<in> set names. entity_ok name \<Longrightarrow> 3 * length names \<le> length (concat (map entity_bytes names))"
proof (induction names)
  case (Cons name names)
  then have "3 \<le> length (entity_bytes name)" by (auto simp: entity_ok_def entity_bytes_def Suc_le_eq)
  then show ?case using Cons by simp
qed simp

lemma edges_length: "\<forall>e \<in> set es. edge_ok e \<Longrightarrow> 20 * length es \<le> length (concat (map edge_bytes es))"
proof (induction es)
  case (Cons e es)
  then have "20 \<le> length (edge_bytes e)" by (auto simp: edge_ok_def edge_bytes_def Suc_le_eq)
  then show ?case using Cons by simp
qed simp

lemma memory_graph_roundtrip:
  assumes enc: "memory_graph_encode g = Inr body" and ok: "memory_graph_ok g"
  shows "memory_graph_decode body page_no = Inr g"
proof -
  let ?n = "mg_entities g" and ?e = "mg_edges g"
  let ?N = "concat (map entity_bytes ?n)" and ?E = "concat (map edge_bytes ?e)"
  let ?c = "u16_to_le (word_of_nat (length ?n))" and ?d = "u32_to_le (word_of_nat (length ?e))"
  have c: "length ?n < 2 ^ 16" "length ?e < 2 ^ 32" and body: "body = ?c @ ?N @ ?d @ ?E"
    using enc by (auto simp: memory_graph_encode_def split: if_splits)
  have u: "unat (word_of_nat (length ?n) :: u16) = length ?n" "unat (word_of_nat (length ?e) :: u32) = length ?e"
    using c by (simp_all add: unat_of_nat)
  have h: "holds_at body 0 ?c" "holds_at body 2 ?N" "holds_at body (2 + length ?N) ?d" "holds_at body (2 + length ?N + 4) ?E"
    using holds_at_here [of "[]" "?c @ ?N @ ?d @ ?E" "[]"] by (simp_all add: body holds_at_append add.assoc numeral_2_eq_2)
  have "decode_entities body page_no None 2 (length ?n) = Inr (?n, 2 + length ?N)"
    using ok h(2) by (intro decode_entities_at) (simp_all add: memory_graph_ok_def ascending_from_def)
  moreover have "decode_edges body page_no None (2 + length ?N + 4) (length ?e) = Inr ?e"
    using ok h(4) by (intro decode_edges_at) (simp_all add: memory_graph_ok_def edges_after_def)
  moreover have "length ?n * 3 \<le> length body - 2" "length ?e * 20 \<le> length body - (2 + length ?N + 4)"
    using ok entities_length [of ?n] edges_length [of ?e] by (simp_all add: memory_graph_ok_def body mult.commute)
  ultimately show ?thesis
    using h(1,3) u by (simp add: memory_graph_decode_def get_u16_def get_u32_def dict_read_u32_def not_less numeral_2_eq_2)
qed

lemma graph_meta_roundtrip:
  assumes "page_size_is_valid ps"
  shows "graph_meta_decode (graph_meta_encode xxh m ps) page_no = Inr m" "length (graph_meta_encode xxh m ps) = unat ps"
proof -
  let ?h = "\<lparr>ph_page_type = GraphDict, ph_entry_count = 0, ph_next_page = 0\<rparr> :: page_header"
  let ?bs = "NODE_META # u64_to_le (gm_entity_count m) @ u64_to_le (gm_relation_count m) @ u64_to_le (gm_dict_root m)"
  let ?s = "(page_header_encode_into ?h (replicate (unat ps) 0), 16)" and ?page = "graph_meta_encode xxh m ps"
  have fit: "16 + length ?bs + 8 \<le> unat ps" using page_size_bounds [OF assms] by simp
  have f: "fits ?s n" if "n \<le> 25" for n using that fit by (simp add: fits_def)
  have "?page = stamp_page_checksum xxh (fst (put_raw ?bs ?s))"
    using put_raw_append [OF f, of "[NODE_META]" "u64_to_le (gm_entity_count m)"]
      put_raw_append [OF f, of "NODE_META # u64_to_le (gm_entity_count m)" "u64_to_le (gm_relation_count m)"]
      put_raw_append [OF f, of "NODE_META # u64_to_le (gm_entity_count m) @ u64_to_le (gm_relation_count m)" "u64_to_le (gm_dict_root m)"]
    by (simp add: graph_meta_encode_def Let_def split_beta put_u64_def)
  note page = stamped_run [OF this fit]
  have "holds_at ?page 16 [0]" "holds_at ?page 17 (u64_to_le (gm_entity_count m))" "holds_at ?page 25 (u64_to_le (gm_relation_count m))"
      "holds_at ?page 33 (u64_to_le (gm_dict_root m))"
    using page(2) holds_at_Cons [of ?page 16 NODE_META "u64_to_le (gm_entity_count m) @ u64_to_le (gm_relation_count m) @ u64_to_le (gm_dict_root m)"]
    by (simp_all add: holds_at_append)
  then show "graph_meta_decode ?page page_no = Inr m"
    using page(1) holds_at_get_at [of ?page 16 0] by (simp add: graph_meta_decode_def Let_def get_u64_def)
  show "length ?page = unat ps" by (rule page(3))
qed

section \<open>Only well-formed bodies are accepted\<close>

lemma decode_ids_ok:
  "decode_ids body page_no prev off n = Inr ids \<Longrightarrow> ascending_from prev ids \<and> (\<forall>i \<in> set ids. length i = 16) \<and> length ids = n"
proof (induction n arbitrary: prev off ids)
  case 0
  then show ?case by (cases prev) (simp_all add: ascending_from_def)
next
  case (Suc n)
  then show ?case
    by (cases "get_range body off (off + 16)"; cases prev)
      (auto simp: get_range_def after_Cons_key bind_result_Inr_iff split: if_splits)
qed

lemma members_decode_ok: "members_decode body page_no = Inr ids \<Longrightarrow> members_ok ids"
  using decode_ids_ok [of body page_no None 4 _ ids]
  by (auto simp: members_decode_def members_ok_def ascending_from_def bind_result_Inr_iff split: if_splits)

lemma decode_entities_ok:
  "decode_entities body page_no prev off n = Inr (names, off') \<Longrightarrow> ascending_from prev names \<and> (\<forall>name \<in> set names. entity_ok name)"
proof (induction n arbitrary: prev off names)
  case 0
  then show ?case by (cases prev) (simp_all add: ascending_from_def)
next
  case (Suc n)
  then obtain name o2 rest where h: "name \<noteq> []" "length name \<le> 128" "utf8_valid name" "case prev of Some p \<Rightarrow> \<not> name \<le> p | None \<Rightarrow> True"
      "decode_entities body page_no (Some name) o2 n = Inr (rest, off')" "names = name # rest"
    by (cases prev) (auto simp: bind_result_Inr_iff from_utf8_def split: if_splits elim!: ok_or.elims)
  then show ?case using Suc.IH [OF h(5)] by (auto simp: after_Cons_key entity_ok_def)
qed

lemma decode_edges_ok:
  "decode_edges body page_no prev off n = Inr es \<Longrightarrow> edges_after prev es \<and> (\<forall>e \<in> set es. edge_ok e)"
proof (induction n arbitrary: prev off es)
  case 0
  then show ?case by (cases prev) (simp_all add: edges_after_def)
next
  case (Suc n)
  from Suc.prems show ?case
    by (cases prev) (auto simp: bind_result_Inr_iff from_utf8_def get_range_def edges_after_Cons edge_ok_def Let_def not_less
        split: if_splits elim!: ok_or.elims dest!: Suc.IH)
qed

lemma memory_graph_decode_ok: "memory_graph_decode body page_no = Inr g \<Longrightarrow> memory_graph_ok g"
  using decode_entities_ok [of body page_no None] decode_edges_ok [of body page_no None]
  by (fastforce simp: memory_graph_decode_def memory_graph_ok_def ascending_from_def edges_after_def bind_result_Inr_iff split: if_splits)

end
