(* ===== verification/Dict_Tree.thy ===== *)
theory Dict_Tree
  imports Dict_Correct
begin

text \<open>
  The dictionary against an ordered map: its pages are an instance of the trees on pages of \<^theory_text>\<open>Paged_Tree\<close>, its lookup of the
  locale \<open>tree_reader\<close> and its upsert of \<open>tree_writer\<close>. Keys are byte strings up to the cap of the spec, values shorter than
  4 GiB. The split of an inner node needs pages of 2048 bytes or more.
\<close>

section \<open>The format\<close>

definition dict_value_of :: "bytes \<Rightarrow> u64 list \<Rightarrow> dict_value" where
  "dict_value_of v pgs = (case pgs of [] \<Rightarrow> DInline v | p # _ \<Rightarrow> DOverflow (word_of_nat (length v)) p)"

definition dict_entry_of :: "gentry \<Rightarrow> dict_entry" where
  "dict_entry_of e = (case e of (k, v, pgs) \<Rightarrow> \<lparr>de_key = k, de_value = dict_value_of v pgs\<rparr>)"

definition dict_entry_in :: "dict_spec \<Rightarrow> u32 \<Rightarrow> view \<Rightarrow> gentry \<Rightarrow> bool" where
  "dict_entry_in spec ps V e \<longleftrightarrow> (case e of (k, v, pgs) \<Rightarrow> length v < 2 ^ 32 \<and>
     (if pgs = [] then length v \<le> max_inline_body spec ps else dict_chain V (ds_overflow spec) pgs (dict_chunks ps v)))"

definition dict_leaf_page :: "dict_spec \<Rightarrow> u32 \<Rightarrow> view \<Rightarrow> u64 \<Rightarrow> gentry list \<Rightarrow> bool" where
  "dict_leaf_page spec ps V p es \<longleftrightarrow> p \<noteq> 0 \<and>
     (\<exists>page. V p = Some page \<and> dict_decode_node page p spec = Inr (DLeaf (map dict_entry_of es))) \<and>
     1 + dict_footprints (map dict_entry_of es) \<le> usable ps"

abbreviation dict_node_of :: "(bytes \<times> u64) list \<Rightarrow> u64 \<Rightarrow> dict_inner" where
  "dict_node_of cs r \<equiv> \<lparr>di_entries = cs, di_rightmost = r\<rparr>"

definition dict_inner_page :: "dict_spec \<Rightarrow> u32 \<Rightarrow> view \<Rightarrow> u64 \<Rightarrow> (bytes \<times> u64) list \<Rightarrow> u64 \<Rightarrow> bool" where
  "dict_inner_page spec ps V p cs r \<longleftrightarrow> p \<noteq> 0 \<and>
     (\<exists>page. V p = Some page \<and> dict_decode_node page p spec = Inr (DInner (dict_node_of cs r))) \<and> 9 + dict_children cs \<le> usable ps"

abbreviation dict_key :: "dict_spec \<Rightarrow> bytes \<Rightarrow> bool" where
  "dict_key spec \<equiv> \<lambda>k. length k \<le> ds_max_key_len spec"

text \<open>What a root page number of the dictionary stands for, and the pages it uses.\<close>

abbreviation dict_at :: "dict_spec \<Rightarrow> u32 \<Rightarrow> view \<Rightarrow> u64 \<Rightarrow> (bytes \<times> bytes) list \<Rightarrow> u64 set \<Rightarrow> bool" where
  "dict_at spec ps \<equiv> tree_at (dict_key spec) (dict_entry_in spec ps) (dict_leaf_page spec ps) (dict_inner_page spec ps)"

lemma dict_chain_dom: "dict_chain V t pgs cs \<Longrightarrow> set pgs \<subseteq> dom V - {0}"
  by (induction V t pgs cs rule: dict_chain.induct) auto

lemma dict_chain_cong: "dict_chain V t pgs cs \<Longrightarrow> (\<And>p. p \<in> set pgs \<Longrightarrow> V' p = V p) \<Longrightarrow> dict_chain V' t pgs cs"
  by (induction V t pgs cs rule: dict_chain.induct) auto

lemma dict_chain_length: "dict_chain V t pgs cs \<Longrightarrow> length pgs = length cs"
  by (induction V t pgs cs rule: dict_chain.induct) auto

lemma dict_entry_chain: "dict_entry_in spec ps V e \<Longrightarrow> set (chain_of e) \<subseteq> dom V - {0}"
  using dict_chain_dom by (fastforce simp: dict_entry_in_def chain_of_def split: prod.splits if_splits)

interpretation dict_format: tree_format "dict_entry_in spec ps" "dict_leaf_page spec ps" "dict_inner_page spec ps" for spec ps
proof
  fix V V' :: view and e
  show "dict_entry_in spec ps V e \<Longrightarrow> set (chain_of e) \<subseteq> dom V - {0}" by (rule dict_entry_chain)
  show "dict_entry_in spec ps V e \<Longrightarrow> (\<And>q. q \<in> set (chain_of e) \<Longrightarrow> V' q = V q) \<Longrightarrow> dict_entry_in spec ps V' e"
    using dict_chain_cong [of V "ds_overflow spec" _ _ V'] by (auto simp: dict_entry_in_def chain_of_def split: prod.splits if_splits)
qed (auto simp: dict_leaf_page_def dict_inner_page_def)

section \<open>Lookup\<close>

lemma dict_keys [simp]: "map de_key (map dict_entry_of es) = map fst es"
  by (simp add: dict_entry_of_def split_beta)

lemma dict_value_read:
  assumes "serves src V ps" "page_size_is_valid ps" "dict_entry_in spec ps V (k, v, p # P)"
  shows "read_overflow_chain src p (word_of_nat (length v)) spec = Some (Inr v)"
proof -
  have ch: "dict_chain V (ds_overflow spec) (p # P) (dict_chunks ps v)" "length v < 2 ^ 32" using assms(3) by (simp_all add: dict_entry_in_def)
  have "overflow_capacity ps < 65536" using usable_bounds(1,3) [OF assms(2)] by (simp add: overflow_capacity_def)
  from read_dict_chain_chain [OF assms(1) ch(1) _ dict_chunks_props(3,4) [OF assms(2)] this, of "[]"]
  show ?thesis using dict_chunks_props(2) [OF assms(2)] ch(2) by (simp add: read_overflow_chain_def unat_of_nat)
qed

text \<open>An answer of the lookup, without the page it is reported for.\<close>

definition dict_answer :: "((bytes \<times> u64) option) result option \<Rightarrow> bytes option \<Rightarrow> bool" where
  "dict_answer r x \<longleftrightarrow> (\<exists>y. r = Some (Inr y) \<and> map_option fst y = x)"

lemma dict_get_leaf:
  assumes src: "serves src V ps" "page_size_is_valid ps" and leaf: "dict_leaf_page spec ps V p es"
    and es: "\<forall>e \<in> set es. dict_entry_in spec ps V e" "sorted_wrt (<) (map fst es)"
  shows "dict_answer (dict_get_loop src spec k p (Suc n)) (map_of (map kv_of es) k)"
proof -
  obtain page where rd: "src_page src p = Inr page" "dict_decode_node page p spec = Inr (DLeaf (map dict_entry_of es))"
    using leaf src(1) by (auto simp: dict_leaf_page_def serves_def)
  show ?thesis
  proof (cases "binary_search (map fst es) k")
    case (Inl i)
    have "k \<notin> fst ` set (map kv_of es)" using binary_search_Inl(2) [OF Inl es(2)] by (simp add: image_image)
    then have "map_of (map kv_of es) k = None" by (simp only: map_of_eq_None_iff simp_thms)
    then show ?thesis using Inl rd by (simp add: dict_answer_def del: map_map)
  next
    case (Inr i)
    from around_hit [OF this es(2)] obtain v P where e: "i < length es" "es ! i = (k, v, P)" by blast
    have st: "dict_entry_in spec ps V (k, v, P)" using es(1) e by (metis nth_mem)
    have "distinct (map fst (map kv_of es))" using es(2) by (simp add: strict_sorted_iff)
    moreover have "(k, v) \<in> set (map kv_of es)" using e nth_mem by (force simp: kv_of_def)
    ultimately have "map_of (map kv_of es) k = Some v" by (simp add: map_of_is_SomeI del: map_map set_map)
    then show ?thesis
      using rd Inr e dict_value_read [OF src] st
      by (cases P) (simp_all add: dict_answer_def dict_entry_of_def dict_value_of_def del: map_map)
  qed
qed

interpretation dict_reader: tree_reader "dict_entry_in spec ps" "dict_leaf_page spec ps" "dict_inner_page spec ps"
    "\<lambda>V. serves src V ps \<and> page_size_is_valid ps" "\<lambda>k p n. dict_get_loop src spec k p n" dict_answer for spec ps src
proof
  fix V :: view and p es k n
  assume "serves src V ps \<and> page_size_is_valid ps" "dict_leaf_page spec ps V p es" "\<forall>e \<in> set es. dict_entry_in spec ps V e" "sorted_wrt (<) (map fst es)"
  then show "dict_answer (dict_get_loop src spec k p (Suc n)) (map_of (map kv_of es) k)" using dict_get_leaf by blast
next
  fix V :: view and p cs r k n
  assume a: "serves src V ps \<and> page_size_is_valid ps" "dict_inner_page spec ps V p cs r"
  then obtain page where "src_page src p = Inr page" "dict_decode_node page p spec = Inr (DInner (dict_node_of cs r))"
    by (auto simp: dict_inner_page_def serves_def)
  then show "dict_get_loop src spec k p (Suc n) = dict_get_loop src spec k (child_page k cs r) n"
    by (auto simp: dict_child_for_def child_page_def split: option.split)
qed

lemma dict_get_map:
  assumes "serves src V ps" "page_size_is_valid ps" "dict_at spec ps V r m K"
  shows "dict_answer (dict_get src spec r k) (map_of m k)"
  using assms dict_reader.get_tree_at [of src V ps "dict_key spec" spec r m K k]
  by (cases "r = 0") (auto simp: dict_get_def dict_answer_def)

section \<open>The code in the terms of the format\<close>

fun dict_split_of :: "dict_ins \<Rightarrow> (bytes \<times> u64) option" where
  "dict_split_of DFit = None"
| "dict_split_of (DSplit sep q) = Some (sep, q)"

lemma case_dict_split_of [simp]:
  "(case dict_split_of x of None \<Rightarrow> a | Some y \<Rightarrow> f y) = (case x of DFit \<Rightarrow> a | DSplit sep q \<Rightarrow> f (sep, q))"
  by (cases x) simp_all

abbreviation dict_as_split :: "dict_ins result \<times> 's \<Rightarrow> ((bytes \<times> u64) option) result \<times> 's" where
  "dict_as_split \<equiv> outcome_as dict_split_of"

lemma dict_index_before: "dict_inner_index (dict_node_of cs r) k = length (split_before k cs)"
  by (simp add: dict_inner_index_def split_before_def)

lemma dict_child_page: "dict_inner_child (dict_node_of cs r) (dict_inner_index (dict_node_of cs r) k) = child_page k cs r"
  unfolding dict_inner_index_def child_page_def by (induction cs) (auto simp: dict_inner_child_def)

lemma dict_split_children:
  "dict_split_child (dict_node_of cs r) (dict_inner_index (dict_node_of cs r) k) sep (child_page k cs r) q =
   dict_node_of (split_children k cs r sep q) (split_last k cs r q)"
proof -
  have cs: "cs = split_before k cs @ split_after k cs" by (simp add: split_before_def split_after_def)
  have "dict_split_child (dict_node_of (A @ B) r) (length A) sep c q = dict_node_of (A @ (sep, c) #
     (case B of [] \<Rightarrow> [] | (sep', _) # rest \<Rightarrow> (sep', q) # rest)) (case B of [] \<Rightarrow> q | _ \<Rightarrow> r)" for A B c
    by (cases B) (simp_all add: dict_split_child_def split_beta list_update_append nth_append)
  from this [of "split_before k cs" "split_after k cs"] show ?thesis
    unfolding dict_index_before split_children_def split_last_def cs [symmetric] .
qed

text \<open>The entries a leaf of the tree has are those \<^const>\<open>make_value\<close> makes.\<close>

lemma dict_entry_in_ok: "dict_entry_in spec ps V (k, v, P) \<Longrightarrow> length k \<le> ds_max_key_len spec \<Longrightarrow> dict_entry_ok spec ps (dict_entry_of (k, v, P))"
  using dict_chain_dom [of V "ds_overflow spec" P "dict_chunks ps v"]
  by (cases P) (auto simp: dict_entry_in_def dict_entry_ok_def dict_entry_of_def dict_value_of_def)

lemma dict_entries_ok:
  assumes "sorted_wrt (<) (map fst es)" "\<forall>e \<in> set es. dict_entry_in spec ps V e"
  shows "dict_leaf_ok (map dict_entry_of es)"
proof -
  have "value_ok (de_value (dict_entry_of e))" if "e \<in> set es" for e
  proof -
    obtain k v P where e: "e = (k, v, P)" by (cases e)
    have "dict_entry_in spec ps V (k, v, P)" using assms(2) that e by auto
    then show ?thesis using dict_chain_dom [of V "ds_overflow spec" P "dict_chunks ps v"]
      by (cases P) (auto simp: e dict_entry_in_def dict_entry_of_def dict_value_of_def value_ok_def)
  qed
  then show ?thesis using assms(1) by (simp add: dict_leaf_ok_def del: map_map)
qed

section \<open>The dictionary over a transaction\<close>

locale dict_txn = page_txn po xxh view inv exhausted
  for po :: "'s page_ops" and xxh :: hash64 and view :: "'s \<Rightarrow> u64 \<Rightarrow> bytes option" and inv :: "'s \<Rightarrow> bool" and exhausted :: error +
  fixes spec :: dict_spec
  assumes key_cap: "inv s \<Longrightarrow> ds_max_key_len spec \<le> 129" and page_min: "inv s \<Longrightarrow> 2048 \<le> unat (po_page_size po)"
begin

lemma dict_write_chain_outcome:
  assumes "inv s" "length P = length cs" "distinct P" "set P \<subseteq> dom (view s) - {0}" "\<forall>c \<in> set cs. length c \<le> overflow_capacity ps"
  shows "\<exists>s'. dict_write_chain xxh po spec P cs s = (Inr (), s') \<and> evolves (set P) s s' \<and> dom (view s') = dom (view s) \<and>
    dict_chain (view s') (ds_overflow spec) P cs"
  using assms
proof (induction P arbitrary: cs s)
  case (Cons p P)
  obtain c cs' where cs: "cs = c # cs'" using Cons.prems(2) by (cases cs) auto
  let ?q = "case P of q # _ \<Rightarrow> q | [] \<Rightarrow> 0"
  have c: "length c \<le> overflow_capacity ps" using Cons.prems(5) cs by simp
  note ov = dict_overflow_page_read [OF size_valid [OF Cons.prems(1)] c]
  obtain s1 where s1: "po_write po p (dict_overflow_page xxh spec ps ?q c) s = (Inr (), s1)" "evolves {p} s s1"
      "dom (view s1) = dom (view s)" "view s1 p = Some (dict_overflow_page xxh spec ps ?q c)"
    using Cons.prems(4) ov(1) by (auto intro: write_evolves [OF Cons.prems(1), of p "dict_overflow_page xxh spec ps ?q c"] simp: ov(4))
  obtain s2 where s2: "dict_write_chain xxh po spec P cs' s1 = (Inr (), s2)" "evolves (set P) s1 s2" "dom (view s2) = dom (view s1)"
      "dict_chain (view s2) (ds_overflow spec) P cs'"
    using Cons.IH [of s1 cs'] Cons.prems evolves_inv [OF s1(2)] s1(3) cs by auto
  have "view s2 p = view s1 p" using evolves_keeps [OF s2(2)] Cons.prems(3,4) s1(3) by auto
  then have "dict_chain (view s2) (ds_overflow spec) (p # P) (c # cs')" using s1(4) s2(4) ov Cons.prems(4) by simp
  moreover have "evolves (set (p # P)) s s2"
    by (rule evolves_trans [OF evolves_mono [OF s1(2)] s2(2)]) auto
  ultimately show ?case using s1(1,3) s2(1,3) by (simp add: cs)
qed (simp add: evolves_refl)

lemma write_overflow_chain_outcome:
  assumes "inv s" "distinct R" "set R \<subseteq> dom (view s) - {0}" "write_overflow_chain xxh po body spec R s = (r, s')"
  shows "r = Inl exhausted \<or> (\<exists>P. r = Inr (hd P) \<and> P \<noteq> [] \<and> distinct P \<and> set P \<subseteq> old_or_new (set R) s s' \<and>
    evolves (set R) s s' \<and> dict_chain (view s') (ds_overflow spec) P (dict_chunks ps body))"
proof -
  let ?cs = "dict_chunks ps body"
  note cs = dict_chunks_props [OF size_valid [OF assms(1)], of body]
  have run: "bind_st (pick_pages po R (length ?cs) s) (\<lambda>pages tx. bind_st (dict_write_chain xxh po spec pages ?cs tx) (\<lambda>_ tx.
      (case pages of p # _ \<Rightarrow> Inr p | [] \<Rightarrow> Inl (Internal ''empty dict overflow chain''), tx))) = (r, s')"
    using assms(4) by (simp add: write_overflow_chain_def dict_chunks_def Let_def)
  obtain r1 s1 where pk: "pick_pages po R (length ?cs) s = (r1, s1)" by fastforce
  from pick_pages_outcome [OF assms(1-3) pk] consider "r1 = Inl exhausted" |
    P where "r1 = Inr P" "length P = length ?cs" "distinct P" "set P \<subseteq> old_or_new (set R) s s1" "evolves {} s s1" by auto
  then show ?thesis
  proof cases
    case 2
    have P: "set P \<subseteq> dom (view s1) - {0}" using 2(4) by (auto simp: old_or_new_def)
    from dict_write_chain_outcome [OF evolves_inv [OF 2(5)] 2(2,3) P cs(3)]
    obtain s2 where s2: "dict_write_chain xxh po spec P ?cs s1 = (Inr (), s2)" "evolves (set P) s1 s2" "dom (view s2) = dom (view s1)"
      "dict_chain (view s2) (ds_overflow spec) P ?cs" by blast
    obtain p P' where Pc: "P = p # P'" using 2(2) cs(1) by (cases P) auto
    have "(r, s') = (Inr p, s2)" using run pk s2(1) 2(1) Pc by simp
    moreover have "evolves (set R) s s2"
      using 2(4) by (intro evolves_trans [OF evolves_mono [OF 2(5)] s2(2)]) (auto simp: old_or_new_def)
    moreover have "set P \<subseteq> old_or_new (set R) s s2" using 2(4) s2(3) by (auto simp: old_or_new_def)
    ultimately show ?thesis using 2(3) s2(4) Pc by (auto intro!: exI [of _ P])
  qed (use run pk in simp)
qed

lemma make_value_outcome:
  assumes "inv s" "distinct R" "set R \<subseteq> dom (view s) - {0}" "length v < 2 ^ 32" "make_value xxh po v spec R s = (r, s')"
  shows "r = Inl exhausted \<or> (\<exists>P. r = Inr (dict_value_of v P) \<and> distinct P \<and> set P \<subseteq> old_or_new (set R) s s' \<and>
    evolves (set R) s s' \<and> (\<forall>k. dict_entry_in spec ps (view s') (k, v, P)))"
proof (cases "length v \<le> max_inline_body spec ps")
  case True
  then show ?thesis
    using assms evolves_refl [OF assms(1)]
    by (auto simp: make_value_def dict_value_of_def dict_entry_in_def intro!: exI [of _ "[]"])
next
  case False
  obtain r1 s1 where w: "write_overflow_chain xxh po v spec R s = (r1, s1)" by fastforce
  have out: "(r, s') = bind_st (r1, s1) (\<lambda>p tx. (Inr (DOverflow (word_of_nat (length v)) p), tx))"
    using assms(4,5) False w by (simp add: make_value_def)
  from write_overflow_chain_outcome [OF assms(1-3) w] consider "r1 = Inl exhausted" |
    P where "r1 = Inr (hd P)" "P \<noteq> []" "distinct P" "set P \<subseteq> old_or_new (set R) s s1" "evolves (set R) s s1"
      "dict_chain (view s1) (ds_overflow spec) P (dict_chunks ps v)" by blast
  then show ?thesis
  proof cases
    case 2
    then have "r = Inr (dict_value_of v P)" "s' = s1" using out by (cases P; simp add: dict_value_of_def)+
    moreover have "\<forall>k. dict_entry_in spec ps (view s1) (k, v, P)" using 2(2,6) assms(4) by (simp add: dict_entry_in_def)
    ultimately show ?thesis using 2(3-5) by blast
  qed (use out in simp)
qed

lemma dict_chain_loop_chain:
  assumes "inv s" "dict_chain (view s) (ds_overflow spec) P cs" "P \<noteq> []" "length P \<le> n"
  shows "dict_chain_loop po spec s (hd P) n = Inr P"
  using assms(2-)
proof (induction P arbitrary: cs n)
  case (Cons p P)
  obtain c cs' where cs: "cs = c # cs'" using Cons.prems(1) by (cases cs) auto
  obtain m where n: "n = Suc m" using Cons.prems(3) by (cases n) auto
  obtain page where page: "view s p = Some page" "page_header_decode page = Some \<lparr>ph_page_type = ds_overflow spec,
      ph_entry_count = word_of_nat (length c), ph_next_page = (case P of q # _ \<Rightarrow> q | [] \<Rightarrow> 0)\<rparr>"
    and rest: "dict_chain (view s) (ds_overflow spec) P cs'" using Cons.prems(1) cs by auto
  note rd = read_view [OF assms(1) page(1)]
  show ?case
  proof (cases P)
    case Nil
    then show ?thesis using rd page(2) n by simp
  next
    case (Cons q Q)
    then have "q \<noteq> 0" using rest by (cases cs') auto
    then show ?thesis using Cons.IH [OF rest, of m] rd page(2) n Cons Cons.prems(3) by simp
  qed
qed simp

lemma dict_chain_pages_chain:
  assumes "inv s" "dict_entry_in spec ps (view s) (k, v, P)" "P \<noteq> []"
  shows "dict_chain_pages po (hd P) (word_of_nat (length v)) spec s = Inr P"
proof -
  let ?cap = "overflow_capacity ps"
  have cap: "0 < ?cap" using usable_bounds [OF size_valid [OF assms(1)]] by (simp add: overflow_capacity_def)
  have e: "length v < 2 ^ 32" "dict_chain (view s) (ds_overflow spec) P (dict_chunks ps v)"
    using assms(2,3) by (simp_all add: dict_entry_in_def)
  have "length P = max ((length v + ?cap - 1) div ?cap) 1"
  proof (cases "v = []")
    case True
    then show ?thesis using dict_chain_length [OF e(2)] cap by (simp add: dict_chunks_def)
  next
    case False
    then have "length P = (length v + ?cap - 1) div ?cap" using dict_chain_length [OF e(2)] length_chunks [OF cap, of v] by (simp add: dict_chunks_def)
    moreover have "1 \<le> length P" using assms(3) by (cases P) auto
    ultimately show ?thesis by simp
  qed
  moreover have "unat (word_of_nat (length v) :: u32) = length v" using e(1) by (simp add: unat_of_nat)
  ultimately show ?thesis
    using dict_chain_loop_chain [OF assms(1) e(2) assms(3), of "length P"] by (simp add: dict_chain_pages_def Let_def)
qed

lemma dict_leaf_upsert_outcome:
  assumes s: "inv s" and v: "length v < 2 ^ 32" and es: "sorted_wrt (<) (map fst es)"
    "\<forall>e \<in> set es. dict_entry_in spec ps (view s) e" "distinct (chains es)"
    and out: "dict_leaf_upsert xxh po k v spec (map dict_entry_of es) s = (r, s')"
  shows "r = Inl exhausted \<or> (\<exists>A M B P. around k es A M B \<and> r = Inr (map dict_entry_of (A @ (k, v, P) # B)) \<and> distinct P \<and>
    set P \<subseteq> old_or_new (set (chains M)) s s' \<and> evolves (set (chains M)) s s' \<and> dict_entry_in spec ps (view s') (k, v, P))"
proof (cases "binary_search (map fst es) k")
  case (Inl i)
  obtain r1 s1 where mk: "make_value xxh po v spec [] s = (r1, s1)" by fastforce
  have o: "(r, s') = bind_st (r1, s1) (\<lambda>x tx.
      (Inr (take i (map dict_entry_of es) @ \<lparr>de_key = k, de_value = x\<rparr> # drop i (map dict_entry_of es)), tx))"
    using out unfolding dict_leaf_upsert_def dict_keys Inl mk by simp
  note ar = around_miss [OF Inl es(1)]
  from make_value_outcome [OF s _ _ v mk] consider "r1 = Inl exhausted" |
    P where "r1 = Inr (dict_value_of v P)" "distinct P" "set P \<subseteq> old_or_new {} s s1" "evolves {} s s1"
      "\<forall>k. dict_entry_in spec ps (view s1) (k, v, P)" by auto
  then show ?thesis
  proof cases
    case 2
    have "(r, s') = (Inr (map dict_entry_of (take i es @ (k, v, P) # drop i es)), s1)"
      using o 2(1) by (simp add: take_map drop_map dict_entry_of_def)
    then show ?thesis using ar 2 by fastforce
  qed (use o in simp)
next
  case (Inr i)
  from around_hit [OF this es(1)] obtain v0 P0 where i: "i < length es" and e: "es ! i = (k, v0, P0)"
    and ar: "around k es (take i es) [(k, v0, P0)] (drop (Suc i) es)" by blast
  have split: "es = take i es @ [(k, v0, P0)] @ drop (Suc i) es" using ar by (simp add: around_def)
  have st: "dict_entry_in spec ps (view s) (k, v0, P0)" using es(2) i e by (metis nth_mem)
  have P0: "distinct P0" using es(3) by (subst (asm) split) (simp add: chain_of_def)
  have P0d: "set P0 \<subseteq> dom (view s) - {0}" using dict_entry_chain [OF st] by (simp add: chain_of_def)
  have re: "(case de_value (map dict_entry_of es ! i) of DOverflow total_len first_page \<Rightarrow> dict_chain_pages po first_page total_len spec s
      | DInline _ \<Rightarrow> Inr []) = Inr P0"
    using i e dict_chain_pages_chain [OF s st] by (cases P0) (simp_all add: dict_entry_of_def dict_value_of_def)
  obtain r1 s1 where mk: "make_value xxh po v spec P0 s = (r1, s1)" by fastforce
  have o: "(r, s') = bind_st (r1, s1) (\<lambda>x tx.
      (Inr ((map dict_entry_of es)[i := (map dict_entry_of es ! i)\<lparr>de_value := x\<rparr>]), tx))"
    using out unfolding dict_leaf_upsert_def dict_keys Inr by (simp add: re mk)
  from make_value_outcome [OF s P0 P0d v mk] consider "r1 = Inl exhausted" |
    P where "r1 = Inr (dict_value_of v P)" "distinct P" "set P \<subseteq> old_or_new (set P0) s s1" "evolves (set P0) s s1"
      "\<forall>k. dict_entry_in spec ps (view s1) (k, v, P)" by auto
  then show ?thesis
  proof cases
    case 2
    have "(map dict_entry_of es)[i := (map dict_entry_of es ! i)\<lparr>de_value := dict_value_of v P\<rparr>] =
        map dict_entry_of (take i es @ (k, v, P) # drop (Suc i) es)"
      using i e by (simp add: upd_conv_take_nth_drop take_map drop_map dict_entry_of_def)
    then have "(r, s') = (Inr (map dict_entry_of (take i es @ (k, v, P) # drop (Suc i) es)), s1)" using o 2(1) by simp
    moreover have "chains [(k, v0, P0)] = P0" by (simp add: chain_of_def)
    ultimately show ?thesis using ar 2 by (metis Pair_inject)
  qed (use o in simp)
qed

lemma dict_leaf_store_splits:
  assumes s: "inv s" and None: "dict_encode_leaf xxh (map dict_entry_of es) ps spec = None"
    and big: "1 + dict_footprints (map dict_entry_of es) \<le> usable ps + (usable ps div 4 + 22)"
    and es: "\<forall>e \<in> set es. length (fst e) \<le> ds_max_key_len spec \<and> dict_entry_in spec ps V e"
  shows "\<exists>A B lp rp. es = A @ B \<and> A \<noteq> [] \<and> B \<noteq> [] \<and> dict_encode_leaf xxh (map dict_entry_of A) ps spec = Some lp \<and>
    dict_encode_leaf xxh (map dict_entry_of B) ps spec = Some rp \<and>
    dict_as_split (dict_leaf_store xxh po p spec (map dict_entry_of es) s) = split_write p lp rp (fst (last A)) s"
proof -
  note ps = size_valid [OF s]
  let ?E = "map dict_entry_of es"
  define c where "c = dict_leaf_cut (dict_footprints ?E div 2) 0 ?E"
  have "\<forall>e \<in> set ?E. dict_footprint e \<le> usable ps div 4 + 22"
    using dict_entry_footprint [OF dict_entry_in_ok ps key_cap [OF s]] es by fastforce
  note h = dict_leaf_halves [OF ps this None [unfolded dict_encode_leaf_None [OF ps]] big c_def]
  define L R where "L = take c es" and "R = drop c es"
  have LR: "es = L @ R" "map dict_entry_of L = take c ?E" "map dict_entry_of R = drop c ?E"
    by (simp_all add: L_def R_def take_map drop_map)
  have ne: "L \<noteq> []" "R \<noteq> []" using h(1,2) LR(2,3) by auto
  obtain lp rp where e: "dict_encode_leaf xxh (map dict_entry_of L) ps spec = Some lp" "dict_encode_leaf xxh (map dict_entry_of R) ps spec = Some rp"
    using h(3,4) dict_encode_leaf_None [OF ps, of xxh "map dict_entry_of L" spec] dict_encode_leaf_None [OF ps, of xxh "map dict_entry_of R" spec]
    unfolding LR(2,3) by fastforce
  have sep: "de_key (last (map dict_entry_of L)) = fst (last L)" using ne(1) by (simp add: last_map dict_entry_of_def split_beta)
  have "dict_as_split (dict_leaf_store xxh po p spec ?E s) = split_write p lp rp (fst (last L)) s"
    unfolding dict_leaf_store_def Let_def None c_def [symmetric] LR(2,3) [symmetric] option.case e
    using ne sep by (simp add: outcome_as_bind split_write_def)
  then show ?thesis using LR(1) ne e by blast
qed

lemma dict_inner_store_splits:
  assumes s: "inv s" and None: "dict_encode_inner xxh (dict_node_of cs r) ps spec = None" and ne: "cs \<noteq> []"
    and big: "9 + dict_children cs \<le> usable ps + 139" and key: "\<forall>c \<in> set cs. length (fst c) \<le> ds_max_key_len spec"
  shows "\<exists>as k c bs lp rp. cs = as @ (k, c) # bs \<and> as \<noteq> [] \<and> bs \<noteq> [] \<and> dict_encode_inner xxh (dict_node_of as c) ps spec = Some lp \<and>
    dict_encode_inner xxh (dict_node_of bs r) ps spec = Some rp \<and>
    dict_as_split (dict_inner_store xxh po p spec (dict_node_of cs r) s) = split_write p lp rp k s"
proof -
  note ps = size_valid [OF s]
  define m where "m = length cs div 2"
  have "usable ps < 9 + dict_children cs" using None [unfolded dict_encode_inner_None [OF ps]] ne by simp
  moreover have "\<forall>c \<in> set cs. length (fst c) \<le> 129" using key key_cap [OF s] by (meson le_trans)
  ultimately have h: "take m cs \<noteq> []" "drop (m + 1) cs \<noteq> []" "9 + dict_children (take m cs) \<le> usable ps" "9 + dict_children (drop (m + 1) cs) \<le> usable ps"
    using dict_inner_halves [OF ps page_min [OF s] _ _ big m_def] by blast+
  define A B where "A = take m cs" and "B = drop (m + 1) cs"
  obtain k c where kc: "cs ! m = (k, c)" by fastforce
  have m: "m < length cs" using h(2) by simp
  have split: "cs = A @ (k, c) # B" unfolding A_def B_def kc [symmetric] using id_take_nth_drop [OF m] by simp
  obtain lp rp where e: "dict_encode_inner xxh (dict_node_of A c) ps spec = Some lp" "dict_encode_inner xxh (dict_node_of B r) ps spec = Some rp"
    using h dict_encode_inner_None [OF ps, of xxh "dict_node_of A c" spec] dict_encode_inner_None [OF ps, of xxh "dict_node_of B r" spec]
    unfolding A_def B_def by fastforce
  have cut: "take (m + 1) cs = A @ [(k, c)]" using m kc by (simp add: A_def take_Suc_conv_app_nth)
  have "dict_as_split (dict_inner_store xxh po p spec (dict_node_of cs r) s) = split_write p lp rp k s"
    unfolding dict_inner_store_def Let_def None option.case dict_inner.select_convs m_def [symmetric] cut B_def [symmetric]
    using e by (simp add: outcome_as_bind split_write_def)
  then show ?thesis using split h(1,2) e unfolding A_def B_def by blast
qed

lemma dict_insert_rec_leaf:
  assumes "inv s" "dict_leaf_page spec ps (view s) p es" "depth < MAX_DEPTH"
  shows "dict_as_split (dict_insert_rec xxh po p k v depth spec s) =
    bind_st (dict_leaf_upsert xxh po k v spec (map dict_entry_of es) s) (\<lambda>entries tx. dict_as_split (dict_leaf_store xxh po p spec entries tx))"
  using assms(2,3) read_view [OF assms(1), of p]
  by (subst dict_insert_rec.simps) (auto simp: dict_leaf_page_def outcome_as_bind)

lemma dict_insert_rec_inner:
  assumes "inv s" "dict_inner_page spec ps (view s) p cs r" "depth < MAX_DEPTH"
  shows "dict_as_split (dict_insert_rec xxh po p k v depth spec s) =
    bind_st (dict_as_split (dict_insert_rec xxh po (child_page k cs r) k v (depth + 1) spec s)) (\<lambda>x tx. case x of None \<Rightarrow> (Inr None, tx)
      | Some (sep, q) \<Rightarrow> dict_as_split (dict_inner_store xxh po p spec (dict_node_of (split_children k cs r sep q) (split_last k cs r q)) tx))"
proof -
  obtain page where "view s p = Some page" "dict_decode_node page p spec = Inr (DInner (dict_node_of cs r))"
    using assms(2) by (auto simp: dict_inner_page_def)
  then have "dict_insert_rec xxh po p k v depth spec s = bind_st (dict_insert_rec xxh po (child_page k cs r) k v (depth + 1) spec s) (\<lambda>x tx. case x of
      DFit \<Rightarrow> (Inr DFit, tx)
    | DSplit sep q \<Rightarrow> dict_inner_store xxh po p spec (dict_node_of (split_children k cs r sep q) (split_last k cs r q)) tx)"
    using assms(3) read_view [OF assms(1)]
    by (subst dict_insert_rec.simps) (simp add: Let_def dict_child_page dict_split_children cong: dict_ins.case_cong)
  then show ?thesis unfolding bind_outcome_as by (simp add: outcome_as_bind) (intro arg_cong [of _ _ "bind_st _"] ext, simp split: dict_ins.split)
qed

end

sublocale dict_txn < tree_writer po xxh view inv exhausted "dict_entry_in spec ps" "dict_leaf_page spec ps" "dict_inner_page spec ps" "dict_key spec"
    "\<lambda>v. length v < 2 ^ 32" dict_entry_of "\<lambda>es. dict_encode_leaf xxh es ps spec" "\<lambda>cs r. dict_encode_inner xxh (dict_node_of cs r) ps spec"
    "\<lambda>es. 1 + dict_footprints es \<le> usable ps + (usable ps div 4 + 22)" "\<lambda>ks. 9 + (\<Sum>k\<leftarrow>ks. 2 + length k + 8) \<le> usable ps + 139"
    "\<lambda>k v es s. dict_leaf_upsert xxh po k v spec es s" "\<lambda>p es s. dict_as_split (dict_leaf_store xxh po p spec es s)"
    "\<lambda>p cs r s. dict_as_split (dict_inner_store xxh po p spec (dict_node_of cs r) s)"
    "\<lambda>k v p depth s. dict_as_split (dict_insert_rec xxh po p k v depth spec s)"
proof
  fix s k v es r s'
  assume "inv s" "length v < 2 ^ 32" "sorted_wrt (<) (map fst es)" "\<forall>e \<in> set es. dict_entry_in spec ps (view s) e"
    "distinct (chains es)" "dict_leaf_upsert xxh po k v spec (map dict_entry_of es) s = (r, s')"
  then show "r = Inl exhausted \<or> (\<exists>A M B P. around k es A M B \<and> r = Inr (map dict_entry_of (A @ (k, v, P) # B)) \<and> distinct P \<and>
      set P \<subseteq> old_or_new (set (chains M)) s s' \<and> evolves (set (chains M)) s s' \<and> dict_entry_in spec ps (view s') (k, v, P))"
    by (rule dict_leaf_upsert_outcome)
next
  fix s es page V p
  assume a: "inv s" "dict_encode_leaf xxh (map dict_entry_of es) ps spec = Some page" "sorted_wrt (<) (map fst es)"
    "\<forall>e \<in> set es. length (fst e) \<le> ds_max_key_len spec \<and> dict_entry_in spec ps V e"
  note ps = size_valid [OF a(1)]
  have "dict_leaf_ok (map dict_entry_of es)" using a(3,4) dict_entries_ok by blast
  note rt = dict_leaf_roundtrip [OF a(2) this ps] and fit = dict_encode_leaf_None [OF ps, of xxh "map dict_entry_of es" spec]
  show "length page = unat ps \<and> (V p = Some (stamp_page_checksum xxh page) \<longrightarrow> p \<noteq> 0 \<longrightarrow> dict_leaf_page spec ps V p es)"
    using rt fit a(2) dict_encode_stamped [OF a(2)] by (simp add: dict_leaf_page_def)
next
  fix s k V v P
  assume a: "inv s" "length k \<le> ds_max_key_len spec" "dict_entry_in spec ps V (k, v, P)"
  note ps = size_valid [OF a(1)]
  show "dict_encode_leaf xxh [dict_entry_of (k, v, P)] ps spec \<noteq> None"
    using dict_entry_footprint [OF dict_entry_in_ok [OF a(3,2)] ps key_cap [OF a(1)]] usable_bounds(2) [OF ps]
    by (simp add: dict_encode_leaf_None [OF ps])
next
  fix s V p es k A M B V' v P
  assume a: "inv s" "dict_leaf_page spec ps V p es" "around k es A M B" "length k \<le> ds_max_key_len spec" "dict_entry_in spec ps V' (k, v, P)"
  have "dict_footprint (dict_entry_of (k, v, P)) \<le> usable ps div 4 + 22"
    by (rule dict_entry_footprint [OF dict_entry_in_ok [OF a(5,4)] size_valid [OF a(1)] key_cap [OF a(1)]])
  moreover have "es = A @ M @ B" "1 + dict_footprints (map dict_entry_of es) \<le> usable ps"
    using a(2,3) by (simp_all add: dict_leaf_page_def around_def)
  ultimately show "1 + dict_footprints (map dict_entry_of (A @ (k, v, P) # B)) \<le> usable ps + (usable ps div 4 + 22)" by simp
next
  fix es page p s
  assume "dict_encode_leaf xxh (map dict_entry_of es) ps spec = Some page"
  then show "dict_as_split (dict_leaf_store xxh po p spec (map dict_entry_of es) s) = bind_st (po_write po p page s) (\<lambda>_ tx. (Inr None, tx))"
    by (simp add: dict_leaf_store_def outcome_as_bind)
next
  fix s es V p
  assume "inv s" "dict_encode_leaf xxh (map dict_entry_of es) ps spec = None"
    "1 + dict_footprints (map dict_entry_of es) \<le> usable ps + (usable ps div 4 + 22)"
    "\<forall>e \<in> set es. length (fst e) \<le> ds_max_key_len spec \<and> dict_entry_in spec ps V e"
  then show "\<exists>A B lp rp. es = A @ B \<and> A \<noteq> [] \<and> B \<noteq> [] \<and> dict_encode_leaf xxh (map dict_entry_of A) ps spec = Some lp \<and>
      dict_encode_leaf xxh (map dict_entry_of B) ps spec = Some rp \<and>
      dict_as_split (dict_leaf_store xxh po p spec (map dict_entry_of es) s) = split_write p lp rp (fst (last A)) s"
    by (rule dict_leaf_store_splits)
next
  fix s cs r page V p
  assume a: "inv s" "dict_encode_inner xxh (dict_node_of cs r) ps spec = Some page" "sorted_wrt (<) (map fst cs)"
    "\<forall>c \<in> set cs. length (fst c) \<le> ds_max_key_len spec \<and> snd c \<noteq> 0" "r \<noteq> 0"
  note ps = size_valid [OF a(1)]
  have "dict_inner_ok (dict_node_of cs r)" using a(3-5) by (simp add: dict_inner_ok_def)
  note rt = dict_inner_roundtrip [OF a(2) this ps] and fit = dict_encode_inner_None [OF ps, of xxh "dict_node_of cs r" spec]
  show "length page = unat ps \<and> (V p = Some (stamp_page_checksum xxh page) \<longrightarrow> p \<noteq> 0 \<longrightarrow> dict_inner_page spec ps V p cs r)"
    using rt fit a(2) dict_encode_inner_stamped [OF a(2)] by (simp add: dict_inner_page_def)
next
  fix s and k :: bytes and c r
  assume "inv s" "length k \<le> ds_max_key_len spec"
  then show "dict_encode_inner xxh (dict_node_of [(k, c)] r) ps spec \<noteq> None"
    using usable_bounds(2) [OF size_valid [OF \<open>inv s\<close>]] key_cap [of s] by (simp add: dict_encode_inner_None [OF size_valid])
next
  fix s V p as bs r and k :: bytes
  assume a: "inv s" "dict_inner_page spec ps V p (as @ bs) r" "length k \<le> ds_max_key_len spec"
  have "9 + dict_children (as @ bs) \<le> usable ps" using a(2) by (simp add: dict_inner_page_def)
  then show "9 + (\<Sum>k\<leftarrow>map fst as @ k # map fst bs. 2 + length k + 8) \<le> usable ps + 139"
    using a(3) key_cap [OF a(1)] by (simp add: case_prod_beta' comp_def)
next
  fix cs r page p s
  assume "dict_encode_inner xxh (dict_node_of cs r) ps spec = Some page"
  then show "dict_as_split (dict_inner_store xxh po p spec (dict_node_of cs r) s) = bind_st (po_write po p page s) (\<lambda>_ tx. (Inr None, tx))"
    by (simp add: dict_inner_store_def outcome_as_bind)
next
  fix s cs r p
  assume "inv s" "dict_encode_inner xxh (dict_node_of cs r) ps spec = None" "cs \<noteq> []"
    "9 + (\<Sum>k\<leftarrow>map fst cs. 2 + length k + 8) \<le> usable ps + 139" "\<forall>c \<in> set cs. length (fst c) \<le> ds_max_key_len spec"
  then show "\<exists>as k c bs lp rp. cs = as @ (k, c) # bs \<and> as \<noteq> [] \<and> bs \<noteq> [] \<and> dict_encode_inner xxh (dict_node_of as c) ps spec = Some lp \<and>
      dict_encode_inner xxh (dict_node_of bs r) ps spec = Some rp \<and>
      dict_as_split (dict_inner_store xxh po p spec (dict_node_of cs r) s) = split_write p lp rp k s"
    by (intro dict_inner_store_splits) (simp_all add: case_prod_beta' comp_def)
qed (rule dict_insert_rec_leaf dict_insert_rec_inner; assumption)+

section \<open>Upsert\<close>

text \<open>The spec's cap on keys and the page size are part of the invariant: no operation changes them.\<close>

definition dict_inv :: "hash64 \<Rightarrow> view \<Rightarrow> pager \<Rightarrow> sim_state \<Rightarrow> pending_header \<Rightarrow> dict_spec \<Rightarrow> txn \<Rightarrow> bool" where
  "dict_inv xxh V pg st pd spec tx \<longleftrightarrow> txn_inv xxh V pg st pd tx \<and> ds_max_key_len spec \<le> 129 \<and> 2048 \<le> unat (page_size (pg_header pg))"

interpretation txn_dict: dict_txn "txn_ops xxh pg st" xxh "txn_view V" "dict_inv xxh V pg st pd spec" page_overflow spec
  for xxh pg st V pd spec
proof
  fix s r s' p page and data :: bytes
  assume inv: "dict_inv xxh V pg st pd spec s"
  then have i: "txn_inv xxh V pg st pd s" by (simp add: dict_inv_def)
  show "page_size_is_valid (po_page_size (txn_ops xxh pg st))" by (rule txn_pages.size_valid [OF i])
  show "txn_view V s p = Some page \<Longrightarrow> po_read (txn_ops xxh pg st) p s = Inr page" by (rule txn_pages.read_view [OF i])
  show "r = Inl page_overflow \<or> (\<exists>p page. r = Inr p \<and> p \<noteq> 0 \<and> txn_view V s p = None \<and> dict_inv xxh V pg st pd spec s' \<and>
      txn_view V s' = (txn_view V s)(p \<mapsto> page))" if "po_alloc (txn_ops xxh pg st) s = (r, s')"
    using txn_pages.alloc_fresh [OF i that] inv by (auto simp: dict_inv_def)
  show "\<exists>s'. po_write (txn_ops xxh pg st) p data s = (Inr (), s') \<and> dict_inv xxh V pg st pd spec s' \<and>
      txn_view V s' = (txn_view V s)(p \<mapsto> stamp_page_checksum xxh data)"
    if "p \<noteq> 0" "txn_view V s p \<noteq> None" "length data = unat (po_page_size (txn_ops xxh pg st))"
    using txn_pages.write_view [OF i that] inv by (auto simp: dict_inv_def)
qed (simp_all add: dict_inv_def)

text \<open>A state of a transaction in which a root page number stands for a map, and a step between two of them: of the old
  pages only those of the tree change, and the new tree is on those and on new pages.\<close>

definition dict_state :: "hash64 \<Rightarrow> view \<Rightarrow> pager \<Rightarrow> sim_state \<Rightarrow> pending_header \<Rightarrow> dict_spec \<Rightarrow> txn \<Rightarrow> u64 \<Rightarrow> (bytes \<times> bytes) list \<Rightarrow> u64 set \<Rightarrow> bool" where
  "dict_state xxh V pg st pd spec tx p m K \<longleftrightarrow> dict_inv xxh V pg st pd spec tx \<and> dict_at spec (page_size (pg_header pg)) (txn_view V tx) p m K"

definition dict_step :: "view \<Rightarrow> txn \<Rightarrow> u64 set \<Rightarrow> txn \<Rightarrow> u64 set \<Rightarrow> bool" where
  "dict_step V tx K tx' K' \<longleftrightarrow> dom (txn_view V tx) \<subseteq> dom (txn_view V tx') \<and> K' \<subseteq> K \<union> - dom (txn_view V tx) \<and>
     (\<forall>q \<in> dom (txn_view V tx) - K. txn_view V tx' q = txn_view V tx q)"

lemma dict_step_refl: "dict_step V tx K tx K"
  by (simp add: dict_step_def)

lemma dict_step_trans:
  assumes "dict_step V tx K tx1 K1" "dict_step V tx1 K1 tx2 K2"
  shows "dict_step V tx K tx2 K2"
proof -
  have a: "dom (txn_view V tx) \<subseteq> dom (txn_view V tx1)" "K1 \<subseteq> K \<union> - dom (txn_view V tx)" "dom (txn_view V tx1) \<subseteq> dom (txn_view V tx2)"
      "K2 \<subseteq> K1 \<union> - dom (txn_view V tx1)"
    using assms unfolding dict_step_def by blast+
  have "txn_view V tx2 q = txn_view V tx q" if "q \<in> dom (txn_view V tx) - K" for q
  proof -
    have "q \<in> dom (txn_view V tx1) - K1" using a(1,2) that by blast
    then have "txn_view V tx2 q = txn_view V tx1 q" using assms(2) unfolding dict_step_def by blast
    then show ?thesis using assms(1) that unfolding dict_step_def by simp
  qed
  then show ?thesis using a unfolding dict_step_def by blast
qed

lemma dict_state_reads:
  assumes "dict_state xxh V pg st pd spec tx p m K"
  shows "serves (txn_source xxh pg st tx) (txn_view V tx) (page_size (pg_header pg))" "page_size_is_valid (page_size (pg_header pg))"
    "dict_at spec (page_size (pg_header pg)) (txn_view V tx) p m K"
  using assms txn_serves [of xxh V pg st tx] txn_pages.size_valid [of xxh V pg st pd tx] by (simp_all add: dict_state_def dict_inv_def txn_inv_def)

lemma dict_upsert_step:
  assumes state: "dict_state xxh V pg st pd spec tx root_no m K" and k: "length k \<le> ds_max_key_len spec" and v: "length v < 2 ^ 32"
    and out: "dict_upsert xxh (txn_ops xxh pg st) spec root_no k v tx = (r, tx')"
  shows "r = Inl page_overflow \<or> (\<exists>p K'. r = Inr p \<and> dict_state xxh V pg st pd spec tx' p (bmap_insert k v m) K' \<and> dict_step V tx K tx' K')"
proof -
  let ?ps = "page_size (pg_header pg)" and ?po = "txn_ops xxh pg st"
  let ?ev = "txn_dict.evolves V xxh pg st pd spec" and ?on = "txn_dict.old_or_new V"
  have s: "dict_inv xxh V pg st pd spec tx" and tree: "dict_at spec ?ps (txn_view V tx) root_no m K"
    using state by (simp_all add: dict_state_def)
  have fin: ?thesis if "?ev K tx tx'" "dict_at spec ?ps (txn_view V tx') p (bmap_insert k v m) K'" "K' \<subseteq> ?on K tx tx'" "r = Inr p" for p K'
  proof -
    have "dict_state xxh V pg st pd spec tx' p (bmap_insert k v m) K'" using that(1,2) by (simp add: txn_dict.evolves_def dict_state_def)
    moreover have "dict_step V tx K tx' K'" using that(1,3) unfolding txn_dict.evolves_def txn_dict.old_or_new_def dict_step_def by blast
    ultimately show ?thesis using that(4) by blast
  qed
  show ?thesis
  proof (cases "root_no = 0")
    case True
    then have m: "m = []" "K = {}" using tree by simp_all
    obtain r1 tx1 where mk: "make_value xxh ?po v spec [] tx = (r1, tx1)" by fastforce
    from txn_dict.make_value_outcome [OF s _ _ v mk] consider "r1 = Inl page_overflow" |
      P where "r1 = Inr (dict_value_of v P)" "distinct P" "set P \<subseteq> ?on {} tx tx1" "?ev {} tx tx1"
        "dict_entry_in spec (po_page_size ?po) (txn_view V tx1) (k, v, P)"
      by auto
    then show ?thesis
    proof cases
      case 1
      then show ?thesis using out k True mk by (simp add: dict_upsert_def)
    next
      case 2
      have "bind_st (po_alloc ?po tx1) (\<lambda>p tx. bind_st (ok_or (Internal ''fresh dict leaf does not fit'')
          (dict_encode_leaf xxh [dict_entry_of (k, v, P)] (po_page_size ?po) spec), tx) (\<lambda>page tx.
          bind_st (po_write ?po p page tx) (\<lambda>_ tx. (Inr p, tx)))) = (r, tx')"
        using out k True mk 2(1) by (simp add: dict_upsert_def dict_entry_of_def)
      from txn_dict.first_leaf_outcome [OF s k 2(4,2,3,5) this] show ?thesis
        using fin unfolding m by (fastforce simp only: bmap_insert.simps txn_ops_size)
    qed
  next
    case False
    have "bind_st (dict_as_split (dict_insert_rec xxh ?po root_no k v 0 spec tx)) (\<lambda>x tx. case x of None \<Rightarrow> (Inr root_no, tx)
      | Some (sep, q) \<Rightarrow> bind_st (po_alloc ?po tx) (\<lambda>p tx. bind_st (ok_or (Internal ''fresh dict root does not fit'')
          (dict_encode_inner xxh (dict_node_of [(sep, root_no)] q) (po_page_size ?po) spec), tx) (\<lambda>page tx.
          bind_st (po_write ?po p page tx) (\<lambda>_ tx. (Inr p, tx))))) = (r, tx')"
      using out k False unfolding bind_outcome_as by (simp add: dict_upsert_def cong: dict_ins.case_cong)
    from txn_dict.insert_root_outcome [OF s tree [folded txn_ops_size [of xxh pg st]] False k v this]
    consider "r = Inl page_overflow" | p K' where "r = Inr p" "?ev K tx tx'" "dict_at spec ?ps (txn_view V tx') p (bmap_insert k v m) K'"
        "K' \<subseteq> ?on K tx tx'"
      unfolding txn_ops_size by blast
    then show ?thesis
    proof cases
      case 2
      then show ?thesis using fin by blast
    qed simp
  qed
qed

end
