(* ===== verification/Graph_Correct.thy ===== *)
theory Graph_Correct
  imports Graph Dict_Tree
begin

text \<open>
  The knowledge graph against two relations: which memory mentions which entity, and which memory relates to which. The
  dictionary holds them twice, from both ends: the members of each entity, and for each memory its entities and its edges in
  both directions. \<open>add_memory\<close> is the union of relations, and the readers answer from them.
\<close>

section \<open>Sorted lists as sets\<close>

lemma members_insert_set:
  assumes "members_ok ids" "length i = 16" "members_insert i ids = (b, ids')"
  shows "members_ok ids'" "set ids' = insert i (set ids)" "b \<longleftrightarrow> i \<notin> set ids"
proof -
  have "sorted_wrt (<) (map (\<lambda>x. x) ids)" using assms(1) by (simp add: members_ok_def)
  note o = insert_by_outcome [OF this assms(3) [unfolded members_insert_def]]
  show "set ids' = insert i (set ids)" "b \<longleftrightarrow> i \<notin> set ids" using o by auto
  then show "members_ok ids'" using o(1) assms(1,2) by (auto simp: members_ok_def)
qed

lemma insert_entity_set:
  assumes "memory_graph_ok g" "entity_ok name" "insert_entity name g = (b, g')"
  shows "memory_graph_ok g'" "set (mg_entities g') = insert name (set (mg_entities g))" "mg_edges g' = mg_edges g"
    "b \<longleftrightarrow> name \<notin> set (mg_entities g)"
proof -
  obtain es where e: "insert_by (\<lambda>x. x) name (mg_entities g) = (b, es)" "g' = g\<lparr>mg_entities := es\<rparr>"
    using assms(3) by (auto simp: insert_entity_def split: prod.splits)
  have "sorted_wrt (<) (map (\<lambda>x. x) (mg_entities g))" using assms(1) by (simp add: memory_graph_ok_def)
  note o = insert_by_outcome [OF this e(1)]
  show "set (mg_entities g') = insert name (set (mg_entities g))" "mg_edges g' = mg_edges g" "b \<longleftrightarrow> name \<notin> set (mg_entities g)"
    using o e(2) by auto
  then show "memory_graph_ok g'" using o(1) assms(1,2) e(2) by (auto simp: memory_graph_ok_def)
qed

lemma edge_sort_key_eq: "edge_sort_key x = edge_sort_key y \<longleftrightarrow> x = (y :: edge)"
  by (cases x; cases y) (auto simp: edge_sort_key_def dir_byte_def split: if_splits)

lemma insert_edge_set:
  assumes "memory_graph_ok g" "edge_ok e" "insert_edge e g = (b, g')"
  shows "memory_graph_ok g'" "set (mg_edges g') = insert e (set (mg_edges g))" "mg_entities g' = mg_entities g"
    "b \<longleftrightarrow> e \<notin> set (mg_edges g)" "length (mg_edges g') = (if b then Suc (length (mg_edges g)) else length (mg_edges g))"
proof -
  obtain es where e: "insert_by edge_sort_key e (mg_edges g) = (b, es)" "g' = g\<lparr>mg_edges := es\<rparr>"
    using assms(3) by (auto simp: insert_edge_def split: prod.splits)
  have "sorted_wrt (<) (map edge_sort_key (mg_edges g))" using assms(1) by (simp add: memory_graph_ok_def)
  note o = insert_by_outcome [OF this e(1)]
  have "edge_sort_key e \<in> edge_sort_key ` set (mg_edges g) \<longleftrightarrow> e \<in> set (mg_edges g)" by (auto simp: edge_sort_key_eq)
  then show "set (mg_edges g') = insert e (set (mg_edges g))" "b \<longleftrightarrow> e \<notin> set (mg_edges g)" "mg_entities g' = mg_entities g"
    "length (mg_edges g') = (if b then Suc (length (mg_edges g)) else length (mg_edges g))"
    using o e(2) by auto
  then show "memory_graph_ok g'" using o(1) assms(1,2) e(2) by (auto simp: memory_graph_ok_def)
qed

lemma distinct_members: "members_ok ids \<Longrightarrow> distinct ids"
  by (simp add: members_ok_def strict_sorted_iff)

lemma distinct_adjacency: "memory_graph_ok g \<Longrightarrow> distinct (mg_entities g)" "memory_graph_ok g \<Longrightarrow> distinct (mg_edges g)"
proof -
  assume "memory_graph_ok g"
  then have "sorted_wrt (<) (mg_entities g)" "sorted_wrt (<) (map edge_sort_key (mg_edges g))" by (simp_all add: memory_graph_ok_def)
  then show "distinct (mg_entities g)" "distinct (mg_edges g)"
    using distinct_map [of edge_sort_key "mg_edges g"] unfolding strict_sorted_iff by blast+
qed

text \<open>Bodies shorter than 4 GiB.\<close>

lemma members_body:
  assumes "members_ok ids" "card (set ids) < 2 ^ 27"
  shows "length (members_encode ids) < 2 ^ 32" "length ids < 2 ^ 32"
proof -
  have "length ids < 2 ^ 27" using assms(2) distinct_card [OF distinct_members [OF assms(1)]] by simp
  then show "length (members_encode ids) < 2 ^ 32" "length ids < 2 ^ 32"
    using assms(1) length_ids [of ids] by (simp_all add: members_encode_def members_ok_def)
qed

lemma entities_bytes_le: "\<forall>name \<in> set names. entity_ok name \<Longrightarrow> length (concat (map entity_bytes names)) \<le> 130 * length names"
  by (induction names) (auto simp: entity_ok_def entity_bytes_def)

lemma edges_bytes_le: "\<forall>e \<in> set es. edge_ok e \<Longrightarrow> length (concat (map edge_bytes es)) \<le> 83 * length es"
  by (induction es) (auto simp: edge_ok_def edge_bytes_def)

lemma adjacency_body:
  assumes "memory_graph_ok g" "card (set (mg_entities g)) < 2 ^ 16" "card (set (mg_edges g)) < 2 ^ 25"
  obtains body where "memory_graph_encode g = Inr body" "length body < 2 ^ 32"
proof -
  let ?body = "u16_to_le (word_of_nat (length (mg_entities g))) @ concat (map entity_bytes (mg_entities g)) @
    u32_to_le (word_of_nat (length (mg_edges g))) @ concat (map edge_bytes (mg_edges g))"
  have l: "length (mg_entities g) < 2 ^ 16" "length (mg_edges g) < 2 ^ 25"
    using assms distinct_card [OF distinct_adjacency(1)] distinct_card [OF distinct_adjacency(2)] by fastforce+
  have "length ?body < 2 ^ 32"
    using l entities_bytes_le [of "mg_entities g"] edges_bytes_le [of "mg_edges g"] assms(1) by (simp add: memory_graph_ok_def)
  moreover have "memory_graph_encode g = Inr ?body" using l by (simp add: memory_graph_encode_def)
  ultimately show ?thesis using that by blast
qed

section \<open>What the dictionary says\<close>

definition members_in :: "(bytes \<times> bytes) list \<Rightarrow> rstring \<Rightarrow> ulid set \<Rightarrow> bool" where
  "members_in m name A \<longleftrightarrow> (case map_of m (entity_key name) of None \<Rightarrow> A = {}
     | Some body \<Rightarrow> \<exists>ids. body = members_encode ids \<and> members_ok ids \<and> length ids < 2 ^ 32 \<and> set ids = A \<and> A \<noteq> {})"

definition adjacency_in :: "(bytes \<times> bytes) list \<Rightarrow> ulid \<Rightarrow> rstring set \<Rightarrow> edge set \<Rightarrow> bool" where
  "adjacency_in m i N E \<longleftrightarrow> (case map_of m (memory_key i) of None \<Rightarrow> N = {} \<and> E = {}
     | Some body \<Rightarrow> \<exists>g. memory_graph_encode g = Inr body \<and> memory_graph_ok g \<and> set (mg_entities g) = N \<and> set (mg_edges g) = E)"

text \<open>\<open>Mem\<close>: the members of an entity; \<open>Ent\<close> and \<open>Edg\<close>: the entities and the edges of a memory.\<close>

definition graph_in :: "(bytes \<times> bytes) list \<Rightarrow> (rstring \<Rightarrow> ulid set) \<Rightarrow> (ulid \<Rightarrow> rstring set) \<Rightarrow> (ulid \<Rightarrow> edge set) \<Rightarrow> bool" where
  "graph_in m Mem Ent Edg \<longleftrightarrow> (\<forall>name. members_in m name (Mem name)) \<and> (\<forall>i. adjacency_in m i (Ent i) (Edg i))"

lemma graph_keys [simp]:
  "entity_key a = entity_key b \<longleftrightarrow> a = b" "memory_key i = memory_key j \<longleftrightarrow> i = j" "entity_key a \<noteq> memory_key i" "memory_key i \<noteq> entity_key a"
  by (simp_all add: entity_key_def memory_key_def)

lemma graph_in_members:
  assumes "graph_in m Mem Ent Edg" "members_ok ids" "length ids < 2 ^ 32" "set ids = A" "A \<noteq> {}"
  shows "graph_in (bmap_insert (entity_key name) (members_encode ids) m) (Mem(name := A)) Ent Edg"
  using assms by (auto simp: graph_in_def members_in_def adjacency_in_def)

lemma graph_in_adjacency:
  assumes "graph_in m Mem Ent Edg" "memory_graph_encode g = Inr body" "memory_graph_ok g"
  shows "graph_in (bmap_insert (memory_key i) body m) Mem (Ent(i := set (mg_entities g))) (Edg(i := set (mg_edges g)))"
  using assms by (auto simp: graph_in_def members_in_def adjacency_in_def)

lemma graph_in_finite:
  assumes "graph_in m Mem Ent Edg"
  shows "finite (Mem name)" "finite (Ent i)" "finite (Edg i)" "finite {name. Mem name \<noteq> {}}"
proof -
  have "members_in m name (Mem name)" "adjacency_in m i (Ent i) (Edg i)" using assms by (simp_all add: graph_in_def)
  then show "finite (Mem name)" "finite (Ent i)" "finite (Edg i)"
    by (auto simp: members_in_def adjacency_in_def split: option.splits) (metis List.finite_set)+
  have "entity_key ` {name. Mem name \<noteq> {}} \<subseteq> fst ` set m"
  proof
    fix k assume "k \<in> entity_key ` {name. Mem name \<noteq> {}}"
    then obtain name where "k = entity_key name" "Mem name \<noteq> {}" by blast
    moreover have "members_in m name (Mem name)" using assms by (simp add: graph_in_def)
    ultimately have "map_of m k \<noteq> None" by (auto simp: members_in_def split: option.splits)
    then show "k \<in> fst ` set m" by (simp add: map_of_eq_None_iff)
  qed
  then have "finite (entity_key ` {name. Mem name \<noteq> {}})" by (rule finite_subset) simp
  then show "finite {name. Mem name \<noteq> {}}" by (rule finite_imageD) (simp add: inj_on_def)
qed

section \<open>Lookups\<close>

abbreviation graph_dict :: "hash64 \<Rightarrow> view \<Rightarrow> pager \<Rightarrow> sim_state \<Rightarrow> pending_header \<Rightarrow> txn \<Rightarrow> u64 \<Rightarrow> (bytes \<times> bytes) list \<Rightarrow> u64 set \<Rightarrow> bool" where
  "graph_dict xxh V pg st pd \<equiv> dict_state xxh V pg st pd GRAPH_DICT"

lemma get_members_found:
  assumes "serves src V ps" "page_size_is_valid ps" "dict_at GRAPH_DICT ps V p m K" "members_in m name A"
  obtains (none) "get_members src p name = Some (Inr None)" "A = {}"
    | (some) ids where "get_members src p name = Some (Inr (Some ids))" "members_ok ids" "set ids = A" "A \<noteq> {}"
proof -
  obtain y where y: "dict_get src GRAPH_DICT p (entity_key name) = Some (Inr y)" "map_option fst y = map_of m (entity_key name)"
    using dict_get_map [OF assms(1-3)] by (auto simp: dict_answer_def)
  show ?thesis
  proof (cases y)
    case None
    then show ?thesis using y assms(4) by (intro none) (auto simp: get_members_def members_in_def)
  next
    case (Some a)
    then obtain body q where a: "y = Some (body, q)" by (cases a) auto
    then obtain ids where ids: "body = members_encode ids" "members_ok ids" "length ids < 2 ^ 32" "set ids = A" "A \<noteq> {}"
      using y(2) assms(4) by (auto simp: members_in_def split: option.splits)
    show ?thesis
      using ids y(1) a members_roundtrip [OF ids(2,3)] by (intro some [of ids]) (simp_all add: get_members_def)
  qed
qed

lemma memory_graph_default_ok: "memory_graph_ok memory_graph_default" "mg_entities memory_graph_default = []" "mg_edges memory_graph_default = []"
  by (simp_all add: memory_graph_ok_def memory_graph_default_def)

lemma get_adjacency_found:
  assumes "serves src V ps" "page_size_is_valid ps" "dict_at GRAPH_DICT ps V p m K" "adjacency_in m i N E"
  obtains found g where "get_adjacency src p i = Some (Inr found)" "(case found of Some g \<Rightarrow> g | None \<Rightarrow> memory_graph_default) = g"
    "memory_graph_ok g" "set (mg_entities g) = N" "set (mg_edges g) = E"
proof -
  obtain y where y: "dict_get src GRAPH_DICT p (memory_key i) = Some (Inr y)" "map_option fst y = map_of m (memory_key i)"
    using dict_get_map [OF assms(1-3)] by (auto simp: dict_answer_def)
  show ?thesis
  proof (cases y)
    case None
    then show ?thesis using y assms(4) memory_graph_default_ok by (intro that [of None]) (auto simp: get_adjacency_def adjacency_in_def)
  next
    case (Some a)
    then obtain body q where a: "y = Some (body, q)" by (cases a) auto
    then obtain g where g: "memory_graph_encode g = Inr body" "memory_graph_ok g" "set (mg_entities g) = N" "set (mg_edges g) = E"
      using y(2) assms(4) by (auto simp: adjacency_in_def split: option.splits)
    show ?thesis
      using g y(1) a memory_graph_roundtrip [OF g(1,2)] by (intro that [of "Some g"]) (simp_all add: get_adjacency_def)
  qed
qed

section \<open>The loops\<close>

text \<open>A counter that stops at its maximum.\<close>

definition counts :: "nat \<Rightarrow> u64 \<Rightarrow> bool" where
  "counts n c \<longleftrightarrow> unat c = min (2 ^ 64 - 1) n"

lemma counts_succ: "counts n c \<Longrightarrow> counts (Suc n) (sat_succ64 c)"
proof -
  assume c: "counts n c"
  show ?thesis
  proof (cases "unat c + 1 = 2 ^ 64")
    case False
    then have "unat (c + 1) = unat c + 1" using unsigned_less [of c, where ?'a = nat] by (simp add: unat_word_ariths)
    then show ?thesis using c False unsigned_less [of c, where ?'a = nat] by (auto simp: counts_def sat_succ64_def)
  qed (use c in \<open>auto simp: counts_def sat_succ64_def\<close>)
qed

lemma graph_key_lengths: "entity_ok name \<Longrightarrow> length (entity_key name) \<le> ds_max_key_len GRAPH_DICT"
    "length i = 16 \<Longrightarrow> length (memory_key i) \<le> ds_max_key_len GRAPH_DICT"
  by (simp_all add: entity_ok_def entity_key_def memory_key_def GRAPH_DICT_def)

lemma bind_run_simps [simp]:
  "bind_run (Some (Inr x, tx)) f = f x tx" "bind_run (Some (Inl e, tx)) f = Some (Inl e, tx)" "lookup_run (Some r) tx = Some (r, tx)"
  by (simp_all add: bind_run_def lookup_run_def)

text \<open>Storing the members of an entity, and the adjacency of a memory.\<close>

lemma store_members:
  assumes "graph_dict xxh V pg st pd tx p m K" "graph_in m Mem Ent Edg" "entity_ok name" "members_ok ids" "set ids = A" "A \<noteq> {}" "card A < 2 ^ 27"
  obtains (full) tx' where "dict_upsert xxh (txn_ops xxh pg st) GRAPH_DICT p (entity_key name) (members_encode ids) tx = (Inl page_overflow, tx')"
    | (stored) p' tx' m' K' where "dict_upsert xxh (txn_ops xxh pg st) GRAPH_DICT p (entity_key name) (members_encode ids) tx = (Inr p', tx')"
      "graph_dict xxh V pg st pd tx' p' m' K'" "graph_in m' (Mem(name := A)) Ent Edg" "dict_step V tx K tx' K'"
proof -
  obtain r tx' where u: "dict_upsert xxh (txn_ops xxh pg st) GRAPH_DICT p (entity_key name) (members_encode ids) tx = (r, tx')" by fastforce
  have len: "length (members_encode ids) < 2 ^ 32" "length ids < 2 ^ 32" using members_body [OF assms(4)] assms(5,7) by simp_all
  from dict_upsert_step [OF assms(1) graph_key_lengths(1) [OF assms(3)] len(1) u] show ?thesis
    using u full stored graph_in_members [OF assms(2,4) len(2) assms(5,6), of name] by blast
qed

lemma store_adjacency:
  assumes "graph_dict xxh V pg st pd tx p m K" "graph_in m Mem Ent Edg" "length i = 16" "memory_graph_ok g"
    "card (set (mg_entities g)) < 2 ^ 16" "card (set (mg_edges g)) < 2 ^ 25"
  obtains (full) body tx' where "memory_graph_encode g = Inr body"
      "dict_upsert xxh (txn_ops xxh pg st) GRAPH_DICT p (memory_key i) body tx = (Inl page_overflow, tx')"
    | (stored) body p' tx' m' K' where "memory_graph_encode g = Inr body"
      "dict_upsert xxh (txn_ops xxh pg st) GRAPH_DICT p (memory_key i) body tx = (Inr p', tx')" "graph_dict xxh V pg st pd tx' p' m' K'"
      "graph_in m' Mem (Ent(i := set (mg_entities g))) (Edg(i := set (mg_edges g)))" "dict_step V tx K tx' K'"
proof -
  obtain body where body: "memory_graph_encode g = Inr body" "length body < 2 ^ 32" by (rule adjacency_body [OF assms(4-6)])
  obtain r tx' where u: "dict_upsert xxh (txn_ops xxh pg st) GRAPH_DICT p (memory_key i) body tx = (r, tx')" by fastforce
  from dict_upsert_step [OF assms(1) graph_key_lengths(2) [OF assms(3)] body(2) u] show ?thesis
    using u body(1) full stored graph_in_adjacency [OF assms(2) body(1) assms(4), of i] by blast
qed

text \<open>\<open>G\<close> bounds the members the loop may leave behind.\<close>

lemma add_entities_outcome:
  assumes "graph_dict xxh V pg st pd tx p m K" "graph_in m Mem Ent Edg" "memory_graph_ok g" "\<forall>name \<in> set names. entity_ok name" "length i = 16"
    and "\<forall>name. finite (G name) \<and> card (G name) < 2 ^ 27 \<and> Mem name \<subseteq> G name" "\<forall>name \<in> set names. i \<in> G name"
    and "counts (card {name. Mem name \<noteq> {}}) (gm_entity_count mt)"
  shows "\<exists>r tx'. add_entities xxh pg st i names g p mt tx = Some (r, tx') \<and> (r = Inl page_overflow \<or>
    (\<exists>g' p' mt' m' K' Mem'. r = Inr (g', p', mt') \<and> graph_dict xxh V pg st pd tx' p' m' K' \<and> dict_step V tx K tx' K' \<and> graph_in m' Mem' Ent Edg \<and>
       Mem' = (\<lambda>name. if name \<in> set names - set (mg_entities g) then insert i (Mem name) else Mem name) \<and>
       memory_graph_ok g' \<and> set (mg_entities g') = set names \<union> set (mg_entities g) \<and> mg_edges g' = mg_edges g \<and>
       counts (card {name. Mem' name \<noteq> {}}) (gm_entity_count mt') \<and> gm_relation_count mt' = gm_relation_count mt))"
  using assms
proof (induction names arbitrary: g p mt tx m K Mem)
  case Nil
  then show ?case using dict_step_refl [of V tx K] by fastforce
next
  case (Cons name names)
  have ok: "entity_ok name" "\<forall>name \<in> set names. entity_ok name" "\<forall>name \<in> set names. i \<in> G name" using Cons.prems(4,7) by simp_all
  obtain b g1 where ins: "insert_entity name g = (b, g1)" by fastforce
  note g1 = insert_entity_set [OF Cons.prems(3) ok(1) ins]
  show ?case
  proof (cases b)
    case False
    then have eq: "set (name # names) - set (mg_entities g) = set names - set (mg_entities g1)"
        "set (name # names) \<union> set (mg_entities g) = set names \<union> set (mg_entities g1)" using g1(2,4) by auto
    show ?thesis
      using Cons.IH [OF Cons.prems(1,2) g1(1) ok(2) Cons.prems(5,6) ok(3) Cons.prems(8)] ins False unfolding eq g1(3) by simp
  next
    case True
    have mem: "members_in m name (Mem name)" using Cons.prems(2) by (simp add: graph_in_def)
    let ?A = "insert i (Mem name)" and ?Mem = "Mem(name := insert i (Mem name))"
    obtain found ids b2 ids' where f: "get_members (txn_source xxh pg st tx) p name = Some (Inr found)" "found = None \<longleftrightarrow> Mem name = {}"
        "(case found of Some ids \<Rightarrow> ids | None \<Rightarrow> []) = ids" "members_insert i ids = (b2, ids')" "members_ok ids'" "set ids' = ?A"
    proof (rule get_members_found [OF dict_state_reads [OF Cons.prems(1)] mem])
      assume "get_members (txn_source xxh pg st tx) p name = Some (Inr None)" "Mem name = {}"
      then show ?thesis using members_insert_set [of "[]" i] Cons.prems(5) by (cases "members_insert i []") (auto simp: members_ok_def intro: that)
    next
      fix ids assume "get_members (txn_source xxh pg st tx) p name = Some (Inr (Some ids))" "members_ok ids" "set ids = Mem name" "Mem name \<noteq> {}"
      then show ?thesis using members_insert_set [of ids i] Cons.prems(5) by (cases "members_insert i ids") (auto intro: that)
    qed
    have G: "\<forall>x. finite (G x) \<and> card (G x) < 2 ^ 27 \<and> ?Mem x \<subseteq> G x" using Cons.prems(6,7) by simp
    then have "card ?A < 2 ^ 27" using card_mono [of "G name" ?A] Cons.prems(6,7) by (metis (no_types, lifting) fun_upd_same le_less_trans)
    let ?mt = "if found = None then mt\<lparr>gm_entity_count := sat_succ64 (gm_entity_count mt)\<rparr> else mt"
    have cnt: "counts (card {x. ?Mem x \<noteq> {}}) (gm_entity_count ?mt)"
    proof -
      have S: "{x. ?Mem x \<noteq> {}} = insert name {x. Mem x \<noteq> {}}" by auto
      show ?thesis unfolding S using Cons.prems(8) f(2) graph_in_finite(4) [OF Cons.prems(2)]
        by (cases found) (simp_all add: insert_absorb counts_succ)
    qed
    have run: "add_entities xxh pg st i (name # names) g p mt tx =
        bind_run (Some (dict_upsert xxh (txn_ops xxh pg st) GRAPH_DICT p (entity_key name) (members_encode ids') tx)) (\<lambda>root tx.
          add_entities xxh pg st i names g1 root ?mt tx)"
      using ins True f(1,3,4) by simp
    from Cons.prems(1,2) ok(1) f(5,6) insert_not_empty \<open>card ?A < 2 ^ 27\<close> show ?thesis
    proof (cases rule: store_members)
      case (full tx')
      then show ?thesis unfolding run by simp
    next
      case (stored p' tx' m' K')
      have Mem': "(\<lambda>x. if x \<in> set (name # names) - set (mg_entities g) then insert i (Mem x) else Mem x) =
          (\<lambda>x. if x \<in> set names - set (mg_entities g1) then insert i (?Mem x) else ?Mem x)"
        using g1(2,4) True by (auto simp: fun_eq_iff)
      have ent: "set (name # names) \<union> set (mg_entities g) = set names \<union> set (mg_entities g1)" using g1(2) by auto
      have rc: "gm_relation_count ?mt = gm_relation_count mt" by simp
      from Cons.IH [OF stored(2,3) g1(1) ok(2) Cons.prems(5) G ok(3) cnt]
      show ?thesis unfolding run stored(1) bind_run_simps Mem' ent g1(3) rc
        using dict_step_trans [OF stored(4)] by blast
    qed
  qed
qed

abbreviation out_edge :: "rstring \<Rightarrow> ulid \<Rightarrow> edge" where
  "out_edge kind to \<equiv> \<lparr>ed_outgoing = True, ed_kind = kind, ed_other = to\<rparr>"

abbreviation in_edge :: "rstring \<Rightarrow> ulid \<Rightarrow> edge" where
  "in_edge kind i \<equiv> \<lparr>ed_outgoing = False, ed_kind = kind, ed_other = i\<rparr>"

definition relation_ok :: "ulid \<Rightarrow> rstring \<times> ulid \<Rightarrow> bool" where
  "relation_ok i rel \<longleftrightarrow> (case rel of (kind, to) \<Rightarrow> kind \<noteq> [] \<and> length kind \<le> MAX_KIND_LEN \<and> utf8_valid kind \<and> length to = 16 \<and> to \<noteq> i)"

text \<open>\<open>F\<close> bounds the edges the loop may leave behind.\<close>

lemma add_relations_outcome:
  assumes "graph_dict xxh V pg st pd tx p m K" "graph_in m Mem Ent Edg" "memory_graph_ok g" "\<forall>rel \<in> set rels. relation_ok i rel" "length i = 16"
    and "\<forall>j. finite (F j) \<and> card (F j) < 2 ^ 25 \<and> Edg j \<subseteq> F j \<and> card (Ent j) < 2 ^ 16" "\<forall>(kind, to) \<in> set rels. in_edge kind i \<in> F to"
    and "counts n (gm_relation_count mt)"
  shows "\<exists>r tx'. add_relations xxh pg st i rels g p mt tx = Some (r, tx') \<and> (r = Inl page_overflow \<or>
    (\<exists>g' p' mt' m' K'. r = Inr (g', p', mt') \<and> graph_dict xxh V pg st pd tx' p' m' K' \<and> dict_step V tx K tx' K' \<and>
       graph_in m' Mem Ent (\<lambda>j. Edg j \<union> {in_edge kind i | kind. (kind, j) \<in> set rels \<and> out_edge kind j \<notin> set (mg_edges g)}) \<and>
       memory_graph_ok g' \<and> mg_entities g' = mg_entities g \<and> set (mg_edges g') = (\<lambda>(kind, to). out_edge kind to) ` set rels \<union> set (mg_edges g) \<and>
       length (mg_edges g) \<le> length (mg_edges g') \<and> counts (n + (length (mg_edges g') - length (mg_edges g))) (gm_relation_count mt') \<and>
       gm_entity_count mt' = gm_entity_count mt))"
  using assms
proof (induction rels arbitrary: g p mt tx m K Edg n)
  case Nil
  then show ?case using dict_step_refl [of V tx K] by fastforce
next
  case (Cons rel rels)
  obtain kind to where rel: "rel = (kind, to)" by (cases rel)
  have rok: "relation_ok i (kind, to)" "\<forall>rel \<in> set rels. relation_ok i rel" "\<forall>(kind, to) \<in> set rels. in_edge kind i \<in> F to"
    using Cons.prems(4,7) rel by simp_all
  have ok: "edge_ok (out_edge kind to)" "edge_ok (in_edge kind i)" "length to = 16" "to \<noteq> i"
    using rok(1) Cons.prems(5) by (simp_all add: relation_ok_def edge_ok_def)
  obtain b g1 where ins: "insert_edge (out_edge kind to) g = (b, g1)" by fastforce
  note g1 = insert_edge_set [OF Cons.prems(3) ok(1) ins]
  have im: "(\<lambda>(kind, to). out_edge kind to) ` set (rel # rels) \<union> set (mg_edges g) =
      (\<lambda>(kind, to). out_edge kind to) ` set rels \<union> set (mg_edges g1)" using g1(2) by (auto simp: rel)
  show ?case
  proof (cases b)
    case False
    then have eq: "{in_edge kind i | kind. (kind, j) \<in> set (rel # rels) \<and> out_edge kind j \<notin> set (mg_edges g)} =
        {in_edge kind i | kind. (kind, j) \<in> set rels \<and> out_edge kind j \<notin> set (mg_edges g1)}" for j using g1(2,4) rel by auto
    have len: "length (mg_edges g1) = length (mg_edges g)" using g1(5) False by simp
    have run: "add_relations xxh pg st i (rel # rels) g p mt tx = add_relations xxh pg st i rels g1 p mt tx" using ins False rel by simp
    show ?thesis
      using Cons.IH [OF Cons.prems(1,2) g1(1) rok(2) Cons.prems(5,6) rok(3) Cons.prems(8)] unfolding run eq im g1(3) len .
  next
    case True
    have "adjacency_in m to (Ent to) (Edg to)" using Cons.prems(2) by (simp add: graph_in_def)
    from get_adjacency_found [OF dict_state_reads [OF Cons.prems(1)] this] obtain found h where f: "get_adjacency (txn_source xxh pg st tx) p to = Some (Inr found)"
        "(case found of Some g \<Rightarrow> g | None \<Rightarrow> memory_graph_default) = h" "memory_graph_ok h" "set (mg_entities h) = Ent to" "set (mg_edges h) = Edg to" by blast
    obtain b2 h1 where ins2: "insert_edge (in_edge kind i) h = (b2, h1)" by fastforce
    note h1 = insert_edge_set [OF f(3) ok(2) ins2]
    let ?E = "insert (in_edge kind i) (Edg to)" and ?Edg = "Edg(to := insert (in_edge kind i) (Edg to))"
    have F: "\<forall>j. finite (F j) \<and> card (F j) < 2 ^ 25 \<and> ?Edg j \<subseteq> F j \<and> card (Ent j) < 2 ^ 16" using Cons.prems(6,7) rel by simp
    then have "card ?E < 2 ^ 25" using card_mono [of "F to" ?E] by (metis (no_types, lifting) fun_upd_same le_less_trans)
    then have small: "card (set (mg_entities h1)) < 2 ^ 16" "card (set (mg_edges h1)) < 2 ^ 25" using F f(4,5) h1(2,3) by simp_all
    let ?mt = "mt\<lparr>gm_relation_count := sat_succ64 (gm_relation_count mt)\<rparr>"
    have run: "add_relations xxh pg st i (rel # rels) g p mt tx = bind_run (Some (memory_graph_encode h1, tx)) (\<lambda>body tx.
        bind_run (Some (dict_upsert xxh (txn_ops xxh pg st) GRAPH_DICT p (memory_key to) body tx)) (\<lambda>root tx.
          add_relations xxh pg st i rels g1 root ?mt tx))"
      using ins True f(1,2) ins2 rel by simp
    have cnt: "counts (Suc n) (gm_relation_count ?mt)" using counts_succ [OF Cons.prems(8)] by simp
    from Cons.prems(1,2) ok(3) h1(1) small show ?thesis
    proof (cases rule: store_adjacency)
      case (full body tx')
      then show ?thesis unfolding run by simp
    next
      case (stored body p' tx' m' K')
      have up: "Ent(to := set (mg_entities h1)) = Ent" "Edg(to := set (mg_edges h1)) = ?Edg" using f(4,5) h1(2,3) by (auto simp: fun_eq_iff)
      have edg: "(\<lambda>j. Edg j \<union> {in_edge kind i | kind. (kind, j) \<in> set (rel # rels) \<and> out_edge kind j \<notin> set (mg_edges g)}) =
          (\<lambda>j. ?Edg j \<union> {in_edge kind i | kind. (kind, j) \<in> set rels \<and> out_edge kind j \<notin> set (mg_edges g1)})"
        using g1(2,4) True rel by (auto simp: fun_eq_iff)
      have run': "add_relations xxh pg st i (rel # rels) g p mt tx = add_relations xxh pg st i rels g1 p' ?mt tx'"
        unfolding run stored(1) by (simp add: stored(2))
      have len: "length (mg_edges g1) = Suc (length (mg_edges g))" using g1(5) True by simp
      have sum: "Suc n + (k - length (mg_edges g1)) = n + (k - length (mg_edges g)) \<and> length (mg_edges g) \<le> k" if "length (mg_edges g1) \<le> k" for k
        using that len by linarith
      have ec: "gm_entity_count ?mt = gm_entity_count mt" by simp
      from Cons.IH [OF stored(3) stored(4) [unfolded up] g1(1) rok(2) Cons.prems(5) F rok(3) cnt]
      show ?thesis unfolding run' im g1(3) ec edg
        using dict_step_trans [OF stored(5)] sum by (elim exE conjE disjE) (blast, metis (no_types, lifting))
    qed
  qed
qed

section \<open>Two relations\<close>

text \<open>\<open>T\<close>: a memory mentions an entity; \<open>R\<close>: a memory relates to another, with a kind.\<close>

type_synonym tags = "(ulid \<times> rstring) set"
type_synonym relations = "(ulid \<times> rstring \<times> ulid) set"

definition edges_of :: "relations \<Rightarrow> ulid \<Rightarrow> edge set" where
  "edges_of R i = {out_edge kind to | kind to. (i, kind, to) \<in> R} \<union> {in_edge kind j | kind j. (j, kind, i) \<in> R}"

abbreviation members_of :: "tags \<Rightarrow> rstring \<Rightarrow> ulid set" where
  "members_of T name \<equiv> {i. (i, name) \<in> T}"

abbreviation entities_of :: "tags \<Rightarrow> ulid \<Rightarrow> rstring set" where
  "entities_of T i \<equiv> {name. (i, name) \<in> T}"

definition graph_rep :: "(bytes \<times> bytes) list \<Rightarrow> tags \<Rightarrow> relations \<Rightarrow> bool" where
  "graph_rep m T R \<longleftrightarrow> graph_in m (members_of T) (entities_of T) (edges_of R)"

definition graph_at :: "u32 \<Rightarrow> view \<Rightarrow> u64 \<Rightarrow> tags \<Rightarrow> relations \<Rightarrow> u64 set \<Rightarrow> bool" where
  "graph_at ps V p T R K \<longleftrightarrow> finite T \<and> finite R \<and> (p = 0 \<and> T = {} \<and> R = {} \<and> K = {} \<or>
     p \<noteq> 0 \<and> (\<exists>page mt m D. V p = Some page \<and> graph_meta_decode page p = Inr mt \<and> dict_at GRAPH_DICT ps V (gm_dict_root mt) m D \<and>
       p \<notin> D \<and> K = insert p D \<and> graph_rep m T R \<and> counts (card (snd ` T)) (gm_entity_count mt) \<and> counts (card R) (gm_relation_count mt)))"

text \<open>The sizes within which every value of the dictionary is shorter than 4 GiB.\<close>

definition graph_fits :: "tags \<Rightarrow> relations \<Rightarrow> bool" where
  "graph_fits T R \<longleftrightarrow> (\<forall>name. card (members_of T name) < 2 ^ 27) \<and> (\<forall>i. card (entities_of T i) < 2 ^ 16 \<and> card (edges_of R i) < 2 ^ 25)"

lemma slices_finite:
  assumes "finite T" "finite R"
  shows "finite (members_of T name)" "finite (entities_of T i)" "finite (edges_of R i)"
proof -
  have "members_of T name \<subseteq> fst ` T" "entities_of T i \<subseteq> snd ` T" by force+
  then show "finite (members_of T name)" "finite (entities_of T i)" using assms(1) by (meson finite_imageI finite_subset)+
  have "edges_of R i \<subseteq> (\<lambda>(_, kind, to). out_edge kind to) ` R \<union> (\<lambda>(j, kind, _). in_edge kind j) ` R" by (force simp: edges_of_def)
  then show "finite (edges_of R i)" using assms(2) by (meson finite_UnI finite_imageI finite_subset)
qed

lemma tagged_entities: "{name. members_of T name \<noteq> {}} = snd ` T"
  by force

text \<open>What one more memory adds.\<close>

lemma edges_of_iff:
  "e \<in> edges_of R i \<longleftrightarrow> (if ed_outgoing e then (i, ed_kind e, ed_other e) \<in> R else (ed_other e, ed_kind e, i) \<in> R)"
  by (cases e) (auto simp: edges_of_def)

lemma out_edges_iff: "e \<in> (\<lambda>(kind, to). out_edge kind to) ` S \<longleftrightarrow> ed_outgoing e \<and> (ed_kind e, ed_other e) \<in> S"
  by (cases e) force

lemma edges_of_more:
  assumes "\<forall>(kind, to) \<in> set rels. to \<noteq> i"
  shows "edges_of (R \<union> Pair i ` set rels) i = (\<lambda>(kind, to). out_edge kind to) ` set rels \<union> edges_of R i"
    and "j \<noteq> i \<Longrightarrow> edges_of (R \<union> Pair i ` set rels) j = edges_of R j \<union> {in_edge kind i | kind. (kind, j) \<in> set rels \<and> out_edge kind j \<notin> edges_of R i}"
    and "(kind, to) \<in> set rels \<Longrightarrow> in_edge kind i \<in> edges_of (R \<union> Pair i ` set rels) to"
proof -
  show "edges_of (R \<union> Pair i ` set rels) i = (\<lambda>(kind, to). out_edge kind to) ` set rels \<union> edges_of R i"
  proof (rule set_eqI)
    fix e :: edge
    show "e \<in> edges_of (R \<union> Pair i ` set rels) i \<longleftrightarrow> e \<in> (\<lambda>(kind, to). out_edge kind to) ` set rels \<union> edges_of R i"
      unfolding Un_iff out_edges_iff edges_of_iff using assms by auto
  qed
  show "edges_of (R \<union> Pair i ` set rels) j = edges_of R j \<union> {in_edge kind i | kind. (kind, j) \<in> set rels \<and> out_edge kind j \<notin> edges_of R i}"
    if "j \<noteq> i"
  proof (rule set_eqI)
    fix e :: edge
    have "e \<in> {in_edge kind i | kind. (kind, j) \<in> set rels \<and> out_edge kind j \<notin> edges_of R i} \<longleftrightarrow>
        \<not> ed_outgoing e \<and> ed_other e = i \<and> (ed_kind e, j) \<in> set rels \<and> (i, ed_kind e, j) \<notin> R"
      by (cases e) (auto simp: edges_of_iff)
    then show "e \<in> edges_of (R \<union> Pair i ` set rels) j \<longleftrightarrow>
        e \<in> edges_of R j \<union> {in_edge kind i | kind. (kind, j) \<in> set rels \<and> out_edge kind j \<notin> edges_of R i}"
      unfolding Un_iff edges_of_iff using that by auto
  qed
  show "in_edge kind i \<in> edges_of (R \<union> Pair i ` set rels) to" if "(kind, to) \<in> set rels" using that by (simp add: edges_of_iff)
qed

lemma card_more:
  assumes "finite R" "\<forall>(kind, to) \<in> set rels. to \<noteq> i"
  shows "card (R \<union> Pair i ` set rels) = card R + (card (edges_of (R \<union> Pair i ` set rels) i) - card (edges_of R i))"
proof -
  let ?N = "Pair i ` set rels - R" and ?O = "(\<lambda>(kind, to). out_edge kind to) ` set rels" and ?S = "{rel \<in> set rels. (i, rel) \<notin> R}"
  have "e \<in> ?O - edges_of R i \<longleftrightarrow> e \<in> (\<lambda>(kind, to). out_edge kind to) ` ?S" for e
    unfolding Diff_iff out_edges_iff edges_of_iff by auto
  then have "?O - edges_of R i = (\<lambda>(kind, to). out_edge kind to) ` ?S" by blast
  moreover have "inj_on (\<lambda>(kind, to). out_edge kind to) ?S" by (auto simp: inj_on_def)
  moreover have "?N = Pair i ` ?S" by auto
  ultimately have O: "card (?O - edges_of R i) = card ?N" by (simp add: card_image inj_on_def)
  have fin: "finite (edges_of R i)" using slices_finite(3) [OF _ assms(1), of "{}"] by simp
  have "card (?O \<union> edges_of R i) = card (edges_of R i) + card (?O - edges_of R i)"
    using card_Un_disjoint [OF fin, of "?O - edges_of R i"] by (simp add: Un_commute)
  moreover have "card (R \<union> Pair i ` set rels) = card R + card ?N" using card_Un_disjoint [OF assms(1), of ?N] by simp
  ultimately show ?thesis using O edges_of_more(1) [OF assms(2), of R] by simp
qed

section \<open>The meta page\<close>

lemma set_graph_root_facts [simp]:
  "txn_view V (set_graph_root_page p tx) = txn_view V tx" "txn_graph_root_page pg (set_graph_root_page p tx) = p"
  "tx_pending (set_graph_root_page p tx) = (tx_pending tx)\<lparr>pd_graph_root := Some p\<rparr>"
  by (simp_all add: txn_view_def set_graph_root_page_def txn_graph_root_page_def)

lemma graph_meta_stamped: "stamp_page_checksum xxh (graph_meta_encode xxh mt ps) = graph_meta_encode xxh mt ps"
  by (simp add: graph_meta_encode_def Let_def split_beta stamp_idem)

lemma graph_at_load:
  assumes src: "serves src V ps" and g: "graph_at ps V p T R K"
  obtains found mt m D where "load_meta src p = Inr found" "(case found of Some m \<Rightarrow> m | None \<Rightarrow> graph_meta_empty) = mt"
    "dict_at GRAPH_DICT ps V (gm_dict_root mt) m D" "p \<notin> D" "D \<subseteq> K" "p \<noteq> 0 \<Longrightarrow> p \<in> K \<and> p \<in> dom V"
    "graph_rep m T R" "counts (card (snd ` T)) (gm_entity_count mt)" "counts (card R) (gm_relation_count mt)"
proof (cases "p = 0")
  case True
  then have "T = {}" "R = {}" "K = {}" using g by (simp_all add: graph_at_def)
  moreover have "graph_rep [] {} {}" by (simp add: graph_rep_def graph_in_def members_in_def adjacency_in_def edges_of_def)
  ultimately show ?thesis using True by (intro that [of None graph_meta_empty "[]" "{}"]) (simp_all add: load_meta_def graph_meta_empty_def counts_def)
next
  case False
  then obtain page mt m D where o: "V p = Some page" "graph_meta_decode page p = Inr mt" "dict_at GRAPH_DICT ps V (gm_dict_root mt) m D" "p \<notin> D" "K = insert p D"
      "graph_rep m T R" "counts (card (snd ` T)) (gm_entity_count mt)" "counts (card R) (gm_relation_count mt)"
    using g by (auto simp: graph_at_def)
  have "src_page src p = Inr page" using src o(1) by (simp add: serves_def)
  then show ?thesis using o False by (intro that [of "Some mt" mt m D]) (auto simp: load_meta_def)
qed

lemma save_meta_outcome:
  assumes inv: "txn_inv xxh V pg st pd tx" and p: "p = txn_graph_root_page pg tx" "p = 0 \<or> p \<in> dom (txn_view V tx)"
    and out: "save_meta xxh pg st mt tx = (r, tx')"
  shows "r = Inl page_overflow \<or> (\<exists>q page tx1. r = Inr () \<and> tx' = set_graph_root_page q tx1 \<and> txn_inv xxh V pg st pd tx1 \<and> q \<noteq> 0 \<and>
    (if p = 0 then q \<notin> dom (txn_view V tx) else q = p) \<and> dom (txn_view V tx1) = insert q (dom (txn_view V tx)) \<and>
    txn_view V tx1 q = Some page \<and> graph_meta_decode page q = Inr mt \<and> (\<forall>x. x \<noteq> q \<longrightarrow> txn_view V tx1 x = txn_view V tx x))"
proof -
  let ?po = "txn_ops xxh pg st" and ?page = "graph_meta_encode xxh mt (page_size (pg_header pg))"
  have "page_size_is_valid (page_size (pg_header pg))" using txn_pages.size_valid [OF inv] by simp
  note rt = graph_meta_roundtrip [OF this, where xxh = xxh and m = mt]
  have ops: "allocate_page xxh pg = po_alloc ?po" "write_page xxh pg = po_write ?po" by (simp_all add: txn_ops_def)
  have w: "\<exists>tx1. po_write ?po q ?page t = (Inr (), tx1) \<and> txn_inv xxh V pg st pd tx1 \<and> txn_view V tx1 = (txn_view V t)(q \<mapsto> ?page)"
    if "txn_inv xxh V pg st pd t" "q \<noteq> 0" "q \<in> dom (txn_view V t)" for q t
    using txn_pages.write_view [OF that(1,2), of ?page] that(3) rt(2) by (auto simp: graph_meta_stamped)
  show ?thesis
  proof (cases "p = 0")
    case True
    obtain r1 t where al: "po_alloc ?po tx = (r1, t)" by fastforce
    from txn_pages.alloc_fresh [OF inv al] consider "r1 = Inl page_overflow" |
      q page where "r1 = Inr q" "q \<noteq> 0" "txn_view V tx q = None" "txn_inv xxh V pg st pd t" "txn_view V t = (txn_view V tx)(q \<mapsto> page)" by blast
    then show ?thesis
    proof cases
      case 2
      then obtain tx1 where "po_write ?po q ?page t = (Inr (), tx1)" "txn_inv xxh V pg st pd tx1" "txn_view V tx1 = (txn_view V t)(q \<mapsto> ?page)"
        using w [of t q] by auto
      moreover have "r = Inr ()" "tx' = set_graph_root_page q tx1" using calculation(1) 2(1) True p(1) out al by (simp_all add: save_meta_def ops)
      moreover have "q \<notin> dom (txn_view V tx)" "dom (txn_view V tx1) = insert q (dom (txn_view V tx))" using calculation(3) 2(3,5) by auto
      moreover have "txn_view V tx1 q = Some ?page" "\<forall>x. x \<noteq> q \<longrightarrow> txn_view V tx1 x = txn_view V tx x" using calculation(3) 2(5) by simp_all
      ultimately show ?thesis using 2(2) True rt(1) by (metis (full_types))
    qed (use True p(1) out al in \<open>simp add: save_meta_def ops\<close>)
  next
    case False
    then obtain tx1 where "po_write ?po p ?page tx = (Inr (), tx1)" "txn_inv xxh V pg st pd tx1" "txn_view V tx1 = (txn_view V tx)(p \<mapsto> ?page)"
      using w [OF inv] p(2) by blast
    moreover have "r = Inr ()" "tx' = set_graph_root_page p tx1" using calculation(1) False p(1) out by (simp_all add: save_meta_def ops)
    moreover have "dom (txn_view V tx1) = insert p (dom (txn_view V tx))" using calculation(3) by auto
    moreover have "txn_view V tx1 p = Some ?page" "\<forall>x. x \<noteq> p \<longrightarrow> txn_view V tx1 x = txn_view V tx x" using calculation(3) by simp_all
    ultimately show ?thesis using False rt(1) by (metis (full_types))
  qed
qed

section \<open>Adding a memory\<close>

text \<open>The loop over the relations and the adjacency of the new memory, then the loop over the entities before them: \<open>F\<close> is what
  the code does next.\<close>

lemma relations_written:
  fixes T :: tags and R :: relations and rels :: "(rstring \<times> ulid) list" and i :: ulid
  defines "R' \<equiv> R \<union> Pair i ` set rels"
  assumes state: "graph_dict xxh V pg st pd tx p m D" and rep: "graph_in m Mem Ent (edges_of R)" and fin: "finite R"
    and fits: "\<forall>j. card (Ent j) < 2 ^ 16 \<and> card (edges_of R' j) < 2 ^ 25" and ok: "length i = 16" "\<forall>rel \<in> set rels. relation_ok i rel"
    and cnt: "counts (card R) (gm_relation_count mt)" and g: "memory_graph_ok g" "card (set (mg_entities g)) < 2 ^ 16" "set (mg_edges g) = edges_of R i"
    and out: "bind_run (add_relations xxh pg st i rels g p mt tx) (\<lambda>(adj, root_no, mt) tx.
      bind_run (Some (memory_graph_encode adj, tx)) (\<lambda>body tx.
      bind_run (Some (dict_upsert xxh (txn_ops xxh pg st) GRAPH_DICT root_no (memory_key i) body tx)) (\<lambda>root_no tx. F root_no mt tx))) = res"
  shows "(\<exists>tx'. res = Some (Inl page_overflow, tx')) \<or> (\<exists>p' mt' m' D' tx1. res = F p' mt' tx1 \<and> graph_dict xxh V pg st pd tx1 p' m' D' \<and>
    dict_step V tx D tx1 D' \<and> graph_in m' Mem (Ent(i := set (mg_entities g))) (edges_of R') \<and> gm_entity_count mt' = gm_entity_count mt \<and>
    counts (card R') (gm_relation_count mt'))"
proof -
  have fin': "finite R'" using fin by (simp add: R'_def)
  have to: "\<forall>(kind, to) \<in> set rels. to \<noteq> i" using ok(2) by (auto simp: relation_ok_def)
  note more = edges_of_more [OF to, where R = R, folded R'_def]
  have sub: "edges_of R j \<subseteq> edges_of R' j" "finite (edges_of R' j)" for j
    using slices_finite(3) [OF _ fin', of "{}"] unfolding R'_def by (auto simp: edges_of_iff)
  have F: "\<forall>j. finite (edges_of R' j) \<and> card (edges_of R' j) < 2 ^ 25 \<and> edges_of R j \<subseteq> edges_of R' j \<and> card (Ent j) < 2 ^ 16"
    using fits sub by simp
  have F': "\<forall>(kind, to) \<in> set rels. in_edge kind i \<in> edges_of R' to" using more(3) by blast
  from add_relations_outcome [OF state rep g(1) ok(2,1) F F' cnt] show ?thesis
  proof (elim exE conjE disjE)
    fix r tx2 assume "add_relations xxh pg st i rels g p mt tx = Some (r, tx2)" "r = Inl page_overflow"
    then show ?thesis using out by auto
  next
    fix r tx2 g2 p2 mt2 m2 K2
    assume a: "add_relations xxh pg st i rels g p mt tx = Some (r, tx2)" "r = Inr (g2, p2, mt2)"
      and s2: "graph_dict xxh V pg st pd tx2 p2 m2 K2" "dict_step V tx D tx2 K2"
        "graph_in m2 Mem Ent (\<lambda>j. edges_of R j \<union> {in_edge kind i | kind. (kind, j) \<in> set rels \<and> out_edge kind j \<notin> set (mg_edges g)})"
        "memory_graph_ok g2" "mg_entities g2 = mg_entities g" "set (mg_edges g2) = (\<lambda>(kind, to). out_edge kind to) ` set rels \<union> set (mg_edges g)"
        "counts (card R + (length (mg_edges g2) - length (mg_edges g))) (gm_relation_count mt2)" "gm_entity_count mt2 = gm_entity_count mt"
    have E2: "set (mg_edges g2) = edges_of R' i" using s2(6) more(1) unfolding g(3) by simp
    have small: "card (set (mg_entities g2)) < 2 ^ 16" "card (set (mg_edges g2)) < 2 ^ 25" using fits g(2) s2(5) unfolding E2 by simp_all
    have c: "counts (card R') (gm_relation_count mt2)"
      using s2(7) card_more [OF fin to] distinct_card [OF distinct_adjacency(2) [OF s2(4)]] distinct_card [OF distinct_adjacency(2) [OF g(1)]]
      unfolding R'_def [symmetric] E2 g(3) by simp
    from s2(1) s2(3) [unfolded g(3)] ok(1) s2(4) small show ?thesis
    proof (cases rule: store_adjacency)
      case (full body tx')
      then show ?thesis using out a by auto
    next
      case (stored body p' tx' m' K')
      have "(\<lambda>j. edges_of R j \<union> {in_edge kind i | kind. (kind, j) \<in> set rels \<and> out_edge kind j \<notin> edges_of R i})(i := edges_of R' i) = edges_of R'"
        using more(2) by (auto simp: fun_eq_iff)
      then have "graph_in m' Mem (Ent(i := set (mg_entities g))) (edges_of R')" using stored(4) unfolding E2 s2(5) by simp
      moreover have "res = F p' mt2 tx'" using out a stored(1,2) by simp
      ultimately show ?thesis using stored(3) dict_step_trans [OF s2(2) stored(5)] c s2(8) by blast
    qed
  qed
qed

lemma graph_written:
  fixes T :: tags and R :: relations and names :: "rstring list" and rels :: "(rstring \<times> ulid) list" and i :: ulid
  defines "T' \<equiv> T \<union> {i} \<times> set names" and "R' \<equiv> R \<union> Pair i ` set rels"
  assumes state: "graph_dict xxh V pg st pd tx p m D" and rep: "graph_rep m T R" and fin: "finite T" "finite R" and fits: "graph_fits T' R'"
    and ok: "length i = 16" "\<forall>name \<in> set names. entity_ok name" "\<forall>rel \<in> set rels. relation_ok i rel"
    and cnt: "counts (card (snd ` T)) (gm_entity_count mt)" "counts (card R) (gm_relation_count mt)"
    and g: "memory_graph_ok g" "set (mg_entities g) = entities_of T i" "set (mg_edges g) = edges_of R i"
    and out: "bind_run (add_entities xxh pg st i names g p mt tx) (\<lambda>(adj, root_no, mt) tx.
      bind_run (add_relations xxh pg st i rels adj root_no mt tx) (\<lambda>(adj, root_no, mt) tx.
      bind_run (Some (memory_graph_encode adj, tx)) (\<lambda>body tx.
      bind_run (Some (dict_upsert xxh (txn_ops xxh pg st) GRAPH_DICT root_no (memory_key i) body tx)) (\<lambda>root_no tx. F root_no mt tx)))) = res"
  shows "(\<exists>tx'. res = Some (Inl page_overflow, tx')) \<or> (\<exists>p' mt' m' D' tx1. res = F p' mt' tx1 \<and> graph_dict xxh V pg st pd tx1 p' m' D' \<and>
    dict_step V tx D tx1 D' \<and> graph_rep m' T' R' \<and> counts (card (snd ` T')) (gm_entity_count mt') \<and> counts (card R') (gm_relation_count mt'))"
proof -
  have fin': "finite T'" "finite R'" using fin by (simp_all add: T'_def R'_def)
  have lim: "card (members_of T' x) < 2 ^ 27" "card (entities_of T' j) < 2 ^ 16" "card (edges_of R' j) < 2 ^ 25" for x j
    using fits by (simp_all add: graph_fits_def)
  have "entities_of T j \<subseteq> entities_of T' j" for j by (auto simp: T'_def)
  then have ent: "\<forall>j. card (entities_of T j) < 2 ^ 16 \<and> card (edges_of R' j) < 2 ^ 25"
    using lim(2,3) slices_finite(2) [OF fin'] by (meson card_mono le_less_trans)
  have gi: "graph_in m (members_of T) (entities_of T) (edges_of R)" using rep by (simp add: graph_rep_def)
  have G: "\<forall>name. finite (members_of T' name) \<and> card (members_of T' name) < 2 ^ 27 \<and> members_of T name \<subseteq> members_of T' name"
      "\<forall>name \<in> set names. i \<in> members_of T' name" using lim(1) slices_finite(1) [OF fin'] by (auto simp: T'_def)
  have c: "counts (card {name. members_of T name \<noteq> {}}) (gm_entity_count mt)" using cnt(1) by (simp only: tagged_entities)
  have Mem: "(\<lambda>name. if name \<in> set names - set (mg_entities g) then insert i (members_of T name) else members_of T name) = members_of T'"
    unfolding g(2) T'_def by (auto simp: fun_eq_iff)
  from add_entities_outcome [OF state gi g(1) ok(2,1) G c, unfolded Mem] show ?thesis
  proof (elim exE conjE disjE)
    fix r tx1 assume "add_entities xxh pg st i names g p mt tx = Some (r, tx1)" "r = Inl page_overflow"
    then show ?thesis using out by auto
  next
    fix r tx1 g1 p1 mt1 m1 K1 Mem'
    assume e: "add_entities xxh pg st i names g p mt tx = Some (r, tx1)" "r = Inr (g1, p1, mt1)" and M: "Mem' = members_of T'"
      and s1: "graph_dict xxh V pg st pd tx1 p1 m1 K1" "dict_step V tx D tx1 K1" "graph_in m1 Mem' (entities_of T) (edges_of R)"
        "memory_graph_ok g1" "set (mg_entities g1) = set names \<union> set (mg_entities g)" "mg_edges g1 = mg_edges g"
        "counts (card {name. Mem' name \<noteq> {}}) (gm_entity_count mt1)" "gm_relation_count mt1 = gm_relation_count mt"
    have E: "set (mg_entities g1) = entities_of T' i" "set (mg_edges g1) = edges_of R i" using s1(5,6) g(2,3) by (auto simp: T'_def)
    have small: "card (set (mg_entities g1)) < 2 ^ 16" unfolding E by (rule lim)
    have c1: "counts (card R) (gm_relation_count mt1)" using cnt(2) s1(8) by simp
    have c2: "counts (card (snd ` T')) (gm_entity_count mt1)" using s1(7) by (simp only: M tagged_entities)
    have up: "(entities_of T)(i := set (mg_entities g1)) = entities_of T'" unfolding E by (auto simp: fun_eq_iff T'_def)
    have "bind_run (add_relations xxh pg st i rels g1 p1 mt1 tx1) (\<lambda>(adj, root_no, mt) tx. bind_run (Some (memory_graph_encode adj, tx)) (\<lambda>body tx.
      bind_run (Some (dict_upsert xxh (txn_ops xxh pg st) GRAPH_DICT root_no (memory_key i) body tx)) (\<lambda>root_no tx. F root_no mt tx))) = res"
      using out e by simp
    from relations_written [OF s1(1) s1(3) [unfolded M] fin(2) ent [unfolded R'_def] ok(1,3) c1 s1(4) small E(2) this, folded R'_def, unfolded up] show ?thesis
      using dict_step_trans [OF s1(2)] c2 unfolding graph_rep_def by (elim disjE exE conjE) (blast, metis (no_types, lifting))
  qed
qed

text \<open>Saving the meta page finishes the new graph.\<close>

lemma graph_saved:
  assumes inv: "txn_inv xxh V pg st (tx_pending tx) tx" and p: "txn_graph_root_page pg tx \<notin> D" "D \<subseteq> K"
      "txn_graph_root_page pg tx \<noteq> 0 \<Longrightarrow> txn_graph_root_page pg tx \<in> K \<and> txn_graph_root_page pg tx \<in> dom (txn_view V tx)"
    and state: "graph_dict xxh V pg st (tx_pending tx) tx1 p' m' D'" "dict_step V tx D tx1 D'" "graph_rep m' T' R'"
      "counts (card (snd ` T')) (gm_entity_count mt')" "counts (card R') (gm_relation_count mt')"
    and sv: "save_meta xxh pg st (mt'\<lparr>gm_dict_root := p'\<rparr>) tx1 = (r, tx')"
  shows "r = Inl page_overflow \<or> r = Inr () \<and> txn_ok xxh pg tx' \<and>
    (finite T' \<and> finite R' \<longrightarrow> (\<exists>K'. graph_at (page_size (pg_header pg)) (txn_view V tx') (txn_graph_root_page pg tx') T' R' K' \<and>
      K' \<subseteq> K \<union> - dom (txn_view V tx))) \<and>
    (\<forall>q \<in> dom (txn_view V tx) - K. txn_view V tx' q = txn_view V tx q) \<and>
    (tx_pending tx')\<lparr>pd_graph_root := None\<rparr> = (tx_pending tx)\<lparr>pd_graph_root := None\<rparr>"
proof -
  let ?p = "txn_graph_root_page pg tx" and ?ps = "page_size (pg_header pg)"
  have inv1: "txn_inv xxh V pg st (tx_pending tx) tx1" and tree: "dict_at GRAPH_DICT ?ps (txn_view V tx1) p' m' D'"
    using state(1) by (simp_all add: dict_state_def dict_inv_def)
  have p1: "txn_graph_root_page pg tx1 = ?p" using inv1 by (simp add: txn_graph_root_page_def txn_inv_def)
  have st: "dom (txn_view V tx) \<subseteq> dom (txn_view V tx1)" "D' \<subseteq> D \<union> - dom (txn_view V tx)" "\<forall>q \<in> dom (txn_view V tx) - D. txn_view V tx1 q = txn_view V tx q"
    using state(2) by (auto simp: dict_step_def)
  have d1: "?p = 0 \<or> ?p \<in> dom (txn_view V tx1)" using p(3) st(1) by blast
  from save_meta_outcome [OF inv1 p1 [symmetric] d1 sv] show ?thesis
  proof (elim disjE exE conjE)
    fix q page t
    assume o: "r = Inr ()" "tx' = set_graph_root_page q t" "txn_inv xxh V pg st (tx_pending tx) t" "q \<noteq> 0"
      "if ?p = 0 then q \<notin> dom (txn_view V tx1) else q = ?p" "dom (txn_view V t) = insert q (dom (txn_view V tx1))"
      "txn_view V t q = Some page" "graph_meta_decode page q = Inr (mt'\<lparr>gm_dict_root := p'\<rparr>)" "\<forall>x. x \<noteq> q \<longrightarrow> txn_view V t x = txn_view V tx1 x"
    have "D' \<subseteq> dom (txn_view V tx1) - {0}" using dict_format.tree_at_pages [OF tree] .
    then have q: "q \<notin> D'" "q \<in> K \<union> - dom (txn_view V tx)" using o(5) p(1,3) st(1,2) by (auto split: if_splits)
    have tree': "dict_at GRAPH_DICT ?ps (txn_view V t) p' m' D'" by (rule dict_format.tree_at_frame [OF tree]) (use o(9) q(1) in \<open>metis (full_types)\<close>)
    have "txn_view V t x = txn_view V tx x" if x: "x \<in> dom (txn_view V tx) - K" for x
    proof -
      have "x \<noteq> q" "x \<in> dom (txn_view V tx) - D" using x q(2) p(2) by auto
      then show ?thesis using o(9) st(3) by simp
    qed
    moreover have "finite T' \<and> finite R' \<longrightarrow> graph_at ?ps (txn_view V t) q T' R' (insert q D')"
      using o(4,7,8) tree' q(1) state(3-5) by (auto simp: graph_at_def)
    moreover have "insert q D' \<subseteq> K \<union> - dom (txn_view V tx)" using q(2) st(2) p(2) by blast
    ultimately have "finite T' \<and> finite R' \<longrightarrow> (\<exists>K'. graph_at ?ps (txn_view V t) q T' R' K' \<and> K' \<subseteq> K \<union> - dom (txn_view V tx))"
      "\<forall>x \<in> dom (txn_view V tx) - K. txn_view V t x = txn_view V tx x" by blast+
    moreover have "txn_ok xxh pg t" "tx_pending t = tx_pending tx" using o(3) by (simp_all add: txn_inv_def)
    ultimately show ?thesis using o(1,2) set_roots_ok(4) by simp
  qed simp
qed

lemma check_memory_ok:
  assumes "\<forall>name \<in> set entities. utf8_valid name" "\<forall>(kind, to) \<in> set rels. utf8_valid kind \<and> length to = 16"
  shows "check_memory i entities rels = Inr () \<longleftrightarrow> (\<forall>name \<in> set entities. entity_ok name) \<and> (\<forall>rel \<in> set rels. relation_ok i rel)"
proof -
  have "(\<exists>name \<in> set entities. name = [] \<or> MAX_ENTITY_LEN < length name) \<longleftrightarrow> \<not> (\<forall>name \<in> set entities. entity_ok name)"
    using assms(1) by (auto simp: entity_ok_def not_le)
  moreover have "find (\<lambda>(kind, to). kind = [] \<or> MAX_KIND_LEN < length kind \<or> to = i) rels = None \<longleftrightarrow> (\<forall>rel \<in> set rels. relation_ok i rel)"
    using assms(2) by (fastforce simp: find_None_iff relation_ok_def not_le)
  ultimately show ?thesis by (auto simp: check_memory_def split: option.split)
qed

lemma add_memory_outcome:
  fixes T :: tags and R :: relations and entities :: "rstring list" and rels :: "(rstring \<times> ulid) list" and i :: ulid
  defines "T' \<equiv> T \<union> {i} \<times> set entities" and "R' \<equiv> R \<union> Pair i ` set rels"
  assumes rep: "represents xxh V pg st" and tx: "txn_ok xxh pg tx" and size: "2048 \<le> unat (page_size (pg_header pg))"
    and g: "graph_at (page_size (pg_header pg)) (txn_view V tx) (txn_graph_root_page pg tx) T R K" and fits: "graph_fits T' R'"
    and i: "length i = 16" and args: "\<forall>name \<in> set entities. utf8_valid name" "\<forall>(kind, to) \<in> set rels. utf8_valid kind \<and> length to = 16"
    and chk: "check_memory i entities rels = Inr ()" and ne: "\<not> (entities = [] \<and> rels = [])"
  shows "\<exists>r tx'. add_memory xxh pg st i entities rels tx = Some (r, tx') \<and> (r = Inl page_overflow \<or> r = Inr () \<and> txn_ok xxh pg tx' \<and>
    (\<exists>K'. graph_at (page_size (pg_header pg)) (txn_view V tx') (txn_graph_root_page pg tx') T' R' K' \<and> K' \<subseteq> K \<union> - dom (txn_view V tx)) \<and>
    (\<forall>q \<in> dom (txn_view V tx) - K. txn_view V tx' q = txn_view V tx q) \<and>
    (tx_pending tx')\<lparr>pd_graph_root := None\<rparr> = (tx_pending tx)\<lparr>pd_graph_root := None\<rparr>)"
proof -
  let ?ps = "page_size (pg_header pg)" and ?p = "txn_graph_root_page pg tx" and ?src = "txn_source xxh pg st tx"
  let ?names = "remdups_adj (sort entities)" and ?rels = "remdups_adj (sort rels)"
  have inv: "txn_inv xxh V pg st (tx_pending tx) tx" using rep tx by (simp add: txn_inv_def)
  have fin: "finite T" "finite R" using g by (simp_all add: graph_at_def)
  have ok: "length i = 16" "\<forall>name \<in> set entities. entity_ok name" "\<forall>rel \<in> set rels. relation_ok i rel" using i chk check_memory_ok [OF args] by blast+
  obtain found mt m D where l: "load_meta ?src ?p = Inr found" "(case found of Some m \<Rightarrow> m | None \<Rightarrow> graph_meta_empty) = mt"
      "dict_at GRAPH_DICT ?ps (txn_view V tx) (gm_dict_root mt) m D" "?p \<notin> D" "D \<subseteq> K" "?p \<noteq> 0 \<Longrightarrow> ?p \<in> K \<and> ?p \<in> dom (txn_view V tx)"
      "graph_rep m T R" "counts (card (snd ` T)) (gm_entity_count mt)" "counts (card R) (gm_relation_count mt)"
    by (rule graph_at_load [OF txn_serves [OF rep tx] g]) blast
  have state: "graph_dict xxh V pg st (tx_pending tx) tx (gm_dict_root mt) m D"
    using inv l(3) size by (simp add: dict_state_def dict_inv_def GRAPH_DICT_def)
  have "adjacency_in m i (entities_of T i) (edges_of R i)" using l(7) by (simp add: graph_rep_def graph_in_def)
  from get_adjacency_found [OF dict_state_reads [OF state] this] obtain found' g0 where a: "get_adjacency ?src (gm_dict_root mt) i = Some (Inr found')"
      "(case found' of Some g \<Rightarrow> g | None \<Rightarrow> memory_graph_default) = g0" "memory_graph_ok g0" "set (mg_entities g0) = entities_of T i"
      "set (mg_edges g0) = edges_of R i" by blast
  let ?F = "\<lambda>root_no mt tx. Some (save_meta xxh pg st (mt\<lparr>gm_dict_root := root_no\<rparr>) tx)"
  have run: "bind_run (add_entities xxh pg st i ?names g0 (gm_dict_root mt) mt tx) (\<lambda>(adj, root_no, mt) tx.
      bind_run (add_relations xxh pg st i ?rels adj root_no mt tx) (\<lambda>(adj, root_no, mt) tx.
      bind_run (Some (memory_graph_encode adj, tx)) (\<lambda>body tx.
      bind_run (Some (dict_upsert xxh (txn_ops xxh pg st) GRAPH_DICT root_no (memory_key i) body tx)) (\<lambda>root_no tx. ?F root_no mt tx)))) =
      add_memory xxh pg st i entities rels tx"
    unfolding add_memory_def if_not_P [OF ne] using l(1,2) a(1,2) chk by (simp add: Let_def)
  have sets: "set ?names = set entities" "set ?rels = set rels" by simp_all
  note w = graph_written [where T = T and R = R and names = ?names and rels = ?rels and i = i, unfolded sets, folded T'_def R'_def,
    OF state l(7) fin fits ok l(8,9) a(3-5) run]
  show ?thesis
  proof (cases "\<exists>tx'. add_memory xxh pg st i entities rels tx = Some (Inl page_overflow, tx')")
    case False
    then obtain p' mt' m' D' tx1 where c: "add_memory xxh pg st i entities rels tx = ?F p' mt' tx1" "graph_dict xxh V pg st (tx_pending tx) tx1 p' m' D'"
        "dict_step V tx D tx1 D'" "graph_rep m' T' R'" "counts (card (snd ` T')) (gm_entity_count mt')" "counts (card R') (gm_relation_count mt')"
      using w by blast
    obtain r tx' where sv: "save_meta xxh pg st (mt'\<lparr>gm_dict_root := p'\<rparr>) tx1 = (r, tx')" by fastforce
    from graph_saved [OF inv l(4-6) c(2-6) sv] fin show ?thesis using c(1) sv by (auto simp: T'_def R'_def)
  qed blast
qed

section \<open>Reading\<close>

lemma strict_sorted_eq: "sorted_wrt (<) xs \<Longrightarrow> set xs = A \<Longrightarrow> xs = sorted_list_of_set (A :: 'a :: linorder set)"
  by (metis sorted_list_of_set.idem_if_sorted_distinct strict_sorted_iff)

lemma entity_members_at:
  assumes "serves src V ps" "page_size_is_valid ps" "graph_at ps V p T R K"
  shows "entity_members src p name = Some (Inr (sorted_list_of_set (members_of T name)))"
proof -
  obtain found mt m D where l: "load_meta src p = Inr found" "(case found of Some m \<Rightarrow> m | None \<Rightarrow> graph_meta_empty) = mt"
      "dict_at GRAPH_DICT ps V (gm_dict_root mt) m D" "graph_rep m T R"
    by (rule graph_at_load [OF assms(1,3)]) blast
  have "members_in m name (members_of T name)" using l(4) by (simp add: graph_rep_def graph_in_def)
  from assms(1,2) l(3) this show ?thesis
  proof (cases rule: get_members_found)
    case none
    then show ?thesis using l(1,2) by (cases found) (simp_all add: entity_members_def)
  next
    case (some ids)
    then have "ids = sorted_list_of_set (members_of T name)" by (intro strict_sorted_eq) (simp_all add: members_ok_def)
    moreover have "found \<noteq> None"
    proof
      assume "found = None"
      then have "gm_dict_root mt = 0" using l(2) by (auto simp: graph_meta_empty_def)
      then show False using l(3) some by (simp add: get_members_def dict_get_def)
    qed
    ultimately show ?thesis using l(1,2) some(1) by (auto simp: entity_members_def)
  qed
qed

lemma read_memory_graph_at:
  assumes "serves src V ps" "page_size_is_valid ps" "graph_at ps V p T R K"
  shows "\<exists>found. read_memory_graph src p i = Some (Inr found) \<and> (case found of None \<Rightarrow> entities_of T i = {} \<and> edges_of R i = {}
    | Some g \<Rightarrow> mg_entities g = sorted_list_of_set (entities_of T i) \<and> sorted_wrt (<) (map edge_sort_key (mg_edges g)) \<and> set (mg_edges g) = edges_of R i)"
proof -
  obtain found mt m D where l: "load_meta src p = Inr found" "(case found of Some m \<Rightarrow> m | None \<Rightarrow> graph_meta_empty) = mt"
      "dict_at GRAPH_DICT ps V (gm_dict_root mt) m D" "graph_rep m T R"
    by (rule graph_at_load [OF assms(1,3)]) blast
  have "adjacency_in m i (entities_of T i) (edges_of R i)" using l(4) by (simp add: graph_rep_def graph_in_def)
  from get_adjacency_found [OF assms(1,2) l(3) this] obtain x g where a: "get_adjacency src (gm_dict_root mt) i = Some (Inr x)"
      "(case x of Some g \<Rightarrow> g | None \<Rightarrow> memory_graph_default) = g" "memory_graph_ok g" "set (mg_entities g) = entities_of T i" "set (mg_edges g) = edges_of R i" by blast
  have "read_memory_graph src p i = Some (Inr x)"
  proof (cases found)
    case None
    then have "gm_dict_root mt = 0" using l(2) by (auto simp: graph_meta_empty_def)
    then have "x = None" using a(1) by (simp add: get_adjacency_def dict_get_def)
    then show ?thesis using l(1) None by (simp add: read_memory_graph_def)
  qed (use l(1,2) a(1) in \<open>simp add: read_memory_graph_def\<close>)
  moreover have "mg_entities g = sorted_list_of_set (entities_of T i)" using a(3,4) by (intro strict_sorted_eq) (simp_all add: memory_graph_ok_def)
  moreover have "sorted_wrt (<) (map edge_sort_key (mg_edges g))" using a(3) by (simp add: memory_graph_ok_def)
  ultimately show ?thesis using a(2,4,5) memory_graph_default_ok(2,3) by (cases x) auto
qed

lemma graph_stats_at:
  assumes "serves src V ps" "graph_at ps V p T R K"
  shows "\<exists>a b. graph_stats src p = Inr (a, b) \<and> unat a = min (2 ^ 64 - 1) (card (snd ` T)) \<and> unat b = min (2 ^ 64 - 1) (card R)"
proof -
  obtain found mt where l: "load_meta src p = Inr found" "(case found of Some m \<Rightarrow> m | None \<Rightarrow> graph_meta_empty) = mt"
      "counts (card (snd ` T)) (gm_entity_count mt)" "counts (card R) (gm_relation_count mt)"
    by (rule graph_at_load [OF assms]) blast
  then show ?thesis by (cases found) (auto simp: graph_stats_def counts_def graph_meta_empty_def)
qed

text \<open>Other pages do not matter, and a commit keeps the graph.\<close>

lemma graph_at_frame: "graph_at ps V p T R K \<Longrightarrow> \<forall>q \<in> K. V' q = V q \<Longrightarrow> graph_at ps V' p T R K"
  unfolding graph_at_def by (elim conjE disjE exE) (simp_all, metis dict_format.tree_at_frame insertCI)

lemma graph_at_nonzero: "graph_at ps V p T R K \<Longrightarrow> 0 \<notin> K"
  by (auto simp: graph_at_def dest!: dict_format.tree_at_pages)

lemma graph_commit:
  assumes "graph_at ps (txn_view V tx) (txn_graph_root_page pg tx) T R K"
  shows "graph_at ps (next_store xxh (pending_apply (pg_header pg) (tx_page_count tx) (tx_pending tx)) (tx_dirty tx) V)
    (graph_root_page (pending_apply (pg_header pg) (tx_page_count tx) (tx_pending tx))) T R K"
proof -
  have "graph_root_page (pending_apply (pg_header pg) (tx_page_count tx) (tx_pending tx)) = txn_graph_root_page pg tx"
    by (simp add: pending_apply_def txn_graph_root_page_def Let_def split: option.split)
  then show ?thesis
    using graph_at_nonzero [OF assms] by (simp only:) (rule graph_at_frame [OF assms], auto simp: next_store_def txn_view_def)
qed

end
