(* ===== verification/Index_Demo.thy ===== *)
theory Index_Demo
  imports Graph_Correct Demo
begin

text \<open>
  A second small store, with pages of 4096 bytes, for the indexes: a memory that mentions one entity is added to its graph. The
  theorems about dictionary and graph are applied to it.
\<close>

definition wide_opts :: pager_options where
  "wide_opts = demo_opts\<lparr>opt_page_size := 4096\<rparr>"

definition wide_pg :: pager where
  "wide_pg = projr (fst (pager_create demo_hash demo_path wide_opts sim_new))"

definition wide_st :: sim_state where
  "wide_st = snd (pager_create demo_hash demo_path wide_opts sim_new)"

abbreviation wide_store :: "u64 \<Rightarrow> bytes option" where
  "wide_store \<equiv> [0 \<mapsto> header_page demo_hash (create_header wide_opts)]"

abbreviation wide_ops :: "txn page_ops" where
  "wide_ops \<equiv> txn_ops demo_hash wide_pg wide_st"

lemma wide_opts_ok: "options_ok wide_opts"
  by code_simp

lemma wide_created: "represents demo_hash wide_store wide_pg wide_st" "pg_header wide_pg = create_header wide_opts"
proof -
  have "files sim_new demo_path = None" "\<not> crashed sim_new" "\<not> lying_sync sim_new" "crash_at sim_new = None"
    by (simp_all add: sim_new_def)
  from pager_create_effect [OF wide_opts_ok this, of demo_hash]
  show "represents demo_hash wide_store wide_pg wide_st" "pg_header wide_pg = create_header wide_opts"
    by (auto simp: wide_pg_def wide_st_def)
qed

lemma wide_header:
  "page_size (pg_header wide_pg) = 4096" "page_count (pg_header wide_pg) = 1" "graph_root_page (pg_header wide_pg) = 0"
  by (simp_all add: wide_created(2) create_header_def wide_opts_def demo_opts_def)

lemma wide_size: "page_size_is_valid 4096"
  using create_header_wf [OF wide_opts_ok] wide_header(1) by (simp add: header_wf_def wide_created(2))

lemma wide_begin_ok: "txn_ok demo_hash wide_pg demo_begin"
proof -
  have "pager_begin wide_pg = Inr demo_begin"
    using wide_created(1) by (simp add: pager_begin_def demo_begin_def wide_header ensure_usable_def represents_def)
  then show ?thesis by (rule pager_begin_ok)
qed

section \<open>Pages of the transaction\<close>

text \<open>The transaction with these dirty pages, numbered from 1.\<close>

definition wide_tx :: "bytes list \<Rightarrow> txn" where
  "wide_tx imgs = demo_begin\<lparr>tx_page_count := word_of_nat (1 + length imgs), tx_dirty := zip (map word_of_nat [1..<1 + length imgs]) imgs\<rparr>"

definition blank :: bytes where
  "blank = stamp_page_checksum demo_hash (replicate 4096 0)"

lemma wide_start: "demo_begin = wide_tx []"
  by (simp add: wide_tx_def demo_begin_def)

lemma wide_alloc:
  "po_alloc wide_ops (wide_tx []) = (Inr 1, wide_tx [blank])"
  "po_alloc wide_ops (wide_tx [a]) = (Inr 2, wide_tx [a, blank])"
  by (simp_all add: txn_ops_def allocate_page_def wide_tx_def Let_def wide_header blank_def demo_begin_def upt_rec)

lemma wide_put:
  assumes "length p = 4096" "stamp_page_checksum demo_hash p = p"
  shows "po_write wide_ops 1 p (wide_tx [a]) = (Inr (), wide_tx [p])" "po_write wide_ops 2 p (wide_tx [a, b]) = (Inr (), wide_tx [a, p])"
  using assms by (simp_all add: txn_ops_def write_page_def wide_tx_def Let_def wide_header demo_begin_def upt_rec word_le_nat_alt)

lemma wide_read: "po_read wide_ops 1 (wide_tx [a]) = Inr a" "src_page (txn_source demo_hash wide_pg wide_st (wide_tx [a])) 1 = Inr a"
  by (simp_all add: txn_ops_def txn_source_def txn_read_page_def wide_tx_def upt_rec)

section \<open>Two entries in the dictionary\<close>

lemma wide_leaf:
  assumes "dict_leaf_ok es" "dict_footprints es \<le> 4000"
  obtains page where "dict_encode_leaf demo_hash es 4096 GRAPH_DICT = Some page" "length page = 4096" "stamp_page_checksum demo_hash page = page"
    "dict_decode_node page 1 GRAPH_DICT = Inr (DLeaf es)"
proof -
  have "usable 4096 = 4072" by (simp add: usable_def)
  then obtain page where page: "dict_encode_leaf demo_hash es 4096 GRAPH_DICT = Some page"
    using dict_encode_leaf_None [OF wide_size, of demo_hash es GRAPH_DICT] assms(2) by fastforce
  show ?thesis
    using dict_leaf_roundtrip [OF page assms(1) wide_size] dict_encode_stamped [OF page] by (intro that [OF page]) simp_all
qed

abbreviation short :: "bytes \<Rightarrow> bytes \<Rightarrow> dict_entry" where
  "short k v \<equiv> \<lparr>de_key = k, de_value = DInline v\<rparr>"

lemma graph_key_cap: "ds_max_key_len GRAPH_DICT = 129"
  by (simp add: GRAPH_DICT_def)

lemma wide_inline: "length v \<le> 800 \<Longrightarrow> make_value demo_hash wide_ops v GRAPH_DICT reuse tx = (Inr (DInline v), tx)"
  by (simp add: make_value_def max_inline_body_def max_entry_footprint_def usable_def wide_header graph_key_cap)

lemma wide_first:
  assumes "length k \<le> 129" "length v \<le> 800"
  obtains page where "dict_upsert demo_hash wide_ops GRAPH_DICT 0 k v demo_begin = (Inr 1, wide_tx [page])"
    "dict_decode_node page 1 GRAPH_DICT = Inr (DLeaf [short k v])"
proof -
  have "dict_leaf_ok [short k v]" "dict_footprints [short k v] \<le> 4000"
    using assms by (simp_all add: dict_leaf_ok_def value_ok_def dict_footprint_def)
  then obtain page where p: "dict_encode_leaf demo_hash [short k v] 4096 GRAPH_DICT = Some page" "length page = 4096" "stamp_page_checksum demo_hash page = page"
    "dict_decode_node page 1 GRAPH_DICT = Inr (DLeaf [short k v])" by (rule wide_leaf)
  show ?thesis
    by (rule that [OF _ p(4)]) (use assms p(1) wide_put(1) [OF p(2,3)] in \<open>simp add: dict_upsert_def wide_inline wide_start wide_alloc wide_header graph_key_cap\<close>)
qed

lemma wide_second:
  assumes "k < k'" "length k \<le> 129" "length k' \<le> 129" "length v \<le> 800" "length v' \<le> 800" "dict_decode_node page 1 GRAPH_DICT = Inr (DLeaf [short k v])"
  obtains page' where "dict_upsert demo_hash wide_ops GRAPH_DICT 1 k' v' (wide_tx [page]) = (Inr 1, wide_tx [page'])"
proof -
  have "dict_leaf_ok [short k v, short k' v']" "dict_footprints [short k v, short k' v'] \<le> 4000"
    using assms by (simp_all add: dict_leaf_ok_def value_ok_def dict_footprint_def)
  then obtain page' where p: "dict_encode_leaf demo_hash [short k v, short k' v'] 4096 GRAPH_DICT = Some page'" "length page' = 4096"
    "stamp_page_checksum demo_hash page' = page'" by (rule wide_leaf)
  have "binary_search [k] k' = Inl 1" using assms(1) by (simp add: binary_search_def)
  then have "dict_leaf_upsert demo_hash wide_ops k' v' GRAPH_DICT [short k v] (wide_tx [page]) = (Inr [short k v, short k' v'], wide_tx [page])"
    using assms(5) by (simp add: dict_leaf_upsert_def wide_inline)
  then have "dict_insert_rec demo_hash wide_ops 1 k' v' 0 GRAPH_DICT (wide_tx [page]) = (Inr DFit, wide_tx [page'])"
    by (subst dict_insert_rec.simps) (simp add: wide_read assms(6) MAX_DEPTH_def dict_leaf_store_def wide_header p(1) wide_put(1) [OF p(2,3)])
  then show ?thesis using assms(3) by (intro that [of page']) (simp add: dict_upsert_def graph_key_cap)
qed

section \<open>A memory in the graph\<close>

abbreviation demo_name :: rstring where
  "demo_name \<equiv> [97]"

lemma wide_graph: "graph_at (page_size (pg_header wide_pg)) (txn_view wide_store demo_begin) (txn_graph_root_page wide_pg demo_begin) {} {} {}"
  by (simp add: graph_at_def txn_graph_root_page_def demo_begin_def pending_default_def wide_header)

lemma wide_fits: "graph_fits ({} \<union> {demo_key} \<times> set [demo_name]) ({} \<union> Pair demo_key ` set [])"
proof -
  have "card {i. i = demo_key \<and> name = demo_name} < 134217728" for name by (cases "name = demo_name") simp_all
  moreover have "card {name. name = demo_name \<and> i = demo_key} < 65536" for i by (cases "i = demo_key") simp_all
  moreover have "edges_of {} i = {}" for i by (simp add: edges_of_def)
  ultimately show ?thesis by (simp add: graph_fits_def)
qed

lemma wide_add: "\<exists>tx'. add_memory demo_hash wide_pg wide_st demo_key [demo_name] [] demo_begin = Some (Inr (), tx')"
proof -
  let ?k = "entity_key demo_name" and ?k' = "memory_key demo_key" and ?v = "members_encode [demo_key]"
  let ?g = "\<lparr>mg_entities = [demo_name], mg_edges = []\<rparr> :: memory_graph"
  have root: "txn_graph_root_page wide_pg (wide_tx ps) = 0" for ps
    by (simp add: txn_graph_root_page_def wide_tx_def demo_begin_def pending_default_def wide_header)
  have none: "get_adjacency src 0 i = Some (Inr None)" "get_members src 0 name = Some (Inr None)" for src i name
    by (simp_all add: get_adjacency_def get_members_def dict_get_def)
  have ins: "insert_entity demo_name memory_graph_default = (True, ?g)" "members_insert demo_key [] = (True, [demo_key])"
    by (simp_all add: insert_entity_def members_insert_def insert_by_def binary_search_def memory_graph_default_def)
  obtain body where body: "memory_graph_encode ?g = Inr body" "length body \<le> 800" by (simp add: memory_graph_encode_def entity_bytes_def)
  have len: "length ?k \<le> 129" "length ?k' \<le> 129" "length ?v \<le> 800" "?k < ?k'"
    by (simp_all add: entity_key_def memory_key_def members_encode_def demo_key_def)
  obtain page where p: "dict_upsert demo_hash wide_ops GRAPH_DICT 0 ?k ?v demo_begin = (Inr 1, wide_tx [page])"
    "dict_decode_node page 1 GRAPH_DICT = Inr (DLeaf [short ?k ?v])" by (rule wide_first [OF len(1,3)])
  obtain page' where p': "dict_upsert demo_hash wide_ops GRAPH_DICT 1 ?k' body (wide_tx [page]) = (Inr 1, wide_tx [page'])"
    by (rule wide_second [OF len(4,1,2,3) body(2) p(2)])
  have "save_meta demo_hash wide_pg wide_st m (wide_tx [page']) = (Inr (), set_graph_root_page 2 (wide_tx [page', graph_meta_encode demo_hash m 4096]))" for m
    using wide_alloc(2) [of page'] wide_put(2) [of "graph_meta_encode demo_hash m 4096" page' blank] graph_meta_roundtrip(2) [OF wide_size, of demo_hash m]
    by (simp add: save_meta_def root wide_header txn_ops_def graph_meta_stamped)
  then show ?thesis
    using root [of "[]"] p(1) p' body(1)
    by (simp add: add_memory_def check_memory_def load_meta_def wide_start graph_meta_empty_def none ins)
qed

end
