(* ===== verification/Fusion.thy ===== *)
theory Fusion
  imports Complex_Main Prelude "HOL-Library.Product_Lexorder"
begin

text \<open>
  Rank fusion (\<^verbatim>\<open>recall.rs\<close>): the fused ranking of up to eight ranked lists of ids. Scores are \<^verbatim>\<open>f32\<close> values; the ones
  that occur lie between \<open>2 ^ -33\<close> and 1, so a value is a rational number and every operation rounds its
  exact result to 24 significant bits, ties to even (no overflow, no subnormal number, no NaN).
\<close>

section \<open>Single-precision arithmetic\<close>

text \<open>The number of binary digits, and the exponent of a positive number: \<open>2 ^ e \<le> q < 2 ^ (e + 1)\<close>.\<close>

function bit_length :: "int \<Rightarrow> int" where
  "bit_length n = (if n \<le> 0 then 0 else 1 + bit_length (n div 2))"
  by pat_completeness auto
termination
  by (relation "measure nat") auto

declare bit_length.simps [simp del]

definition rat_exponent :: "rat \<Rightarrow> int" where
  "rat_exponent q =
     (let (n, d) = quotient_of q; k = bit_length n - bit_length d in
      if 2 powi k \<le> q then k else k - 1)"

definition round_half_even :: "rat \<Rightarrow> int" where
  "round_half_even q = (let f = floor q; r = q - of_int f in
     if r < 1 / 2 then f else if 1 / 2 < r then f + 1 else if even f then f else f + 1)"

definition f32_round :: "rat \<Rightarrow> rat" where
  "f32_round q = (if q \<le> 0 then 0
     else let u = 2 powi (rat_exponent q - 23) in of_int (round_half_even (q / u)) * u)"

section \<open>Fusion\<close>

definition RRF_K :: rat where "RRF_K = 60"

record fused =
  fu_record_id :: "ulid"
  fu_score :: rat

record fuse_entry =
  en_id :: "ulid"
  en_score :: rat
  en_tiebreak :: "8 word \<times> 32 word"
  en_counted :: "8 word"

definition contribution :: "nat \<Rightarrow> rat" where
  "contribution rank = f32_round (1 / f32_round (f32_round (RRF_K + f32_round (of_nat rank)) + 1))"

text \<open>One turn of the loop of the \<^verbatim>\<open>add\<close> closure; the first entry with the id is the only one.\<close>

fun add_entry :: "nat \<Rightarrow> nat \<Rightarrow> ulid \<Rightarrow> fuse_entry list \<Rightarrow> fuse_entry list" where
  "add_entry lst rank i [] =
     [\<lparr>en_id = i, en_score = contribution rank, en_tiebreak = (word_of_nat lst, word_of_nat rank), en_counted = push_bit lst 1\<rparr>]"
| "add_entry lst rank i (e # acc) =
     (if en_id e = i then
        (if and (en_counted e) (push_bit lst 1) = 0
         then e\<lparr>en_score := f32_round (en_score e + contribution rank), en_counted := or (en_counted e) (push_bit lst 1)\<rparr>
         else e) # acc
      else e # add_entry lst rank i acc)"

fun add_list :: "nat \<Rightarrow> nat \<Rightarrow> ulid list \<Rightarrow> fuse_entry list \<Rightarrow> fuse_entry list" where
  "add_list lst rank [] acc = acc"
| "add_list lst rank (i # ids) acc = add_list lst (rank + 1) ids (add_entry lst rank i acc)"

fun add_lists :: "nat \<Rightarrow> ulid list list \<Rightarrow> fuse_entry list \<Rightarrow> fuse_entry list" where
  "add_lists lst [] acc = acc"
| "add_lists lst (ids # rest) acc = add_lists (lst + 1) rest (add_list lst 0 ids acc)"

text \<open>\<open>None\<close> is the failed assertion; the sort is stable.\<close>

definition fuse_lists :: "ulid list list \<Rightarrow> nat \<Rightarrow> fused list option" where
  "fuse_lists rankings limit =
     (if 8 < length rankings then None
      else let acc = add_lists 0 rankings [];
               acc = sort_key (\<lambda>e. (- en_score e, en_tiebreak e)) acc;
               acc = take limit acc
           in Some (map (\<lambda>e. \<lparr>fu_record_id = en_id e, fu_score = en_score e\<rparr>) acc))"

definition fuse :: "ulid list \<Rightarrow> ulid list \<Rightarrow> nat \<Rightarrow> fused list option" where
  "fuse vector text limit = fuse_lists [vector, text] limit"

section \<open>The specification\<close>

fun first_idx :: "'a list \<Rightarrow> 'a \<Rightarrow> nat option" where
  "first_idx [] x = None"
| "first_idx (y # ys) x = (if y = x then Some 0 else map_option Suc (first_idx ys x))"

definition add_score :: "nat option \<Rightarrow> rat option \<Rightarrow> rat option" where
  "add_score rank s = (case rank of None \<Rightarrow> s
     | Some r \<Rightarrow> Some (case s of None \<Rightarrow> contribution r | Some v \<Rightarrow> f32_round (v + contribution r)))"

text \<open>The fused score of an id: the contributions of its first ranks, summed in the order of the lists.\<close>

definition rrf_score :: "'a list list \<Rightarrow> 'a \<Rightarrow> rat option" where
  "rrf_score rankings i = foldl (\<lambda>s ids. add_score (first_idx ids i) s) None rankings"

text \<open>Where an id appears first.\<close>

fun first_seen :: "nat \<Rightarrow> 'a list list \<Rightarrow> 'a \<Rightarrow> (nat \<times> nat) option" where
  "first_seen k [] i = None"
| "first_seen k (ids # rest) i = (case first_idx ids i of Some r \<Rightarrow> Some (k, r) | None \<Rightarrow> first_seen (Suc k) rest i)"

lemma first_idx_None: "first_idx ys x = None \<longleftrightarrow> x \<notin> set ys"
  by (induction ys) auto

lemma first_idx_bound: "first_idx ys x = Some r \<Longrightarrow> r < length ys \<and> x \<in> set ys"
  by (induction ys arbitrary: r) (auto split: if_splits)

lemma first_idx_snoc:
  "first_idx (ys @ [y]) x = (case first_idx ys x of Some r \<Rightarrow> Some r | None \<Rightarrow> if y = x then Some (length ys) else None)"
  by (induction ys) (auto split: option.splits)

lemma rrf_score_snoc: "rrf_score (rankings @ [ids]) i = add_score (first_idx ids i) (rrf_score rankings i)"
  by (simp add: rrf_score_def)

lemma rrf_score_None: "rrf_score rankings i = None \<longleftrightarrow> (\<forall>ids \<in> set rankings. i \<notin> set ids)"
  by (induction rankings rule: rev_induct) (auto simp: rrf_score_snoc rrf_score_def [of "[]"] add_score_def first_idx_None split: option.splits dest: first_idx_bound)

lemma first_seen_snoc:
  "first_seen k (rankings @ [ids]) i = (case first_seen k rankings i of Some p \<Rightarrow> Some p
     | None \<Rightarrow> map_option (\<lambda>r. (k + length rankings, r)) (first_idx ids i))"
  by (induction k rankings i rule: first_seen.induct) (auto split: option.splits)

lemma first_seen_None: "first_seen k rankings i = None \<longleftrightarrow> (\<forall>ids \<in> set rankings. i \<notin> set ids)"
  by (induction k rankings i rule: first_seen.induct) (auto simp: first_idx_None split: option.splits dest: first_idx_bound)

section \<open>The accumulator\<close>

text \<open>What the accumulator holds after the lists \<open>ls\<close> (the last of them possibly in progress).\<close>

definition acc_entry :: "ulid list list \<Rightarrow> fuse_entry \<Rightarrow> bool" where
  "acc_entry ls e \<longleftrightarrow> rrf_score ls (en_id e) = Some (en_score e) \<and>
     map_option (map_prod word_of_nat word_of_nat) (first_seen 0 ls (en_id e)) = Some (en_tiebreak e) \<and>
     (\<forall>j < 8. bit (en_counted e) j \<longleftrightarrow> j < length ls \<and> en_id e \<in> set (ls ! j))"

definition acc_ok :: "ulid list list \<Rightarrow> fuse_entry list \<Rightarrow> bool" where
  "acc_ok ls acc \<longleftrightarrow> distinct (map en_id acc) \<and> en_id ` set acc = \<Union> (set ` set ls) \<and> (\<forall>e \<in> set acc. acc_entry ls e)"

lemma rrf_score_nil [simp]: "rrf_score (ls @ [[]]) i = rrf_score ls i"
  by (simp add: rrf_score_snoc add_score_def)

lemma first_seen_nil [simp]: "first_seen k (ls @ [[]]) i = first_seen k ls i"
  by (simp add: first_seen_snoc split: option.split)

lemma acc_ok_start: "acc_ok ls acc \<Longrightarrow> acc_ok (ls @ [[]]) acc"
  by (auto simp: acc_ok_def acc_entry_def nth_append less_Suc_eq)

lemma acc_entry_other: "acc_entry (ls @ [xs]) e \<Longrightarrow> en_id e \<noteq> x \<Longrightarrow> acc_entry (ls @ [xs @ [x]]) e"
  by (auto simp: acc_entry_def rrf_score_snoc first_seen_snoc first_idx_snoc nth_append less_Suc_eq split: option.splits)

lemma bit_or_exp: "k < 8 \<Longrightarrow> bit (or c (2 ^ k) :: 8 word) j \<longleftrightarrow> bit c j \<or> j = k"
  by (auto simp: bit_or_iff bit_exp_iff)

lemma acc_entry_found:
  assumes "acc_entry (ls @ [xs]) e" "length ls < 8"
  shows "acc_entry (ls @ [xs @ [en_id e]])
    (if and (en_counted e) (push_bit (length ls) 1) = 0
     then e\<lparr>en_score := f32_round (en_score e + contribution (length xs)), en_counted := or (en_counted e) (push_bit (length ls) 1)\<rparr>
     else e)"
proof (cases "bit (en_counted e) (length ls)")
  case True
  then have "en_id e \<in> set xs" using assms by (auto simp: acc_entry_def)
  then obtain r where "first_idx xs (en_id e) = Some r" using first_idx_None [of xs "en_id e"] by auto
  then show ?thesis
    using assms True \<open>en_id e \<in> set xs\<close>
    by (simp add: and_exp_eq_0_iff_not_bit) (auto simp: acc_entry_def rrf_score_snoc first_seen_snoc first_idx_snoc nth_append less_Suc_eq split: option.splits)
next
  case False
  then have n: "en_id e \<notin> set xs" using assms by (auto simp: acc_entry_def)
  then have "first_idx xs (en_id e) = None" by (simp add: first_idx_None)
  then show ?thesis
    using assms False n
    by (simp add: and_exp_eq_0_iff_not_bit) (auto simp: bit_or_exp acc_entry_def rrf_score_snoc first_seen_snoc first_idx_snoc add_score_def nth_append less_Suc_eq
        split: option.splits)
qed

lemma acc_entry_new:
  assumes "length ls < 8" "\<forall>ids \<in> set (ls @ [xs]). x \<notin> set ids"
  shows "acc_entry (ls @ [xs @ [x]]) \<lparr>en_id = x, en_score = contribution (length xs),
    en_tiebreak = (word_of_nat (length ls), word_of_nat (length xs)), en_counted = push_bit (length ls) 1\<rparr>"
proof -
  have "rrf_score ls x = None" "first_seen 0 ls x = None" "first_idx xs x = None"
    using assms(2) by (simp_all add: rrf_score_None first_seen_None first_idx_None)
  moreover have "x \<notin> set (ls ! j)" if "j < length ls" for j using that assms(2) by simp
  ultimately show ?thesis
    using assms(1) by (auto simp: acc_entry_def rrf_score_snoc first_seen_snoc first_idx_snoc add_score_def bit_exp_iff nth_append less_Suc_eq)
qed

lemma add_entry_ids: "en_id ` set (add_entry lst rank i acc) = insert i (en_id ` set acc)"
  by (induction lst rank i acc rule: add_entry.induct) auto

lemma add_entry_distinct: "distinct (map en_id acc) \<Longrightarrow> distinct (map en_id (add_entry lst rank i acc))"
proof (induction lst rank i acc rule: add_entry.induct)
  case (2 lst rank i e acc)
  then show ?case by (cases "en_id e = i") (simp_all add: add_entry_ids)
qed simp

lemma add_entry_entries:
  assumes "length ls < 8" "\<forall>e \<in> set acc. acc_entry (ls @ [xs]) e" "distinct (map en_id acc)"
    "x \<notin> en_id ` set acc \<Longrightarrow> \<forall>ids \<in> set (ls @ [xs]). x \<notin> set ids"
  shows "\<forall>e \<in> set (add_entry (length ls) (length xs) x acc). acc_entry (ls @ [xs @ [x]]) e"
  using assms(2-)
proof (induction acc)
  case Nil
  then show ?case using acc_entry_new [OF assms(1)] by simp
next
  case (Cons e acc)
  show ?case
  proof (cases "en_id e = x")
    case True
    then have "en_id f \<noteq> x" if "f \<in> set acc" for f using Cons.prems(2) that by (auto simp: image_iff)
    then show ?thesis using Cons.prems(1) True acc_entry_found [of ls xs e] acc_entry_other [of ls xs _ x] assms(1) by auto
  next
    case False
    then show ?thesis using Cons acc_entry_other [of ls xs e x] by auto
  qed
qed

lemma add_entry_ok:
  assumes "acc_ok (ls @ [xs]) acc" "length ls < 8"
  shows "acc_ok (ls @ [xs @ [x]]) (add_entry (length ls) (length xs) x acc)"
proof -
  have "\<forall>e \<in> set (add_entry (length ls) (length xs) x acc). acc_entry (ls @ [xs @ [x]]) e"
    using assms by (intro add_entry_entries) (auto simp: acc_ok_def)
  then show ?thesis using assms(1) by (auto simp: acc_ok_def add_entry_ids add_entry_distinct)
qed

lemma add_list_ok:
  "acc_ok (ls @ [xs]) acc \<Longrightarrow> length ls < 8 \<Longrightarrow> acc_ok (ls @ [xs @ ids]) (add_list (length ls) (length xs) ids acc)"
proof (induction ids arbitrary: xs acc)
  case (Cons i ids)
  from Cons.IH [OF add_entry_ok [OF Cons.prems, of i] Cons.prems(2)] show ?case by simp
qed simp

lemma add_lists_ok:
  "acc_ok ls acc \<Longrightarrow> length ls + length rest \<le> 8 \<Longrightarrow> acc_ok (ls @ rest) (add_lists (length ls) rest acc)"
proof (induction rest arbitrary: ls acc)
  case (Cons ids rest)
  have "acc_ok (ls @ [ids]) (add_list (length ls) 0 ids acc)"
    using add_list_ok [OF acc_ok_start [OF Cons.prems(1)], of ids] Cons.prems(2) by simp
  from Cons.IH [OF this] Cons.prems(2) show ?case by simp
qed simp

section \<open>The fused ranking\<close>

text \<open>The order of the result: higher score first, among equals the id that was seen first.\<close>

definition ranked_before :: "ulid list list \<Rightarrow> ulid \<Rightarrow> ulid \<Rightarrow> bool" where
  "ranked_before ls i j \<longleftrightarrow> (let a = the (rrf_score ls i); b = the (rrf_score ls j) in
     b < a \<or> a = b \<and> the (first_seen 0 ls i) < the (first_seen 0 ls j))"

lemma first_seen_bound:
  "first_seen k ls i = Some (l, r) \<Longrightarrow> k \<le> l \<and> l < k + length ls \<and> r < length (ls ! (l - k)) \<and> first_idx (ls ! (l - k)) i = Some r"
proof (induction k ls i rule: first_seen.induct)
  case (2 k ids rest i)
  then show ?case by (auto simp: nth_Cons' dest: first_idx_bound split: option.splits)
qed simp

lemma first_idx_inj: "first_idx ys x = Some r \<Longrightarrow> first_idx ys y = Some r \<Longrightarrow> x = y"
  by (induction ys arbitrary: r) (auto split: if_splits)

lemma word_pair_less:
  assumes "a < 256" "b < 2 ^ 32" "c < 256" "d < 2 ^ 32"
  shows "(word_of_nat a :: 8 word, word_of_nat b :: 32 word) \<le> (word_of_nat c, word_of_nat d) \<longleftrightarrow> (a, b) \<le> (c, d)"
  using assms by (auto simp: less_eq_prod_def word_le_nat_alt word_less_nat_alt unat_of_nat word_eq_iff_unsigned)

lemma fuse_lists_ranking:
  assumes "length rankings \<le> 8" "\<forall>ids \<in> set rankings. length ids < 2 ^ 32"
  obtains ids where "distinct ids" "set ids = \<Union> (set ` set rankings)" "sorted_wrt (ranked_before rankings) ids"
    "\<And>limit. fuse_lists rankings limit =
       Some (take limit (map (\<lambda>i. \<lparr>fu_record_id = i, fu_score = the (rrf_score rankings i)\<rparr>) ids))"
proof -
  define key where "key = (\<lambda>e :: fuse_entry. (- en_score e, en_tiebreak e))"
  define acc where "acc = sort_key key (add_lists 0 rankings [])"
  have "acc_ok [] []" by (simp add: acc_ok_def)
  from add_lists_ok [OF this, of rankings] assms(1) have ok: "acc_ok rankings (add_lists 0 rankings [])" by simp
  have acc: "distinct (map en_id acc)" "en_id ` set acc = \<Union> (set ` set rankings)" "\<And>e. e \<in> set acc \<Longrightarrow> acc_entry rankings e"
    using ok by (auto simp: acc_ok_def acc_def distinct_map)
  have f: "fuse_lists rankings limit = Some (take limit (map (\<lambda>i. \<lparr>fu_record_id = i, fu_score = the (rrf_score rankings i)\<rparr>) (map en_id acc)))" for limit
  proof -
    have "en_score e = the (rrf_score rankings (en_id e))" if "e \<in> set (take limit acc)" for e
      using acc(3) [OF in_set_takeD [OF that]] by (simp add: acc_entry_def)
    then have m: "map (\<lambda>e. \<lparr>fu_record_id = en_id e, fu_score = en_score e\<rparr>) (take limit acc) =
        map (\<lambda>e. \<lparr>fu_record_id = en_id e, fu_score = the (rrf_score rankings (en_id e))\<rparr>) (take limit acc)"
      by (intro map_cong refl) simp
    have "fuse_lists rankings limit = Some (map (\<lambda>e. \<lparr>fu_record_id = en_id e, fu_score = en_score e\<rparr>) (take limit acc))"
      using assms(1) by (simp add: fuse_lists_def Let_def acc_def key_def)
    then show ?thesis unfolding m by (simp add: take_map comp_def)
  qed
  have before: "ranked_before rankings (en_id a) (en_id b)" if h: "a \<in> set acc" "b \<in> set acc" "key a \<le> key b" "en_id a \<noteq> en_id b" for a b
  proof -
    obtain la ra lb rb where s: "first_seen 0 rankings (en_id a) = Some (la, ra)" "first_seen 0 rankings (en_id b) = Some (lb, rb)"
      and sc: "rrf_score rankings (en_id a) = Some (en_score a)" "rrf_score rankings (en_id b) = Some (en_score b)"
      and t: "en_tiebreak a = (word_of_nat la, word_of_nat ra)" "en_tiebreak b = (word_of_nat lb, word_of_nat rb)"
      using acc(3) [OF h(1)] acc(3) [OF h(2)] by (auto simp: acc_entry_def)
    have bd: "la < 256" "ra < 2 ^ 32" "lb < 256" "rb < 2 ^ 32"
      using first_seen_bound [OF s(1)] first_seen_bound [OF s(2)] assms by (auto intro: less_trans)
    have "(la, ra) \<noteq> (lb, rb)" using first_seen_bound [OF s(1)] first_seen_bound [OF s(2)] h(4)
      by (auto dest: first_idx_inj)
    then have ne: "\<not> (lb, rb) \<le> (la, ra) \<longleftrightarrow> (la, ra) \<le> (lb, rb)" by auto
    have "en_score b < en_score a \<or> en_score a = en_score b \<and> en_tiebreak a \<le> en_tiebreak b"
      using h(3) unfolding key_def by (simp only: less_eq_prod_simp) auto
    then show ?thesis
      unfolding t word_pair_less [OF bd] ranked_before_def s sc by (simp add: ne [symmetric] not_le del: less_eq_prod_simp)
  qed
  have "sorted_wrt (\<lambda>a b. key a \<le> key b) acc" unfolding acc_def using sorted_sort_key [of key] by (simp add: sorted_map)
  moreover have "sorted_wrt (\<lambda>a b. en_id a \<noteq> en_id b) acc" using acc(1) by (simp add: distinct_conv_nth sorted_wrt_iff_nth_less)
  ultimately have "sorted_wrt (\<lambda>a b. ranked_before rankings (en_id a) (en_id b)) acc"
    using before by (auto simp: sorted_wrt_iff_nth_less)
  then have "sorted_wrt (ranked_before rankings) (map en_id acc)" by (simp add: sorted_wrt_map)
  with acc(1,2) f show ?thesis by (intro that [of "map en_id acc"]) auto
qed

end
