(* ===== verification/Index_Properties.thy ===== *)
theory Index_Properties
  imports Index_Demo Fusion Fts_Text
begin

text \<open>
  What holds of the indexes: the symbol dictionary (nodes, lookup and upsert against a map, the reader of overflow chains), the
  knowledge graph against its two relations, rank fusion and the text side of the full-text index.
\<close>

lemma demo_size: "page_size_is_valid 512"
  using demo_wf by (simp add: header_wf_def demo_header)

section \<open>The dictionary\<close>

text \<open>C33: Dictionary pages read back: a sorted list of leaf entries, and an inner node with real children, decode to themselves from
  the page they are encoded to, which has the page size and a valid checksum; encoding refuses a node exactly when
  its bytes do not fit between page header and trailer.\<close>

theorem dict_nodes_roundtrip:
  assumes "page_size_is_valid ps"
  shows "(dict_leaf_ok es \<longrightarrow> (case dict_encode_leaf xxh es ps spec of
      Some page \<Rightarrow> dict_decode_node page p spec = Inr (DLeaf es) \<and> length page = unat ps \<and> page_checksum_is_valid xxh page
    | None \<Rightarrow> unat ps < 24 + (1 + sum_list (map dict_footprint es)))) \<and>
    (dict_inner_ok node \<and> di_entries node \<noteq> [] \<longrightarrow> (case dict_encode_inner xxh node ps spec of
      Some page \<Rightarrow> dict_decode_node page p spec = Inr (DInner node) \<and> length page = unat ps \<and> page_checksum_is_valid xxh page
    | None \<Rightarrow> unat ps < 24 + (9 + sum_list (map (\<lambda>(k, _). 2 + length k + 8) (di_entries node)))))"
proof -
  have v: "page_checksum_is_valid xxh page" if "stamp_page_checksum xxh page = page" "length page = unat ps" for page
    using stamp_valid [of page xxh] that page_size_bounds [OF assms] by simp
  note leaf = dict_leaf_roundtrip [OF _ _ assms] dict_encode_stamped v dict_encode_leaf_None [OF assms] usable_bounds [OF assms]
  note inner = dict_inner_roundtrip [OF _ _ assms] dict_encode_inner_stamped v dict_encode_inner_None [OF assms] usable_bounds [OF assms]
  show ?thesis
    by (intro conjI impI) (use leaf in \<open>auto split: option.split\<close>, use inner in \<open>auto split: option.split\<close>)
qed

theorem dict_nodes_roundtrip_witness:
  "\<exists>page page'. dict_encode_leaf demo_hash [\<lparr>de_key = [1], de_value = DInline [7]\<rparr>] 512 GRAPH_DICT = Some page \<and>
     dict_decode_node page 3 GRAPH_DICT = Inr (DLeaf [\<lparr>de_key = [1], de_value = DInline [7]\<rparr>]) \<and>
     dict_encode_inner demo_hash \<lparr>di_entries = [([1], 4)], di_rightmost = 5\<rparr> 512 GRAPH_DICT = Some page' \<and>
     dict_decode_node page' 3 GRAPH_DICT = Inr (DInner \<lparr>di_entries = [([1], 4)], di_rightmost = 5\<rparr>)"
proof -
  have ok: "dict_leaf_ok [\<lparr>de_key = [1], de_value = DInline [7]\<rparr>]" "dict_inner_ok \<lparr>di_entries = [([1], 4)], di_rightmost = 5\<rparr>"
    by (simp_all add: dict_leaf_ok_def value_ok_def dict_inner_ok_def)
  show ?thesis
    using dict_nodes_roundtrip [OF demo_size, where xxh = demo_hash and spec = GRAPH_DICT and p = 3 and es = "[\<lparr>de_key = [1], de_value = DInline [7]\<rparr>]" and
        node = "\<lparr>di_entries = [([1], 4)], di_rightmost = 5\<rparr>"] ok
    by (auto simp: dict_footprint_def split: option.splits)
qed

text \<open>C34: A lookup in the dictionary returns: it answers the value the tree's list has for the key, or that there is none, also for
  values on overflow chains, through any page source that serves the pages.\<close>

theorem dict_get_returns_entry:
  assumes "serves src V ps" "page_size_is_valid ps" "dict_at spec ps V root_no m K"
  shows "\<exists>found. dict_get src spec root_no k = Some (Inr found) \<and> map_option fst found = map_of m k"
  using dict_get_map [OF assms] by (simp add: dict_answer_def)

lemma wide_dict_begin:
  "dict_state demo_hash wide_store wide_pg wide_st pending_default GRAPH_DICT demo_begin 0 [] {}"
  using wide_created(1) wide_begin_ok by (simp add: dict_state_def dict_inv_def txn_inv_def wide_header graph_key_cap demo_begin_def)

lemma wide_dict_first:
  obtains tx' K where "dict_upsert demo_hash wide_ops GRAPH_DICT 0 [1] [7] demo_begin = (Inr 1, tx')"
    "dict_state demo_hash wide_store wide_pg wide_st pending_default GRAPH_DICT tx' 1 [([1], [7])] K"
proof -
  obtain page where u: "dict_upsert demo_hash wide_ops GRAPH_DICT 0 [1] [7] demo_begin = (Inr 1, wide_tx [page])" by (rule wide_first [of "[1]" "[7]"]) simp_all
  from dict_upsert_step [OF wide_dict_begin _ _ this] show ?thesis using that [OF u] by (auto simp: graph_key_cap)
qed

theorem dict_get_returns_entry_witness:
  "\<exists>tx' found. dict_upsert demo_hash wide_ops GRAPH_DICT 0 [1] [7] demo_begin = (Inr 1, tx') \<and>
     dict_get (txn_source demo_hash wide_pg wide_st tx') GRAPH_DICT 1 [1] = Some (Inr found) \<and> map_option fst found = Some [7]"
proof -
  obtain tx' K where u: "dict_upsert demo_hash wide_ops GRAPH_DICT 0 [1] [7] demo_begin = (Inr 1, tx')"
    "dict_state demo_hash wide_store wide_pg wide_st pending_default GRAPH_DICT tx' 1 [([1], [7])] K" by (rule wide_dict_first)
  from dict_get_returns_entry [OF dict_state_reads [OF u(2)], of "[1]"] u(1) show ?thesis by auto
qed



text \<open>C36: The reader of overflow chains returns on every page source whose overflow pages are non-empty, cycles included. Its
  comment says each hop consumes a byte, but nothing checks that: on an empty overflow page that names itself as its
  successor, a page with a valid checksum, it never returns.\<close>

theorem dict_chain_reader_termination:
  assumes "page_size_is_valid ps"
  shows "((\<forall>p page hdr. src_page src p = Inr page \<and> page_header_decode page = Some hdr \<and> ph_page_type hdr = ds_overflow spec \<longrightarrow>
        ph_entry_count hdr \<noteq> 0) \<longrightarrow> (\<exists>y. read_overflow_chain src first_page total_len spec = Some y)) \<and>
    (src_page src p = Inr (dict_overflow_page xxh spec ps p []) \<and> p \<noteq> 0 \<and> total_len \<noteq> 0 \<longrightarrow>
       page_checksum_is_valid xxh (dict_overflow_page xxh spec ps p []) \<and> read_overflow_chain src p total_len spec = None)"
proof (intro conjI impI)
  assume "\<forall>p page hdr. src_page src p = Inr page \<and> page_header_decode page = Some hdr \<and> ph_page_type hdr = ds_overflow spec \<longrightarrow>
        ph_entry_count hdr \<noteq> 0"
  then show "\<exists>y. read_overflow_chain src first_page total_len spec = Some y"
    using read_dict_chain_returns [of src spec "unat total_len" first_page "[]"] by (auto simp: read_overflow_chain_def)
next
  have "length ([] :: bytes) \<le> overflow_capacity ps" by simp
  note page = dict_overflow_page_read [OF assms this, where xxh = xxh and spec = spec and q = p]
  show "page_checksum_is_valid xxh (dict_overflow_page xxh spec ps p [])"
    using stamp_valid [of "dict_overflow_page xxh spec ps p []" xxh] page(1,4) page_size_bounds [OF assms] by simp
  assume a: "src_page src p = Inr (dict_overflow_page xxh spec ps p []) \<and> p \<noteq> 0 \<and> total_len \<noteq> 0"
  then have "src_page src p = Inr (dict_overflow_page xxh spec ps p [])" "0 < unat total_len" by (simp_all add: unat_gt_0)
  from read_dict_chain_loops [OF this(1) page(3) _ _ _ _ this(2)] a show "read_overflow_chain src p total_len spec = None"
    by (simp add: read_overflow_chain_def)
qed

theorem dict_chain_reader_termination_witness:
  "(\<exists>y. read_overflow_chain \<lparr>src_page = (\<lambda>p. Inr (dict_overflow_page demo_hash GRAPH_DICT 512 p [9])), src_page_size = 512, src_format_version = 8\<rparr>
      7 5 GRAPH_DICT = Some y) \<and>
   read_overflow_chain \<lparr>src_page = (\<lambda>p. Inr (dict_overflow_page demo_hash GRAPH_DICT 512 p [])), src_page_size = 512, src_format_version = 8\<rparr>
      7 5 GRAPH_DICT = None"
proof -
  have c: "length [9 :: byte] \<le> overflow_capacity 512" by (simp add: overflow_capacity_def usable_def)
  note h = dict_overflow_page_read(3) [OF demo_size c, where xxh = demo_hash and spec = GRAPH_DICT]
  show ?thesis
    using dict_chain_reader_termination [OF demo_size, where src = "\<lparr>src_page = (\<lambda>p. Inr (dict_overflow_page demo_hash GRAPH_DICT 512 p [9])),
        src_page_size = 512, src_format_version = 8\<rparr>" and spec = GRAPH_DICT and first_page = 7 and total_len = 5]
      dict_chain_reader_termination [OF demo_size, where src = "\<lparr>src_page = (\<lambda>p. Inr (dict_overflow_page demo_hash GRAPH_DICT 512 p [])),
        src_page_size = 512, src_format_version = 8\<rparr>" and spec = GRAPH_DICT and p = 7 and total_len = 5 and xxh = demo_hash]
    by (auto simp: h)
qed





section \<open>The knowledge graph\<close>

text \<open>C38: Adding a memory to the graph is a union of relations. The graph stands for two finite relations, which memory mentions
  which entity and which memory relates to which; \<^verbatim>\<open>add_memory\<close> adds the memory's entities to the one and its relations to the
  other, whatever was there before, with the counters of entities and relations exact until they saturate, and of the old pages it
  changes those of the graph only. It always returns. Bad names and kinds are refused with nothing changed, a memory without
  graph data writes nothing, and within the size limits the only failure is that the page numbers are used up.\<close>

theorem add_memory_refines_relations:
  assumes "represents xxh V pg st" "txn_ok xxh pg tx" "2048 \<le> unat (page_size (pg_header pg))"
    and "graph_at (page_size (pg_header pg)) (txn_view V tx) (txn_graph_root_page pg tx) T R K"
    and "graph_fits (T \<union> {i} \<times> set entities) (R \<union> Pair i ` set rels)" "length i = 16"
    and "\<forall>name \<in> set entities. utf8_valid name" "\<forall>(kind, to) \<in> set rels. utf8_valid kind \<and> length to = 16"
  shows "if entities = [] \<and> rels = [] then add_memory xxh pg st i entities rels tx = Some (Inr (), tx)
    else case check_memory i entities rels of
      Inl e \<Rightarrow> add_memory xxh pg st i entities rels tx = Some (Inl e, tx)
    | Inr _ \<Rightarrow> \<exists>r tx'. add_memory xxh pg st i entities rels tx = Some (r, tx') \<and>
        (r = Inl (InvalidArgument ''page count overflow'') \<or> r = Inr () \<and> txn_ok xxh pg tx' \<and>
          (\<exists>K'. graph_at (page_size (pg_header pg)) (txn_view V tx') (txn_graph_root_page pg tx')
              (T \<union> {i} \<times> set entities) (R \<union> Pair i ` set rels) K' \<and> K' \<subseteq> K \<union> - dom (txn_view V tx)) \<and>
          (\<forall>q \<in> dom (txn_view V tx) - K. txn_view V tx' q = txn_view V tx q))"
proof (cases "entities = [] \<and> rels = []")
  case False
  show ?thesis
  proof (cases "check_memory i entities rels")
    case (Inl e)
    then show ?thesis unfolding if_not_P [OF False] by (simp add: add_memory_def if_not_P [OF False])
  next
    case (Inr u)
    then have "check_memory i entities rels = Inr ()" by simp
    from add_memory_outcome [OF assms this False] Inr show ?thesis unfolding if_not_P [OF False] by fastforce
  qed
qed (simp add: add_memory_def)

lemma wide_graph_args:
  "2048 \<le> unat (page_size (pg_header wide_pg))" "\<forall>name \<in> set [demo_name]. utf8_valid name"
  "\<forall>(kind, to) \<in> set ([] :: (rstring \<times> ulid) list). utf8_valid kind \<and> length to = 16"
  by (simp add: wide_header, code_simp, simp)

theorem add_memory_refines_relations_witness:
  "\<exists>tx' K'. add_memory demo_hash wide_pg wide_st demo_key [demo_name] [] demo_begin = Some (Inr (), tx') \<and>
     graph_at 4096 (txn_view wide_store tx') (txn_graph_root_page wide_pg tx') {(demo_key, demo_name)} {} K'"
proof -
  obtain tx' where a: "add_memory demo_hash wide_pg wide_st demo_key [demo_name] [] demo_begin = Some (Inr (), tx')" using wide_add by blast
  have "check_memory demo_key [demo_name] [] = Inr ()" by (simp add: check_memory_def)
  then show ?thesis
    using add_memory_refines_relations [OF wide_created(1) wide_begin_ok wide_graph_args(1) wide_graph wide_fits demo_key_length wide_graph_args(2,3)] a
    by (auto simp: wide_header)
qed

text \<open>C39: The readers of the graph answer from the two relations: the members of an entity in ascending order, the entities of a
  memory in ascending order, its edges in both directions in the order of their sort key, each once, and as counters the
  numbers of entities and relations, until they saturate. They always return.\<close>

theorem graph_reads_relations:
  assumes "serves src V ps" "page_size_is_valid ps" "graph_at ps V p T R K"
  shows "entity_members src p name = Some (Inr (sorted_list_of_set {i. (i, name) \<in> T})) \<and>
    (\<exists>found. read_memory_graph src p i = Some (Inr found) \<and>
      (case found of None \<Rightarrow> {name. (i, name) \<in> T} = {} \<and> edges_of R i = {}
       | Some g \<Rightarrow> mg_entities g = sorted_list_of_set {name. (i, name) \<in> T} \<and>
           sorted_wrt (<) (map edge_sort_key (mg_edges g)) \<and> set (mg_edges g) = edges_of R i)) \<and>
    (\<exists>a b. graph_stats src p = Inr (a, b) \<and> unat a = min (2 ^ 64 - 1) (card (snd ` T)) \<and> unat b = min (2 ^ 64 - 1) (card R))"
  using entity_members_at [OF assms] read_memory_graph_at [OF assms] graph_stats_at [OF assms(1,3)] by blast

theorem graph_reads_relations_witness:
  "\<exists>tx'. add_memory demo_hash wide_pg wide_st demo_key [demo_name] [] demo_begin = Some (Inr (), tx') \<and>
     entity_members (txn_source demo_hash wide_pg wide_st tx') (txn_graph_root_page wide_pg tx') demo_name = Some (Inr [demo_key]) \<and>
     entity_members (txn_source demo_hash wide_pg wide_st tx') (txn_graph_root_page wide_pg tx') [98] = Some (Inr [])"
proof -
  obtain tx' where a: "add_memory demo_hash wide_pg wide_st demo_key [demo_name] [] demo_begin = Some (Inr (), tx')" using wide_add by blast
  have "check_memory demo_key [demo_name] [] = Inr ()" by (simp add: check_memory_def)
  from add_memory_outcome [OF wide_created(1) wide_begin_ok wide_graph_args(1) wide_graph wide_fits demo_key_length wide_graph_args(2,3) this] a
  obtain K' where g: "txn_ok demo_hash wide_pg tx'" "graph_at 4096 (txn_view wide_store tx') (txn_graph_root_page wide_pg tx') {(demo_key, demo_name)} {} K'"
    by (auto simp: wide_header)
  have "serves (txn_source demo_hash wide_pg wide_st tx') (txn_view wide_store tx') 4096" using txn_serves [OF wide_created(1) g(1)] by (simp add: wide_header)
  note read = graph_reads_relations [OF this wide_size g(2)]
  show ?thesis using read [of demo_name] read [of "[98]"] a by simp
qed

section \<open>Rank fusion\<close>

text \<open>C40: Reciprocal rank fusion: for up to eight lists the result is the beginning of one ranking of all ids that occur, without
  duplicates, by descending score, ties broken by where the id was seen first; the score of an id is the sum, in single precision,
  of the contributions of its first rank in each list. More than eight lists fail the assertion.\<close>

theorem fuse_lists_ranks_ids:
  assumes "\<forall>ids \<in> set rankings. length ids < 2 ^ 32"
  shows "if length rankings \<le> 8 then
      \<exists>ids. distinct ids \<and> set ids = \<Union> (set ` set rankings) \<and> sorted_wrt (ranked_before rankings) ids \<and>
        (\<forall>limit. fuse_lists rankings limit = Some (take limit (map (\<lambda>i. \<lparr>fu_record_id = i, fu_score = the (rrf_score rankings i)\<rparr>) ids)))
    else fuse_lists rankings limit = None"
proof (cases "length rankings \<le> 8")
  case True
  obtain ids where "distinct ids" "set ids = \<Union> (set ` set rankings)" "sorted_wrt (ranked_before rankings) ids"
      "\<And>limit. fuse_lists rankings limit = Some (take limit (map (\<lambda>i. \<lparr>fu_record_id = i, fu_score = the (rrf_score rankings i)\<rparr>) ids))"
    by (rule fuse_lists_ranking [OF True assms]) blast
  then show ?thesis unfolding if_P [OF True] by blast
qed (simp add: fuse_lists_def)

theorem fuse_lists_ranks_ids_witness:
  "map_option (map fu_record_id) (fuse_lists [[[1], [2]], [[2], [3]]] 3) = Some [[2], [1], [3]] \<and>
   (\<exists>ids. distinct ids \<and> set ids = {[1], [2], [3]} \<and> sorted_wrt (ranked_before [[[1], [2]], [[2], [3]]]) ids)"
proof -
  let ?r = "[[[1], [2]], [[2], [3]]] :: ulid list list"
  have l: "\<forall>ids \<in> set ?r. length ids < 2 ^ 32" by simp
  have f: "map_option (map fu_record_id) (fuse_lists ?r 3) = Some [[2], [1], [3]]" by code_simp
  have u: "\<Union> (set ` set ?r) = {[1], [2], [3]}" by auto
  have "length ?r \<le> 8" by simp
  from fuse_lists_ranks_ids [OF l, unfolded if_P [OF this] u] f show ?thesis by blast
qed

section \<open>Text\<close>

text \<open>C26: The document length the ranking uses, counted without building the tokens, is the number of tokens the
  indexer makes of the same text, until the counter saturates; and the clipping of long terms keeps a prefix of whole
  characters within the limit.\<close>

theorem doc_len_and_clipping:
  assumes "\<forall>c. alnum c \<longrightarrow> lowercase c \<noteq> []" "utf8_valid t"
  shows "unat (doc_len alnum doc) = min (2 ^ 32 - 1) (length (tokenize alnum lowercase doc)) \<and>
    utf8_valid (clip_term t) \<and> length (clip_term t) \<le> MAX_TERM_LEN \<and> (\<exists>rest. t = clip_term t @ rest)"
proof -
  have "\<And>c. alnum c \<Longrightarrow> lowercase c \<noteq> []" using assms(1) by blast
  then show ?thesis using doc_len_tokenize [of alnum lowercase doc] clip_term_ok [OF assms(2)] by blast
qed

theorem doc_len_and_clipping_witness:
  "unat (doc_len (\<lambda>c. c \<noteq> 32) [97, 98, 32, 99]) = min (2 ^ 32 - 1) (length (tokenize (\<lambda>c. c \<noteq> 32) (\<lambda>c. [c]) [97, 98, 32, 99])) \<and>
   utf8_valid (clip_term (replicate 127 97 @ [195, 169])) \<and> length (clip_term (replicate 127 97 @ [195, 169])) \<le> 128"
proof -
  have "utf8_valid (replicate 127 97 @ [195, 169])" by code_simp
  then show ?thesis
    using doc_len_and_clipping [of "\<lambda>c. c \<noteq> 32" "\<lambda>c. [c]" "replicate 127 97 @ [195, 169]" "[97, 98, 32, 99]"]
    by (simp del: append_Cons add: MAX_TERM_LEN_def)
qed

end
