(* ===== verification/Spec2Isabelle.thy ===== *)
theory Spec2Isabelle
  imports Demo Format_Properties Store_Properties Index_Properties
begin

text \<open>
  A verification development of the storage engine of EmbedMind (\<^verbatim>\<open>src/crates/embedmind-core\<close>): an embedded
  store of agent memories in one file. The engine is a pager with a write-ahead log, a B-tree of
  memory records on it, secondary indexes beside the tree, and an API that keeps tree and indexes in step. The
  parts below are modelled bottom-up; each theory names the source file it translates, and its definitions
  keep the names of the code.

  \<^bold>\<open>Foundations.\<close> \<^verbatim>\<open>Prelude\<close> has the machine types, the error enum (\<^verbatim>\<open>error.rs\<close>) and \<^verbatim>\<open>Result\<close> as a sum with the
  error on the left (\<open>bind_result\<close> is \<^verbatim>\<open>?\<close>, \<open>bind_st\<close> the same with a threaded state). \<^verbatim>\<open>Bytes\<close> has little-endian
  fields and buffer writes, \<^verbatim>\<open>Rust_Std\<close> the UTF-8 test, binary search and \<^verbatim>\<open>BTreeMap\<close> as a sorted list.

  \<^bold>\<open>On-disk formats\<close> (\<^verbatim>\<open>format.rs\<close>, \<^verbatim>\<open>record.rs\<close>): \<^verbatim>\<open>Page_Format\<close>, \<^verbatim>\<open>Header_Format\<close>, \<^verbatim>\<open>Wal_Format\<close>, \<^verbatim>\<open>Vector_Pages\<close>,
  \<^verbatim>\<open>Hnsw_Pages\<close>, \<^verbatim>\<open>Memory_Record\<close>; \<^verbatim>\<open>Record_Filter\<close> adds the metadata filters with doubles as bit patterns. The
  properties are in \<^verbatim>\<open>Format_Properties\<close>: what is written is read back, what is accepted is well formed, size
  limits hold.

  \<^bold>\<open>File system\<close> (\<^verbatim>\<open>storage/vfs.rs\<close>, \<^verbatim>\<open>storage/sim.rs\<close>): \<^verbatim>\<open>Sim_Vfs\<close> is the fault-injecting file system, with
  a cached and a synced image per file, an armed crash (clean or torn) and a power failure that mixes sectors.
  Everything above runs on it, so the crash theorems quantify over its crash points and random choices.

  \<^bold>\<open>Write-ahead log\<close> (\<^verbatim>\<open>storage/wal.rs\<close>): \<^verbatim>\<open>Wal\<close> (operations and the scan), \<^verbatim>\<open>Wal_Append\<close> (what an append leaves
  in the file, whole or torn).

  \<^bold>\<open>Pager\<close> (\<^verbatim>\<open>storage/pager.rs\<close>): \<^verbatim>\<open>Pager\<close> has the operations; \<^verbatim>\<open>Main_File\<close> and \<^verbatim>\<open>Pager_Store\<close> see the main file as
  an array of pages overlaid by the log; \<^verbatim>\<open>Pager_Correct\<close> defines the abstract store (a header and a page map)
  and \<open>represents\<close>, the invariant of an open pager; \<^verbatim>\<open>Pager_Commit\<close> covers transactions (\<open>txn_ok\<close>, \<open>txn_view\<close>)
  and commits (\<open>next_store\<close>); \<^verbatim>\<open>Pager_Lifecycle\<close> covers creation, close, the lock and what a crash leaves for the
  next open. \<open>pager_run\<close> is the step relation of whole lives of a store, crashes included.

  \<^bold>\<open>Trees on pages.\<close> The record tree and the dictionary are the same kind of tree with other nodes and keys, so what they
  share is proved once: \<^verbatim>\<open>Paged_Tree\<close> has the ghost tree, the pages that store it and the order of its keys (locales
  \<open>tree_format\<close> and \<open>tree_reader\<close>: how nodes are decoded, and that a lookup finds the entry), \<^verbatim>\<open>Paged_Insert\<close> what a
  tree needs of a transaction (\<open>page_txn\<close>) and of the code that stores a node (\<open>tree_writer\<close>), and that insertion then
  refines insertion into a sorted list.

  \<^bold>\<open>Record B-tree\<close> (\<^verbatim>\<open>storage/btree.rs\<close>): \<^verbatim>\<open>Btree_Node\<close> (node formats), \<^verbatim>\<open>Btree\<close> (chains, lookup, insert), \<^verbatim>\<open>Btree_Scan\<close>
  (the iterator), \<^verbatim>\<open>Btree_Tree\<close> (\<open>btree_at\<close>, the sorted list a root page stands for) and \<^verbatim>\<open>Btree_Insert\<close> (the locale
  \<open>record_txn\<close>, a \<open>page_txn\<close> whose record operations make a \<open>tree_writer\<close>, interpreted on the pager's transactions).

  \<^bold>\<open>Filter sidecar\<close> (\<^verbatim>\<open>index/filter_meta.rs\<close>): \<^verbatim>\<open>Filter_Meta\<close> has the operations, \<^verbatim>\<open>Filter_Chain\<close> page chains as
  append-only logs (locales \<open>item_pages\<close>, \<open>item_log\<close>), \<^verbatim>\<open>Filter_Sidecar\<close> their interpretations for both chains
  and the refinement of an update and of a load.

  \<^bold>\<open>Symbol dictionary\<close> (\<^verbatim>\<open>index/dict.rs\<close>): \<^verbatim>\<open>Dict\<close> has the byte-keyed tree the text and graph indexes share; \<^verbatim>\<open>Dict_Correct\<close>
  shows that nodes and chains read back and that splits fit; \<^verbatim>\<open>Dict_Tree\<close> makes it a tree on pages (\<open>dict_at\<close>, the locale
  \<open>dict_txn\<close>): lookup and upsert refine a sorted map, for keys of at most 129 bytes and, because of the way inner nodes are
  split, on pages of 2048 bytes or more. The chain reader is a \<^theory_text>\<open>partial_function\<close>, because it may not return; that it does on
  the pages of a tree is part of the theorems.

  \<^bold>\<open>Knowledge graph\<close> (\<^verbatim>\<open>index/graph.rs\<close>): \<^verbatim>\<open>Graph\<close> has the meta page, the members of an entity, the adjacency of a memory,
  \<open>add_memory\<close> and the readers; \<^verbatim>\<open>Graph_Correct\<close> says which two relations, memory to entity and memory to memory, the
  pages stand for (\<open>graph_at\<close>) and shows that \<open>add_memory\<close> adds to them and that the readers answer from them, within
  the limits of the encoding (\<open>graph_fits\<close>: fewer than 2^27 members per entity, 2^16 entities and 2^25 edges per memory, so
  that the counts and lengths fit their fields).

  \<^bold>\<open>Rank fusion\<close> (\<^verbatim>\<open>recall.rs\<close>): \<^verbatim>\<open>Fusion\<close>, with single-precision rounding on rational numbers. \<^bold>\<open>Text\<close> (\<^verbatim>\<open>index/fts.rs\<close>): \<^verbatim>\<open>Fts_Text\<close>
  has the tokenizer, the document length and term clipping. The properties of these parts are in
  \<^verbatim>\<open>Index_Properties\<close>.

  \<^bold>\<open>API\<close> (\<^verbatim>\<open>api.rs\<close>): \<^verbatim>\<open>Store_Api\<close> has reading, forgetting, iterating, the filter predicate of recall, the sidecar
  cache and the consistency check of the crash harness. \<^verbatim>\<open>Store_Correct\<close> defines \<open>memory_store\<close> (tree and sidecar
  stand for the same memories), the specification of forgetting on the abstract store, and the lives of a
  store with crashes (\<open>store_life\<close>); \<^verbatim>\<open>Store_Properties\<close> has the theorems.

  \<^verbatim>\<open>Demo\<close>, \<^verbatim>\<open>Index_Demo\<close> and \<^verbatim>\<open>Store_Demo\<close> are concrete stores on which the theorems are applied.

  \<^bold>\<open>Parameters.\<close> \<open>xxh\<close> is the hash of the crate \<^verbatim>\<open>xxhash-rust\<close>; \<open>ord\<close> the iteration order of a \<^verbatim>\<open>HashMap\<close> (any
  permutation, \<open>iter_order\<close>); \<open>new_salt\<close> the salt \<^verbatim>\<open>generate_salt\<close> takes from the clock; \<open>alnum\<close> is
  \<^verbatim>\<open>char::is_alphanumeric\<close>. Crash theorems assume of the hash what a checksum is for: \<open>torn_detected\<close> and
  \<open>commit_detected\<close> say that the particular torn bytes at hand do not pass for valid frames; and \<open>settled_at\<close>
  excludes a log that a failed truncation left as a valid proper prefix of itself (see the findings).

  \<^bold>\<open>Bounds.\<close> No fuel is used: loops are structural or have a measure (the chain reader of the dictionary apart). Loops the code bounds with a constant keep
  that constant (\<open>MAX_DEPTH\<close> of the tree). Lengths are natural numbers where the code has \<^verbatim>\<open>usize\<close>; page
  numbers, counters and stored lengths are words of their width, and theorems state the bounds they need
  (\<open>commit_fits\<close>: counters and log length do not wrap).

  \<^bold>\<open>Not modelled.\<close> \<^verbatim>\<open>RealVfs\<close> (forwards to \<^verbatim>\<open>std::fs\<close>); the segments and the BM25 scoring of the full-text index
  (floating point); HNSW construction and search, except the page formats (floating-point distances and random
  levels); the embedder (\<^verbatim>\<open>embed.rs\<close>, a third-party runtime); the parts of the API that orchestrate these
  (\<^verbatim>\<open>remember\<close>, \<^verbatim>\<open>recall\<close>, \<^verbatim>\<open>vacuum\<close>); the MCP server, the command line, the bindings, the benchmarks and the fuzz
  entry points.
\<close>

section \<open>The store across commits and crashes\<close>



text \<open>C2: A commit that returns moves the pager to the next store: its header carries the transaction's roots and
  page count and the next transaction number, and every page reads as the transaction saw it.\<close>

theorem commit_publishes_transaction:
  assumes "represents xxh V pg st" "txn_ok xxh pg tx" "commit_fits pg tx" "\<not> txn_noop pg tx" "iter_order ord"
    and "txn_commit xxh ord new_salt tx pg st = (Inr txn_id, pg', st')"
  shows "txn_id = txn_counter (pg_header pg) + 1 \<and> pg_header pg' = txn_header pg tx \<and>
    represents xxh (next_store xxh (txn_header pg tx) (tx_dirty tx) V) pg' st' \<and>
    (\<forall>p. p \<noteq> 0 \<longrightarrow> pager_read_page xxh pg' p st' = txn_read_page xxh pg p tx st)"
proof -
  have k: "txn_id = txn_counter (txn_header pg tx)" "pg_header pg' = txn_header pg tx"
    "represents xxh (next_store xxh (txn_header pg tx) (tx_dirty tx) V) pg' st'"
    using txn_commit_effect [OF assms] by auto
  have "page_count (pg_header pg') = tx_page_count tx" by (simp add: k(2) txn_header_def)
  then have "pager_read_page xxh pg' p st' = txn_read_page xxh pg p tx st" if "p \<noteq> 0" for p
    unfolding read_page_represents [OF k(3)] txn_read_page_view [OF assms(1,2)]
    using that by (simp add: next_store_def txn_view_def cong: option.case_cong)
  then show ?thesis using k by (simp add: txn_header_def)
qed

theorem commit_publishes_transaction_witness:
  "\<exists>pg' st'. txn_commit demo_hash id 5 demo_tx demo_pg demo_st = (Inr 1, pg', st') \<and>
     pager_read_page demo_hash pg' 1 st' = txn_read_page demo_hash demo_pg 1 demo_tx demo_st"
proof -
  obtain r pg' st' where o: "txn_commit demo_hash id 5 demo_tx demo_pg demo_st = (r, pg', st')" by (metis prod_cases3)
  have "alive st'" using alive_commit [OF demo_alive] o unfolding txn_commit_def by (metis snd_conv)
  then obtain txn_id where r: "r = Inr txn_id"
    using txn_commit_effect [OF demo_created(5) demo_tx_facts(1) demo_tx_commit demo_order o] by (auto simp: alive_def)
  from commit_publishes_transaction [OF demo_created(5) demo_tx_facts(1) demo_tx_commit demo_order o [unfolded r]]
  show ?thesis using o r by (simp add: demo_header)
qed







text \<open>C6: Without a crash a commit always succeeds, and a checkpoint after it succeeds too, keeps the store and
  empties the log.\<close>

theorem commit_and_checkpoint_succeed:
  assumes "represents xxh V pg st" "alive st" "iter_order ord"
    and "txn_ok xxh pg tx" "commit_fits pg tx" "\<not> txn_noop pg tx"
  shows "\<exists>pg1 st1 pg2 st2. txn_commit xxh ord new_salt tx pg st = (Inr (txn_counter (pg_header pg) + 1), pg1, st1) \<and>
    represents xxh (next_store xxh (txn_header pg tx) (tx_dirty tx) V) pg1 st1 \<and>
    pager_checkpoint ord pg1 st1 = (Inr (), pg2, st2) \<and>
    represents xxh (next_store xxh (txn_header pg tx) (tx_dirty tx) V) pg2 st2 \<and>
    w_len (pg_wal pg2) = 0 \<and> pg_wal_index pg2 = []"
proof -
  let ?V = "next_store xxh (txn_header pg tx) (tx_dirty tx) V"
  obtain r pg1 st1 where c: "txn_commit xxh ord new_salt tx pg st = (r, pg1, st1)" by (metis prod_cases3)
  have al: "alive st1" using alive_commit [OF assms(2)] c unfolding txn_commit_def by (metis snd_conv)
  then have k: "r = Inr (txn_counter (pg_header pg) + 1)" "represents xxh ?V pg1 st1"
    using txn_commit_effect [OF assms(1,4-6,3) c] by (auto simp: alive_def txn_header_def)
  obtain r2 pg2 st2 where c2: "pager_checkpoint ord pg1 st1 = (r2, pg2, st2)" by (metis prod_cases3)
  have "alive st2" using alive_checkpoint [OF al, of ord pg1] c2 by simp
  then show ?thesis using checkpoint_effect [OF k(2) assms(3) c2] c c2 k by (auto simp: alive_def)
qed

theorem commit_and_checkpoint_succeed_witness:
  "\<exists>pg1 st1 pg2 st2. txn_commit demo_hash id 5 demo_tx demo_pg demo_st = (Inr 1, pg1, st1) \<and>
     pager_checkpoint id pg1 st1 = (Inr (), pg2, st2) \<and> represents demo_hash demo_store2 pg2 st2"
  using commit_and_checkpoint_succeed [OF demo_created(5) demo_alive demo_order demo_tx_facts(1) demo_tx_commit, of 5]
  by (simp add: demo_header(4)) blast

text \<open>C7: Closing a store and opening it again gives the same store; the log file is gone in between.\<close>

theorem close_then_open:
  assumes "represents xxh V pg st" "iter_order ord" "alive st"
    and "sf_path (pg_main pg) = path" "pg_wal_path pg = wal_path_for path"
  shows "\<exists>st1 pg' st'. pager_close ord pg st = (Inr (), st1) \<and> files st1 (wal_path_for path) = None \<and>
    pager_open xxh path opts st1 = (Inr pg', st') \<and> represents xxh V pg' st' \<and> pg_header pg' = pg_header pg"
proof -
  obtain M st1 where M: "pager_close ord pg st = (Inr (), st1)" "disk_state path st1 M []"
      "files st1 (wal_path_for path) = None" "disk_ok xxh (pg_header pg) V Map.empty M" "alive st1" "\<not> lying_sync st1"
    using pager_close_effect [OF assms(1-5)] by blast
  have "image_ok xxh (pg_header pg) V M []"
    using M(4) recovers_Nil [of xxh "page_size (pg_header pg)"] by (auto simp: image_ok_def)
  from open_after_image [OF M(2) this _ M(6), of opts] M(1,3,5) show ?thesis by (auto simp: alive_def)
qed

theorem close_then_open_witness:
  "\<exists>st1 pg' st'. pager_close id demo_pg demo_st = (Inr (), st1) \<and>
     pager_open demo_hash demo_path demo_opts st1 = (Inr pg', st') \<and> represents demo_hash demo_store pg' st'"
  using close_then_open [OF demo_created(5) demo_order demo_alive demo_created(3,4)] by blast

text \<open>C8: While a pager has a store open, a second open of the same file fails with \<open>WriteLocked\<close> and changes no file.\<close>

theorem second_writer_is_locked_out:
  assumes "represents xxh V pg st" "next_handle_id st \<noteq> sf_handle_id (pg_main pg)"
  shows "fst (pager_open xxh (sf_path (pg_main pg)) opts st) = Inl WriteLocked \<and>
    files (snd (pager_open xxh (sf_path (pg_main pg)) opts st)) = files st"
  using open_locked [OF assms, of opts] by simp

theorem second_writer_is_locked_out_witness:
  "fst (pager_open demo_hash demo_path demo_opts demo_st) = Inl WriteLocked"
  using second_writer_is_locked_out [OF demo_created(5), of demo_opts] demo_created(3,8,9) by simp



section \<open>The log\<close>

text \<open>C10: A log whose last transaction was torn by a crash (its bytes past the last synced length are arbitrary) is
  recovered as the log without that transaction or with all of it, never with a part.\<close>

theorem torn_transaction_is_all_or_nothing:
  assumes "page_size_is_valid ps" "\<forall>t \<in> set txns. txn_wf (unat ps) t" "txn_wf (unat ps) t"
    and "bs = log_bytes xxh ps salt txns @ tail" "length tail \<le> length (txn_bytes xxh salt t)" "length bs < 2 ^ 64"
    and "torn_detected xxh salt (unat ps) bs (length (log_bytes xxh ps salt txns)) (txn_frames xxh salt (fst t) (snd t))"
    and "files st (sf_path f) = Some d" "current d = bs" "\<not> crashed st"
  shows "\<exists>idx. scan xxh f st = Inr (Some \<lparr>rw_page_size = ps, rw_committed = idx\<rparr>) \<and>
    index_images (unat ps) bs idx \<in> {log_images txns, log_images (txns @ [t])}"
  using recover_torn [OF assms(1-7)] scan_scan_bytes [OF assms(10,8), of xxh] assms(9) by simp

theorem torn_transaction_is_all_or_nothing_witness:
  "\<exists>idx. scan demo_hash \<lparr>sf_path = ''w'', sf_handle_id = 0\<rparr> (sim_new\<lparr>files := [''w'' \<mapsto>
       \<lparr>synced = [], current = log_bytes demo_hash 512 5 [] @ [1, 2, 3], locked_by = None\<rparr>]\<rparr>) =
     Inr (Some \<lparr>rw_page_size = 512, rw_committed = idx\<rparr>) \<and>
     index_images 512 (log_bytes demo_hash 512 5 [] @ [1, 2, 3]) idx \<in>
       {log_images [], log_images [(1, [(0, replicate 512 0)])]}"
proof -
  have ps: "page_size_is_valid 512" by code_simp
  have t: "txn_wf (unat (512 :: u32)) (1, [(0, replicate 512 0)])" by (simp add: txn_wf_def)
  have l: "length (txn_bytes demo_hash 5 (1, [(0, replicate 512 0)])) = 544" using length_txn_bytes [OF t] by simp
  have lb: "length (log_bytes demo_hash 512 5 []) = 32" by (simp add: log_bytes_def)
  show ?thesis
    using torn_transaction_is_all_or_nothing [OF ps _ t refl, where txns = "[]" and xxh = demo_hash and salt = 5 and tail = "[1, 2, 3]"
        and st = "sim_new\<lparr>files := [''w'' \<mapsto> \<lparr>synced = [], current = log_bytes demo_hash 512 5 [] @ [1, 2, 3], locked_by = None\<rparr>]\<rparr>"
        and f = "\<lparr>sf_path = ''w'', sf_handle_id = 0\<rparr>"] l lb
    by (simp add: sim_new_def)
qed

text \<open>C11: On arbitrary bytes the log scan ends, reports no error, and every image it offers to recovery lies within
  the file.\<close>

theorem log_scan_is_total:
  assumes "files st (sf_path f) = Some d" "\<not> crashed st" "length (current d) < 2 ^ 64"
  shows "scan xxh f st = Inr None \<or> (\<exists>rw. scan xxh f st = Inr (Some rw) \<and> page_size_is_valid (rw_page_size rw) \<and>
    bmap_wf (rw_committed rw) \<and> (\<forall>(p, off) \<in> set (rw_committed rw). off + unat (rw_page_size rw) \<le> length (current d)))"
  using scan_bytes_total [OF assms(3), of xxh] scan_scan_bytes [OF assms(2,1), of xxh] by (auto simp: index_ok_def)

theorem log_scan_is_total_witness:
  "scan demo_hash \<lparr>sf_path = ''w'', sf_handle_id = 0\<rparr> (sim_new\<lparr>files := [''w'' \<mapsto>
     \<lparr>synced = [], current = [1, 2, 3], locked_by = None\<rparr>]\<rparr>) = Inr None"
  using log_scan_is_total [of "sim_new\<lparr>files := [''w'' \<mapsto> \<lparr>synced = [], current = [1, 2, 3], locked_by = None\<rparr>]\<rparr>"
      "\<lparr>sf_path = ''w'', sf_handle_id = 0\<rparr>" _ demo_hash]
  by (simp add: sim_new_def scan_def file_len_def)

text \<open>C12: What \<open>append_txn\<close> writes is what a scan recovers: after a successful append the committed images are those
  of the earlier transactions overridden by the new one.\<close>

theorem append_then_scan:
  assumes "wal_inv xxh txns w st" "txn_wf (unat (w_page_size w)) t" "\<not> crashed st" "\<not> lying_sync st"
    and "w_len w + 32 + length (snd t) * (32 + unat (w_page_size w)) < 2 ^ 64"
    and "append_txn xxh new_salt (fst t) (snd t) w st = (Inr offsets, w', st')"
  shows "\<exists>d idx. files st' (sf_path (w_file w')) = Some d \<and> synced d = current d \<and>
    scan xxh (w_file w') st' = Inr (Some \<lparr>rw_page_size = w_page_size w, rw_committed = idx\<rparr>) \<and>
    index_images (unat (w_page_size w)) (current d) idx = log_images txns ++ map_of (rev (snd t))"
proof -
  let ?ps = "w_page_size w"
  obtain salt where k: "\<not> crashed st'" "wal_inv xxh (txns @ [t]) w' st'" "w_salt w' = Some salt" "w_page_size w' = ?ps"
    using append_txn_effect [OF assms(1-5), of new_salt] assms(6) by (auto simp: append_outcome_def)
  then obtain d where d: "files st' (sf_path (w_file w')) = Some d" "synced d = current d"
      "current d = log_bytes xxh ?ps salt (txns @ [t])" "length (current d) < 2 ^ 64"
    and wf: "page_size_is_valid ?ps" "\<forall>x \<in> set (txns @ [t]). txn_wf (unat ?ps) x"
    by (auto simp: wal_inv_def)
  have "scan xxh (w_file w') st' = Inr (Some \<lparr>rw_page_size = ?ps, rw_committed = log_index (unat ?ps) 32 (txns @ [t]) []\<rparr>)"
    using scan_log [OF wf, of xxh salt] d(3,4) scan_scan_bytes [OF k(1) d(1), of xxh] by simp
  moreover have "index_images (unat ?ps) (current d) (log_index (unat ?ps) 32 (txns @ [t]) []) = log_images (txns @ [t])"
    using log_images_at [OF wf(2), of xxh salt "[]"] d(3) by simp
  ultimately show ?thesis using d(1,2) log_images_snoc by metis
qed

theorem append_then_scan_witness:
  "\<exists>w' st' d idx. append_txn demo_hash 5 1 [(1, replicate 512 0)] (pg_wal demo_pg) demo_st = (Inr [(1, 64)], w', st') \<and>
     files st' (sf_path (w_file w')) = Some d \<and>
     scan demo_hash (w_file w') st' = Inr (Some \<lparr>rw_page_size = 512, rw_committed = idx\<rparr>) \<and>
     index_images 512 (current d) idx 1 = Some (replicate 512 0)"
proof -
  let ?w = "pg_wal demo_pg" and ?t = "(1, [(1, replicate 512 0)]) :: log_txn"
  have rep: "represents demo_hash demo_store demo_pg demo_st" by (rule demo_created(5))
  obtain txns where "wal_inv demo_hash txns ?w demo_st" by (rule representsE [OF rep])
  then have inv: "wal_inv demo_hash [] ?w demo_st" using wal_inv_empty demo_created(6) by blast
  have ps: "w_page_size ?w = 512" using rep demo_header(1) by (simp add: represents_def)
  have t: "txn_wf (unat (w_page_size ?w)) ?t" by (simp add: txn_wf_def ps)
  have cr: "\<not> crashed demo_st" "\<not> lying_sync demo_st" using represents_store(3,4) [OF rep] by blast+
  have len: "w_len ?w + 32 + length (snd ?t) * (32 + unat (w_page_size ?w)) < 2 ^ 64" by (simp add: demo_created(6) ps)
  obtain r w' st' where a: "append_txn demo_hash 5 (fst ?t) (snd ?t) ?w demo_st = (r, w', st')" by (metis prod_cases3)
  have "\<not> crashed st'" using alive_append_txn [OF demo_alive] a by (metis alive_def snd_conv)
  then have r: "r = Inr [(1, 64)]"
    using append_txn_effect [OF inv t cr len, of 5] a by (auto simp: append_outcome_def log_bytes_def)
  obtain d idx where "files st' (sf_path (w_file w')) = Some d"
      "scan demo_hash (w_file w') st' = Inr (Some \<lparr>rw_page_size = w_page_size ?w, rw_committed = idx\<rparr>)"
      "index_images (unat (w_page_size ?w)) (current d) idx = log_images [] ++ map_of (rev (snd ?t))"
    using append_then_scan [OF inv t cr len a [unfolded r]] by blast
  then show ?thesis using a r ps by (intro exI [of _ w'] exI [of _ st'] exI [of _ d] exI [of _ idx]) simp
qed

section \<open>The simulated file system\<close>



section \<open>The record tree\<close>

text \<open>C14: Inserting a key into the record tree inside a transaction refines the insertion into the sorted list the tree
  stands for (a new key is added in order, an old one gets the new value), whatever splits and overflow chains it
  takes; the new tree uses old tree pages and fresh pages only, and every other page reads as before.\<close>

theorem btree_insert_refines_map:
  assumes "represents xxh V pg st" "txn_ok xxh pg tx"
    and "btree_at (txn_view V tx) (page_size (pg_header pg)) (txn_root_btree_page pg tx) m K"
    and "length k = 16" and "btree_insert xxh pg st k v tx = (Inr (), tx')"
  shows "txn_ok xxh pg tx' \<and>
    (\<exists>K'. btree_at (txn_view V tx') (page_size (pg_header pg)) (txn_root_btree_page pg tx') (bmap_insert k v m) K' \<and>
       K' \<subseteq> K \<union> - dom (txn_view V tx)) \<and>
    (\<forall>q \<in> dom (txn_view V tx) - K. txn_read_page xxh pg q tx' st = txn_read_page xxh pg q tx st)"
proof -
  have v: "length v \<le> MAX_RECORD_LEN"
    using assms(5) by (auto simp: btree_insert_def split: if_splits)
  have k: "txn_ok xxh pg tx'"
    "\<exists>K'. btree_at (txn_view V tx') (page_size (pg_header pg)) (txn_root_btree_page pg tx') (bmap_insert k v m) K' \<and>
       K' \<subseteq> K \<union> - dom (txn_view V tx)"
    "\<forall>q \<in> dom (txn_view V tx) - K. txn_view V tx' q = txn_view V tx q"
    using btree_insert_map [OF assms(1-4) v assms(5)] by simp_all
  have "txn_read_page xxh pg q tx' st = txn_read_page xxh pg q tx st" if "q \<in> dom (txn_view V tx) - K" for q
    unfolding txn_read_page_view [OF assms(1,2)] txn_read_page_view [OF assms(1) k(1)]
    using bspec [OF k(3) that] that by (auto simp: dom_def)
  then show ?thesis using k by blast
qed

theorem btree_insert_refines_map_witness:
  "\<exists>tx' K'. btree_insert demo_hash demo_pg demo_st demo_key [7] demo_begin = (Inr (), tx') \<and>
     btree_at (txn_view demo_store tx') 512 (txn_root_btree_page demo_pg tx') [(demo_key, [7])] K'"
proof -
  obtain tx' where i: "btree_insert demo_hash demo_pg demo_st demo_key [7] demo_begin = (Inr (), tx')"
    using demo_insert by blast
  have "length demo_key = 16" by (simp add: demo_key_def)
  from btree_insert_refines_map [OF demo_created(5) demo_begin_ok(2) demo_tree this i] i show ?thesis
    by (auto simp: demo_header)
qed

text \<open>C15: An insertion into a well-formed tree fails only when the value is over the record limit (then nothing has
  changed) or when the file has no page numbers left: no split, no node and no chain ever fails to fit.\<close>

theorem btree_insert_errors:
  assumes "represents xxh V pg st" "txn_ok xxh pg tx"
    and "btree_at (txn_view V tx) (page_size (pg_header pg)) (txn_root_btree_page pg tx) m K"
    and "length k = 16" and "btree_insert xxh pg st k v tx = (Inl e, tx')"
  shows "e = InvalidArgument ''value exceeds MAX_RECORD_LEN'' \<and> MAX_RECORD_LEN < length v \<and> tx' = tx \<or>
    e = InvalidArgument ''page count overflow'' \<and> length v \<le> MAX_RECORD_LEN"
proof (cases "length v \<le> MAX_RECORD_LEN")
  case True
  from btree_insert_map [OF assms(1-4) this assms(5)] True show ?thesis by simp
next
  case False
  then show ?thesis using assms(5) by (simp add: btree_insert_def)
qed

theorem btree_insert_errors_witness:
  "btree_insert demo_hash demo_pg demo_st demo_key (replicate (MAX_RECORD_LEN + 1) 0) demo_begin =
     (Inl (InvalidArgument ''value exceeds MAX_RECORD_LEN''), demo_begin)"
proof -
  let ?v = "replicate (MAX_RECORD_LEN + 1) (0 :: byte)"
  have "length demo_key = 16" by (simp add: demo_key_def)
  note e = btree_insert_errors [OF demo_created(5) demo_begin_ok(2) demo_tree this, of ?v]
  obtain r tx' where o: "btree_insert demo_hash demo_pg demo_st demo_key ?v demo_begin = (r, tx')" by fastforce
  have "\<exists>e. r = Inl e" using o by (auto simp: btree_insert_def simp del: replicate.simps)
  then show ?thesis using e o by (auto simp del: replicate.simps)
qed

text \<open>C16: A lookup returns the value the tree's list has for the key, through any page source that serves the pages.\<close>

theorem btree_get_returns_entry:
  assumes "represents xxh V pg st" "btree_at V (page_size (pg_header pg)) root_no m K"
  shows "btree_get (pager_source xxh pg st) root_no k = Inr (map_of m k)"
proof -
  have "page_size_is_valid (page_size (pg_header pg))"
    using represents_store(1) [OF assms(1)] by (simp add: store_ok_def header_wf_def)
  then show ?thesis
    using btree_get_map [OF pager_serves [OF assms(1)]] assms(2) by (auto simp: btree_map_def)
qed

text \<open>C17: The iterator yields the entries of the tree in key order, each once, and nothing else; it never reports an
  error and it ends.\<close>

theorem btree_scan_yields_entries:
  assumes "represents xxh V pg st" "btree_at V (page_size (pg_header pg)) root_no m K"
  shows "scan_take (pager_source xxh pg st) n (btree_scan root_no) = take n (map Inr m) \<and> sorted_wrt (<) (map fst m)"
proof -
  have "page_size_is_valid (page_size (pg_header pg))"
    using represents_store(1) [OF assms(1)] by (simp add: store_ok_def header_wf_def)
  moreover have "btree_map V (page_size (pg_header pg)) root_no m" using assms(2) by (auto simp: btree_map_def)
  ultimately show ?thesis
    using btree_scan_map [OF pager_serves [OF assms(1)]] btree_map_wf by (simp add: bmap_wf_def)
qed

text \<open>C18: The whole path: insert in a transaction, commit, and every later lookup in the committed store finds the
  new value under the key and the old values under all others; the scan lists them in order.\<close>

theorem insert_commit_get:
  assumes "represents xxh V pg st" "iter_order ord" "pager_begin pg = Inr tx"
    and "btree_at V (page_size (pg_header pg)) (root_btree_page (pg_header pg)) m K" "length k = 16"
    and "btree_insert xxh pg st k v tx = (Inr (), tx')" "commit_fits pg tx'" "\<not> txn_noop pg tx'"
    and "txn_commit xxh ord new_salt tx' pg st = (Inr txn_id, pg', st')"
  shows "btree_get (pager_source xxh pg' st') (root_btree_page (pg_header pg')) k' = Inr (((map_of m)(k \<mapsto> v)) k') \<and>
    scan_take (pager_source xxh pg' st') n (btree_scan (root_btree_page (pg_header pg'))) = take n (map Inr (bmap_insert k v m))"
proof -
  have tx: "txn_ok xxh pg tx" "txn_view V tx = V" "txn_root_btree_page pg tx = root_btree_page (pg_header pg)"
    using pager_begin_ok [OF assms(3)] assms(3)
    by (auto simp: pager_begin_def bind_result_Inr_iff txn_view_def txn_root_btree_page_def pending_default_def)
  have v: "length v \<le> MAX_RECORD_LEN" using assms(6) by (auto simp: btree_insert_def split: if_splits)
  have t0: "btree_at (txn_view V tx) (page_size (pg_header pg)) (txn_root_btree_page pg tx) m K"
    using assms(4) tx(2,3) by simp
  obtain K' where tx': "txn_ok xxh pg tx'"
      "btree_at (txn_view V tx') (page_size (pg_header pg)) (txn_root_btree_page pg tx') (bmap_insert k v m) K'"
    using btree_insert_map [OF assms(1) tx(1) t0 assms(5) v assms(6)] by blast
  let ?V = "next_store xxh (txn_header pg tx') (tx_dirty tx') V"
  have c: "pg_header pg' = txn_header pg tx'" "represents xxh ?V pg' st'"
    using txn_commit_effect [OF assms(1) tx'(1) assms(7,8,2,9)] by auto
  have "btree_at ?V (page_size (pg_header pg)) (root_btree_page (pg_header pg')) (bmap_insert k v m) K'"
    using btree_commit [OF tx'(2), of xxh] c(1) by (simp add: txn_header_def)
  then have t: "btree_map ?V (page_size (pg_header pg')) (root_btree_page (pg_header pg')) (bmap_insert k v m)"
    using c(1) by (auto simp: txn_header_def btree_map_def)
  have ps: "page_size_is_valid (page_size (pg_header pg'))"
    using represents_store(1) [OF c(2)] by (simp add: store_ok_def header_wf_def)
  show ?thesis
    using btree_get_map [OF pager_serves [OF c(2)] ps t] btree_scan_map [OF pager_serves [OF c(2)] ps t] by simp
qed

theorem insert_commit_get_witness:
  "\<exists>pg' st'. txn_commit demo_hash id 5 demo_tx3 demo_pg demo_st = (Inr 1, pg', st') \<and>
     btree_get (pager_source demo_hash pg' st') (root_btree_page (pg_header pg')) demo_key = Inr (Some [7])"
proof -
  have "btree_at demo_store (page_size (pg_header demo_pg)) (root_btree_page (pg_header demo_pg)) [] {}"
    by (simp add: demo_header)
  from insert_commit_get [OF demo_created(5) demo_order demo_begin_ok(1) this demo_key_length demo_insert(1) demo_insert(3,4) demo_commit3(1),
    of demo_key 1] show ?thesis using demo_commit3(1) by auto
qed

theorem btree_get_returns_entry_witness:
  "btree_get (pager_source demo_hash demo_pg3 demo_st3) (root_btree_page (pg_header demo_pg3)) demo_key = Inr (Some [7])"
proof -
  obtain K where "btree_at demo_store3 (page_size (pg_header demo_pg3)) (root_btree_page (pg_header demo_pg3)) [(demo_key, [7])] K"
    by (rule demo_tree3)
  from btree_get_returns_entry [OF demo_commit3(2) this, of demo_key] show ?thesis by simp
qed

theorem btree_scan_yields_entries_witness:
  "scan_take (pager_source demo_hash demo_pg3 demo_st3) 5 (btree_scan (root_btree_page (pg_header demo_pg3))) =
     [Inr (demo_key, [7])]"
proof -
  obtain K where "btree_at demo_store3 (page_size (pg_header demo_pg3)) (root_btree_page (pg_header demo_pg3)) [(demo_key, [7])] K"
    by (rule demo_tree3)
  from btree_scan_yields_entries [OF demo_commit3(2) this, of 5] show ?thesis by simp
qed

end
